(* ===== verification/Prelude.thy ===== *)
theory Prelude
  imports Main "HOL-Library.Sublist" "HOL-Library.Code_Target_Nat"
begin

text \<open>
  Shared vocabulary of the development: Python's string operations on \<open>string\<close> (a list of
  characters, that is of code points up to U+00FF), JSON values, and the collections of
  rewrite rules the component theories fill.

  Conventions: \<open>s[i]\<close> guarded by a length test is \<open>char_at\<close>; \<open>s[i:j]\<close> is \<open>substr\<close>;
  \<open>s.startswith(p)\<close> and \<open>s.endswith(p)\<close> are \<open>prefix p s\<close> and \<open>suffix p s\<close> of
  HOL-Library.Sublist; \<open>s.find(c, j)\<close> is \<open>find_char\<close> with \<open>None\<close> for -1.
\<close>

section \<open>Collections\<close>

named_theorems py_defs "definitions of the Python string operations"
named_theorems advance "facts that a scanner moves forward"
named_theorems result_iff "when a computation that can fail returns a value"

section \<open>Characters that have no readable literal\<close>

abbreviation BSL :: char where "BSL \<equiv> CHR 0x5C"
abbreviation SQ :: char where "SQ \<equiv> CHR 0x27"
abbreviation DQ :: char where "DQ \<equiv> CHR 0x22"
abbreviation BTK :: char where "BTK \<equiv> CHR 0x60"
abbreviation NL :: char where "NL \<equiv> CHR 0x0A"
abbreviation TAB :: char where "TAB \<equiv> CHR 0x09"
abbreviation SPC :: char where "SPC \<equiv> CHR '' ''"
abbreviation NUL :: char where "NUL \<equiv> CHR 0x00"

section \<open>Indexing and slices\<close>

definition char_at :: "string \<Rightarrow> nat \<Rightarrow> char option" where
  "char_at s i = (if i < length s then Some (s ! i) else None)"

definition substr :: "string \<Rightarrow> nat \<Rightarrow> nat \<Rightarrow> string" where
  "substr s i j = take (j - i) (drop i s)"

definition find_char :: "char \<Rightarrow> string \<Rightarrow> nat \<Rightarrow> nat option" where
  "find_char c s j =
     (let k = j + length (takeWhile (\<lambda>x. x \<noteq> c) (drop j s))
      in if k < length s then Some k else None)"

lemma char_at_Some: "char_at s i = Some c \<longleftrightarrow> i < length s \<and> s ! i = c"
  by (auto simp: char_at_def)

lemma char_at_None: "char_at s i = None \<longleftrightarrow> length s \<le> i"
  by (auto simp: char_at_def)

lemma char_at_drop: "drop i s = c # cs \<Longrightarrow> char_at s i = Some c"
  by (metis char_at_Some drop_all list.distinct(1) not_le nth_via_drop)

lemma drop_Suc_eq: "drop i s = c # cs \<Longrightarrow> drop (Suc i) s = cs"
  by (metis drop_Suc list.sel(3) tl_drop)

lemma drop_plus_eq: "drop i s = ws @ cs \<Longrightarrow> drop (i + length ws) s = cs"
  by (metis add.commute append_eq_conv_conj drop_drop)

lemma drop_nonempty_less: "drop i s = c # cs \<Longrightarrow> i < length s"
  by (metis drop_all list.distinct(1) not_le)

lemma find_char_bounds [advance]: "find_char c s j = Some k \<Longrightarrow> j \<le> k \<and> k < length s"
  by (auto simp: find_char_def Let_def split: if_splits)

lemma find_char_hit: "find_char c s j = Some k \<Longrightarrow> s ! k = c"
proof -
  assume a: "find_char c s j = Some k"
  let ?p = "takeWhile (\<lambda>x. x \<noteq> c) (drop j s)"
  from a have k: "k = j + length ?p" "k < length s"
    by (auto simp: find_char_def Let_def split: if_splits)
  then have "length ?p < length (drop j s)" by simp
  then have "drop j s ! length ?p = c"
    using nth_length_takeWhile [of "\<lambda>x. x \<noteq> c" "drop j s"] by blast
  with k show ?thesis by simp
qed

lemma find_char_drop:
  assumes "drop j s = w @ c # rest" and "c \<notin> set w"
  shows "find_char c s j = Some (j + length w)"
proof -
  have "takeWhile (\<lambda>x. x \<noteq> c) (drop j s) = w"
    using assms by (simp add: takeWhile_append takeWhile_eq_all_conv)
  moreover have "length (drop j s) = length w + Suc (length rest)"
    by (simp add: assms(1))
  then have "j + length w < length s" by simp
  ultimately show ?thesis by (simp add: find_char_def)
qed

section \<open>Splitting and joining\<close>

fun split_on :: "char \<Rightarrow> string \<Rightarrow> string list" where
  "split_on c [] = [[]]"
| "split_on c (x # xs) =
     (if x = c then [] # split_on c xs
      else (case split_on c xs of [] \<Rightarrow> [[x]] | w # ws \<Rightarrow> (x # w) # ws))"

fun join :: "string \<Rightarrow> string list \<Rightarrow> string" where
  "join sep [] = []"
| "join sep [w] = w"
| "join sep (w # v # ws) = w @ sep @ join sep (v # ws)"

text \<open>\<open>s.rsplit("/", 1)[-1]\<close> and \<open>posixpath.basename(s)\<close>: what follows the last slash.\<close>

definition basename :: "string \<Rightarrow> string" where
  "basename s = last (split_on (CHR ''/'') s)"

text \<open>\<open>s.split("=", 1)[0]\<close> and \<open>[1]\<close> (the latter where the separator occurs).\<close>

definition before_first :: "char \<Rightarrow> string \<Rightarrow> string" where
  "before_first c s = takeWhile (\<lambda>x. x \<noteq> c) s"

definition after_first :: "char \<Rightarrow> string \<Rightarrow> string" where
  "after_first c s = tl (dropWhile (\<lambda>x. x \<noteq> c) s)"

lemma split_on_nonempty [simp]: "split_on c s \<noteq> []"
  by (induction s) (auto split: list.splits)

lemma split_on_no_sep: "c \<notin> set s \<Longrightarrow> split_on c s = [s]"
  by (induction s) auto

lemma split_on_append_sep:
  "c \<notin> set w \<Longrightarrow> split_on c (w @ c # s) = w # split_on c s"
  by (induction w) auto

lemma split_on_parts_no_sep: "w \<in> set (split_on c s) \<Longrightarrow> c \<notin> set w"
proof (induction s arbitrary: w)
  case Nil
  then show ?case by simp
next
  case (Cons x xs)
  obtain v vs where "split_on c xs = v # vs"
    by (metis list.exhaust split_on_nonempty)
  with Cons show ?case by (auto split: if_splits)
qed

lemma join_split: "join [c] (split_on c s) = s"
proof (induction s)
  case Nil
  then show ?case by simp
next
  case (Cons x xs)
  obtain v vs where v: "split_on c xs = v # vs"
    by (metis list.exhaust split_on_nonempty)
  with Cons show ?case by (cases vs) auto
qed

lemma split_join:
  assumes "ws \<noteq> []" and "\<forall>w \<in> set ws. c \<notin> set w"
  shows "split_on c (join [c] ws) = ws"
  using assms
proof (induction ws rule: induct_list012)
  case (3 w v ws)
  then show ?case by (simp add: split_on_append_sep)
qed (auto simp: split_on_no_sep)

lemma join_snoc: "ws \<noteq> [] \<Longrightarrow> join sep (ws @ [w]) = join sep ws @ sep @ w"
  by (induction ws rule: induct_list012) auto

lemma basename_no_slash: "CHR ''/'' \<notin> set s \<Longrightarrow> basename s = s"
  by (simp add: basename_def split_on_no_sep)

lemma before_after: "c \<in> set s \<Longrightarrow> before_first c s @ c # after_first c s = s"
  by (induction s) (auto simp: before_first_def after_first_def)

section \<open>Other string operations of Python\<close>

text \<open>\<open>tuple(dict.fromkeys(xs))\<close>: the first occurrence of each element, in order.\<close>

definition dedup :: "'a list \<Rightarrow> 'a list" where
  "dedup xs = rev (remdups (rev xs))"

lemma set_dedup [simp]: "set (dedup xs) = set xs"
  by (simp add: dedup_def)

lemma dedup_Nil_iff [simp]: "dedup xs = [] \<longleftrightarrow> xs = []"
  by (simp add: dedup_def)

lemma distinct_dedup [simp]: "distinct (dedup xs)"
  by (simp add: dedup_def)

definition ascii_digit :: "char \<Rightarrow> bool" where
  "ascii_digit c \<longleftrightarrow> 48 \<le> (of_char c :: nat) \<and> (of_char c :: nat) \<le> 57"

definition ascii_lower :: "char \<Rightarrow> bool" where
  "ascii_lower c \<longleftrightarrow> 97 \<le> (of_char c :: nat) \<and> (of_char c :: nat) \<le> 122"

definition ascii_upper :: "char \<Rightarrow> bool" where
  "ascii_upper c \<longleftrightarrow> 65 \<le> (of_char c :: nat) \<and> (of_char c :: nat) \<le> 90"

text \<open>\<open>w.isalpha() and w.isascii()\<close>, character by character.\<close>

definition ascii_alpha :: "char \<Rightarrow> bool" where
  "ascii_alpha c \<longleftrightarrow> ascii_lower c \<or> ascii_upper c"

text \<open>\<open>str.isdigit\<close> on one character: the digits and the three Latin-1 superscripts.\<close>

definition py_isdigit :: "char \<Rightarrow> bool" where
  "py_isdigit c \<longleftrightarrow> ascii_digit c \<or> (of_char c :: nat) \<in> {178, 179, 185}"

text \<open>\<open>ord(c) < 32 or ord(c) == 127\<close>.\<close>

definition is_control :: "char \<Rightarrow> bool" where
  "is_control c \<longleftrightarrow> (of_char c :: nat) < 32 \<or> (of_char c :: nat) = 127"

text \<open>\<open>str.isspace\<close> on one character, the class \<open>str.strip()\<close> removes.\<close>

definition py_space :: "char \<Rightarrow> bool" where
  "py_space c \<longleftrightarrow> (let n = (of_char c :: nat) in
     (9 \<le> n \<and> n \<le> 13) \<or> (28 \<le> n \<and> n \<le> 32) \<or> n = 133 \<or> n = 160)"

definition strip :: "string \<Rightarrow> string" where
  "strip s = rev (dropWhile py_space (rev (dropWhile py_space s)))"

text \<open>\<open>s.lstrip(c)\<close> and \<open>s.rstrip(c)\<close> for a single character.\<close>

definition lstrip_char :: "char \<Rightarrow> string \<Rightarrow> string" where
  "lstrip_char c s = dropWhile (\<lambda>x. x = c) s"

definition rstrip_char :: "char \<Rightarrow> string \<Rightarrow> string" where
  "rstrip_char c s = rev (dropWhile (\<lambda>x. x = c) (rev s))"

text \<open>
  \<open>str.casefold\<close> for code points up to U+00FF. The micro sign folds to a Greek letter
  beyond this range; it is kept as it is, which no comparison with an ASCII name can tell
  apart.
\<close>

definition casefold_char :: "char \<Rightarrow> string" where
  "casefold_char c = (let n = (of_char c :: nat) in
     if 65 \<le> n \<and> n \<le> 90 then [char_of (n + 32)]
     else if 192 \<le> n \<and> n \<le> 222 \<and> n \<noteq> 215 then [char_of (n + 32)]
     else if n = 223 then ''ss''
     else [c])"

definition casefold :: "string \<Rightarrow> string" where
  "casefold s = concat (map casefold_char s)"

text \<open>\<open>needle in haystack\<close> on strings.\<close>

fun contains :: "string \<Rightarrow> string \<Rightarrow> bool" where
  "contains needle [] = (needle = [])"
| "contains needle (x # xs) = (prefix needle (x # xs) \<or> contains needle xs)"

lemma contains_iff: "contains p s \<longleftrightarrow> (\<exists>u v. s = u @ p @ v)"
proof (induction s)
  case Nil
  then show ?case by auto
next
  case (Cons x xs)
  have "(\<exists>u v. x # xs = u @ p @ v) \<longleftrightarrow> prefix p (x # xs) \<or> (\<exists>u v. xs = u @ p @ v)"
    by (auto simp: prefix_def Cons_eq_append_conv)
  with Cons show ?case by simp
qed

text \<open>\<open>str(n)\<close> of a natural number.\<close>

fun digits_of :: "nat \<Rightarrow> string" where
  "digits_of n = (if n < 10 then [char_of (48 + n)] else digits_of (n div 10) @ [char_of (48 + n mod 10)])"

declare digits_of.simps [simp del]

section \<open>Errors as values\<close>

text \<open>\<open>Inl\<close> is a raised exception, \<open>Inr\<close> a returned value; \<open>bindE\<close> runs one call after another.\<close>

definition bindE :: "('e + 'a) \<Rightarrow> ('a \<Rightarrow> 'e + 'b) \<Rightarrow> 'e + 'b" where
  "bindE m f = (case m of Inl e \<Rightarrow> Inl e | Inr x \<Rightarrow> f x)"

lemma bindE_simps [simp]: "bindE (Inl e) f = Inl e" "bindE (Inr x) f = f x"
  by (simp_all add: bindE_def)

lemma bindE_return [result_iff]: "bindE m f = Inr y \<longleftrightarrow> (\<exists>x. m = Inr x \<and> f x = Inr y)"
  by (cases m) auto

text \<open>A list comprehension whose body can raise.\<close>

fun mapE :: "('a \<Rightarrow> 'e + 'b) \<Rightarrow> 'a list \<Rightarrow> 'e + 'b list" where
  "mapE f [] = Inr []"
| "mapE f (x # xs) = bindE (f x) (\<lambda>y. bindE (mapE f xs) (\<lambda>ys. Inr (y # ys)))"

lemma mapE_return [result_iff]: "mapE f xs = Inr ys \<longleftrightarrow> list_all2 (\<lambda>x y. f x = Inr y) xs ys"
  by (induction xs arbitrary: ys) (auto simp: result_iff list_all2_Cons1)

definition rstrip :: "string \<Rightarrow> string" where
  "rstrip s = rev (dropWhile py_space (rev s))"

definition lstrip :: "string \<Rightarrow> string" where
  "lstrip s = dropWhile py_space s"

section \<open>JSON values\<close>

text \<open>
  The values a tool call carries. A floating-point number is kept as its text: the code
  only asks whether a value is one.
\<close>

datatype json =
    JNull
  | JBool bool
  | JInt int
  | JFloat string
  | JStr string
  | JList "json list"
  | JObj "(string \<times> json) list"

end
