(* ===== verification/Modes.thy ===== *)
theory Modes
  imports Prelude
begin

text \<open>
  \<open>m2c/src/m2c/policy/modes.py\<close>: permission modes, the tool catalog, risk levels, and the
  default decision per mode, tool class and risk. Modes, tool classes and risks stay the
  strings of the source, because the functions are total on every string and answer the
  unknown ones.
\<close>

section \<open>Actions and the catalog\<close>

datatype action = Allow | Ask | Deny

definition MODES :: "string list" where
  "MODES = [''plan'', ''ask'', ''accept-edits'']"

definition RISKS :: "string list" where
  "RISKS = [''R0'', ''R1'', ''R2'', ''R3'', ''R4'']"

abbreviation READ :: string where "READ \<equiv> ''read''"
abbreviation EDIT :: string where "EDIT \<equiv> ''edit''"
abbreviation DELETE :: string where "DELETE \<equiv> ''delete''"
abbreviation SHELL :: string where "SHELL \<equiv> ''shell''"
abbreviation PLAN_EXIT :: string where "PLAN_EXIT \<equiv> ''plan_exit''"

text \<open>The JSON type an argument must have (Python's \<open>str\<close>, \<open>int\<close>, \<open>bool\<close>).\<close>

datatype arg_type = TStr | TInt | TBool

record tool_spec =
  ts_name :: string
  ts_class :: string
  ts_risk :: string
  ts_risk_max :: "string option"
  ts_required :: "string list"
  ts_optional :: "(string \<times> arg_type) list"
  ts_types :: "(string \<times> arg_type) list"

definition mk_spec ::
    "string \<Rightarrow> string \<Rightarrow> string \<Rightarrow> string list \<Rightarrow> (string \<times> arg_type) list \<Rightarrow> string option \<Rightarrow> tool_spec"
  where
  "mk_spec name cls risk required types risk_max =
     \<lparr>ts_name = name, ts_class = cls, ts_risk = risk, ts_risk_max = risk_max,
      ts_required = required,
      ts_optional = filter (\<lambda>(k, v). k \<notin> set required) types,
      ts_types = types\<rparr>"

definition ceiling :: "tool_spec \<Rightarrow> string" where
  "ceiling spec = (case ts_risk_max spec of
     Some r \<Rightarrow> (if r = '''' then ts_risk spec else r) | None \<Rightarrow> ts_risk spec)"

definition TOOL_SPECS :: "tool_spec list" where
  "TOOL_SPECS =
    [mk_spec ''read_file'' READ ''R0'' [''path'']
       [(''path'', TStr), (''start_line'', TInt), (''end_line'', TInt)] None,
     mk_spec ''list_dir'' READ ''R0'' [''path''] [(''path'', TStr), (''max_depth'', TInt)] None,
     mk_spec ''glob'' READ ''R0'' [''pattern'']
       [(''pattern'', TStr), (''path'', TStr), (''max_results'', TInt)] None,
     mk_spec ''grep'' READ ''R0'' [''pattern'']
       [(''pattern'', TStr), (''path'', TStr), (''glob'', TStr), (''context_lines'', TInt),
        (''case_insensitive'', TBool), (''max_matches'', TInt)] None,
     mk_spec ''edit_file'' EDIT ''R1'' [''path'', ''old_string'', ''new_string'']
       [(''path'', TStr), (''old_string'', TStr), (''new_string'', TStr), (''replace_all'', TBool)] None,
     mk_spec ''write_file'' EDIT ''R1'' [''path'', ''content''] [(''path'', TStr), (''content'', TStr)] None,
     mk_spec ''delete_path'' DELETE ''R1'' [''path''] [(''path'', TStr)] (Some ''R4''),
     mk_spec ''bash'' SHELL ''R2'' [''command'']
       [(''command'', TStr), (''timeout_s'', TInt), (''reason'', TStr)] None,
     mk_spec ''plan_exit'' PLAN_EXIT ''R0'' [''plan''] [(''plan'', TStr)] None]"

definition TOOLS :: "string \<rightharpoonup> tool_spec" where
  "TOOLS = map_of (map (\<lambda>s. (ts_name s, s)) TOOL_SPECS)"

section \<open>Risk levels\<close>

text \<open>\<open>risk_rank\<close> raises \<open>ValueError\<close> outside R0..R4: \<open>None\<close>.\<close>

fun index_of :: "string list \<Rightarrow> string \<Rightarrow> nat option" where
  "index_of [] x = None"
| "index_of (y # ys) x = (if x = y then Some 0 else map_option Suc (index_of ys x))"

definition risk_rank :: "string \<Rightarrow> nat option" where
  "risk_rank risk = index_of RISKS risk"

definition max_risk :: "string \<Rightarrow> string \<Rightarrow> string option" where
  "max_risk a b = (case (risk_rank a, risk_rank b) of
     (Some i, Some j) \<Rightarrow> Some (if i \<ge> j then a else b) | _ \<Rightarrow> None)"

definition effective_risk :: "string \<Rightarrow> string \<Rightarrow> string option" where
  "effective_risk server_risk client_risk = max_risk server_risk client_risk"

definition is_valid_mode :: "string \<Rightarrow> bool" where
  "is_valid_mode mode \<longleftrightarrow> mode \<in> set MODES"

section \<open>The default decision\<close>

record mode_def =
  md_action :: action
  md_reason :: string

definition class_ceiling :: "string \<Rightarrow> string option" where
  "class_ceiling tool_class =
     (if tool_class = READ then Some ''R0'' else if tool_class = EDIT then Some ''R1'' else None)"

definition risk_at_most :: "string \<Rightarrow> string \<Rightarrow> bool" where
  "risk_at_most a b = (case (risk_rank a, risk_rank b) of (Some i, Some j) \<Rightarrow> i \<le> j | _ \<Rightarrow> False)"

definition mode_default :: "string \<Rightarrow> string \<Rightarrow> string \<Rightarrow> bool \<Rightarrow> bool \<Rightarrow> mode_def" where
  "mode_default mode tool_class risk inside_project protected =
    (if \<not> is_valid_mode mode then \<lparr>md_action = Deny, md_reason = ''unknown permission mode''\<rparr>
     else if risk \<notin> set RISKS then \<lparr>md_action = Deny, md_reason = ''unknown risk level''\<rparr>
     else if tool_class = PLAN_EXIT then
       \<lparr>md_action = Ask, md_reason = ''leaving plan mode needs the user's approval''\<rparr>
     else if tool_class = READ then
       (if inside_project \<and> risk_at_most risk ''R0''
        then \<lparr>md_action = Allow, md_reason = mode @ '' mode: reading inside the project is allowed''\<rparr>
        else \<lparr>md_action = Ask, md_reason = ''read outside the project or above R0 needs approval''\<rparr>)
     else if tool_class \<in> {EDIT, DELETE, SHELL} then
       (if mode = ''plan'' then
          \<lparr>md_action = Deny, md_reason = ''plan mode does not allow changes or commands''\<rparr>
        else if protected then \<lparr>md_action = Deny, md_reason = ''protected path is read-only''\<rparr>
        else if tool_class = EDIT \<and> mode = ''accept-edits'' \<and> inside_project \<and> risk_at_most risk ''R1''
        then \<lparr>md_action = Allow, md_reason = ''accept-edits mode: edit inside the project is allowed''\<rparr>
        else \<lparr>md_action = Ask, md_reason = mode @ '' mode: this action needs approval''\<rparr>)
     else \<lparr>md_action = Deny, md_reason = ''unknown tool class''\<rparr>)"

section \<open>Properties of the risk order and of the table\<close>

lemma index_of_Some: "index_of xs x = Some i \<Longrightarrow> i < length xs \<and> xs ! i = x"
  by (induction xs arbitrary: i) (auto split: if_splits)

lemma index_of_None [simp]: "index_of xs x = None \<longleftrightarrow> x \<notin> set xs"
  by (induction xs) auto

lemma risk_rank_None [simp]: "risk_rank r = None \<longleftrightarrow> r \<notin> set RISKS"
  by (simp add: risk_rank_def)

lemma risk_rank_inj: "risk_rank a = Some i \<Longrightarrow> risk_rank b = Some i \<Longrightarrow> a = b"
  unfolding risk_rank_def by (metis index_of_Some)

lemma risk_rank_values:
  "risk_rank ''R0'' = Some 0" "risk_rank ''R1'' = Some 1" "risk_rank ''R2'' = Some 2"
  "risk_rank ''R3'' = Some 3" "risk_rank ''R4'' = Some 4"
  by (simp_all add: risk_rank_def RISKS_def)

lemma max_risk_closed:
  assumes "a \<in> set RISKS" and "b \<in> set RISKS"
  shows "\<exists>r. max_risk a b = Some r \<and> r \<in> {a, b} \<and> risk_at_most a r \<and> risk_at_most b r"
proof -
  from assms obtain i j where "risk_rank a = Some i" "risk_rank b = Some j"
    using risk_rank_None by blast
  then show ?thesis by (auto simp: max_risk_def risk_at_most_def)
qed

lemma risk_rank_SomeD: "risk_rank a = Some i \<Longrightarrow> a \<in> set RISKS"
  by (metis option.distinct(1) risk_rank_None)

lemma risk_at_most_trans: "risk_at_most a b \<Longrightarrow> risk_at_most b c \<Longrightarrow> risk_at_most a c"
  by (auto simp: risk_at_most_def simp del: risk_rank_None split: option.splits)

lemma risk_at_most_RISKS: "risk_at_most a b \<Longrightarrow> a \<in> set RISKS \<and> b \<in> set RISKS"
  by (auto simp: risk_at_most_def simp del: risk_rank_None dest: risk_rank_SomeD split: option.splits)

lemma mode_default_allow_iff:
  "md_action (mode_default mode cls risk inside prot) = Allow \<longleftrightarrow>
     is_valid_mode mode \<and> inside \<and>
     (cls = READ \<and> risk_at_most risk ''R0''
      \<or> cls = EDIT \<and> mode = ''accept-edits'' \<and> \<not> prot \<and> risk_at_most risk ''R1'')"
proof (cases "is_valid_mode mode \<and> risk \<in> set RISKS")
  case True
  then show ?thesis by (simp add: mode_default_def)
next
  case False
  then show ?thesis using risk_at_most_RISKS by (auto simp: mode_default_def)
qed

end
