(* ===== verification/Wildcard.thy ===== *)
theory Wildcard
  imports Prelude
begin

text \<open>
  The \<open>*\<close> matchers of \<open>m2c/src/m2c/policy/rules.py\<close> (\<open>_wild\<close>, \<open>_wild_one_word\<close>,
  \<open>pattern_matches\<close>, \<open>_allow_matches\<close>) and their equivalence with a declarative matcher.
  The code finds each middle piece greedily at its leftmost place; \<open>star_match\<close> tries
  every way to cut the text. \<open>q\<close> says which characters a \<open>*\<close> may run over.
\<close>

section \<open>The code\<close>

abbreviation STAR :: char where "STAR \<equiv> CHR ''*''"

text \<open>\<open>text.find(mid, pos, end)\<close>.\<close>

function find_sub :: "string \<Rightarrow> string \<Rightarrow> nat \<Rightarrow> nat \<Rightarrow> nat option" where
  "find_sub mid s pos e =
     (if e < pos + length mid then None
      else if take (length mid) (drop pos s) = mid then Some pos
      else find_sub mid s (Suc pos) e)"
  by pat_completeness auto
termination
  by (relation "measure (\<lambda>(mid, s, pos, e). Suc e - pos)") auto

declare find_sub.simps [simp del]

fun wild_mids :: "string list \<Rightarrow> string \<Rightarrow> nat \<Rightarrow> nat \<Rightarrow> bool" where
  "wild_mids [] s pos e = True"
| "wild_mids (mid # mids) s pos e =
     (if mid = [] then wild_mids mids s pos e
      else (case find_sub mid s pos e of
              None \<Rightarrow> False
            | Some i \<Rightarrow> wild_mids mids s (i + length mid) e))"

definition wild :: "string \<Rightarrow> string \<Rightarrow> bool" where
  "wild pattern s =
     (let parts = split_on STAR pattern
      in if length parts = 1 then s = pattern
         else let first = hd parts; final = last parts
              in if \<not> prefix first s \<or> \<not> suffix final s then False
                 else let pos = length first; e = length s - length final
                      in if e < pos then False
                         else wild_mids (butlast (tl parts)) s pos e)"

fun one_word_mids :: "string list \<Rightarrow> string \<Rightarrow> nat \<Rightarrow> nat \<Rightarrow> bool" where
  "one_word_mids [] s pos e = (SPC \<notin> set (substr s pos e))"
| "one_word_mids (mid # mids) s pos e =
     (if mid = [] then one_word_mids mids s pos e
      else (case find_sub mid s pos e of
              None \<Rightarrow> False
            | Some i \<Rightarrow> if SPC \<in> set (substr s pos i) then False
                        else one_word_mids mids s (i + length mid) e))"

definition wild_one_word :: "string \<Rightarrow> string \<Rightarrow> bool" where
  "wild_one_word pattern s =
     (let parts = split_on STAR pattern
      in if length parts = 1 then s = pattern
         else let first = hd parts; final = last parts
              in if \<not> prefix first s \<or> \<not> suffix final s then False
                 else let pos = length first; e = length s - length final
                      in if e < pos then False
                         else one_word_mids (butlast (tl parts)) s pos e)"

text \<open>\<open>pattern[:-2]\<close> of a pattern that ends with \<open>:*\<close>.\<close>

definition drop_tail2 :: "string \<Rightarrow> string" where
  "drop_tail2 p = take (length p - 2) p"

definition pattern_matches :: "string \<Rightarrow> string \<Rightarrow> bool" where
  "pattern_matches pattern s =
     (if pattern = s then True
      else if suffix '':*'' pattern then
        (let pre = drop_tail2 pattern
         in if pre = [] then True else wild pre s \<or> wild (pre @ '' *'') s)
      else if STAR \<in> set pattern then wild pattern s
      else False)"

definition allow_matches :: "string \<Rightarrow> string \<Rightarrow> bool" where
  "allow_matches pattern s =
     (if pattern = s \<or> pattern = ''*'' then True
      else if suffix '':*'' pattern then pattern_matches pattern s
      else if STAR \<in> set pattern then wild_one_word pattern s
      else False)"

section \<open>The declarative matcher\<close>

fun star_match :: "(char \<Rightarrow> bool) \<Rightarrow> string \<Rightarrow> string \<Rightarrow> bool" where
  "star_match q [] s = (s = [])"
| "star_match q (c # p) s =
     (if c = STAR
      then star_match q p s \<or> (case s of [] \<Rightarrow> False | x # s' \<Rightarrow> q x \<and> star_match q (c # p) s')
      else (case s of [] \<Rightarrow> False | x # s' \<Rightarrow> x = c \<and> star_match q p s'))"

abbreviation any_char :: "char \<Rightarrow> bool" where "any_char \<equiv> \<lambda>_. True"
abbreviation not_space :: "char \<Rightarrow> bool" where "not_space \<equiv> \<lambda>c. c \<noteq> SPC"

section \<open>Pieces separated by gaps\<close>

text \<open>
  \<open>gaps q ms u\<close>: \<open>u\<close> is a run of \<open>q\<close>-characters, the first piece, a run, the next piece,
  and so on, with a run at the end. Every case of both loops is an instance.
\<close>

fun gaps :: "(char \<Rightarrow> bool) \<Rightarrow> string list \<Rightarrow> string \<Rightarrow> bool" where
  "gaps q [] u = list_all q u"
| "gaps q (m # ms) u = (\<exists>g r. u = g @ m @ r \<and> list_all q g \<and> gaps q ms r)"

lemma gaps_extend: "list_all q x \<Longrightarrow> gaps q ms r \<Longrightarrow> gaps q ms (x @ r)"
proof (cases ms)
  case (Cons m ms')
  assume x: "list_all q x" and "gaps q ms r"
  with Cons obtain g r' where "r = g @ m @ r'" "list_all q g" "gaps q ms' r'" by auto
  with x have "x @ r = (x @ g) @ m @ r' \<and> list_all q (x @ g) \<and> gaps q ms' r'" by simp
  with Cons show ?thesis by (metis gaps.simps(2))
qed simp

lemma gaps_empty_piece: "gaps q ([] # ms) u = gaps q ms u"
proof
  show "gaps q ([] # ms) u \<Longrightarrow> gaps q ms u" by (auto simp: gaps_extend)
  show "gaps q ms u \<Longrightarrow> gaps q ([] # ms) u"
    by (metis append_Nil gaps.simps(2) list.pred_inject(1))
qed

text \<open>
  The heart of the greedy argument: if a piece occurs at two different places with a run of
  \<open>q\<close>-characters before the later one, then the piece itself is made of such characters.
\<close>

lemma overlapping_piece:
  assumes eq: "g0 @ m @ r0 = g @ m @ r" and less: "length g0 < length g" and q: "list_all q g"
  shows "k < length m \<Longrightarrow> q (m ! k)"
proof (induction k rule: less_induct)
  case (less k)
  let ?d = "length g - length g0"
  have at0: "(g @ m @ r) ! (length g0 + k) = m ! k"
    using less.prems by (simp flip: eq add: nth_append)
  show ?case
  proof (cases "k < ?d")
    case True
    then have "length g0 + k < length g" by simp
    then have "g ! (length g0 + k) = m ! k" using at0 by (simp add: nth_append)
    then show ?thesis using q \<open>length g0 + k < length g\<close> by (metis list_all_length)
  next
    case False
    then have "length g0 + k = length g + (k - ?d)" using assms(2) by simp
    moreover have "k - ?d < length m" using less.prems by simp
    ultimately have "m ! (k - ?d) = m ! k" using at0 by (simp add: nth_append)
    moreover have "q (m ! (k - ?d))" using less.IH [of "k - ?d"] assms(2) less.prems False by simp
    ultimately show ?thesis by simp
  qed
qed

lemma leftmost_is_enough:
  assumes first: "u = g0 @ m @ r0" and u: "u = g @ m @ r"
    and le: "length g0 \<le> length g" and q: "list_all q g" and rest: "gaps q ms r"
  shows "list_all q g0 \<and> gaps q ms r0"
proof (cases "length g0 = length g")
  case True
  with first u have "g0 = g \<and> r0 = r" by simp
  with q rest show ?thesis by simp
next
  case False
  with le have less: "length g0 < length g" by simp
  have eq: "g0 @ m @ r0 = g @ m @ r" using first u by simp
  then obtain h where h: "g = g0 @ h" using less
    by (metis append_eq_append_conv_if append_take_drop_id less_imp_le)
  have m: "list_all q m" using overlapping_piece [OF eq less q] by (simp add: list_all_length)
  have mr: "m @ r0 = h @ m @ r" using eq h by simp
  have len: "length (h @ m) = length m + length h" by simp
  then obtain x where x: "h @ m = m @ x" and r0: "r0 = x @ r"
  proof -
    have "m = take (length m) (h @ m)" using mr
      by (metis append.assoc append_eq_append_conv_if append_eq_conv_conj len le_add1)
    then have hm: "h @ m = m @ drop (length m) (h @ m)" by (metis append_take_drop_id)
    then have "m @ r0 = m @ drop (length m) (h @ m) @ r" using mr by (metis append.assoc)
    then show ?thesis using hm that by blast
  qed
  have "list_all q (h @ m)" using q h m by simp
  then have "list_all q x" using x by simp
  then show ?thesis using h q r0 rest gaps_extend by auto
qed

section \<open>The search\<close>

lemma find_sub_None:
  assumes "find_sub m s pos e = None" and "e \<le> length s" and "pos \<le> e"
  shows "\<not> (\<exists>g r. substr s pos e = g @ m @ r)"
  using assms
proof (induction m s pos e rule: find_sub.induct)
  case (1 m s pos e)
  show ?case
  proof (cases "e < pos + length m")
    case True
    then show ?thesis
    proof (intro notI, elim exE)
      fix g r assume "substr s pos e = g @ m @ r"
      then have "length (substr s pos e) = length g + length m + length r" by simp
      moreover have "length (substr s pos e) \<le> e - pos" by (simp add: substr_def)
      ultimately show False using True "1.prems"(3) by simp
    qed
  next
    case False
    with 1(2) have no: "take (length m) (drop pos s) \<noteq> m" and next_none: "find_sub m s (Suc pos) e = None"
      by (auto simp: find_sub.simps [of m s pos e] split: if_splits)
    have "Suc pos \<le> e" using False no by (cases m) auto
    then have IH: "\<not> (\<exists>g r. substr s (Suc pos) e = g @ m @ r)"
      using "1.IH" False no next_none "1.prems"(2) by blast
    have tail: "substr s (Suc pos) e = tl (substr s pos e)"
      by (simp add: substr_def drop_Suc tl_drop tl_take)
    show ?thesis
    proof (intro notI, elim exE)
      fix g r assume eq: "substr s pos e = g @ m @ r"
      show False
      proof (cases g)
        case Nil
        with eq have "take (length m) (substr s pos e) = m" by simp
        moreover have "length m \<le> e - pos" using False by simp
        ultimately show False using no by (simp add: substr_def min_absorb2)
      next
        case (Cons a g')
        with eq tail have "substr s (Suc pos) e = g' @ m @ r" by simp
        with IH show False by blast
      qed
    qed
  qed
qed

lemma find_sub_Some:
  assumes "find_sub m s pos e = Some i" and "e \<le> length s"
  shows "pos \<le> i \<and> i + length m \<le> e \<and> take (length m) (drop i s) = m
     \<and> (\<forall>g r. substr s pos e = g @ m @ r \<longrightarrow> i - pos \<le> length g)"
  using assms
proof (induction m s pos e rule: find_sub.induct)
  case (1 m s pos e)
  show ?case
  proof (cases "take (length m) (drop pos s) = m \<or> e < pos + length m")
    case True
    with 1(2) show ?thesis
      by (auto simp: find_sub.simps [of m s pos e] split: if_splits)
  next
    case False
    with 1(2) have next_some: "find_sub m s (Suc pos) e = Some i"
      by (auto simp: find_sub.simps [of m s pos e] split: if_splits)
    have IH: "Suc pos \<le> i \<and> i + length m \<le> e \<and> take (length m) (drop i s) = m
       \<and> (\<forall>g r. substr s (Suc pos) e = g @ m @ r \<longrightarrow> i - Suc pos \<le> length g)"
      using "1.IH" False next_some "1.prems"(2) by blast
    have tail: "substr s (Suc pos) e = tl (substr s pos e)"
      by (simp add: substr_def drop_Suc tl_drop tl_take)
    have "i - pos \<le> length g" if eq: "substr s pos e = g @ m @ r" for g r
    proof (cases g)
      case Nil
      with eq have "take (length m) (substr s pos e) = m" by simp
      moreover have "length m \<le> e - pos" using False by linarith
      ultimately show ?thesis using False by (simp add: substr_def min_absorb2)
    next
      case (Cons a g')
      with eq tail have "substr s (Suc pos) e = g' @ m @ r" by simp
      with IH have "i - Suc pos \<le> length g'" by blast
      then show ?thesis using Cons by simp
    qed
    with IH show ?thesis by auto
  qed
qed

lemma substr_split:
  assumes "pos \<le> i" and "i + n \<le> e" and "e \<le> length s"
  shows "substr s pos e = substr s pos i @ take n (drop i s) @ substr s (i + n) e"
proof -
  have "drop pos s = take (i - pos) (drop pos s) @ take n (drop i s) @ drop (i + n) s"
    using assms by (metis add.commute append_take_drop_id drop_drop le_add_diff_inverse2)
  then have "take (e - pos) (drop pos s)
      = take (e - pos) (take (i - pos) (drop pos s) @ take n (drop i s) @ drop (i + n) s)" by simp
  then show ?thesis using assms by (simp add: substr_def)
qed

lemma find_sub_gaps:
  assumes "e \<le> length s" and "pos \<le> e"
  shows "gaps q (m # ms) (substr s pos e) =
    (case find_sub m s pos e of None \<Rightarrow> False
     | Some i \<Rightarrow> list_all q (substr s pos i) \<and> gaps q ms (substr s (i + length m) e))"
proof (cases "find_sub m s pos e")
  case None
  then show ?thesis using find_sub_None [OF None assms] by auto
next
  case (Some i)
  from find_sub_Some [OF Some assms(1)]
  have i: "pos \<le> i" "i + length m \<le> e" "take (length m) (drop i s) = m"
    and least: "\<And>g r. substr s pos e = g @ m @ r \<Longrightarrow> i - pos \<le> length g" by auto
  have cut: "substr s pos e = substr s pos i @ m @ substr s (i + length m) e"
    using substr_split [OF i(1,2) assms(1)] i(3) by simp
  have len: "length (substr s pos i) = i - pos" using i assms by (simp add: substr_def)
  have "gaps q (m # ms) (substr s pos e) \<longleftrightarrow>
      list_all q (substr s pos i) \<and> gaps q ms (substr s (i + length m) e)"
  proof
    assume "gaps q (m # ms) (substr s pos e)"
    then obtain g r where "substr s pos e = g @ m @ r" "list_all q g" "gaps q ms r" by auto
    then show "list_all q (substr s pos i) \<and> gaps q ms (substr s (i + length m) e)"
      using leftmost_is_enough [OF cut] least len by metis
  next
    assume "list_all q (substr s pos i) \<and> gaps q ms (substr s (i + length m) e)"
    with cut show "gaps q (m # ms) (substr s pos e)" by (metis gaps.simps(2))
  qed
  with Some show ?thesis by simp
qed

lemma wild_mids_gaps:
  "e \<le> length s \<Longrightarrow> pos \<le> e \<Longrightarrow> wild_mids ms s pos e = gaps any_char ms (substr s pos e)"
proof (induction ms s pos e rule: wild_mids.induct)
  case (1 s pos e)
  then show ?case by (simp add: list_all_iff)
next
  case (2 m ms s pos e)
  show ?case
  proof (cases "m = []")
    case True
    with 2 show ?thesis by (simp add: gaps_empty_piece del: gaps.simps(2))
  next
    case False
    then show ?thesis
      using 2 find_sub_gaps [OF "2.prems", of any_char m ms]
      by (auto simp del: gaps.simps simp: list_all_iff split: option.splits dest: find_sub_Some)
  qed
qed

lemma one_word_mids_gaps:
  "e \<le> length s \<Longrightarrow> pos \<le> e \<Longrightarrow> one_word_mids ms s pos e = gaps not_space ms (substr s pos e)"
proof (induction ms s pos e rule: one_word_mids.induct)
  case (1 s pos e)
  then show ?case by (auto simp: list_all_iff)
next
  case (2 m ms s pos e)
  show ?case
  proof (cases "m = []")
    case True
    with 2 show ?thesis by (simp add: gaps_empty_piece del: gaps.simps(2))
  next
    case False
    then show ?thesis
      using 2 find_sub_gaps [OF "2.prems", of not_space m ms]
      by (auto simp del: gaps.simps simp: list_all_iff split: option.splits dest: find_sub_Some)
  qed
qed

section \<open>Patterns and their pieces\<close>

lemma star_match_no_star: "STAR \<notin> set w \<Longrightarrow> star_match q w s = (s = w)"
proof (induction w arbitrary: s)
  case (Cons c w)
  then show ?case by (cases s) auto
qed simp

lemma star_match_piece:
  "STAR \<notin> set w \<Longrightarrow> star_match q (w @ STAR # p) s = (\<exists>u. s = w @ u \<and> star_match q (STAR # p) u)"
proof (induction w arbitrary: s)
  case (Cons c w)
  then show ?case by (cases s) auto
qed simp

lemma star_match_star:
  "star_match q (STAR # p) s = (\<exists>g u. s = g @ u \<and> list_all q g \<and> star_match q p u)"
proof (induction s)
  case Nil
  then show ?case by simp
next
  case (Cons x s)
  have "(\<exists>g u. x # s = g @ u \<and> list_all q g \<and> star_match q p u)
      \<longleftrightarrow> star_match q p (x # s) \<or> q x \<and> (\<exists>g u. s = g @ u \<and> list_all q g \<and> star_match q p u)"
    (is "?l \<longleftrightarrow> ?r")
  proof
    assume ?l
    then obtain g u where g: "x # s = g @ u" "list_all q g" "star_match q p u" by blast
    then show ?r by (cases g) auto
  next
    assume ?r
    then show ?l by (metis append_Cons append_Nil list.pred_inject(1) list.pred_inject(2))
  qed
  with Cons show ?case by simp
qed

lemma star_match_gaps:
  assumes "\<forall>w \<in> set ps. STAR \<notin> set w" and "ps \<noteq> []"
  shows "star_match q (STAR # join [STAR] ps) s = (\<exists>u. s = u @ last ps \<and> gaps q (butlast ps) u)"
  using assms
proof (induction ps arbitrary: s rule: induct_list012)
  case (2 w)
  then show ?case by (auto simp: star_match_star star_match_no_star simp del: star_match.simps)
next
  case (3 w v ps)
  have "star_match q (STAR # join [STAR] (w # v # ps)) s
      = (\<exists>g u. s = g @ w @ u \<and> list_all q g \<and> star_match q (STAR # join [STAR] (v # ps)) u)"
  proof -
    have w: "STAR \<notin> set w" using 3(3) by simp
    have "star_match q (STAR # join [STAR] (w # v # ps)) s
      = (\<exists>g t. s = g @ t \<and> list_all q g \<and> star_match q (w @ STAR # join [STAR] (v # ps)) t)"
      unfolding star_match_star by simp
    then show ?thesis unfolding star_match_piece [OF w] by auto
  qed
  also have "\<dots> = (\<exists>g t. s = g @ w @ t @ last (v # ps) \<and> list_all q g \<and> gaps q (butlast (v # ps)) t)"
  proof -
    have "star_match q (STAR # join [STAR] (v # ps)) u
        = (\<exists>t. u = t @ last (v # ps) \<and> gaps q (butlast (v # ps)) t)" for u
      by (rule 3(2)) (use 3(3) in auto)
    then show ?thesis by metis
  qed
  also have "\<dots> = (\<exists>u. s = u @ last (w # v # ps) \<and> gaps q (butlast (w # v # ps)) u)"
  proof -
    have "butlast (w # v # ps) = w # butlast (v # ps)" "last (w # v # ps) = last (v # ps)" by simp_all
    moreover have "(\<exists>u. s = u @ z \<and> gaps q (w # ms) u)
        = (\<exists>g t. s = g @ w @ t @ z \<and> list_all q g \<and> gaps q ms t)" for z ms
      by (auto simp del: append_assoc simp: append_assoc [symmetric])
    ultimately show ?thesis by (simp only:)
  qed
  finally show ?case .
qed simp

lemma cut_ends:
  "prefix a s \<and> suffix b s \<and> length a \<le> length s - length b \<longleftrightarrow>
     (\<exists>u. s = a @ u @ b)"
proof
  assume h: "prefix a s \<and> suffix b s \<and> length a \<le> length s - length b"
  then obtain x y where x: "s = a @ x" and y: "s = y @ b" unfolding prefix_def suffix_def by blast
  from h have "length a \<le> length s - length b" by blast
  then have "length a \<le> length y" unfolding y by simp
  moreover have "a @ x = y @ b" using x y by simp
  ultimately obtain u where "y = a @ u"
    by (metis append_eq_append_conv_if append_take_drop_id)
  with y show "\<exists>u. s = a @ u @ b" by auto
qed (auto simp: prefix_def suffix_def)

lemma cut_ends_middle:
  "s = a @ u @ b \<Longrightarrow> substr s (length a) (length s - length b) = u"
  by (simp add: substr_def)

lemma star_match_parts:
  assumes "split_on STAR p = w # ps" and "ps \<noteq> []"
  shows "star_match q p s = (\<exists>u. s = w @ u @ last ps \<and> gaps q (butlast ps) u)"
proof -
  have p: "p = join [STAR] (w # ps)" using assms(1) join_split by metis
  have ns: "\<forall>v \<in> set (w # ps). STAR \<notin> set v" using assms(1) split_on_parts_no_sep by metis
  have "p = w @ STAR # join [STAR] ps" using p assms(2) by (cases ps) auto
  then show ?thesis
    using ns assms(2) by (auto simp: star_match_piece star_match_gaps simp del: star_match.simps)
qed

lemma length_one_iff: "length (w # ps) = 1 \<longleftrightarrow> ps = []"
  by simp

lemma wild_eq_star_match: "wild p s = star_match any_char p s"
proof -
  obtain w ps where parts: "split_on STAR p = w # ps" by (metis list.exhaust split_on_nonempty)
  show ?thesis
  proof (cases "ps = []")
    case True
    then have "p = w" "STAR \<notin> set p"
      using parts join_split [of STAR p] split_on_parts_no_sep [of w STAR p] by auto
    with parts True show ?thesis by (simp add: wild_def star_match_no_star)
  next
    case False
    have "wild p s \<longleftrightarrow> prefix w s \<and> suffix (last ps) s \<and> length w \<le> length s - length (last ps)
        \<and> wild_mids (butlast ps) s (length w) (length s - length (last ps))"
      using parts False by (auto simp: wild_def Let_def)
    also have "\<dots> \<longleftrightarrow> (\<exists>u. s = w @ u @ last ps \<and> gaps any_char (butlast ps) u)"
      using cut_ends [of w s "last ps"] cut_ends_middle [of s w _ "last ps"]
      by (metis diff_le_self wild_mids_gaps)
    finally show ?thesis using star_match_parts [OF parts False] by simp
  qed
qed

lemma wild_one_word_eq_star_match: "wild_one_word p s = star_match not_space p s"
proof -
  obtain w ps where parts: "split_on STAR p = w # ps" by (metis list.exhaust split_on_nonempty)
  show ?thesis
  proof (cases "ps = []")
    case True
    then have "p = w" "STAR \<notin> set p"
      using parts join_split [of STAR p] split_on_parts_no_sep [of w STAR p] by auto
    with parts True show ?thesis by (simp add: wild_one_word_def star_match_no_star)
  next
    case False
    have "wild_one_word p s \<longleftrightarrow> prefix w s \<and> suffix (last ps) s \<and> length w \<le> length s - length (last ps)
        \<and> one_word_mids (butlast ps) s (length w) (length s - length (last ps))"
      using parts False by (auto simp: wild_one_word_def Let_def)
    also have "\<dots> \<longleftrightarrow> (\<exists>u. s = w @ u @ last ps \<and> gaps not_space (butlast ps) u)"
      using cut_ends [of w s "last ps"] cut_ends_middle [of s w _ "last ps"]
      by (metis diff_le_self one_word_mids_gaps)
    finally show ?thesis using star_match_parts [OF parts False] by simp
  qed
qed

end
