(* ===== verification/Rules.thy ===== *)
theory Rules
  imports Wildcard
begin

text \<open>
  The first half of \<open>m2c/src/m2c/policy/rules.py\<close>: permission rules, their syntax and
  matching against command texts, the rule sets of the three settings layers, their merge
  into one union, and the loading of a settings file. Parsing TOML, decoding UTF-8 and
  opening files are parameters.
\<close>

section \<open>Rules\<close>

definition ACTIONS :: "string list" where
  "ACTIONS = [''deny'', ''ask'', ''allow'']"

definition LAYERS :: "string list" where
  "LAYERS = [''managed'', ''user'', ''project'']"

definition MAX_RULE_LENGTH :: nat where "MAX_RULE_LENGTH = 1024"
definition MAX_RULES_PER_FILE :: nat where "MAX_RULES_PER_FILE = 5000"
definition MAX_FILE_BYTES :: nat where "MAX_FILE_BYTES = 1000000"

record rule =
  r_action :: string
  r_tool :: string
  r_pattern :: string
  r_layer :: string

definition rule_raw :: "rule \<Rightarrow> string" where
  "rule_raw r = r_tool r @ ''('' @ r_pattern r @ '')''"

definition rule_label :: "rule \<Rightarrow> string" where
  "rule_label r = r_action r @ '':'' @ r_layer r @ '':'' @ rule_raw r"

text \<open>The characters of \<open>[a-z0-9_.\\-]\<close> in \<open>_RULE_RE\<close>.\<close>

definition tool_char :: "char \<Rightarrow> bool" where
  "tool_char c \<longleftrightarrow> ascii_lower c \<or> ascii_digit c \<or> c = CHR ''_'' \<or> c = CHR ''.'' \<or> c = CHR ''-''"

text \<open>
  \<open>_RULE_RE.match\<close>: the tool name is the longest run of name characters (the class holds
  no parenthesis), then \<open>(\<close>, anything, and a closing parenthesis as the last character.
\<close>

definition rule_re_match :: "string \<Rightarrow> (string \<times> string) option" where
  "rule_re_match t =
     (let tool = takeWhile tool_char t; rest = dropWhile tool_char t
      in if tool \<noteq> [] \<and> ascii_lower (hd tool) \<and> 2 \<le> length rest
            \<and> hd rest = CHR ''('' \<and> last rest = CHR '')''
         then Some (tool, butlast (tl rest)) else None)"

text \<open>\<open>parse_rule\<close>: \<open>Inl\<close> is \<open>RuleSyntaxError\<close> with its fixed message.\<close>

definition parse_rule :: "json \<Rightarrow> string \<Rightarrow> string \<Rightarrow> string + rule" where
  "parse_rule text action layer =
    (if action \<notin> set ACTIONS then Inl ''unknown action''
     else if layer \<notin> set LAYERS then Inl ''unknown layer''
     else (case text of
        JStr t \<Rightarrow>
          (if MAX_RULE_LENGTH < length t then Inl ''rule is too long''
           else if \<exists>c \<in> set t. is_control c then Inl ''rule contains a control character''
           else (case rule_re_match (strip t) of
               None \<Rightarrow> Inl ''rule must look like tool(pattern)''
             | Some (tool, pat) \<Rightarrow>
                 (let pattern = strip pat
                  in if pattern = [] then Inl ''rule pattern is empty''
                     else Inr \<lparr>r_action = action, r_tool = tool, r_pattern = pattern, r_layer = layer\<rparr>)))
      | _ \<Rightarrow> Inl ''rule is not a string''))"

section \<open>Canonical order of short options\<close>

definition LONG_AS_SHORT :: "string \<rightharpoonup> string" where
  "LONG_AS_SHORT = map_of [(''--recursive'', ''r''), (''--force'', ''f''),
     (''--verbose'', ''v''), (''--interactive'', ''i'')]"

definition is_cluster :: "string \<Rightarrow> bool" where
  "is_cluster w \<longleftrightarrow> 2 \<le> length w \<and> w ! 0 = CHR ''-'' \<and> w ! 1 \<noteq> CHR ''-'' \<and> list_all ascii_alpha (tl w)"

definition lower_R :: "char \<Rightarrow> char" where
  "lower_R c = (if c = CHR ''R'' then CHR ''r'' else c)"

definition flush_run :: "string list \<Rightarrow> string list" where
  "flush_run run =
     (if run = [] then []
      else [CHR ''-'' # sort_key (of_char :: char \<Rightarrow> nat) (map lower_R (concat run))])"

fun canon_words :: "string list \<Rightarrow> string list \<Rightarrow> string list" where
  "canon_words [] run = flush_run run"
| "canon_words (w # ws) run =
     (case LONG_AS_SHORT w of
        Some l \<Rightarrow> canon_words ws (run @ [l])
      | None \<Rightarrow> if is_cluster w then canon_words ws (run @ [tl w])
                else flush_run run @ w # canon_words ws [])"

definition canon_options :: "string \<Rightarrow> string" where
  "canon_options s = join '' '' (canon_words (split_on SPC s) [])"

section \<open>First matching rule\<close>

text \<open>The position of the first option cluster among the words of a canonical pattern.\<close>

fun first_cluster :: "string list \<Rightarrow> nat option" where
  "first_cluster [] = None"
| "first_cluster (w # ws) = (if is_cluster w then Some 0 else map_option Suc (first_cluster ws))"

text \<open>One canonical text against one canonical pattern (the inner loop of the \<open>canon\<close> branch).\<close>

definition canon_hit :: "string \<Rightarrow> string \<Rightarrow> string \<Rightarrow> bool" where
  "canon_hit cp tail t =
     (pattern_matches (cp @ tail) t \<or>
      (let pw = split_on SPC cp
       in case first_cluster pw of
            None \<Rightarrow> False
          | Some pi \<Rightarrow>
              (let tw = split_on SPC t
               in pi < length tw \<and> is_cluster (tw ! pi) \<and> set (tl (pw ! pi)) \<subseteq> set (tl (tw ! pi))
                  \<and> pattern_matches (cp @ tail) (join '' '' (tw[pi := pw ! pi])))))"

definition command_rule_hit :: "bool \<Rightarrow> string \<Rightarrow> string list \<Rightarrow> bool" where
  "command_rule_hit canon pat texts =
     ((\<exists>t \<in> set texts. pattern_matches pat t) \<or>
      canon \<and>
      (let tail = (if suffix '':*'' pat then '':*'' else []);
           cp = canon_options (take (length pat - length tail) pat)
       in \<exists>t \<in> set (map canon_options texts). canon_hit cp tail t))"

definition first_command_match ::
    "rule list \<Rightarrow> string \<Rightarrow> string list \<Rightarrow> bool \<Rightarrow> bool \<Rightarrow> rule option" where
  "first_command_match rules tool texts canon word_bound =
     (if word_bound
      then find (\<lambda>r. r_tool r = tool \<and> (\<exists>t \<in> set texts. allow_matches (r_pattern r) t)) rules
      else find (\<lambda>r. r_tool r = tool \<and> command_rule_hit canon (r_pattern r) texts) rules)"

section \<open>Rule sets, layers, merging\<close>

record rule_set =
  rs_rules :: "rule list"
  rs_invalid :: bool
  rs_errors :: "string list"

definition empty_rule_set :: rule_set where
  "empty_rule_set = \<lparr>rs_rules = [], rs_invalid = False, rs_errors = []\<rparr>"

definition invalid_rule_set :: "string \<Rightarrow> rule_set" where
  "invalid_rule_set e = \<lparr>rs_rules = [], rs_invalid = True, rs_errors = [e]\<rparr>"

record rule_layers =
  rl_managed :: rule_set
  rl_user :: rule_set
  rl_project :: rule_set

definition empty_layers :: rule_layers where
  "empty_layers = \<lparr>rl_managed = empty_rule_set, rl_user = empty_rule_set, rl_project = empty_rule_set\<rparr>"

record merged_rules =
  mr_deny :: "rule list"
  mr_ask :: "rule list"
  mr_allow :: "rule list"
  mr_invalid :: bool
  mr_project_ignored :: bool

definition empty_merged :: merged_rules where
  "empty_merged = \<lparr>mr_deny = [], mr_ask = [], mr_allow = [], mr_invalid = False, mr_project_ignored = False\<rparr>"

text \<open>The body of the inner loop: one rule of the layer \<open>name\<close> goes to its bucket.\<close>

definition merge_rule :: "string \<Rightarrow> rule \<Rightarrow> merged_rules \<Rightarrow> merged_rules" where
  "merge_rule name r m =
     (let r' = r\<lparr>r_layer := name\<rparr>
      in if r_action r = ''deny'' then m\<lparr>mr_deny := mr_deny m @ [r']\<rparr>
         else if r_action r = ''ask'' then m\<lparr>mr_ask := mr_ask m @ [r']\<rparr>
         else if r_action r = ''allow'' then m\<lparr>mr_allow := mr_allow m @ [r']\<rparr>
         else m\<lparr>mr_invalid := True\<rparr>)"

definition merge_layer :: "bool \<Rightarrow> string \<Rightarrow> rule_set \<Rightarrow> merged_rules \<Rightarrow> merged_rules" where
  "merge_layer project_trusted name rs m =
     (if name = ''project'' \<and> \<not> project_trusted
      then m\<lparr>mr_project_ignored := rs_rules rs \<noteq> [] \<or> rs_invalid rs\<rparr>
      else fold (merge_rule name) (rs_rules rs) (m\<lparr>mr_invalid := mr_invalid m \<or> rs_invalid rs\<rparr>))"

definition merge_layers :: "rule_layers \<Rightarrow> bool \<Rightarrow> merged_rules" where
  "merge_layers layers project_trusted =
     merge_layer project_trusted ''project'' (rl_project layers)
       (merge_layer project_trusted ''user'' (rl_user layers)
         (merge_layer project_trusted ''managed'' (rl_managed layers) empty_merged))"

section \<open>Loading\<close>

text \<open>\<open>doc.get(key, default)\<close> on a parsed table.\<close>

definition table_get :: "(string \<times> json) list \<Rightarrow> string \<Rightarrow> json \<Rightarrow> json" where
  "table_get t k d = (case map_of t k of Some v \<Rightarrow> v | None \<Rightarrow> d)"

text \<open>The rules of one \<open>permissions.<action>\<close> list, appended to \<open>out\<close>.\<close>

fun parse_items :: "json list \<Rightarrow> string \<Rightarrow> string \<Rightarrow> rule list \<Rightarrow> string + rule list" where
  "parse_items [] action layer out = Inr out"
| "parse_items (item # items) action layer out =
     (case parse_rule item action layer of
        Inl _ \<Rightarrow> Inl (''malformed rule in permissions.'' @ action)
      | Inr r \<Rightarrow>
          if MAX_RULES_PER_FILE < length (out @ [r]) then Inl ''too many rules''
          else parse_items items action layer (out @ [r]))"

fun parse_actions :: "string list \<Rightarrow> (string \<times> json) list \<Rightarrow> string \<Rightarrow> rule list \<Rightarrow> string + rule list" where
  "parse_actions [] perms layer out = Inr out"
| "parse_actions (action # actions) perms layer out =
     (case table_get perms action (JList []) of
        JList items \<Rightarrow>
          (case parse_items items action layer out of
             Inl e \<Rightarrow> Inl e
           | Inr out' \<Rightarrow> parse_actions actions perms layer out')
      | _ \<Rightarrow> Inl (''permissions.'' @ action @ '' is not a list''))"

text \<open>\<open>toml\<close> stands for \<open>tomllib.loads\<close>: the top table, or \<open>None\<close> when it raises.\<close>

definition rules_from_toml_text ::
    "(string \<Rightarrow> (string \<times> json) list option) \<Rightarrow> string \<Rightarrow> string \<Rightarrow> rule_set" where
  "rules_from_toml_text toml s layer =
     (case toml s of
        None \<Rightarrow> invalid_rule_set ''settings file is not valid TOML''
      | Some doc \<Rightarrow>
          (case table_get doc ''permissions'' (JObj []) of
             JObj perms \<Rightarrow>
               (if \<not> set (map fst perms) \<subseteq> set ACTIONS
                then invalid_rule_set ''unknown key in permissions''
                else (case parse_actions ACTIONS perms layer [] of
                        Inl e \<Rightarrow> invalid_rule_set e
                      | Inr out \<Rightarrow> \<lparr>rs_rules = out, rs_invalid = False, rs_errors = []\<rparr>))
           | _ \<Rightarrow> invalid_rule_set ''permissions is not a table''))"

text \<open>
  What \<open>open\<close> and \<open>read(MAX_FILE_BYTES + 1)\<close> can give. \<open>utf8\<close> stands for
  \<open>bytes.decode("utf-8")\<close>.
\<close>

datatype file_read = FileMissing | FileError | FileData string

definition load_rule_file ::
    "(string \<Rightarrow> file_read) \<Rightarrow> (string \<Rightarrow> string option) \<Rightarrow> (string \<Rightarrow> (string \<times> json) list option)
      \<Rightarrow> string option \<Rightarrow> string \<Rightarrow> rule_set" where
  "load_rule_file opener utf8 toml path layer =
     (case path of
        None \<Rightarrow> empty_rule_set
      | Some p \<Rightarrow>
          (case opener p of
             FileMissing \<Rightarrow> empty_rule_set
           | FileError \<Rightarrow> invalid_rule_set ''settings file could not be read safely''
           | FileData data \<Rightarrow>
               (if MAX_FILE_BYTES < length data then invalid_rule_set ''settings file is too large''
                else (case utf8 data of
                        None \<Rightarrow> invalid_rule_set ''settings file is not UTF-8''
                      | Some s \<Rightarrow> rules_from_toml_text toml s layer))))"

definition load_layers ::
    "(string \<Rightarrow> file_read) \<Rightarrow> (string \<Rightarrow> string option) \<Rightarrow> (string \<Rightarrow> (string \<times> json) list option)
      \<Rightarrow> string option \<Rightarrow> string option \<Rightarrow> string option \<Rightarrow> bool \<Rightarrow> rule_layers" where
  "load_layers opener utf8 toml managed user project project_trusted =
     \<lparr>rl_managed = load_rule_file opener utf8 toml managed ''managed'',
      rl_user = load_rule_file opener utf8 toml user ''user'',
      rl_project = (if project_trusted then load_rule_file opener utf8 toml project ''project''
                    else empty_rule_set)\<rparr>"

section \<open>The contract of a rule lookup\<close>

text \<open>
  What the decision relies on when it asks a list of rules: a lookup answers a rule of the
  list that hits the query, and answers nothing only when no rule hits it.
\<close>

locale rule_lookup =
  fixes lookup :: "rule list \<Rightarrow> 'q \<Rightarrow> rule option"
    and hits :: "rule \<Rightarrow> 'q \<Rightarrow> bool"
  assumes lookup_hit: "lookup rs q = Some r \<Longrightarrow> r \<in> set rs \<and> hits r q"
    and lookup_miss: "lookup rs q = None \<longleftrightarrow> (\<forall>r \<in> set rs. \<not> hits r q)"
begin

lemma found_iff: "lookup rs q \<noteq> None \<longleftrightarrow> (\<exists>r \<in> set rs. hits r q)"
  by (simp only: lookup_miss) simp

lemma found_mono: "set rs \<subseteq> set rs' \<Longrightarrow> lookup rs q \<noteq> None \<Longrightarrow> lookup rs' q \<noteq> None"
  unfolding found_iff by blast

lemma miss_mono: "set rs \<subseteq> set rs' \<Longrightarrow> lookup rs' q = None \<Longrightarrow> lookup rs q = None"
  using found_mono by blast

lemma found_append: "lookup (rs @ rs') q \<noteq> None \<longleftrightarrow> lookup rs q \<noteq> None \<or> lookup rs' q \<noteq> None"
  unfolding found_iff by auto

end

text \<open>A command query: the tool, the texts, and the two flags of \<open>first_command_match\<close>.\<close>

type_synonym command_query = "string \<times> string list \<times> bool \<times> bool"

definition command_hits :: "rule \<Rightarrow> command_query \<Rightarrow> bool" where
  "command_hits r q = (case q of (tool, texts, canon, word_bound) \<Rightarrow>
     r_tool r = tool \<and>
     (if word_bound then \<exists>t \<in> set texts. allow_matches (r_pattern r) t
      else command_rule_hit canon (r_pattern r) texts))"

interpretation cmd: rule_lookup
    "\<lambda>rs (tool, texts, canon, wb). first_command_match rs tool texts canon wb" command_hits
proof (unfold_locales, goal_cases)
  case (1 rs q r)
  then show ?case
    by (auto simp: first_command_match_def command_hits_def find_Some_iff split: prod.splits if_splits)
next
  case (2 rs q)
  then show ?case
    by (auto simp: first_command_match_def command_hits_def find_None_iff split: prod.splits)
qed

section \<open>The merged union\<close>

text \<open>
  The rules of one action of a layer, relabelled with the layer, and the merged rules in
  closed form.
\<close>

definition bucket :: "string \<Rightarrow> string \<Rightarrow> rule list \<Rightarrow> rule list" where
  "bucket action name rs = map (\<lambda>r. r\<lparr>r_layer := name\<rparr>) (filter (\<lambda>r. r_action r = action) rs)"

lemma bucket_simps [simp]:
  "bucket a n [] = []"
  "bucket a n (r # rs) = (if r_action r = a then r\<lparr>r_layer := n\<rparr> # bucket a n rs else bucket a n rs)"
  by (simp_all add: bucket_def)

lemma fold_merge_rule:
  "fold (merge_rule name) rs m =
     m\<lparr>mr_deny := mr_deny m @ bucket ''deny'' name rs,
       mr_ask := mr_ask m @ bucket ''ask'' name rs,
       mr_allow := mr_allow m @ bucket ''allow'' name rs,
       mr_invalid := mr_invalid m \<or> (\<exists>r \<in> set rs. r_action r \<notin> set ACTIONS)\<rparr>"
  by (induction rs arbitrary: m) (auto simp: merge_rule_def Let_def ACTIONS_def)

lemma merge_layers_fields:
  "mr_deny (merge_layers ls trusted) =
     bucket ''deny'' ''managed'' (rs_rules (rl_managed ls)) @ bucket ''deny'' ''user'' (rs_rules (rl_user ls))
     @ (if trusted then bucket ''deny'' ''project'' (rs_rules (rl_project ls)) else [])"
  "mr_ask (merge_layers ls trusted) =
     bucket ''ask'' ''managed'' (rs_rules (rl_managed ls)) @ bucket ''ask'' ''user'' (rs_rules (rl_user ls))
     @ (if trusted then bucket ''ask'' ''project'' (rs_rules (rl_project ls)) else [])"
  "mr_allow (merge_layers ls trusted) =
     bucket ''allow'' ''managed'' (rs_rules (rl_managed ls)) @ bucket ''allow'' ''user'' (rs_rules (rl_user ls))
     @ (if trusted then bucket ''allow'' ''project'' (rs_rules (rl_project ls)) else [])"
  "mr_invalid (merge_layers ls trusted) \<longleftrightarrow>
     (\<exists>rs \<in> {rl_managed ls, rl_user ls} \<union> (if trusted then {rl_project ls} else {}).
        rs_invalid rs \<or> (\<exists>r \<in> set (rs_rules rs). r_action r \<notin> set ACTIONS))"
  "mr_project_ignored (merge_layers ls trusted) \<longleftrightarrow>
     \<not> trusted \<and> (rs_rules (rl_project ls) \<noteq> [] \<or> rs_invalid (rl_project ls))"
  by (auto simp: merge_layers_def merge_layer_def fold_merge_rule empty_merged_def)

end
