(* ===== verification/Paths.thy ===== *)
theory Paths
  imports Rules
begin

text \<open>
  The second half of \<open>m2c/src/m2c/policy/rules.py\<close>: lexical path normalisation against the
  project root (with \<open>posixpath.normpath\<close> of the standard library), path rules, the
  protected paths and the hard denylist of secrets.
\<close>

abbreviation SLASH :: char where "SLASH \<equiv> CHR ''/''"

section \<open>posixpath.normpath\<close>

text \<open>The loop over the components; \<open>abs\<close> says whether the path starts with a slash.\<close>

fun norm_comps :: "bool \<Rightarrow> string list \<Rightarrow> string list \<Rightarrow> string list" where
  "norm_comps absolute [] new = new"
| "norm_comps absolute (c # comps) new =
     (if c = [] \<or> c = ''.'' then norm_comps absolute comps new
      else if c \<noteq> ''..'' \<or> (\<not> absolute \<and> new = []) \<or> (new \<noteq> [] \<and> last new = ''..'')
      then norm_comps absolute comps (new @ [c])
      else if new \<noteq> [] then norm_comps absolute comps (butlast new)
      else norm_comps absolute comps new)"

definition initial_slashes :: "string \<Rightarrow> nat" where
  "initial_slashes p =
     (if \<not> prefix ''/'' p then 0
      else if prefix ''//'' p \<and> \<not> prefix ''///'' p then 2 else 1)"

definition normpath :: "string \<Rightarrow> string" where
  "normpath p =
     (if p = [] then ''.''
      else let k = initial_slashes p;
               r = replicate k SLASH @ join ''/'' (norm_comps (k \<noteq> 0) (split_on SLASH p) [])
           in if r = [] then ''.'' else r)"

section \<open>normalize_path\<close>

definition MAX_PATH_LENGTH :: nat where "MAX_PATH_LENGTH = 4096"
definition UNKNOWN_HOME :: string where "UNKNOWN_HOME = ''/~home''"

record norm_path =
  np_raw :: string
  np_abs :: string
  np_rel :: "string option"

definition np_inside :: "norm_path \<Rightarrow> bool" where
  "np_inside np \<longleftrightarrow> np_rel np \<noteq> None"

definition is_inside :: "string \<Rightarrow> string \<Rightarrow> bool" where
  "is_inside abs_path root \<longleftrightarrow> abs_path = root \<or> prefix (rstrip_char SLASH root @ ''/'') abs_path"

text \<open>Python's \<open>x or y\<close> where \<open>x\<close> is an optional string: the empty string is false too.\<close>

definition or_else :: "string option \<Rightarrow> string \<Rightarrow> string" where
  "or_else x y = (case x of Some v \<Rightarrow> if v = [] then y else v | None \<Rightarrow> y)"

definition expand_home :: "string \<Rightarrow> string option \<Rightarrow> string" where
  "expand_home raw home =
     (if raw = ''~'' \<or> prefix ''~/'' raw then or_else home UNKNOWN_HOME @ tl raw
      else if prefix ''~'' raw then UNKNOWN_HOME @ ''/'' @ raw
      else raw)"

definition clean_abs :: "string \<Rightarrow> string" where
  "clean_abs p = (let n = normpath p in if prefix ''//'' n then SLASH # lstrip_char SLASH n else n)"

definition rel_to :: "string \<Rightarrow> string \<Rightarrow> string option" where
  "rel_to n root =
     (if is_inside n root
      then Some (if n = root then ''.'' else drop (length (rstrip_char SLASH root) + 1) n)
      else None)"

definition normalize_path :: "json \<Rightarrow> string \<Rightarrow> string option \<Rightarrow> string option \<Rightarrow> norm_path option" where
  "normalize_path raw root cwd home =
     (case raw of
        JStr r \<Rightarrow>
          (if r = [] \<or> NUL \<in> set r \<or> MAX_PATH_LENGTH < length r then None
           else let p = expand_home r home;
                    q = (if prefix ''/'' p then p else or_else cwd root @ ''/'' @ p);
                    n = clean_abs q
                in Some \<lparr>np_raw = r, np_abs = n, np_rel = rel_to n root\<rparr>)
      | _ \<Rightarrow> None)"

section \<open>Path rules\<close>

definition drop_dot_slash :: "string \<Rightarrow> string" where
  "drop_dot_slash s = (if prefix ''./'' s then drop 2 s else s)"

text \<open>The texts a path rule is matched against.\<close>

definition path_texts :: "string \<Rightarrow> norm_path \<Rightarrow> string option \<Rightarrow> bool \<Rightarrow> string list" where
  "path_texts pat np home raw =
     [np_abs np]
     @ (case np_rel np of Some r \<Rightarrow> [r] | None \<Rightarrow> [])
     @ (if raw then [drop_dot_slash (np_raw np)] else [])
     @ (case home of
          Some h \<Rightarrow> if h \<noteq> [] \<and> (np_abs np = h \<or> prefix (rstrip_char SLASH h @ ''/'') (np_abs np))
                     then [CHR ''~'' # drop (length (rstrip_char SLASH h)) (np_abs np)] else []
        | None \<Rightarrow> [])
     @ (if SLASH \<notin> set pat then [basename (np_abs np)] else [])"

definition match_path_rule_texts :: "string \<Rightarrow> norm_path \<Rightarrow> string option \<Rightarrow> bool \<Rightarrow> bool" where
  "match_path_rule_texts pattern np home raw =
     (let pat = drop_dot_slash pattern
      in \<exists>t \<in> set (path_texts pat np home raw). pattern_matches pat t)"

definition first_path_match ::
    "rule list \<Rightarrow> string list \<Rightarrow> norm_path \<Rightarrow> string option \<Rightarrow> bool \<Rightarrow> rule option" where
  "first_path_match rules tools np home raw =
     find (\<lambda>r. r_tool r \<in> set tools \<and> match_path_rule_texts (r_pattern r) np home raw) rules"

section \<open>Protected paths\<close>

definition PROTECTED_COMPONENTS :: "string list" where
  "PROTECTED_COMPONENTS = [''.git'', ''.m2c'']"

definition PROTECTED_BASENAMES :: "string list" where
  "PROTECTED_BASENAMES =
    [''.bashrc'', ''.bash_profile'', ''.bash_login'', ''.bash_logout'', ''.profile'',
     ''.zshrc'', ''.zshenv'', ''.zprofile'', ''.zlogin'', ''.zlogout'', ''.cshrc'',
     ''.tcshrc'', ''.login'', ''.logout'', ''.kshrc'', ''.inputrc'', ''.xprofile'',
     ''.xinitrc'', ''.xsession'', ''.gitconfig'', ''.envrc'', ''.direnv'']"

definition PROTECTED_ABS :: "string list" where
  "PROTECTED_ABS = [''/etc/profile'', ''/etc/bash.bashrc'', ''/etc/zshrc'', ''/etc/environment'']"

definition PROTECTED_TAILS :: "string list" where
  "PROTECTED_TAILS = [''/.config/fish/config.fish'', ''/etc/profile.d'']"

definition is_protected_path :: "norm_path \<Rightarrow> bool" where
  "is_protected_path np =
     (let low = casefold (np_abs np); parts = split_on SLASH low
      in if \<exists>p \<in> set parts. p \<in> set PROTECTED_COMPONENTS then True
         else if last parts \<in> set PROTECTED_BASENAMES \<or> low \<in> set PROTECTED_ABS then True
         else \<exists>t \<in> set PROTECTED_TAILS. suffix t low
               \<or> contains (''/'' @ lstrip_char SLASH t @ ''/'') (low @ ''/''))"

section \<open>The hard denylist of secrets\<close>

definition SECRET_DIRS :: "string list" where
  "SECRET_DIRS = [''.ssh'', ''.gnupg'', ''.aws'', ''.kube'', ''.azure'', ''.password-store'']"

definition SECRET_NAMES :: "string list" where
  "SECRET_NAMES =
    [''.netrc'', ''_netrc'', ''.npmrc'', ''.pypirc'', ''.git-credentials'', ''.pgpass'',
     ''authorized_keys'', ''.vault-token'', ''.htpasswd'', ''.boto'', ''.s3cfg'', ''.my.cnf'',
     ''.dockercfg'', ''.secrets'', ''secrets.yml'', ''secrets.yaml'', ''secrets.json'',
     ''kubeconfig'', ''credentials.json'', ''terraform.tfstate'']"

definition SECRET_SUFFIXES :: "string list" where
  "SECRET_SUFFIXES = [''.pem'', ''.p12'', ''.pfx'', ''.jks'', ''.keystore'', ''.key'', ''.ppk'',
     ''.kdbx'', ''.gpg'', ''.asc'', ''.tfstate'']"

definition BACKUP_SUFFIXES :: "string list" where
  "BACKUP_SUFFIXES = [''.bak'', ''.old'', ''.orig'', ''.save'', ''.swp'', ''.swo'', ''.tmp'', ''.backup'', ''~'']"

definition KEY_PREFIXES :: "string list" where
  "KEY_PREFIXES = [''id_rsa'', ''id_dsa'', ''id_ecdsa'', ''id_ed25519'', ''id_xmss'']"

definition ENV_EXEMPT_SUFFIXES :: "string list" where
  "ENV_EXEMPT_SUFFIXES = [''.example'', ''.sample'', ''.template'', ''.dist'']"

definition SECRET_ABS :: "string list" where
  "SECRET_ABS = [''/etc/shadow'', ''/etc/gshadow'', ''/etc/sudoers'', ''/etc/security/opasswd'']"

text \<open>The set of sample names; the source sorts it, and only membership is ever asked.\<close>

definition SECRET_SAMPLES :: "string list" where
  "SECRET_SAMPLES = SECRET_DIRS @ SECRET_NAMES @
    [''.env'', ''.env.local'', ''.env.production'', ''.env-prod'', ''.envrc'', ''.docker'',
     ''.vault-token'', ''id_rsa'', ''id_ed25519'', ''id_ecdsa'', ''id_dsa'', ''key.pem'',
     ''cert.p12'', ''cert.pfx'', ''server.key'', ''store.jks'', ''app.keystore'', ''key.ppk'',
     ''db.kdbx'', ''credentials'', ''x.gpg'', ''x.asc'', ''x.tfstate'']"

text \<open>One step and one pass of the backup-suffix loop, and the loop itself.\<close>

definition strip_suffix :: "string \<Rightarrow> string \<Rightarrow> string" where
  "strip_suffix suf b = (if length suf < length b \<and> suffix suf b then take (length b - length suf) b else b)"

definition strip_pass :: "string \<Rightarrow> string" where
  "strip_pass b = fold strip_suffix BACKUP_SUFFIXES b"

lemma strip_suffix_length: "length (strip_suffix suf b) \<le> length b"
  by (simp add: strip_suffix_def)

lemma strip_suffix_shrinks:
  "suf \<noteq> [] \<Longrightarrow> strip_suffix suf b \<noteq> b \<Longrightarrow> length (strip_suffix suf b) < length b"
  by (auto simp: strip_suffix_def split: if_splits)

lemma fold_strip_length: "length (fold strip_suffix sufs b) \<le> length b"
  by (induction sufs arbitrary: b) (auto intro: order_trans strip_suffix_length)

lemma fold_strip_shrinks:
  "[] \<notin> set sufs \<Longrightarrow> fold strip_suffix sufs b \<noteq> b \<Longrightarrow> length (fold strip_suffix sufs b) < length b"
proof (induction sufs arbitrary: b)
  case (Cons suf sufs)
  show ?case
  proof (cases "strip_suffix suf b = b")
    case True
    with Cons show ?thesis by simp
  next
    case False
    with Cons.prems have "length (strip_suffix suf b) < length b" by (auto intro: strip_suffix_shrinks)
    then show ?thesis using fold_strip_length [of sufs "strip_suffix suf b"] by simp
  qed
qed simp

lemma strip_pass_shrinks: "strip_pass b \<noteq> b \<Longrightarrow> length (strip_pass b) < length b"
  unfolding strip_pass_def by (rule fold_strip_shrinks) (simp add: BACKUP_SUFFIXES_def)

function strip_backups :: "string \<Rightarrow> string" where
  "strip_backups b = (if strip_pass b = b then b else strip_backups (strip_pass b))"
  by pat_completeness auto
termination
  by (relation "measure length") (auto intro: strip_pass_shrinks)

declare strip_backups.simps [simp del]

text \<open>The loop over \<open>parts[:-1]\<close>: a component with its successor and the last component.\<close>

fun secret_pairs :: "string list \<Rightarrow> string \<Rightarrow> bool" where
  "secret_pairs (p # q # ps) base =
     (p = ''.config'' \<and> q = ''gcloud'' \<or> p = ''.config'' \<and> q = ''gh''
      \<or> p = ''.docker'' \<and> base = ''config.json'' \<or> p = ''.m2c'' \<and> prefix ''credential'' base
      \<or> secret_pairs (q # ps) base)"
| "secret_pairs _ base = False"

definition has_suffix_of :: "string list \<Rightarrow> string \<Rightarrow> bool" where
  "has_suffix_of sufs s \<longleftrightarrow> (\<exists>x \<in> set sufs. suffix x s)"

definition has_prefix_of :: "string list \<Rightarrow> string \<Rightarrow> bool" where
  "has_prefix_of pres s \<longleftrightarrow> (\<exists>x \<in> set pres. prefix x s)"

definition is_secret_path :: "norm_path \<Rightarrow> bool" where
  "is_secret_path np =
     (let parts0 = filter (\<lambda>p. p \<noteq> []) (split_on SLASH (casefold (np_abs np)))
      in if parts0 = [] then False
         else let parts = butlast parts0 @ [strip_backups (last parts0)];
                  base = last parts;
                  low = ''/'' @ join ''/'' parts
              in if low \<in> set SECRET_ABS \<or> prefix ''/etc/sudoers.d/'' low then True
                 else if \<exists>p \<in> set parts. p \<in> set SECRET_DIRS then True
                 else if secret_pairs parts base then True
                 else if prefix ''.env'' base \<and> \<not> has_suffix_of ENV_EXEMPT_SUFFIXES base then True
                 else if base \<in> set SECRET_NAMES \<or> has_suffix_of SECRET_SUFFIXES base then True
                 else if has_prefix_of KEY_PREFIXES base \<and> \<not> suffix ''.pub'' base then True
                 else if hd parts = ''proc'' \<and> base \<in> {''environ'', ''mem''} then True
                 else False)"

section \<open>Path rules as a lookup\<close>

type_synonym path_query = "string list \<times> norm_path \<times> string option \<times> bool"

definition path_hits :: "rule \<Rightarrow> path_query \<Rightarrow> bool" where
  "path_hits r q = (case q of (tools, np, home, raw) \<Rightarrow>
     r_tool r \<in> set tools \<and> match_path_rule_texts (r_pattern r) np home raw)"

interpretation pth: rule_lookup
    "\<lambda>rs (tools, np, home, raw). first_path_match rs tools np home raw" path_hits
proof (unfold_locales, goal_cases)
  case (1 rs q r)
  then show ?case by (auto simp: first_path_match_def path_hits_def find_Some_iff split: prod.splits)
next
  case (2 rs q)
  then show ?case by (auto simp: first_path_match_def path_hits_def find_None_iff split: prod.splits)
qed

end
