(* ===== verification/Verdicts.thy ===== *)
theory Verdicts
  imports Modes Paths
begin

text \<open>
  The vocabulary of \<open>m2c/src/m2c/policy/decide.py\<close>: requests, contexts, decisions, the
  verdict constructors, \<open>_worst\<close>, \<open>_finalize\<close>, the validation of a request and the decision
  for one path.
\<close>

section \<open>Public types\<close>

text \<open>A request object, a mapping with the same keys, or anything else.\<close>

datatype request_arg =
    Request json json json
  | Request_mapping "(string \<times> json) list"
  | Not_a_request

text \<open>\<open>cx_layers\<close> is \<open>None\<close> for an object that is not a \<open>RuleLayers\<close>.\<close>

record context_arg =
  cx_mode :: string
  cx_layers :: "rule_layers option"
  cx_project_root :: string
  cx_project_trusted :: bool
  cx_non_interactive :: bool
  cx_tainted :: bool
  cx_home :: "string option"
  cx_cwd :: "string option"

record decision =
  d_action :: action
  d_reason :: string
  d_matched_rule :: "string option"
  d_risk :: "string option"
  d_basis :: "string option"

record verdict =
  v_action :: action
  v_reason :: string
  v_rule :: "string option"
  v_basis :: "string option"

section \<open>Verdict constructors\<close>

definition deny_v :: "string \<Rightarrow> string option \<Rightarrow> verdict" where
  "deny_v reason r = \<lparr>v_action = Deny, v_reason = reason, v_rule = r, v_basis = None\<rparr>"

definition ask_v :: "string \<Rightarrow> string option \<Rightarrow> verdict" where
  "ask_v reason r = \<lparr>v_action = Ask, v_reason = reason, v_rule = r, v_basis = None\<rparr>"

definition layer_raw :: "rule \<Rightarrow> string" where
  "layer_raw r = r_layer r @ '':'' @ rule_raw r"

definition allow_rule :: "rule \<Rightarrow> verdict" where
  "allow_rule r = \<lparr>v_action = Allow, v_reason = ''allowed by rule '' @ layer_raw r,
     v_rule = Some (rule_label r), v_basis = Some ''rule''\<rparr>"

definition allow_mode :: "string \<Rightarrow> verdict" where
  "allow_mode reason = \<lparr>v_action = Allow, v_reason = reason, v_rule = None, v_basis = Some ''mode''\<rparr>"

definition deny_by :: "rule \<Rightarrow> verdict" where
  "deny_by r = deny_v (''denied by rule '' @ layer_raw r) (Some (rule_label r))"

definition ask_by :: "rule \<Rightarrow> verdict" where
  "ask_by r = ask_v (''rule '' @ layer_raw r @ '' requires approval'') (Some (rule_label r))"

fun rank :: "action \<Rightarrow> nat" where
  "rank Deny = 2" | "rank Ask = 1" | "rank Allow = 0"

text \<open>Actions are ordered by their rank: allow below ask below deny.\<close>

instantiation action :: linorder
begin

definition less_eq_action :: "action \<Rightarrow> action \<Rightarrow> bool" where
  "a \<le> b \<longleftrightarrow> rank a \<le> rank b"

definition less_action :: "action \<Rightarrow> action \<Rightarrow> bool" where
  "a < b \<longleftrightarrow> rank a < rank b"

instance
proof
  fix a b c :: action
  show "a < b \<longleftrightarrow> a \<le> b \<and> \<not> b \<le> a" by (auto simp: less_eq_action_def less_action_def)
  show "a \<le> a" by (simp add: less_eq_action_def)
  show "a \<le> b \<Longrightarrow> b \<le> c \<Longrightarrow> a \<le> c" by (simp add: less_eq_action_def)
  show "a \<le> b \<Longrightarrow> b \<le> a \<Longrightarrow> a = b" by (cases a; cases b) (simp_all add: less_eq_action_def)
  show "a \<le> b \<or> b \<le> a" by (auto simp: less_eq_action_def)
qed

end

text \<open>\<open>_worst\<close> of a non-empty list, given as its head and its tail.\<close>

fun worst :: "verdict \<Rightarrow> verdict list \<Rightarrow> verdict" where
  "worst best [] = best"
| "worst best (v # vs) = worst (if rank (v_action best) < rank (v_action v) then v else best) vs"

definition finalize :: "verdict \<Rightarrow> context_arg \<Rightarrow> merged_rules \<Rightarrow> string option \<Rightarrow> decision" where
  "finalize v ctx merged risk =
    (let explained = (v_basis v = Some ''rule'' \<and> v_rule v \<noteq> None \<and> v_rule v \<noteq> Some [])
                      \<or> v_basis v = Some ''mode'';
         w = (if v_action v = Allow then
                (if \<not> explained then deny_v ''internal check: allow without a rule or mode'' None
                 else if mr_invalid merged then
                   ask_v ''a settings file could not be read safely, so nothing is auto-allowed'' None
                 else v)
              else v);
         basis = (if v_action w \<noteq> Allow then None else v_basis w)
     in if v_action w = Ask \<and> cx_non_interactive ctx
        then \<lparr>d_action = Deny,
              d_reason = ''approval is needed but this run is non-interactive: '' @ v_reason w,
              d_matched_rule = v_rule w, d_risk = risk, d_basis = basis\<rparr>
        else \<lparr>d_action = v_action w, d_reason = v_reason w, d_matched_rule = v_rule w,
              d_risk = risk, d_basis = basis\<rparr>)"

section \<open>Request validation\<close>

definition MAX_TEXT :: nat where "MAX_TEXT = 4 * 1024 * 1024"

definition BOUNDS :: "string \<rightharpoonup> int \<times> int option" where
  "BOUNDS = map_of
    [(''timeout_s'', (1, Some 3600)), (''start_line'', (1, None)), (''end_line'', (1, None)),
     (''max_depth'', (1, Some 8)), (''max_results'', (1, Some 2000)),
     (''context_lines'', (0, Some 10)), (''max_matches'', (1, Some 1000))]"

definition type_ok :: "json \<Rightarrow> arg_type \<Rightarrow> bool" where
  "type_ok v want = (case (want, v) of
      (TBool, JBool _) \<Rightarrow> True | (TInt, JInt _) \<Rightarrow> True | (TStr, JStr _) \<Rightarrow> True | _ \<Rightarrow> False)"

definition too_large :: "json \<Rightarrow> bool" where
  "too_large v = (case v of JStr s \<Rightarrow> MAX_TEXT < length s | _ \<Rightarrow> False)"

text \<open>Only integer arguments have bounds, and the type was checked just before.\<close>

definition out_of_range :: "string \<Rightarrow> json \<Rightarrow> bool" where
  "out_of_range k v = (case (BOUNDS k, v) of
      (Some (lo, hi), JInt n) \<Rightarrow> n < lo \<or> (case hi of Some h \<Rightarrow> h < n | None \<Rightarrow> False)
    | _ \<Rightarrow> False)"

fun validate_values :: "(string \<rightharpoonup> arg_type) \<Rightarrow> (string \<times> json) list \<Rightarrow> string option" where
  "validate_values types [] = None"
| "validate_values types ((k, v) # kvs) =
    (if \<not> (case types k of Some t \<Rightarrow> type_ok v t | None \<Rightarrow> False)
     then Some ''tool input has an argument of the wrong type''
     else if too_large v then Some ''tool input argument is too large''
     else if out_of_range k v then Some ''tool input argument is out of range''
     else validate_values types kvs)"

definition validate :: "tool_spec \<Rightarrow> json \<Rightarrow> string option" where
  "validate spec inp =
    (case inp of
       JObj kvs \<Rightarrow>
         (if \<exists>k \<in> set (map fst kvs). map_of (ts_types spec) k = None
          then Some ''tool input has an unknown argument''
          else if \<exists>k \<in> set (ts_required spec). k \<notin> set (map fst kvs)
          then Some ''tool input is missing a required argument''
          else validate_values (map_of (ts_types spec)) kvs)
     | _ \<Rightarrow> Some ''tool input is not an object'')"

definition client_risk :: "tool_spec \<Rightarrow> bool \<Rightarrow> string" where
  "client_risk spec outside =
     (if ts_name spec = ''delete_path'' then (if outside then ''R4'' else ''R1'') else ts_risk spec)"

section \<open>One path, one decision\<close>

record env =
  e_ctx :: context_arg
  e_merged :: merged_rules
  e_root :: string
  e_eff :: string

definition path_verdict :: "env \<Rightarrow> string list \<Rightarrow> string \<Rightarrow> norm_path \<Rightarrow> verdict" where
  "path_verdict env tools tool_class np =
    (let ctx = e_ctx env; merged = e_merged env; mutating = tool_class \<in> {EDIT, DELETE} in
     if is_secret_path np then deny_v ''this path is on the hard denylist of secrets'' None
     else if mutating \<and> is_protected_path np
     then deny_v ''protected path (.git, .m2c, shell start-up files) is read-only'' None
     else case first_path_match (mr_deny merged) tools np (cx_home ctx) True of
       Some r \<Rightarrow> deny_by r
     | None \<Rightarrow>
     if mutating \<and> cx_mode ctx = ''plan'' then deny_v ''plan mode does not allow changes'' None
     else if tool_class = DELETE \<and> np_rel np = Some ''.''
     then ask_v ''this would delete the whole project and needs approval'' None
     else case first_path_match (mr_ask merged) tools np (cx_home ctx) True of
       Some r \<Rightarrow> ask_by r
     | None \<Rightarrow>
     if \<not> np_inside np then ask_v ''path is outside the project and needs approval'' None
     else case first_path_match (mr_allow merged) tools np (cx_home ctx) False of
       Some r \<Rightarrow> allow_rule r
     | None \<Rightarrow>
     (let md = mode_default (cx_mode ctx) tool_class (e_eff env) True False in
      case md_action md of
        Allow \<Rightarrow> allow_mode (md_reason md)
      | Ask \<Rightarrow> ask_v (md_reason md) None
      | Deny \<Rightarrow> deny_v (md_reason md) None))"

definition UNKNOWN_CWD :: string where
  "UNKNOWN_CWD = ''/'' @ [CHR 0x01] @ ''unknown-cwd''"

definition norm :: "env \<Rightarrow> json \<Rightarrow> string option \<Rightarrow> norm_path option" where
  "norm env raw cwd = normalize_path raw (e_root env) (Some (or_else cwd UNKNOWN_CWD)) (cx_home (e_ctx env))"

section \<open>File tools\<close>

definition PATTERN_STOP :: string where "PATTERN_STOP = ''*?[{''"

definition has_char_of :: "string \<Rightarrow> string \<Rightarrow> bool" where
  "has_char_of cs s \<longleftrightarrow> (\<exists>c \<in> set cs. c \<in> set s)"

definition pattern_dir :: "string \<Rightarrow> string option" where
  "pattern_dir pattern =
    (let parts = split_on SLASH pattern in
     if \<not> (prefix ''/'' pattern \<or> prefix ''~'' pattern \<or> ''..'' \<in> set parts) then None
     else let d = join ''/'' (takeWhile (\<lambda>c. \<not> has_char_of PATTERN_STOP c) parts)
          in Some (if d \<noteq> [] then d else if prefix ''/'' pattern then ''/'' else ''.''))"

text \<open>The pattern argument that \<open>glob\<close> and \<open>grep\<close> carry.\<close>

definition extra_pattern :: "string \<Rightarrow> (string \<times> json) list \<Rightarrow> string option" where
  "extra_pattern name kvs =
    (let v = (if name = ''glob'' then table_get kvs ''pattern'' JNull
              else if name = ''grep'' then table_get kvs ''glob'' JNull else JNull)
     in case v of JStr s \<Rightarrow> Some s | _ \<Rightarrow> None)"

definition mixes_dots :: "string \<Rightarrow> verdict list" where
  "mixes_dots p =
     (if contains ''..'' p \<and> has_char_of PATTERN_STOP p
      then [ask_v ''a pattern that mixes .. with wildcards may leave the project'' None] else [])"

text \<open>
  \<open>_decide_file_tool\<close>. \<open>inp["path"]\<close> raises \<open>KeyError\<close> when it is missing: \<open>None\<close>.
\<close>

definition path_argument :: "string \<Rightarrow> (string \<times> json) list \<Rightarrow> json option" where
  "path_argument name kvs =
     (if name \<in> {''read_file'', ''edit_file'', ''write_file'', ''delete_path''}
      then map_of kvs ''path'' else Some (table_get kvs ''path'' (JStr ''.'')))"

definition decide_file_tool :: "env \<Rightarrow> tool_spec \<Rightarrow> (string \<times> json) list \<Rightarrow> verdict option" where
  "decide_file_tool env spec kvs =
    (let name = ts_name spec; cls = ts_class spec;
         cwd = Some (or_else (cx_cwd (e_ctx env)) (e_root env)) in
     case path_argument name kvs of
       None \<Rightarrow> None
     | Some raw \<Rightarrow>
        (case norm env raw cwd of
           None \<Rightarrow> Some (deny_v ''path is empty, too long or malformed'' None)
         | Some np \<Rightarrow>
            (let v = path_verdict env [name] cls np in
             case extra_pattern name kvs of
               None \<Rightarrow> Some (worst v [])
             | Some extra \<Rightarrow>
                (case pattern_dir extra of
                   None \<Rightarrow> Some (worst v (mixes_dots extra))
                 | Some d \<Rightarrow>
                    (case norm env (JStr d) cwd of
                       None \<Rightarrow> Some (deny_v ''path pattern is malformed'' None)
                     | Some np' \<Rightarrow>
                         Some (worst v (mixes_dots extra @ [path_verdict env [name] READ np'])))))))"

section \<open>The strictest verdict\<close>

locale strictest =
  fixes strict :: "'v \<Rightarrow> nat"
    and pick :: "'v \<Rightarrow> 'v list \<Rightarrow> 'v"
  assumes pick_in: "pick v vs \<in> set (v # vs)"
    and pick_max: "x \<in> set (v # vs) \<Longrightarrow> strict x \<le> strict (pick v vs)"
begin

lemma strict_pick: "strict (pick v vs) = Max (strict ` set (v # vs))"
proof (rule Max_eqI [symmetric])
  show "finite (strict ` set (v # vs))" by simp
  show "strict (pick v vs) \<in> strict ` set (v # vs)" using pick_in [of v vs] by blast
  fix y assume "y \<in> strict ` set (v # vs)"
  then show "y \<le> strict (pick v vs)" using pick_max by blast
qed

lemma pick_le_iff: "strict (pick v vs) \<le> n \<longleftrightarrow> (\<forall>x \<in> set (v # vs). strict x \<le> n)"
  by (simp add: strict_pick)

lemma pick_ge_iff: "n \<le> strict (pick v vs) \<longleftrightarrow> (\<exists>x \<in> set (v # vs). n \<le> strict x)"
  using pick_in [of v vs] pick_max [of _ v vs] by (meson order_trans)

text \<open>\<open>vs\<close> is at most as strict as \<open>ws\<close> when each of its verdicts has a stricter one there.\<close>

lemma pick_mono:
  assumes "\<And>x. x \<in> set (v # vs) \<Longrightarrow> \<exists>y \<in> set (w # ws). strict x \<le> strict y"
  shows "strict (pick v vs) \<le> strict (pick w ws)"
  using assms [OF pick_in] pick_max [of _ w ws] by (meson order_trans)

end

definition strictness :: "verdict \<Rightarrow> nat" where
  "strictness v = rank (v_action v)"

lemma worst_in: "worst v vs \<in> set (v # vs)"
proof (induction vs arbitrary: v)
  case (Cons a vs)
  show ?case using Cons [of "if rank (v_action v) < rank (v_action a) then a else v"]
    by (auto split: if_splits)
qed simp

lemma worst_ge_head: "rank (v_action v) \<le> rank (v_action (worst v vs))"
proof (induction vs arbitrary: v)
  case (Cons a vs)
  show ?case using Cons [of "if rank (v_action v) < rank (v_action a) then a else v"]
    by (auto split: if_splits)
qed simp

lemma worst_max: "x \<in> set (v # vs) \<Longrightarrow> rank (v_action x) \<le> rank (v_action (worst v vs))"
proof (induction vs arbitrary: v)
  case (Cons a vs)
  let ?b = "if rank (v_action v) < rank (v_action a) then a else v"
  show ?case
  proof (cases "x \<in> set vs")
    case True
    then show ?thesis using Cons.IH [of ?b] by simp
  next
    case False
    then have "rank (v_action x) \<le> rank (v_action ?b)" using Cons.prems by auto
    then show ?thesis using worst_ge_head [of ?b vs] by simp
  qed
qed simp

interpretation vd: strictest strictness worst
proof
  show "worst v vs \<in> set (v # vs)" for v vs by (rule worst_in)
  show "strictness x \<le> strictness (worst v vs)" if "x \<in> set (v # vs)" for x v vs
    unfolding strictness_def using that by (rule worst_max)
qed

lemma strictness_simps [simp]:
  "strictness (deny_v s r) = 2" "strictness (ask_v s r) = 1" "strictness (allow_rule q) = 0"
  "strictness (allow_mode s) = 0" "strictness (deny_by q) = 2" "strictness (ask_by q) = 1"
  by (simp_all add: strictness_def deny_v_def ask_v_def allow_rule_def allow_mode_def deny_by_def ask_by_def)

lemma rank_le_2 [simp]: "rank a \<le> 2"
  by (cases a) simp_all

lemma strictness_le_2 [simp]: "strictness v \<le> 2"
  by (simp add: strictness_def)

lemma rank_eq_iff [simp]: "rank a = 0 \<longleftrightarrow> a = Allow" "rank a = Suc 0 \<longleftrightarrow> a = Ask" "rank a = 2 \<longleftrightarrow> a = Deny"
  by (cases a; simp)+

lemma strictness_eq_iff:
  "strictness v = 0 \<longleftrightarrow> v_action v = Allow" "strictness v = 2 \<longleftrightarrow> v_action v = Deny"
  by (simp_all add: strictness_def)

lemma worst_allow_iff: "v_action (worst v vs) = Allow \<longleftrightarrow> (\<forall>x \<in> set (v # vs). v_action x = Allow)"
  using vd.pick_le_iff [of v vs 0] by (simp add: strictness_def)

lemma worst_deny_iff: "v_action (worst v vs) = Deny \<longleftrightarrow> (\<exists>x \<in> set (v # vs). v_action x = Deny)"
proof -
  have two: "2 \<le> strictness x \<longleftrightarrow> v_action x = Deny" for x
    by (cases "v_action x") (simp_all add: strictness_def)
  show ?thesis using vd.pick_ge_iff [of 2 v vs] unfolding two .
qed

section \<open>The decision for one path, by cases\<close>

lemma path_verdict_secret:
  "is_secret_path np \<Longrightarrow> v_action (path_verdict env tools cls np) = Deny"
  by (simp add: path_verdict_def Let_def deny_v_def)

lemma path_verdict_allow_iff:
  "v_action (path_verdict env tools cls np) = Allow \<longleftrightarrow>
     \<not> is_secret_path np \<and> np_inside np
     \<and> first_path_match (mr_deny (e_merged env)) tools np (cx_home (e_ctx env)) True = None
     \<and> first_path_match (mr_ask (e_merged env)) tools np (cx_home (e_ctx env)) True = None
     \<and> (cls \<in> {EDIT, DELETE} \<longrightarrow> \<not> is_protected_path np \<and> cx_mode (e_ctx env) \<noteq> ''plan'')
     \<and> \<not> (cls = DELETE \<and> np_rel np = Some ''.'')
     \<and> (first_path_match (mr_allow (e_merged env)) tools np (cx_home (e_ctx env)) False \<noteq> None
        \<or> md_action (mode_default (cx_mode (e_ctx env)) cls (e_eff env) True False) = Allow)"
  by (auto simp: path_verdict_def Let_def deny_v_def ask_v_def allow_rule_def allow_mode_def deny_by_def
        ask_by_def split: option.splits action.splits)

end
