(* ===== verification/ShellScan.thy ===== *)
theory ShellScan
  imports Prelude
begin

text \<open>
  The result types and the low-level scanners of \<open>m2c/src/m2c/policy/shellparse.py\<close>: words,
  redirections, parts, the functions that look for the end of a quotation or substitution,
  and the word builder. Python's lists used as stacks grow at the head here.
\<close>

section \<open>Constants\<close>

definition MAX_LENGTH :: nat where "MAX_LENGTH = 65536"
definition MAX_DEPTH :: nat where "MAX_DEPTH = 12"
definition MAX_PARTS :: nat where "MAX_PARTS = 256"
definition MAX_WORK :: nat where "MAX_WORK = 8 * MAX_LENGTH"

definition name_char :: "char \<Rightarrow> bool" where
  "name_char c \<longleftrightarrow> ascii_alpha c \<or> ascii_digit c \<or> c = CHR ''_''"

definition STRONG :: "string list" where
  "STRONG = [''&&'', ''||'', ''|'', ''|&'']"

definition SPECIAL_PARAMS :: string where
  "SPECIAL_PARAMS = ''@*#?$!-0123456789''"

definition REDUCERS :: "string list" where
  "REDUCERS = [''if'', ''then'', ''else'', ''elif'', ''while'', ''until'', ''do'']"

definition KEYWORDS :: "string list" where
  "KEYWORDS = [''for'', ''case'', ''select'', ''function'', ''coproc'', ''fi'', ''done'', ''esac'', ''[['', ''(('', ''in'']"

definition SHELLS :: "string list" where
  "SHELLS = [''sh'', ''bash'', ''dash'', ''zsh'', ''ksh'', ''ash'', ''fish'', ''csh'', ''tcsh'', ''mksh'', ''rbash'', ''yash'']"

definition OPAQUE :: "string list" where
  "OPAQUE =
    [''watch'', ''script'', ''scriptreplay'', ''parallel'', ''flock'', ''chroot'', ''strace'', ''ltrace'',
     ''gdb'', ''valgrind'', ''taskset'', ''numactl'', ''fakeroot'', ''ssh'', ''docker'', ''podman'',
     ''kubectl'', ''bwrap'', ''nsenter'', ''unshare'', ''runuser'', ''setpriv'', ''busybox'', ''at'',
     ''batch'', ''crontab'', ''unbuffer'', ''proot'', ''nix-shell'', ''firejail'', ''systemd-run'',
     ''expect'', ''socat'', ''tmux'', ''screen'', ''dbus-launch'', ''gosu'', ''chpst'', ''start-stop-daemon'',
     ''chrt'', ''eatmydata'', ''xvfb-run'', ''sshpass'', ''setarch'', ''linux32'', ''linux64'', ''schedtool'',
     ''cgexec'', ''faketime'', ''torsocks'', ''proxychains'', ''proxychains4'', ''tsocks'', ''caffeinate'',
     ''runcon'', ''nsjail'', ''apptainer'', ''singularity'', ''lxc'', ''lxc-attach'', ''flatpak'', ''wine'',
     ''mpirun'', ''mpiexec'', ''sg'', ''newgrp'', ''run-parts'', ''trap'', ''alias'', ''coproc'', ''entr'',
     ''inotifywait'', ''inotifywatch'', ''parallel'', ''xdotool'', ''xterm'', ''gnome-terminal'', ''konsole'',
     ''env-update'', ''nsenter'', ''systemd-nspawn'', ''machinectl'', ''su-exec'', ''ts'', ''chronic'', ''vipe'']"

section \<open>Result types\<close>

record word =
  w_text :: string
  w_expands :: bool
  w_glob :: bool
  w_quoted :: bool
  w_is_assign :: bool

definition literal :: "word \<Rightarrow> bool" where
  "literal w \<longleftrightarrow> \<not> w_expands w \<and> \<not> w_glob w"

record redirect =
  rd_op :: string
  rd_fd :: "string option"
  rd_target :: "word option"

text \<open>\<open>_ascii_digits\<close>: a non-empty run of ASCII digits.\<close>

definition ascii_digits :: "string \<Rightarrow> bool" where
  "ascii_digits t \<longleftrightarrow> t \<noteq> [] \<and> list_all ascii_digit t"

definition target_text :: "redirect \<Rightarrow> string" where
  "target_text rd = (case rd_target rd of Some w \<Rightarrow> w_text w | None \<Rightarrow> [])"

definition writes_file :: "redirect \<Rightarrow> bool" where
  "writes_file rd =
     (if rd_op rd \<in> {''>'', ''>>'', ''>|'', ''<>'', ''&>'', ''&>>''} then True
      else if rd_op rd = ''>&''
      then \<not> (target_text rd = ''-'' \<or>
              ascii_digits (target_text rd) \<and> (case rd_target rd of Some w \<Rightarrow> literal w | None \<Rightarrow> False))
      else False)"

definition reads_file :: "redirect \<Rightarrow> bool" where
  "reads_file rd =
     (if rd_op rd \<in> {''<'', ''<>''} then True
      else if rd_op rd = ''<&'' then \<not> (target_text rd = ''-'' \<or> ascii_digits (target_text rd))
      else False)"

record part =
  p_argv :: "word list"
  p_assigns :: "word list"
  p_redirects :: "redirect list"
  p_unknown :: "string list"
  p_wrapper :: "string option"
  p_via :: "string list"

definition part_command :: "part \<Rightarrow> string option" where
  "part_command p = (case p_argv p of [] \<Rightarrow> None | w # _ \<Rightarrow> Some (w_text w))"

definition part_name :: "part \<Rightarrow> string option" where
  "part_name p = map_option basename (part_command p)"

definition part_text :: "part \<Rightarrow> string" where
  "part_text p = join '' '' (map w_text (p_argv p))"

definition part_full_text :: "part \<Rightarrow> string" where
  "part_full_text p = join '' '' (map w_text (p_assigns p) @ map w_text (p_argv p))"

record parse_result =
  pr_parts :: "part list"
  pr_unknown :: "string list"

definition certain :: "parse_result \<Rightarrow> bool" where
  "certain r \<longleftrightarrow> pr_unknown r = [] \<and> \<not> (\<exists>p \<in> set (pr_parts r). p_unknown p \<noteq> [])"

definition reasons :: "parse_result \<Rightarrow> string list" where
  "reasons r = dedup (pr_unknown r @ concat (map p_unknown (pr_parts r)))"

lemma reasons_empty_iff: "reasons r = [] \<longleftrightarrow> certain r"
  by (auto simp: reasons_def certain_def)

section \<open>Ends of quotations and substitutions\<close>

text \<open>\<open>_find_backtick\<close> and \<open>_find_ansi_quote\<close>: the next \<open>d\<close> that no backslash escapes.\<close>

function find_unescaped :: "char \<Rightarrow> string \<Rightarrow> nat \<Rightarrow> nat option" where
  "find_unescaped d s j =
     (if length s \<le> j then None
      else if s ! j = BSL then find_unescaped d s (j + 2)
      else if s ! j = d then Some j
      else find_unescaped d s (j + 1))"
  by pat_completeness auto
termination
  by (relation "measure (\<lambda>(d, s, j). length s - j)") auto

declare find_unescaped.simps [simp del]

definition find_backtick :: "string \<Rightarrow> nat \<Rightarrow> nat option" where
  "find_backtick = find_unescaped BTK"

definition find_ansi_quote :: "string \<Rightarrow> nat \<Rightarrow> nat option" where
  "find_ansi_quote = find_unescaped SQ"

lemma find_unescaped_bounds: "find_unescaped d s j = Some k \<Longrightarrow> j \<le> k \<and> k < length s"
proof (induction d s j rule: find_unescaped.induct)
  case (1 d s j)
  then show ?case
    by (auto simp: find_unescaped.simps [of d s j] split: if_splits)
qed

lemma find_backtick_bounds [advance]: "find_backtick s j = Some k \<Longrightarrow> j \<le> k \<and> k < length s"
  by (simp add: find_backtick_def find_unescaped_bounds)

lemma find_ansi_quote_bounds [advance]: "find_ansi_quote s j = Some k \<Longrightarrow> j \<le> k \<and> k < length s"
  by (simp add: find_ansi_quote_def find_unescaped_bounds)

text \<open>The test that makes a substitution body ambiguous: a comment or a \<open>case\<close> at a word start.\<close>

definition word_start :: "string \<Rightarrow> nat \<Rightarrow> nat \<Rightarrow> bool" where
  "word_start s start j \<longleftrightarrow> j = start \<or> s ! (j - 1) \<in> set ('' ;&|('' @ [TAB, NL])"

definition marks_ambiguous :: "string \<Rightarrow> nat \<Rightarrow> nat \<Rightarrow> bool" where
  "marks_ambiguous s start j \<longleftrightarrow>
     s ! j = CHR ''#'' \<and> word_start s start j
     \<or> s ! j = CHR ''c'' \<and> prefix ''case'' (drop j s) \<and> word_start s start j"

text \<open>
  \<open>_find_close\<close>: one turn of its loop, inside double quotes and outside them, with the stack
  of closers still expected (innermost first). A turn either ends the search or goes on.
\<close>

datatype close_turn = Closed "nat option" | Scan "char list" nat

definition skip_to :: "char list \<Rightarrow> nat option \<Rightarrow> close_turn" where
  "skip_to stack found = (case found of None \<Rightarrow> Closed None | Some k \<Rightarrow> Scan stack (k + 1))"

definition close_turn_dq :: "string \<Rightarrow> char list \<Rightarrow> nat \<Rightarrow> close_turn" where
  "close_turn_dq s stack j =
    (let c = s ! j; nxt = char_at s (j + 1) in
     if c = BSL then Scan stack (j + 2)
     else if c = DQ then Scan (tl stack) (j + 1)
     else if c = CHR ''$'' \<and> nxt = Some (CHR ''('') then Scan (CHR '')'' # stack) (j + 2)
     else if c = CHR ''$'' \<and> nxt = Some (CHR ''{'') then Scan (CHR ''}'' # stack) (j + 2)
     else if c = BTK then skip_to stack (find_backtick s (j + 1))
     else Scan stack (j + 1))"

definition close_turn_plain :: "string \<Rightarrow> char list \<Rightarrow> nat \<Rightarrow> close_turn" where
  "close_turn_plain s stack j =
    (let c = s ! j; nxt = char_at s (j + 1) in
     if c = BSL then Scan stack (j + 2)
     else if c = SQ then skip_to stack (find_char SQ s (j + 1))
     else if c = DQ then Scan (DQ # stack) (j + 1)
     else if c = BTK then skip_to stack (find_backtick s (j + 1))
     else if c = CHR ''$'' \<and> nxt = Some (CHR ''('') then Scan (CHR '')'' # stack) (j + 2)
     else if c = CHR ''$'' \<and> nxt = Some (CHR ''{'') then Scan (CHR ''}'' # stack) (j + 2)
     else if c = CHR ''('' \<and> hd stack = CHR '')'' then Scan (CHR '')'' # stack) (j + 1)
     else if c = hd stack then (if tl stack = [] then Closed (Some j) else Scan (tl stack) (j + 1))
     else Scan stack (j + 1))"

text \<open>
  The last branch of the loop (an ordinary character) is also where a comment or \<open>case\<close> is
  noticed; no other branch starts with one of these two characters.
\<close>

definition close_turn :: "string \<Rightarrow> char list \<Rightarrow> nat \<Rightarrow> close_turn" where
  "close_turn s stack j = (if hd stack = DQ then close_turn_dq s stack j else close_turn_plain s stack j)"

lemma close_turn_Scan: "close_turn s stack j = Scan stack' j' \<Longrightarrow> j < j'"
  unfolding close_turn_def close_turn_dq_def close_turn_plain_def Let_def skip_to_def
  by (auto split: if_splits option.splits dest: advance)

lemma close_turn_Closed: "close_turn s stack j = Closed (Some k) \<Longrightarrow> k = j"
  unfolding close_turn_def close_turn_dq_def close_turn_plain_def Let_def skip_to_def
  by (auto split: if_splits option.splits)

function find_close_loop :: "string \<Rightarrow> nat \<Rightarrow> char list \<Rightarrow> nat \<Rightarrow> bool \<Rightarrow> nat option \<times> bool" where
  "find_close_loop s start stack j amb =
    (if length s \<le> j then (None, amb)
     else case close_turn s stack j of
            Closed r \<Rightarrow> (r, amb)
          | Scan stack' j' \<Rightarrow>
              find_close_loop s start stack' j' (amb \<or> hd stack \<noteq> DQ \<and> marks_ambiguous s start j))"
  by pat_completeness auto
termination
  by (relation "measure (\<lambda>(s, start, stack, j, amb). length s - j)") (auto dest: close_turn_Scan)

declare find_close_loop.simps [simp del]

definition find_close :: "string \<Rightarrow> nat \<Rightarrow> nat option \<times> bool" where
  "find_close s start = find_close_loop s start [CHR '')''] start False"

lemma find_close_loop_bounds:
  "fst (find_close_loop s start stack j amb) = Some k \<Longrightarrow> j \<le> k \<and> k < length s"
proof (induction s start stack j amb rule: find_close_loop.induct)
  case (1 s start stack j amb)
  show ?case
  proof (cases "length s \<le> j")
    case True
    with "1.prems" show ?thesis by (simp add: find_close_loop.simps)
  next
    case False
    show ?thesis
    proof (cases "close_turn s stack j")
      case (Closed r)
      with "1.prems" False show ?thesis
        by (auto simp: find_close_loop.simps [of s start stack j] dest: close_turn_Closed)
    next
      case (Scan stack' j')
      with "1.prems" False have "j' \<le> k \<and> k < length s"
        using "1.IH" [OF False Scan] by (simp add: find_close_loop.simps [of s start stack j])
      with close_turn_Scan [OF Scan] show ?thesis by simp
    qed
  qed
qed

lemma find_close_bounds [advance]: "find_close s j = (Some k, amb) \<Longrightarrow> j \<le> k \<and> k < length s"
  using find_close_loop_bounds [of s j "[CHR '')'']" j False k] by (simp add: find_close_def)

text \<open>\<open>_find_brace_close\<close>.\<close>

function brace_close_loop :: "string \<Rightarrow> nat \<Rightarrow> nat \<Rightarrow> nat option" where
  "brace_close_loop s depth j =
    (if length s \<le> j then None
     else if s ! j = BSL then brace_close_loop s depth (j + 2)
     else if s ! j = CHR ''{'' then brace_close_loop s (depth + 1) (j + 1)
     else if s ! j = CHR ''}'' then
       (if depth - 1 = 0 then Some j else brace_close_loop s (depth - 1) (j + 1))
     else brace_close_loop s depth (j + 1))"
  by pat_completeness auto
termination
  by (relation "measure (\<lambda>(s, depth, j). length s - j)") auto

declare brace_close_loop.simps [simp del]

definition find_brace_close :: "string \<Rightarrow> nat \<Rightarrow> nat option" where
  "find_brace_close s start = brace_close_loop s 1 start"

lemma brace_close_loop_bounds: "brace_close_loop s d j = Some k \<Longrightarrow> j \<le> k \<and> k < length s"
proof (induction s d j rule: brace_close_loop.induct)
  case (1 s d j)
  then show ?case
    by (auto simp: brace_close_loop.simps [of s d j] split: if_splits)
qed

lemma find_brace_close_bounds [advance]: "find_brace_close s j = Some k \<Longrightarrow> j \<le> k \<and> k < length s"
  by (simp add: find_brace_close_def brace_close_loop_bounds)

text \<open>\<open>_unescape_backtick\<close>: inside backticks a backslash escapes only a few characters.\<close>

definition backtick_special :: "bool \<Rightarrow> char list" where
  "backtick_special in_dq = (if in_dq then [BTK, BSL, CHR ''$'', DQ] else [BTK, BSL, CHR ''$''])"

fun unescape_backtick :: "bool \<Rightarrow> string \<Rightarrow> string" where
  "unescape_backtick in_dq (c # d # r) =
     (if c = BSL \<and> d \<in> set (backtick_special in_dq) then d # unescape_backtick in_dq r
      else c # unescape_backtick in_dq (d # r))"
| "unescape_backtick in_dq r = r"

section \<open>The word builder\<close>

record word_builder =
  wb_buf :: "string list"
  wb_expands :: bool
  wb_glob :: bool
  wb_quoted :: bool
  wb_brace :: bool
  wb_plain :: bool
  wb_eq :: "nat option"

definition new_builder :: word_builder where
  "new_builder = \<lparr>wb_buf = [], wb_expands = False, wb_glob = False, wb_quoted = False,
     wb_brace = False, wb_plain = True, wb_eq = None\<rparr>"

definition plain_and_eq :: "word_builder \<Rightarrow> char \<Rightarrow> char option \<Rightarrow> bool \<times> nat option" where
  "plain_and_eq wb c nxt =
     (if wb_eq wb = None \<and> wb_plain wb then
        (if name_char c then (\<not> (wb_buf wb = [] \<and> ascii_digit c), None)
         else if c = CHR ''='' \<and> wb_buf wb \<noteq> [] then (False, Some (length (wb_buf wb)))
         else if c = CHR ''+'' \<and> nxt = Some (CHR ''='') \<and> wb_buf wb \<noteq> [] then (True, None)
         else (False, None))
      else (wb_plain wb, wb_eq wb))"

definition add_plain :: "char \<Rightarrow> char option \<Rightarrow> word_builder \<Rightarrow> word_builder" where
  "add_plain c nxt wb =
     (let (pl, eq) = plain_and_eq wb c nxt
      in wb\<lparr>wb_glob := wb_glob wb \<or> c \<in> set ''*?['',
            wb_brace := wb_brace wb \<or> c \<in> set ''{}'',
            wb_plain := pl, wb_eq := eq, wb_buf := wb_buf wb @ [[c]]\<rparr>)"

definition add_quoted :: "string \<Rightarrow> word_builder \<Rightarrow> word_builder" where
  "add_quoted t wb =
     wb\<lparr>wb_quoted := True, wb_plain := wb_plain wb \<and> wb_eq wb \<noteq> None, wb_buf := wb_buf wb @ [t]\<rparr>"

definition add_expansion :: "string \<Rightarrow> word_builder \<Rightarrow> word_builder" where
  "add_expansion t wb =
     wb\<lparr>wb_expands := True, wb_plain := wb_plain wb \<and> wb_eq wb \<noteq> None, wb_buf := wb_buf wb @ [t]\<rparr>"

definition build_word :: "word_builder \<Rightarrow> word" where
  "build_word wb =
     (let t = concat (wb_buf wb)
      in \<lparr>w_text = t, w_expands = wb_expands wb \<or> wb_brace wb \<and> t \<noteq> ''{'' \<and> t \<noteq> ''}'',
          w_glob = wb_glob wb \<and> t \<noteq> ''['', w_quoted = wb_quoted wb,
          w_is_assign = wb_eq wb \<noteq> None\<rparr>)"

end
