(* ===== verification/ShellClassify.thy ===== *)
theory ShellClassify
  imports ShellScan
begin

text \<open>
  Classification of one simple command in \<open>shellparse.py\<close> (\<open>_classify\<close>, the option skipping
  and the handlers of the wrappers), together with what a \<open>_Parser\<close> object accumulates: its
  parts, its reasons and the budget it shares with every nested parser.

  A nested parser (\<open>_sub\<close>, \<open>_wrapped_argv\<close>, the child made by \<open>_env\<close>) is a request to the
  argument \<open>nest\<close>; theory ShellParse closes the recursion over the nesting depth.
\<close>

section \<open>What a parser accumulates\<close>

record budget =
  b_parts :: nat
  b_work :: nat

record out =
  o_parts :: "part list"
  o_unknown :: "string list"
  o_budget :: budget

definition new_out :: "budget \<Rightarrow> out" where
  "new_out b = \<lparr>o_parts = [], o_unknown = [], o_budget = b\<rparr>"

definition unk :: "string \<Rightarrow> out \<Rightarrow> out" where
  "unk reason o1 = o1\<lparr>o_unknown := o_unknown o1 @ [reason]\<rparr>"

definition emit :: "part \<Rightarrow> out \<Rightarrow> out" where
  "emit p o1 =
    (let b = o_budget o1; b' = b\<lparr>b_parts := b_parts b + 1\<rparr>; o2 = o1\<lparr>o_budget := b'\<rparr>
     in if MAX_PARTS < b_parts b'
        then (if ''too many commands'' \<in> set (o_unknown o2) then o2 else unk ''too many commands'' o2)
        else o2\<lparr>o_parts := o_parts o2 @ [p]\<rparr>)"

text \<open>
  A nested parser gets a text to parse, or the words and assignments of a wrapped command
  with the reasons already known against it.
\<close>

datatype request = Text string | Wrapped "word list" "word list" "string list"

type_synonym nest = "request \<Rightarrow> budget \<Rightarrow> out"

definition call_nested :: "nest \<Rightarrow> request \<Rightarrow> out \<Rightarrow> out" where
  "call_nested nest req o1 =
    (let child = nest req (o_budget o1)
     in \<lparr>o_parts = o_parts o1 @ o_parts child, o_unknown = o_unknown o1 @ o_unknown child,
         o_budget = o_budget child\<rparr>)"

definition wrapped_argv :: "nest \<Rightarrow> word list \<Rightarrow> string option \<Rightarrow> word list \<Rightarrow> out \<Rightarrow> out" where
  "wrapped_argv nest words extra assigns o1 =
    (if words = [] then o1
     else call_nested nest (Wrapped words assigns (case extra of None \<Rightarrow> [] | Some e \<Rightarrow> [e])) o1)"

definition wrapped_string :: "nest \<Rightarrow> string \<Rightarrow> out \<Rightarrow> out" where
  "wrapped_string nest t o1 = call_nested nest (Text t) o1"

section \<open>Assignments and options\<close>

fun peel_assignments :: "word list \<Rightarrow> word list \<Rightarrow> word list \<times> word list" where
  "peel_assignments (w # ws) assigns =
     (if w_is_assign w \<and> \<not> w_quoted w then peel_assignments ws (assigns @ [w]) else (w # ws, assigns))"
| "peel_assignments [] assigns = ([], assigns)"

record options =
  op_flags :: string
  op_with_arg :: string
  op_long_flags :: "string list"
  op_long_eq :: "string list"
  op_long_arg :: "string list"

definition no_options :: options where
  "no_options = \<lparr>op_flags = [], op_with_arg = [], op_long_flags = [], op_long_eq = [], op_long_arg = []\<rparr>"

text \<open>
  The letters of a short option cluster: \<open>None\<close> when one is unknown, else whether the
  cluster takes the next word as its argument.
\<close>

fun cluster_takes_next :: "options \<Rightarrow> string \<Rightarrow> bool option" where
  "cluster_takes_next ops [] = Some False"
| "cluster_takes_next ops (ch # letters) =
     (if ch \<in> set (op_with_arg ops) then Some (letters = [])
      else if ch \<in> set (op_flags ops) then cluster_takes_next ops letters
      else None)"

fun skip_options :: "options \<Rightarrow> word list \<Rightarrow> word list option" where
  "skip_options ops [] = Some []"
| "skip_options ops (t # ts) =
    (if \<not> literal t then None
     else let x = w_text t in
     if x = ''--'' then Some ts
     else if \<not> prefix ''-'' x \<or> x = ''-'' then Some (t # ts)
     else if prefix ''--'' x then
       (if x \<in> set (op_long_flags ops) then skip_options ops ts
        else if x \<in> set (op_long_arg ops) then
          (case ts of [] \<Rightarrow> None | _ # ts' \<Rightarrow> skip_options ops ts')
        else if \<exists>p \<in> set (op_long_eq ops). prefix p x then skip_options ops ts
        else None)
     else (case cluster_takes_next ops (tl x) of
             None \<Rightarrow> None
           | Some takes \<Rightarrow>
               if takes then (case ts of [] \<Rightarrow> None | _ # ts' \<Rightarrow> skip_options ops ts')
               else skip_options ops ts))"

lemma skip_options_Cons:
  "skip_options ops (t # ts) = Some rest \<Longrightarrow>
     rest = t # ts \<or> rest = ts \<or> skip_options ops ts = Some rest
      \<or> (\<exists>u ts'. ts = u # ts' \<and> skip_options ops ts' = Some rest)"
  by (simp add: Let_def split: if_split_asm list.split_asm option.split_asm)

lemma skip_options_suffix: "skip_options ops ws = Some rest \<Longrightarrow> suffix rest ws"
proof (induction ws rule: length_induct)
  case (1 ws)
  show ?case
  proof (cases ws)
    case Nil
    with 1 show ?thesis by simp
  next
    case (Cons t ts)
    with 1 have IH: "\<And>us. length us \<le> length ts \<Longrightarrow> skip_options ops us = Some rest \<Longrightarrow> suffix rest us"
      by simp
    from skip_options_Cons [of ops t ts rest] "1.prems" Cons
    consider "rest = t # ts" | "rest = ts" | "skip_options ops ts = Some rest"
      | u ts' where "ts = u # ts'" "skip_options ops ts' = Some rest" by blast
    then show ?thesis
    proof cases
      case 4
      then have "suffix rest ts'" using IH [of ts'] by simp
      then show ?thesis using 4 Cons by (simp add: suffix_ConsI)
    qed (use Cons IH in \<open>auto intro: suffix_ConsI\<close>)
  qed
qed

section \<open>Neutral wrappers\<close>

text \<open>\<open>re.fullmatch(r"-\\d+", t)\<close>.\<close>

definition is_dash_number :: "string \<Rightarrow> bool" where
  "is_dash_number t \<longleftrightarrow> prefix ''-'' t \<and> ascii_digits (tl t)"

text \<open>\<open>re.fullmatch(r"[0-9]+(\\.[0-9]+)?[smhd]?", t)\<close>.\<close>

definition drop_digits :: "string \<Rightarrow> string" where
  "drop_digits t = dropWhile ascii_digit t"

definition is_duration :: "string \<Rightarrow> bool" where
  "is_duration t =
    (let r = drop_digits t;
         unit_ok = (\<lambda>u. u \<in> {[], ''s'', ''m'', ''h'', ''d''})
     in length r < length t \<and>
        (unit_ok r \<or>
         prefix ''.'' r \<and> length (drop_digits (tl r)) < length (tl r) \<and> unit_ok (drop_digits (tl r))))"

definition neutral_inner :: "string \<Rightarrow> word list \<Rightarrow> word list option" where
  "neutral_inner name rest =
    (if name = ''nohup'' \<or> name = ''builtin'' then skip_options no_options rest
     else if name = ''time'' then skip_options (no_options\<lparr>op_flags := ''p''\<rparr>) rest
     else if name = ''command'' then skip_options (no_options\<lparr>op_flags := ''p''\<rparr>) rest
     else if name = ''nice'' then
       (if rest \<noteq> [] \<and> is_dash_number (w_text (hd rest)) then Some (tl rest)
        else skip_options (no_options\<lparr>op_with_arg := ''n'', op_long_eq := [''--adjustment='']\<rparr>) rest)
     else if name = ''ionice'' then
       skip_options (no_options\<lparr>op_flags := ''t'', op_with_arg := ''cn'',
         op_long_flags := [''--ignore''], op_long_arg := [''--class'', ''--classdata'']\<rparr>) rest
     else if name = ''setsid'' then
       skip_options (no_options\<lparr>op_flags := ''cfw'',
         op_long_flags := [''--ctty'', ''--fork'', ''--wait'']\<rparr>) rest
     else if name = ''stdbuf'' then
       skip_options (no_options\<lparr>op_with_arg := ''ioe'',
         op_long_eq := [''--input='', ''--output='', ''--error='']\<rparr>) rest
     else if name = ''timeout'' then
       (case skip_options (no_options\<lparr>op_flags := ''v'', op_with_arg := ''sk'',
               op_long_flags := [''--foreground'', ''--preserve-status'', ''--verbose''],
               op_long_eq := [''--signal='', ''--kill-after=''],
               op_long_arg := [''--signal'', ''--kill-after'']\<rparr>) rest of
          None \<Rightarrow> None
        | Some [] \<Rightarrow> Some []
        | Some (d # r) \<Rightarrow> if \<not> literal d \<or> \<not> is_duration (w_text d) then None else Some r)
     else None)"

lemma neutral_inner_length: "neutral_inner name rest = Some inner \<Longrightarrow> length inner \<le> length rest"
  unfolding neutral_inner_def
  by (auto split: if_splits option.splits list.splits
      dest!: skip_options_suffix suffix_length_le)

definition NEUTRAL :: "string list" where
  "NEUTRAL = [''time'', ''nohup'', ''nice'', ''ionice'', ''setsid'', ''stdbuf'', ''timeout'', ''builtin'']"

definition is_neutral :: "string \<Rightarrow> string \<Rightarrow> word list \<Rightarrow> bool" where
  "is_neutral head_text name rest \<longleftrightarrow>
     CHR ''/'' \<notin> set head_text \<and>
     (name \<in> set NEUTRAL
      \<or> name = ''command'' \<and> \<not> (rest \<noteq> [] \<and> w_text (hd rest) \<in> {''-v'', ''-V''}))"

text \<open>The loop over the words \<open>!\<close> after a neutral wrapper.\<close>

fun drop_bangs :: "word list \<Rightarrow> word list" where
  "drop_bangs (w # ws) =
     (if literal w \<and> \<not> w_quoted w \<and> w_text w = ''!'' then drop_bangs ws else w # ws)"
| "drop_bangs [] = []"

lemma drop_bangs_length: "length (drop_bangs ws) \<le> length ws"
  by (induction ws) auto

lemma peel_assignments_length: "length (fst (peel_assignments ws as)) \<le> length ws"
  by (induction ws as rule: peel_assignments.induct) auto

section \<open>The wrappers with authority\<close>

text \<open>The part the closure \<open>plain\<close> of \<open>_classify\<close> builds.\<close>

definition plain_part ::
    "word list \<Rightarrow> word list \<Rightarrow> redirect list \<Rightarrow> string list \<Rightarrow> string list
      \<Rightarrow> string option \<Rightarrow> string option \<Rightarrow> part" where
  "plain_part argv assigns redirs unknown via extra wrapper =
     \<lparr>p_argv = argv, p_assigns = assigns, p_redirects = redirs,
      p_unknown = unknown @ (case extra of None \<Rightarrow> [] | Some e \<Rightarrow> [e]),
      p_wrapper = wrapper, p_via = via\<rparr>"

type_synonym plain = "string option \<Rightarrow> string option \<Rightarrow> part"

text \<open>The option loop of \<open>_shell\<close>: (\<open>c_seen\<close>, \<open>ok\<close>, the words from \<open>rest[i]\<close> on).\<close>

fun shell_options :: "word list \<Rightarrow> bool \<Rightarrow> bool \<times> bool \<times> word list" where
  "shell_options [] c_seen = (c_seen, True, [])"
| "shell_options (t # ts) c_seen =
    (if \<not> literal t then (c_seen, True, t # ts)
     else let x = w_text t in
     if x = ''--'' then (c_seen, True, ts)
     else if x \<in> {''-o'', ''+o'', ''-O'', ''+O''} then
       (case ts of [] \<Rightarrow> (c_seen, True, []) | _ # ts' \<Rightarrow> shell_options ts' c_seen)
     else if prefix ''--'' x then
       (if x \<in> {''--norc'', ''--noprofile'', ''--posix'', ''--login'', ''--restricted'', ''--noediting''}
        then shell_options ts c_seen
        else (c_seen, False, t # ts))
     else if (prefix ''-'' x \<or> prefix ''+'' x) \<and> 1 < length x then
       (if \<exists>ch \<in> set (tl x). ch \<notin> set ''cilrxeuvEfhnTBHPm'' then (c_seen, False, t # ts)
        else shell_options ts (c_seen \<or> CHR ''c'' \<in> set (tl x)))
     else (c_seen, True, t # ts))"

definition shell_wrapper :: "nest \<Rightarrow> string \<Rightarrow> word list \<Rightarrow> plain \<Rightarrow> out \<Rightarrow> out" where
  "shell_wrapper nest name rest plain o1 =
    (case shell_options rest False of
       (c_seen, ok, remaining) \<Rightarrow>
         (case remaining of
            [] \<Rightarrow> emit (plain (Some ''shell runs a script or reads standard input'') (Some name)) o1
          | command # _ \<Rightarrow>
              if \<not> c_seen
              then emit (plain (Some ''shell runs a script or reads standard input'') (Some name)) o1
              else if \<not> ok \<or> \<not> literal command \<or> prefix ''-'' (w_text command) \<or> prefix ''+'' (w_text command)
              then emit (plain (Some ''shell command string not understood'') (Some name)) o1
              else wrapped_string nest (w_text command) (emit (plain None (Some name)) o1)))"

text \<open>\<open>_su\<close>: the first literal \<open>-c\<close> that has a word after it decides.\<close>

fun su_wrapper :: "nest \<Rightarrow> word list \<Rightarrow> plain \<Rightarrow> out \<Rightarrow> out" where
  "su_wrapper nest (w # s # ws) plain o1 =
     (if literal w \<and> w_text w = ''-c'' then
        (if literal s then wrapped_string nest (w_text s) (emit (plain None (Some ''su'')) o1)
         else emit (plain (Some ''su without a command string'') (Some ''su'')) o1)
      else su_wrapper nest (s # ws) plain o1)"
| "su_wrapper nest _ plain o1 = emit (plain (Some ''su without a command string'') (Some ''su'')) o1"

definition env_changes_dir :: "word \<Rightarrow> bool" where
  "env_changes_dir w \<longleftrightarrow> literal w \<and>
     (w_text w = ''--chdir'' \<or> prefix ''--chdir='' (w_text w)
      \<or> prefix ''-'' (w_text w) \<and> \<not> prefix ''--'' (w_text w) \<and> CHR ''C'' \<in> set (w_text w))"

definition env_wrapper :: "nest \<Rightarrow> word list \<Rightarrow> plain \<Rightarrow> out \<Rightarrow> out" where
  "env_wrapper nest rest plain o1 =
    (if \<exists>w \<in> set (take 8 rest). env_changes_dir w
     then emit (plain (Some ''wrapper changes the working directory'') (Some ''env'')) o1
     else case skip_options (no_options\<lparr>op_flags := ''i0'', op_with_arg := ''u'',
            op_long_flags := [''--ignore-environment'', ''--null''], op_long_eq := [''--unset='']\<rparr>) rest of
       None \<Rightarrow> emit (plain (Some ''wrapper options not understood'') (Some ''env'')) o1
     | Some inner \<Rightarrow>
         (let assigns = takeWhile w_is_assign inner; cmd = dropWhile w_is_assign inner
          in if cmd = [] then emit (plain None None) o1
             else call_nested nest (Wrapped cmd assigns []) (emit (plain None (Some ''env'')) o1)))"

definition sudo_changes_dir :: "word \<Rightarrow> bool" where
  "sudo_changes_dir w \<longleftrightarrow> literal w \<and>
     (prefix ''--chdir'' (w_text w)
      \<or> prefix ''-'' (w_text w) \<and> \<not> prefix ''--'' (w_text w) \<and> CHR ''D'' \<in> set (w_text w))"

definition privilege_options :: "string \<Rightarrow> options" where
  "privilege_options name =
    (if name = ''sudo'' then
       no_options\<lparr>op_flags := ''nEHbSkKAPB'', op_with_arg := ''ugCphrtT'',
         op_long_flags := [''--non-interactive'', ''--preserve-env'', ''--set-home'', ''--background'',
           ''--stdin'', ''--reset-timestamp'', ''--askpass''],
         op_long_eq := [''--user='', ''--group='', ''--prompt='', ''--preserve-env='', ''--host='',
           ''--role='', ''--type=''],
         op_long_arg := [''--user'', ''--group'']\<rparr>
     else if name = ''doas'' then no_options\<lparr>op_flags := ''n'', op_with_arg := ''uC''\<rparr>
     else no_options\<lparr>op_long_flags := [''--disable-internal-agent''], op_long_arg := [''--user''],
            op_long_eq := [''--user='']\<rparr>)"

definition privilege_wrapper :: "nest \<Rightarrow> string \<Rightarrow> word list \<Rightarrow> plain \<Rightarrow> out \<Rightarrow> out" where
  "privilege_wrapper nest name rest plain o1 =
    (if name = ''sudo'' \<and> (\<exists>w \<in> set (take 8 rest). sudo_changes_dir w)
     then emit (plain (Some ''wrapper changes the working directory'') (Some name)) o1
     else case skip_options (privilege_options name) rest of
       None \<Rightarrow> emit (plain (Some ''wrapper options not understood'') (Some name)) o1
     | Some inner \<Rightarrow>
         (let o2 = emit (plain None (Some name)) o1
          in if inner = [] then o2
             else wrapped_argv nest (dropWhile w_is_assign inner) None (takeWhile w_is_assign inner) o2))"

definition xargs_options :: options where
  "xargs_options = no_options\<lparr>op_flags := ''0rtpxo'', op_with_arg := ''aEIdLnPs'',
     op_long_flags := [''--null'', ''--no-run-if-empty'', ''--verbose'', ''--interactive'', ''--open-tty'', ''--exit''],
     op_long_eq := [''--max-args='', ''--max-procs='', ''--max-lines='', ''--delimiter='', ''--arg-file='',
       ''--replace='', ''--eof='', ''--max-chars='']\<rparr>"

definition xargs_wrapper :: "nest \<Rightarrow> word list \<Rightarrow> plain \<Rightarrow> out \<Rightarrow> out" where
  "xargs_wrapper nest rest plain o1 =
    (case skip_options xargs_options rest of
       None \<Rightarrow> emit (plain (Some ''wrapper options not understood'') (Some ''xargs'')) o1
     | Some inner \<Rightarrow>
         if inner = [] then emit (plain (Some ''xargs with no command'') (Some ''xargs'')) o1
         else wrapped_argv nest inner (Some ''arguments are supplied at run time'') []
                (emit (plain None (Some ''xargs'')) o1))"

definition find_terminator :: "word \<Rightarrow> bool" where
  "find_terminator w \<longleftrightarrow> literal w \<and> w_text w \<in> {'';'', ''+''}"

function find_execs :: "nest \<Rightarrow> word list \<Rightarrow> out \<Rightarrow> out" where
  "find_execs nest [] o1 = o1"
| "find_execs nest (w # ws) o1 =
    (if literal w \<and> w_text w \<in> {''-exec'', ''-execdir'', ''-ok'', ''-okdir''} then
       (let body = takeWhile (\<lambda>v. \<not> find_terminator v) ws;
            rest = dropWhile (\<lambda>v. \<not> find_terminator v) ws
        in if rest = [] then unk ''find -exec without a terminator'' o1
           else find_execs nest (tl rest)
             (if body = [] then unk ''find -exec without a command'' o1
              else wrapped_argv nest body (Some ''arguments are supplied at run time'') [] o1))
     else find_execs nest ws o1)"
  by pat_completeness auto
termination
  by (relation "measure (\<lambda>(nest, ws, o1). length ws)")
     (auto intro: le_less_trans [OF length_dropWhile_le] simp: less_Suc_eq_le diff_le_self
       dest: sym intro!: order.trans [OF diff_le_self length_dropWhile_le])

definition find_wrapper :: "nest \<Rightarrow> word list \<Rightarrow> plain \<Rightarrow> out \<Rightarrow> out" where
  "find_wrapper nest argv plain o1 = find_execs nest (tl argv) (emit (plain None None) o1)"

definition exec_wrapper :: "nest \<Rightarrow> word list \<Rightarrow> plain \<Rightarrow> out \<Rightarrow> out" where
  "exec_wrapper nest rest plain o1 =
    (if rest = [] then emit (plain None None) o1
     else if prefix ''-'' (w_text (hd rest))
     then emit (plain (Some ''wrapper options not understood'') (Some ''exec'')) o1
     else wrapped_argv nest rest None [] (emit (plain None (Some ''exec'')) o1))"

definition eval_builtin :: "nest \<Rightarrow> word list \<Rightarrow> plain \<Rightarrow> out \<Rightarrow> out" where
  "eval_builtin nest rest plain o1 =
    (let o2 = emit (plain (Some ''eval'') None) o1
     in if rest \<noteq> [] \<and> list_all literal rest
        then wrapped_string nest (join '' '' (map w_text rest)) o2 else o2)"

section \<open>The dispatch\<close>

function classify ::
    "nest \<Rightarrow> word list \<Rightarrow> word list \<Rightarrow> redirect list \<Rightarrow> string list \<Rightarrow> string list \<Rightarrow> out \<Rightarrow> out" where
  "classify nest argv assigns redirs unknown via o1 =
    (if argv = [] then emit (plain_part [] assigns redirs unknown via None None) o1
     else let head = hd argv; rest = tl argv; name = basename (w_text head);
              plain = plain_part argv assigns redirs unknown via in
     if \<not> literal head then emit (plain (Some ''command word built from an expansion or glob'') None) o1
     else if w_text head = [] then emit (plain (Some ''empty command word'') None) o1
     else if name \<in> set KEYWORDS then emit (plain (Some ''shell keyword'') None) o1
     else if name = ''eval'' then eval_builtin nest rest plain o1
     else if name \<in> {''source'', ''.''} then emit (plain (Some ''sourcing a script'') None) o1
     else if name \<in> set OPAQUE then emit (plain (Some ''runs another program'') None) o1
     else if is_neutral (w_text head) name rest then
       (case neutral_inner name rest of
          None \<Rightarrow> emit (plain (Some ''wrapper options not understood'') None) o1
        | Some inner0 \<Rightarrow>
            (let peeled = peel_assignments (drop_bangs inner0) assigns;
                 inner = fst peeled; assigns' = snd peeled;
                 plain' = plain_part argv assigns' redirs unknown via
             in if inner = [] then emit (plain' None None) o1
                else if MAX_DEPTH \<le> length via then emit (plain' (Some ''nesting too deep'') None) o1
                else classify nest inner assigns' redirs unknown (via @ [name]) o1))
     else if name \<in> set SHELLS then shell_wrapper nest name rest plain o1
     else if name = ''su'' then su_wrapper nest rest plain o1
     else if name = ''env'' then env_wrapper nest rest plain o1
     else if name \<in> {''sudo'', ''doas'', ''pkexec''} then privilege_wrapper nest name rest plain o1
     else if name = ''xargs'' then xargs_wrapper nest rest plain o1
     else if name = ''find'' then find_wrapper nest argv plain o1
     else if name = ''exec'' then exec_wrapper nest rest plain o1
     else emit (plain None None) o1)"
  by pat_completeness auto

lemma neutral_shrinks:
  assumes "argv \<noteq> []" and "neutral_inner name (tl argv) = Some inner0"
  shows "length (fst (peel_assignments (drop_bangs inner0) assigns)) < length argv"
proof -
  have "length (fst (peel_assignments (drop_bangs inner0) assigns)) \<le> length (drop_bangs inner0)"
    by (rule peel_assignments_length)
  also have "\<dots> \<le> length inner0" by (rule drop_bangs_length)
  also have "\<dots> \<le> length (tl argv)" using assms(2) by (rule neutral_inner_length)
  also have "\<dots> < length argv" using assms(1) by simp
  finally show ?thesis .
qed

termination classify
  by (relation "measure (\<lambda>(nest, argv, assigns, redirs, unknown, via, o1). length argv)")
     (auto intro: neutral_shrinks)

declare classify.simps [simp del]

end
