(* ===== verification/ShellParse.thy ===== *)
theory ShellParse
  imports ShellClassify
begin

text \<open>
  The parser object \<open>_Parser\<close> of \<open>m2c/src/m2c/policy/shellparse.py\<close> and \<open>parse\<close>. The state
  record holds the object's fields; the text \<open>s\<close> is an argument; the depth lives in \<open>nest\<close>,
  which answers a nested request one level deeper and is closed at the end of the theory by
  recursion on the levels that remain (\<open>MAX_DEPTH - depth\<close>). Every loop advances \<open>ps_i\<close>, which
  is what each termination proof rests on.
\<close>

section \<open>The state\<close>

record pstate =
  ps_i :: nat
  ps_out :: out
  ps_words :: "word list"
  ps_assigns :: "word list"
  ps_redirs :: "redirect list"
  ps_cunk :: "string list"
  ps_pending :: "(string \<times> string option) option"
  ps_last_op :: "string option"
  ps_groups :: "string list"
  ps_heredocs :: "(string \<times> bool \<times> bool) list"
  ps_last_end :: int
  ps_last_word :: "word option"

definition new_state :: "out \<Rightarrow> pstate" where
  "new_state o1 = \<lparr>ps_i = 0, ps_out = o1, ps_words = [], ps_assigns = [], ps_redirs = [], ps_cunk = [],
     ps_pending = None, ps_last_op = None, ps_groups = [], ps_heredocs = [], ps_last_end = -1,
     ps_last_word = None\<rparr>"

definition set_i :: "nat \<Rightarrow> pstate \<Rightarrow> pstate" where
  "set_i k st = st\<lparr>ps_i := k\<rparr>"

definition adv :: "nat \<Rightarrow> pstate \<Rightarrow> pstate" where
  "adv k st = st\<lparr>ps_i := ps_i st + k\<rparr>"

definition p_unk :: "string \<Rightarrow> pstate \<Rightarrow> pstate" where
  "p_unk reason st = st\<lparr>ps_out := unk reason (ps_out st)\<rparr>"

definition p_cunk :: "string \<Rightarrow> pstate \<Rightarrow> pstate" where
  "p_cunk reason st = st\<lparr>ps_cunk := ps_cunk st @ [reason]\<rparr>"

definition p_sub :: "nest \<Rightarrow> string \<Rightarrow> pstate \<Rightarrow> pstate" where
  "p_sub nest inner st = st\<lparr>ps_out := call_nested nest (Text inner) (ps_out st)\<rparr>"

lemma ps_i_simps [simp]:
  "ps_i (set_i k st) = k" "ps_i (adv k st) = ps_i st + k" "ps_i (p_unk r st) = ps_i st"
  "ps_i (p_cunk r st) = ps_i st" "ps_i (p_sub nest t st) = ps_i st"
  by (simp_all add: set_i_def adv_def p_unk_def p_cunk_def p_sub_def)

section \<open>Command assembly\<close>

definition has_command :: "pstate \<Rightarrow> bool" where
  "has_command st \<longleftrightarrow> ps_words st \<noteq> [] \<or> ps_assigns st \<noteq> [] \<or> ps_redirs st \<noteq> []"

definition at_command_start :: "pstate \<Rightarrow> bool" where
  "at_command_start st \<longleftrightarrow> \<not> (has_command st \<or> ps_pending st \<noteq> None)"

text \<open>The loop over \<open>!\<close> and reserved words at the head of a command.\<close>

fun strip_reserved :: "word list \<Rightarrow> string list \<Rightarrow> word list \<times> string list" where
  "strip_reserved (w # ws) unknown =
    (if \<not> w_quoted w \<and> literal w then
       (if w_text w = ''!'' then strip_reserved ws unknown
        else if w_text w \<in> set REDUCERS then strip_reserved ws (unknown @ [''compound command''])
        else (w # ws, unknown))
     else (w # ws, unknown))"
| "strip_reserved [] unknown = ([], unknown)"

definition flush :: "nest \<Rightarrow> pstate \<Rightarrow> pstate" where
  "flush nest st =
    (let (words, unknown) =
           (if ps_assigns st = [] then strip_reserved (ps_words st) (ps_cunk st)
            else (ps_words st, ps_cunk st));
         (words', assigns') = peel_assignments words (ps_assigns st)
     in st\<lparr>ps_words := [], ps_assigns := [], ps_redirs := [], ps_cunk := [], ps_last_word := None,
           ps_out := classify nest words' assigns' (ps_redirs st) unknown [] (ps_out st)\<rparr>)"

text \<open>The check that opens both \<open>_close\<close> and \<open>_end\<close>.\<close>

definition drop_pending :: "pstate \<Rightarrow> pstate" where
  "drop_pending st =
    (if ps_pending st \<noteq> None then (p_unk ''redirection without a target'' st)\<lparr>ps_pending := None\<rparr> else st)"

definition last_op_in :: "string list \<Rightarrow> pstate \<Rightarrow> bool" where
  "last_op_in ops st \<longleftrightarrow> (case ps_last_op st of Some x \<Rightarrow> x \<in> set ops | None \<Rightarrow> False)"

definition close_group :: "nest \<Rightarrow> string \<Rightarrow> pstate \<Rightarrow> pstate" where
  "close_group nest kind st0 =
    (let st = drop_pending st0;
         st1 = (if has_command st then flush nest st
                else if last_op_in (STRONG @ [''('', ''{'']) st then p_unk ''empty or incomplete group'' st
                else st)
     in st1\<lparr>ps_groups := tl (ps_groups st1), ps_last_op := Some kind\<rparr>)"

definition end_command :: "nest \<Rightarrow> string \<Rightarrow> pstate \<Rightarrow> pstate" where
  "end_command nest op st0 =
    (let st = drop_pending st0
     in if \<not> has_command st then
          (if op \<in> {''newline'', ''eof''} then
             (if op = ''eof'' \<and> last_op_in STRONG st then p_unk ''incomplete command'' st else st)
           else if last_op_in ['')'', ''}''] st then st\<lparr>ps_last_op := Some op\<rparr>
           else (p_unk ''empty command'' st)\<lparr>ps_last_op := Some op\<rparr>)
        else (flush nest st)\<lparr>ps_last_op := Some op\<rparr>)"

definition open_paren :: "string \<Rightarrow> pstate \<Rightarrow> pstate" where
  "open_paren s st0 =
    (let prev_paren = 0 < ps_i st0 \<and> s ! (ps_i st0 - 1) = CHR ''('';
         st = adv 1 st0
     in if \<not> at_command_start st then p_unk ''unexpected ( inside a command'' st
        else (if prev_paren then p_unk ''arithmetic command'' st else st)
               \<lparr>ps_groups := ''('' # ps_groups st, ps_last_op := Some ''(''\<rparr>)"

text \<open>\<open>_add_word\<close>: the target of a pending redirection, a brace, an assignment or an argument.\<close>

definition take_target :: "string \<Rightarrow> string option \<Rightarrow> word \<Rightarrow> pstate \<Rightarrow> pstate" where
  "take_target op fd w st0 =
    (let st = st0\<lparr>ps_pending := None, ps_last_word := None,
                  ps_redirs := ps_redirs st0 @ [\<lparr>rd_op = op, rd_fd = fd, rd_target = Some w\<rparr>]\<rparr>
     in if op \<in> {''<<'', ''<<-''}
        then p_cunk ''here-document'' (st\<lparr>ps_heredocs := ps_heredocs st @ [(w_text w, op = ''<<-'', w_quoted w)]\<rparr>)
        else if op = ''<<<'' then p_cunk ''here-string'' st
        else st)"

definition add_word :: "nest \<Rightarrow> word \<Rightarrow> pstate \<Rightarrow> pstate" where
  "add_word nest w st0 =
    (let st = st0\<lparr>ps_last_end := int (ps_i st0)\<rparr>
     in case ps_pending st of
          Some (op, fd) \<Rightarrow> take_target op fd w st
        | None \<Rightarrow>
            if at_command_start st \<and> \<not> w_quoted w \<and> \<not> w_expands w \<and> \<not> w_glob w \<and> w_text w = ''{''
            then st\<lparr>ps_groups := ''{'' # ps_groups st, ps_last_op := Some ''{''\<rparr>
            else if at_command_start st \<and> \<not> w_quoted w \<and> \<not> w_expands w \<and> \<not> w_glob w \<and> w_text w = ''}''
            then (if ps_groups st \<noteq> [] \<and> hd (ps_groups st) = ''{'' then close_group nest ''}'' st
                  else p_unk ''unbalanced }'' st)
            else if ps_words st = [] \<and> w_is_assign w
            then st\<lparr>ps_assigns := ps_assigns st @ [w], ps_last_word := None\<rparr>
            else st\<lparr>ps_words := ps_words st @ [w], ps_last_word := Some w\<rparr>)"

section \<open>Expansions\<close>

text \<open>\<open>_nested_subs\<close>: every substitution in a text, quotes ignored.\<close>

function nested_subs :: "nest \<Rightarrow> string \<Rightarrow> nat \<Rightarrow> out \<Rightarrow> out" where
  "nested_subs nest t j o1 =
    (if length t \<le> j then o1
     else if t ! j = BSL then nested_subs nest t (j + 2) o1
     else if t ! j = CHR ''$'' \<and> char_at t (j + 1) = Some (CHR ''('') then
       (case fst (find_close t (j + 2)) of
          None \<Rightarrow> unk ''unterminated command substitution'' o1
        | Some k \<Rightarrow> nested_subs nest t (k + 1) (call_nested nest (Text (substr t (j + 2) k)) o1))
     else if t ! j = BTK then
       (case find_backtick t (j + 1) of
          None \<Rightarrow> unk ''unterminated backtick substitution'' o1
        | Some k \<Rightarrow>
            nested_subs nest t (k + 1)
              (call_nested nest (Text (unescape_backtick False (substr t (j + 1) k))) o1))
     else nested_subs nest t (j + 1) o1)"
  by pat_completeness auto
termination
  by (relation "measure (\<lambda>(nest, t, j, o1). length t - j)")
     (auto simp: find_close_def dest!: find_close_loop_bounds find_backtick_bounds)

declare nested_subs.simps [simp del]

text \<open>The word under construction and the parser's state travel together.\<close>

type_synonym wstate = "word_builder \<times> pstate"

definition backtick :: "nest \<Rightarrow> string \<Rightarrow> bool \<Rightarrow> wstate \<Rightarrow> wstate" where
  "backtick nest s in_dq = (\<lambda>(wb, st).
     let i = ps_i st in
     case find_backtick s (i + 1) of
       None \<Rightarrow> (add_expansion (drop i s) wb,
                set_i (length s) (p_unk ''unterminated backtick substitution'' st))
     | Some k \<Rightarrow> (add_expansion (substr s i (k + 1)) wb,
                set_i (k + 1) (p_sub nest (unescape_backtick in_dq (substr s (i + 1) k)) st)))"

definition dollar_paren :: "nest \<Rightarrow> string \<Rightarrow> wstate \<Rightarrow> wstate" where
  "dollar_paren nest s = (\<lambda>(wb, st).
     let j = ps_i st in
     case find_close s (j + 2) of
       (None, amb) \<Rightarrow> (add_expansion (drop j s) wb,
                set_i (length s) (p_unk ''unterminated command substitution'' st))
     | (Some k, amb) \<Rightarrow>
         (let st1 = (if char_at s (j + 2) = Some (CHR ''('') then p_cunk ''arithmetic expansion'' st else st);
              st2 = (if amb then p_cunk ''comment or case inside a substitution'' st1 else st1)
          in (add_expansion (substr s j (k + 1)) wb, set_i (k + 1) (p_sub nest (substr s (j + 2) k) st2))))"

text \<open>The subscript of \<open>${a[sub]...}\<close>: between the first bracket and the next closing one.\<close>

definition subscript :: "string \<Rightarrow> string" where
  "subscript body = before_first (CHR '']'') (after_first (CHR ''['') body)"

definition is_complex_body :: "string \<Rightarrow> bool" where
  "is_complex_body body \<longleftrightarrow>
     (\<exists>ch \<in> set body. ch \<in> {SQ, DQ, BTK, BSL}) \<or> contains ''$('' body"

definition dollar_brace :: "nest \<Rightarrow> string \<Rightarrow> wstate \<Rightarrow> wstate" where
  "dollar_brace nest s = (\<lambda>(wb, st).
     let j = ps_i st in
     case find_brace_close s (j + 2) of
       None \<Rightarrow> (add_expansion (drop j s) wb,
                set_i (length s) (p_unk ''unterminated parameter expansion'' st))
     | Some k \<Rightarrow>
         (let body = substr s (j + 2) k;
              st1 = (if prefix ''!'' body \<or> contains ''@P'' body
                     then p_cunk ''indirect or prompt expansion'' st else st);
              st2 = (if CHR ''['' \<in> set body \<and> subscript body \<notin> {''@'', ''*''} \<and> \<not> ascii_digits (subscript body)
                     then p_cunk ''array subscript evaluated as arithmetic'' st1 else st1);
              st3 = (if is_complex_body body
                     then (let c = p_cunk ''complex parameter expansion'' st2
                           in c\<lparr>ps_out := nested_subs nest body 0 (ps_out c)\<rparr>)
                     else st2)
          in (add_expansion (substr s j (k + 1)) wb, set_i (k + 1) st3)))"

definition dollar_name_end :: "string \<Rightarrow> nat \<Rightarrow> nat" where
  "dollar_name_end s j =
     (if name_char (s ! (j + 1)) \<and> \<not> ascii_digit (s ! (j + 1))
      then j + 1 + length (takeWhile name_char (drop (j + 1) s))
      else j + 2)"

text \<open>\<open>$'...'\<close> outside double quotes.\<close>

definition dollar_ansi :: "string \<Rightarrow> wstate \<Rightarrow> wstate" where
  "dollar_ansi s = (\<lambda>(wb, st).
     let j = ps_i st in
     case find_ansi_quote s (j + 2) of
       None \<Rightarrow> (add_expansion (drop j s) wb, set_i (length s) (p_unk ''unterminated $'...' string'' st))
     | Some k \<Rightarrow> (add_expansion (substr s j (k + 1)) wb, set_i (k + 1) st))"

definition starts_parameter :: "char option \<Rightarrow> bool" where
  "starts_parameter nxt =
     (case nxt of Some c \<Rightarrow> name_char c \<and> \<not> ascii_digit c \<or> c \<in> set SPECIAL_PARAMS | None \<Rightarrow> False)"

definition dollar_dispatch :: "nest \<Rightarrow> string \<Rightarrow> bool \<Rightarrow> wstate \<Rightarrow> wstate" where
  "dollar_dispatch nest s in_dq = (\<lambda>(wb, st).
     let j = ps_i st; nxt = char_at s (j + 1) in
     if nxt = Some (CHR ''('') then dollar_paren nest s (wb, st)
     else if nxt = Some (CHR ''{'') then dollar_brace nest s (wb, st)
     else if nxt = Some (CHR ''['') then
       (add_expansion ''$'' wb, set_i (j + 1) (p_cunk ''arithmetic expansion'' st))
     else if nxt = Some SQ \<and> \<not> in_dq then dollar_ansi s (wb, st)
     else if nxt = Some DQ \<and> \<not> in_dq then (add_expansion ''$'' wb, set_i (j + 1) st)
     else if starts_parameter nxt
     then (add_expansion (substr s j (dollar_name_end s j)) wb, set_i (dollar_name_end s j) st)
     else ((if in_dq then add_quoted ''$'' wb else add_plain (CHR ''$'') nxt wb), set_i (j + 1) st))"

definition line_continuation :: "string \<Rightarrow> pstate \<Rightarrow> pstate" where
  "line_continuation s st =
     (if char_at s (ps_i st + 1) = Some BSL \<and> char_at s (ps_i st + 2) = Some NL
      then p_unk ''line continuation inside an expansion'' st else st)"

definition dollar :: "nest \<Rightarrow> string \<Rightarrow> bool \<Rightarrow> wstate \<Rightarrow> wstate" where
  "dollar nest s in_dq = (\<lambda>(wb, st). dollar_dispatch nest s in_dq (wb, line_continuation s st))"

section \<open>Words\<close>

text \<open>
  One turn of the loop of \<open>_dq\<close>. The flag says that the loop is over: \<open>Some True\<close> by the
  closing quote, \<open>Some False\<close> by the \<open>break\<close> at a final backslash.
\<close>

definition dq_turn :: "nest \<Rightarrow> string \<Rightarrow> wstate \<Rightarrow> bool option \<times> wstate" where
  "dq_turn nest s = (\<lambda>(wb, st).
     let i = ps_i st; c = s ! i; nxt = char_at s (i + 1) in
     if c = DQ then (Some True, (wb, adv 1 st))
     else if c = BSL then
       (case nxt of
          None \<Rightarrow> (Some False, (wb, st))
        | Some d \<Rightarrow>
            if d = NL then (None, (wb, adv 2 st))
            else if d \<in> {CHR ''$'', BTK, DQ, BSL} then (None, (add_quoted [d] wb, adv 2 st))
            else (None, (add_quoted [BSL, d] wb, adv 2 st)))
     else if c = CHR ''$'' then (None, dollar nest s True (wb, st))
     else if c = BTK then (None, backtick nest s True (wb, st))
     else (None, (add_quoted [c] wb, adv 1 st)))"

text \<open>A turn moves forward and stays within the text.\<close>

definition moves :: "string \<Rightarrow> pstate \<Rightarrow> pstate \<Rightarrow> bool" where
  "moves s st st' \<longleftrightarrow> ps_i st < ps_i st' \<and> ps_i st' \<le> length s"

lemma backtick_moves: "ps_i st < length s \<Longrightarrow> moves s st (snd (backtick nest s in_dq (wb, st)))"
  by (cases "find_backtick s (ps_i st + 1)")
    (auto simp: backtick_def Let_def moves_def dest: find_backtick_bounds)

lemma dollar_paren_moves:
  "ps_i st < length s \<Longrightarrow> moves s st (snd (dollar_paren nest s (wb, st)))"
proof (cases "find_close s (ps_i st + 2)")
  case (Pair r amb)
  assume "ps_i st < length s"
  with Pair show ?thesis
    by (cases r) (auto simp: dollar_paren_def Let_def moves_def dest: find_close_bounds)
qed

lemma dollar_brace_moves:
  "ps_i st < length s \<Longrightarrow> moves s st (snd (dollar_brace nest s (wb, st)))"
  by (cases "find_brace_close s (ps_i st + 2)")
    (auto simp: dollar_brace_def Let_def moves_def dest: find_brace_close_bounds)

lemma dollar_ansi_moves:
  "ps_i st < length s \<Longrightarrow> moves s st (snd (dollar_ansi s (wb, st)))"
  by (cases "find_ansi_quote s (ps_i st + 2)")
    (auto simp: dollar_ansi_def Let_def moves_def dest: find_ansi_quote_bounds)

lemma dollar_name_end_moves:
  assumes "j + 1 < length s"
  shows "j < dollar_name_end s j \<and> dollar_name_end s j \<le> length s"
proof -
  have "length (takeWhile name_char (drop (j + 1) s)) \<le> length (drop (j + 1) s)"
    by (rule length_takeWhile_le)
  then have "length (takeWhile name_char (drop (j + 1) s)) \<le> length s - (j + 1)" by simp
  with assms have "j + 1 + length (takeWhile name_char (drop (j + 1) s)) \<le> length s" by linarith
  with assms show ?thesis by (simp add: dollar_name_end_def)
qed

lemma starts_parameter_less: "starts_parameter (char_at s j) \<Longrightarrow> j < length s"
  by (auto simp: starts_parameter_def char_at_def split: if_splits)

lemma dollar_dispatch_moves:
  assumes "ps_i st < length s"
  shows "moves s st (snd (dollar_dispatch nest s in_dq (wb, st)))"
proof (cases "starts_parameter (char_at s (ps_i st + 1))")
  case True
  then have "ps_i st + 1 < length s" by (rule starts_parameter_less)
  with assms show ?thesis
    using dollar_name_end_moves [of "ps_i st" s]
    by (simp add: dollar_dispatch_def Let_def dollar_paren_moves dollar_brace_moves dollar_ansi_moves)
       (simp add: moves_def)
next
  case False
  with assms show ?thesis
    by (simp add: dollar_dispatch_def Let_def dollar_paren_moves dollar_brace_moves dollar_ansi_moves)
       (simp add: moves_def)
qed

lemma ps_i_line_continuation [simp]: "ps_i (line_continuation s st) = ps_i st"
  by (simp add: line_continuation_def)

lemma dollar_moves:
  "ps_i st < length s \<Longrightarrow> moves s st (snd (dollar nest s in_dq (wb, st)))"
  using dollar_dispatch_moves [of "line_continuation s st" s nest in_dq wb]
  by (simp add: dollar_def moves_def)

lemma dq_turn_moves:
  assumes "ps_i st < length s" and "dq_turn nest s (wb, st) = (r, wb', st')"
    and "r \<noteq> Some False"
  shows "moves s st st'"
proof -
  let ?t = "dq_turn nest s (wb, st)"
  have "fst ?t \<noteq> Some False \<longrightarrow> moves s st (snd (snd ?t))"
    using assms(1)
    by (cases "char_at s (ps_i st + 1)")
      (simp_all add: dq_turn_def Let_def dollar_moves backtick_moves, auto simp: moves_def char_at_Some)
  with assms show ?thesis by simp
qed

function dq_loop :: "nest \<Rightarrow> string \<Rightarrow> word_builder \<Rightarrow> pstate \<Rightarrow> wstate" where
  "dq_loop nest s wb st =
    (if length s \<le> ps_i st
     then (wb, set_i (length s) (p_unk ''unterminated double quote'' st))
     else case dq_turn nest s (wb, st) of
            (Some True, wb', st') \<Rightarrow> (wb', st')
          | (Some False, wb', st') \<Rightarrow> (wb', set_i (length s) (p_unk ''unterminated double quote'' st'))
          | (None, wb', st') \<Rightarrow> dq_loop nest s wb' st')"
  by pat_completeness auto
termination
proof (relation "measure (\<lambda>(nest, s, wb, st). length s - ps_i st)", goal_cases)
  case (2 nest s wb st x xa wb' st')
  then have "moves s st st'" by (intro dq_turn_moves [of st s nest wb None wb']) auto
  with 2 show ?case by (auto simp: moves_def)
qed simp

declare dq_loop.simps [simp del]

lemma dq_loop_moves:
  "ps_i st \<le> length s \<Longrightarrow>
     ps_i st \<le> ps_i (snd (dq_loop nest s wb st)) \<and> ps_i (snd (dq_loop nest s wb st)) \<le> length s"
proof (induction nest s wb st rule: dq_loop.induct)
  case (1 nest s wb st)
  obtain r wb' st' where turn: "dq_turn nest s (wb, st) = (r, wb', st')" by (metis prod_cases3)
  show ?case
  proof (cases "length s \<le> ps_i st")
    case True
    with "1.prems" show ?thesis by (simp add: dq_loop.simps [of nest s wb st])
  next
    case False
    then have lt: "ps_i st < length s" by simp
    consider "r = Some False" | "r = Some True" "moves s st st'" | "r = None" "moves s st st'"
      using dq_turn_moves [OF lt turn] by (cases r) auto
    then show ?thesis
    proof cases
      case 3
      then show ?thesis
        using "1.IH" [OF False turn [symmetric]] turn False
        by (auto simp: dq_loop.simps [of nest s wb st] moves_def)
    qed (use turn False "1.prems" in \<open>auto simp: dq_loop.simps [of nest s wb st] moves_def\<close>)
  qed
qed

definition double_quote :: "nest \<Rightarrow> string \<Rightarrow> wstate \<Rightarrow> wstate" where
  "double_quote nest s = (\<lambda>(wb, st).
     dq_loop nest s (wb\<lparr>wb_quoted := True, wb_plain := wb_plain wb \<and> wb_eq wb \<noteq> None\<rparr>) (adv 1 st))"

lemma double_quote_moves: "ps_i st < length s \<Longrightarrow> moves s st (snd (double_quote nest s (wb, st)))"
  using dq_loop_moves [of "adv 1 st" s nest "wb\<lparr>wb_quoted := True, wb_plain := wb_plain wb \<and> wb_eq wb \<noteq> None\<rparr>"]
  by (simp add: double_quote_def moves_def)

definition WORD_ENDS :: string where
  "WORD_ENDS = '' ;&|<>()'' @ [TAB, NL]"

text \<open>One turn of the loop of \<open>_word\<close>; the flag is its \<open>break\<close>.\<close>

definition word_turn :: "nest \<Rightarrow> string \<Rightarrow> wstate \<Rightarrow> bool \<times> wstate" where
  "word_turn nest s = (\<lambda>(wb, st).
     let i = ps_i st; c = s ! i; nxt = char_at s (i + 1) in
     if c \<in> set WORD_ENDS then (True, (wb, st))
     else if c = BSL then
       (case nxt of
          None \<Rightarrow> (True, (wb, adv 1 (p_unk ''trailing backslash'' st)))
        | Some d \<Rightarrow> if d = NL then (False, (wb, adv 2 st)) else (False, (add_quoted [d] wb, adv 2 st)))
     else if c = SQ then
       (case find_char SQ s (i + 1) of
          None \<Rightarrow> (True, (add_quoted (drop (i + 1) s) wb, set_i (length s) (p_unk ''unterminated single quote'' st)))
        | Some k \<Rightarrow> (False, (add_quoted (substr s (i + 1) k) wb, set_i (k + 1) st)))
     else if c = DQ then (False, double_quote nest s (wb, st))
     else if c = BTK then (False, backtick nest s False (wb, st))
     else if c = CHR ''$'' then (False, dollar nest s False (wb, st))
     else (False, (add_plain c nxt wb, adv 1 st)))"

lemma word_turn_moves:
  assumes "ps_i st < length s" and "word_turn nest s (wb, st) = (False, wb', st')"
  shows "moves s st st'"
proof -
  let ?t = "word_turn nest s (wb, st)"
  have "\<not> fst ?t \<longrightarrow> moves s st (snd (snd ?t))"
    using assms(1)
    by (cases "char_at s (ps_i st + 1)"; cases "find_char SQ s (ps_i st + 1)")
      (simp_all add: word_turn_def Let_def dollar_moves backtick_moves double_quote_moves,
        auto simp: moves_def char_at_Some dest: find_char_bounds)
  with assms show ?thesis by simp
qed

function word_loop :: "nest \<Rightarrow> string \<Rightarrow> word_builder \<Rightarrow> pstate \<Rightarrow> wstate" where
  "word_loop nest s wb st =
    (if length s \<le> ps_i st then (wb, st)
     else case word_turn nest s (wb, st) of
            (True, wb', st') \<Rightarrow> (wb', st')
          | (False, wb', st') \<Rightarrow> word_loop nest s wb' st')"
  by pat_completeness auto
termination
proof (relation "measure (\<lambda>(nest, s, wb, st). length s - ps_i st)", goal_cases)
  case (2 nest s wb st x xa wb' st')
  then have "moves s st st'" by (intro word_turn_moves [of st s nest wb wb']) auto
  with 2 show ?case by (auto simp: moves_def)
qed simp

declare word_loop.simps [simp del]

definition scan_word :: "nest \<Rightarrow> string \<Rightarrow> pstate \<Rightarrow> word \<times> pstate" where
  "scan_word nest s st = (case word_loop nest s new_builder st of (wb, st') \<Rightarrow> (build_word wb, st'))"

lemma word_loop_moves:
  "ps_i st \<le> length s \<Longrightarrow> ps_i st \<le> ps_i (snd (word_loop nest s wb st))"
proof (induction nest s wb st rule: word_loop.induct)
  case (1 nest s wb st)
  obtain stop wb' st' where turn: "word_turn nest s (wb, st) = (stop, wb', st')" by (metis prod_cases3)
  show ?case
  proof (cases "length s \<le> ps_i st")
    case True
    then show ?thesis by (simp add: word_loop.simps [of nest s wb st])
  next
    case False
    then have lt: "ps_i st < length s" by simp
    show ?thesis
    proof (cases stop)
      case True
      have "fst (word_turn nest s (wb, st)) \<longrightarrow> ps_i st \<le> ps_i (snd (snd (word_turn nest s (wb, st))))"
        using lt by (cases "char_at s (ps_i st + 1)"; cases "find_char SQ s (ps_i st + 1)")
          (auto simp: word_turn_def Let_def)
      with turn True False show ?thesis by (simp add: word_loop.simps [of nest s wb st])
    next
      case go: False
      with word_turn_moves [OF lt] turn have "moves s st st'" by simp
      with "1.IH" [OF False turn [symmetric]] turn False go show ?thesis
        by (auto simp: word_loop.simps [of nest s wb st] moves_def)
    qed
  qed
qed

text \<open>A word starts where no separator stands, so scanning one consumes at least a character.\<close>

lemma scan_word_advances:
  assumes "ps_i st < length s" and "s ! ps_i st \<notin> set WORD_ENDS"
  shows "ps_i st < ps_i (snd (scan_word nest s st))"
proof -
  obtain stop wb st' where turn: "word_turn nest s (new_builder, st) = (stop, wb, st')" by (metis prod_cases3)
  show ?thesis
  proof (cases stop)
    case True
    have "fst (word_turn nest s (new_builder, st)) \<longrightarrow> ps_i st < ps_i (snd (snd (word_turn nest s (new_builder, st))))"
      using assms by (cases "char_at s (ps_i st + 1)"; cases "find_char SQ s (ps_i st + 1)")
        (auto simp: word_turn_def Let_def)
    with turn True assms(1) show ?thesis
      by (simp add: scan_word_def word_loop.simps [of nest s _ st] split: prod.split)
  next
    case False
    with word_turn_moves [OF assms(1)] turn have "moves s st st'" by simp
    with word_loop_moves [of st' s nest wb] turn False assms(1) show ?thesis
      by (simp add: scan_word_def word_loop.simps [of nest s _ st] moves_def split: prod.split)
         (metis order_less_le_trans snd_conv)
  qed
qed

section \<open>Redirections and here-documents\<close>

definition REDIR_OPS :: "string list" where
  "REDIR_OPS = [''<<<'', ''<<-'', ''<<'', ''<>'', ''<&'', ''<'', ''>>'', ''>&'', ''>|'', ''>'']"

text \<open>
  The first operator that starts here. One always does: the caller has seen \<open><\<close> or \<open>>\<close>
  (lemma \<open>redir_op_found\<close>), so the default is never taken.
\<close>

definition redir_op :: "string \<Rightarrow> nat \<Rightarrow> string" where
  "redir_op s i = (case find (\<lambda>x. prefix x (drop i s)) REDIR_OPS of Some x \<Rightarrow> x | None \<Rightarrow> ''>'')"

lemma redir_op_found:
  assumes "i < length s" and "s ! i \<in> {CHR ''<'', CHR ''>''}"
  shows "find (\<lambda>x. prefix x (drop i s)) REDIR_OPS \<noteq> None"
proof -
  have "drop i s = s ! i # drop (Suc i) s" using assms(1) by (rule Cons_nth_drop_Suc [symmetric])
  with assms(2) show ?thesis by (auto simp: find_None_iff REDIR_OPS_def)
qed

lemma redir_op_nonempty: "redir_op s i \<noteq> []"
  by (auto simp: redir_op_def REDIR_OPS_def split: option.splits)

definition begin_redirect :: "string \<Rightarrow> string option \<Rightarrow> pstate \<Rightarrow> pstate" where
  "begin_redirect op fd st =
     (if ps_pending st \<noteq> None then p_unk ''redirection without a target'' st else st)
       \<lparr>ps_pending := Some (op, fd)\<rparr>"

text \<open>The digits glued to the operator: the last word, if it ended exactly here.\<close>

definition glued_fd :: "pstate \<Rightarrow> string option" where
  "glued_fd st =
     (case ps_last_word st of
        None \<Rightarrow> None
      | Some lw \<Rightarrow>
          if ps_last_end st = int (ps_i st) \<and> ps_words st \<noteq> [] \<and> last (ps_words st) = lw
             \<and> ascii_digits (w_text lw) \<and> \<not> w_quoted lw
          then Some (w_text lw) else None)"

definition plain_word :: "string \<Rightarrow> bool \<Rightarrow> word" where
  "plain_word t expands =
     \<lparr>w_text = t, w_expands = expands, w_glob = False, w_quoted = False, w_is_assign = False\<rparr>"

definition process_substitution :: "nest \<Rightarrow> string \<Rightarrow> pstate \<Rightarrow> pstate" where
  "process_substitution nest s st =
    (let i = ps_i st in
     case find_close s (i + 2) of
       (None, amb) \<Rightarrow> set_i (length s) (p_unk ''unterminated process substitution'' st)
     | (Some k, amb) \<Rightarrow>
         (let st1 = p_cunk ''process substitution'' st;
              st2 = (if amb then p_cunk ''comment or case inside a substitution'' st1 else st1)
          in add_word nest (plain_word (substr s i (k + 1)) True)
               (set_i (k + 1) (p_sub nest (substr s (i + 2) k) st2))))"

definition redirect_or_procsub :: "nest \<Rightarrow> string \<Rightarrow> pstate \<Rightarrow> pstate" where
  "redirect_or_procsub nest s st =
    (if char_at s (ps_i st + 1) = Some (CHR ''('') then process_substitution nest s st
     else let op = redir_op s (ps_i st); fd = glued_fd st;
              st1 = (if fd \<noteq> None then st\<lparr>ps_words := butlast (ps_words st), ps_last_word := None\<rparr> else st)
          in begin_redirect op fd (adv (length op) st1))"

text \<open>The lines of one here-document: whether the delimiter was found, the body, and where it ends.\<close>

function heredoc_body :: "string \<Rightarrow> string \<Rightarrow> bool \<Rightarrow> nat \<Rightarrow> bool \<times> string list \<times> nat" where
  "heredoc_body s delim tabs i =
    (if length s \<le> i then (False, [], i)
     else let stop = (case find_char NL s i of None \<Rightarrow> length s | Some k \<Rightarrow> k);
              next_i = (case find_char NL s i of None \<Rightarrow> length s | Some k \<Rightarrow> k + 1);
              line = substr s i stop
          in if (if tabs then lstrip_char TAB line else line) = delim then (True, [], next_i)
             else case heredoc_body s delim tabs next_i of
                    (found, body, j) \<Rightarrow> (found, line # body, j))"
  by pat_completeness auto
termination
  by (relation "measure (\<lambda>(s, delim, tabs, i). length s - i)")
     (auto split: option.splits dest: find_char_bounds)

declare heredoc_body.simps [simp del]

lemma heredoc_body_advances:
  "heredoc_body s delim tabs i = (found, body, j) \<Longrightarrow> i \<le> j"
proof (induction s delim tabs i arbitrary: found body j rule: heredoc_body.induct)
  case (1 s delim tabs i)
  let ?next = "case find_char NL s i of None \<Rightarrow> length s | Some k \<Rightarrow> k + 1"
  show ?case
  proof (cases "length s \<le> i")
    case True
    with "1.prems" show ?thesis by (simp add: heredoc_body.simps [of s delim tabs i])
  next
    case False
    have nx: "i \<le> ?next" using False by (auto split: option.split dest: find_char_bounds)
    obtain f b j' where rec_call: "heredoc_body s delim tabs ?next = (f, b, j')" by (metis prod_cases3)
    show ?thesis
      using "1.prems" False nx rec_call "1.IH" [OF False refl refl refl _ rec_call]
      by (auto simp: heredoc_body.simps [of s delim tabs i] Let_def split: if_splits)
  qed
qed

fun heredoc_list :: "nest \<Rightarrow> string \<Rightarrow> (string \<times> bool \<times> bool) list \<Rightarrow> pstate \<Rightarrow> pstate" where
  "heredoc_list nest s [] st = st"
| "heredoc_list nest s ((delim, tabs, quoted) # hs) st =
    (case heredoc_body s delim tabs (ps_i st) of
       (found, body, j) \<Rightarrow>
         (let st1 = set_i j st;
              st2 = (if found then st1 else p_unk ''unterminated here-document'' st1);
              st3 = (if quoted then st2
                     else st2\<lparr>ps_out := nested_subs nest (join [NL] body) 0 (ps_out st2)\<rparr>)
          in heredoc_list nest s hs st3))"

definition skip_heredoc_bodies :: "nest \<Rightarrow> string \<Rightarrow> pstate \<Rightarrow> pstate" where
  "skip_heredoc_bodies nest s st = (heredoc_list nest s (ps_heredocs st) st)\<lparr>ps_heredocs := []\<rparr>"

section \<open>The driver\<close>

lemma ps_i_flush [simp]: "ps_i (flush nest st) = ps_i st"
  by (simp add: flush_def Let_def split: prod.split)

lemma ps_i_drop_pending [simp]: "ps_i (drop_pending st) = ps_i st"
  by (simp add: drop_pending_def)

lemma ps_i_close_group [simp]: "ps_i (close_group nest kind st) = ps_i st"
  by (simp add: close_group_def Let_def)

lemma ps_i_end_command [simp]: "ps_i (end_command nest op st) = ps_i st"
  by (simp add: end_command_def Let_def)

lemma ps_i_take_target [simp]: "ps_i (take_target op fd w st) = ps_i st"
  by (simp add: take_target_def Let_def)

lemma ps_i_add_word [simp]: "ps_i (add_word nest w st) = ps_i st"
  by (simp add: add_word_def Let_def split: option.split)

lemma ps_i_begin_redirect [simp]: "ps_i (begin_redirect op fd st) = ps_i st"
  by (simp add: begin_redirect_def)

lemma ps_i_open_paren [simp]: "ps_i (open_paren s st) = ps_i st + 1"
  by (simp add: open_paren_def Let_def)

lemma ps_i_heredoc_list: "ps_i st \<le> ps_i (heredoc_list nest s hs st)"
proof (induction nest s hs st rule: heredoc_list.induct)
  case (2 nest s delim tabs quoted hs st)
  obtain f b j where h: "heredoc_body s delim tabs (ps_i st) = (f, b, j)" by (metis prod_cases3)
  then have "ps_i st \<le> j" by (rule heredoc_body_advances)
  moreover have "j \<le> ps_i (heredoc_list nest s ((delim, tabs, quoted) # hs) st)"
    using "2.IH" [OF h [symmetric] refl refl refl refl] h by (auto simp: Let_def split: if_splits)
  ultimately show ?case by simp
qed simp

lemma ps_i_skip_heredoc_bodies: "ps_i st \<le> ps_i (skip_heredoc_bodies nest s st)"
  by (simp add: skip_heredoc_bodies_def ps_i_heredoc_list)

lemma redirect_advances:
  assumes "ps_i st < length s"
  shows "ps_i st < ps_i (redirect_or_procsub nest s st)"
proof (cases "find_close s (ps_i st + 2)")
  case (Pair r amb)
  have "ps_i st < ps_i (process_substitution nest s st)"
    using assms Pair
    by (cases r) (auto simp: process_substitution_def Let_def dest: find_close_bounds)
  then show ?thesis
    using redir_op_nonempty [of s "ps_i st"] by (simp add: redirect_or_procsub_def Let_def)
qed

text \<open>One turn of the main loop of \<open>run\<close>, split by the character that opens it.\<close>

definition semicolon_turn :: "nest \<Rightarrow> string \<Rightarrow> pstate \<Rightarrow> pstate" where
  "semicolon_turn nest s st =
    (let nxt = char_at s (ps_i st + 1) in
     end_command nest '';''
       (if nxt = Some (CHR '';'') \<or> nxt = Some (CHR ''&'')
        then adv (2 + (if char_at s (ps_i st + 2) = Some (CHR ''&'') then 1 else 0))
               (p_unk ''case terminator'' st)
        else adv 1 st))"

definition ampersand_turn :: "nest \<Rightarrow> string \<Rightarrow> pstate \<Rightarrow> pstate" where
  "ampersand_turn nest s st =
    (let nxt = char_at s (ps_i st + 1) in
     if nxt = Some (CHR ''&'') then end_command nest ''&&'' (adv 2 st)
     else if nxt = Some (CHR ''>'') then
       (let op = (if char_at s (ps_i st + 2) = Some (CHR ''>'') then ''&>>'' else ''&>'')
        in begin_redirect op None (adv (length op) st))
     else end_command nest ''&'' (adv 1 st))"

definition pipe_turn :: "nest \<Rightarrow> string \<Rightarrow> pstate \<Rightarrow> pstate" where
  "pipe_turn nest s st =
    (let nxt = char_at s (ps_i st + 1) in
     if nxt = Some (CHR ''|'') then end_command nest ''||'' (adv 2 st)
     else if nxt = Some (CHR ''&'') then end_command nest ''|&'' (adv 2 st)
     else end_command nest ''|'' (adv 1 st))"

definition close_paren_turn :: "nest \<Rightarrow> pstate \<Rightarrow> pstate" where
  "close_paren_turn nest st0 =
    (let st = adv 1 st0 in
     if ps_groups st = [] \<or> hd (ps_groups st) \<noteq> ''(''
     then end_command nest '';'' (p_unk ''unbalanced )'' st)
     else close_group nest '')'' st)"

definition run_turn :: "nest \<Rightarrow> string \<Rightarrow> pstate \<Rightarrow> pstate" where
  "run_turn nest s st =
    (let c = s ! ps_i st; nxt = char_at s (ps_i st + 1) in
     if c = SPC \<or> c = TAB then adv 1 st
     else if c = BSL \<and> nxt = Some NL then adv 2 st
     else if c = NL then skip_heredoc_bodies nest s (end_command nest ''newline'' (adv 1 st))
     else if c = CHR ''#'' then
       set_i (case find_char NL s (ps_i st) of None \<Rightarrow> length s | Some k \<Rightarrow> k) st
     else if c = CHR '';'' then semicolon_turn nest s st
     else if c = CHR ''&'' then ampersand_turn nest s st
     else if c = CHR ''|'' then pipe_turn nest s st
     else if c = CHR ''('' then open_paren s st
     else if c = CHR '')'' then close_paren_turn nest st
     else if c = CHR ''<'' \<or> c = CHR ''>'' then redirect_or_procsub nest s st
     else (case scan_word nest s st of (w, st') \<Rightarrow> add_word nest w st'))"

lemma comment_advances:
  assumes "i < length s" and "s ! i = CHR ''#''"
  shows "i < (case find_char NL s i of None \<Rightarrow> length s | Some k \<Rightarrow> k)"
proof (cases "find_char NL s i")
  case (Some k)
  then have "i \<le> k" "s ! k = NL" using find_char_bounds find_char_hit by blast+
  with assms have "i \<noteq> k" by auto
  with \<open>i \<le> k\<close> Some show ?thesis by simp
qed (use assms in simp)

lemma run_turn_advances:
  assumes "ps_i st < length s"
  shows "ps_i st < ps_i (run_turn nest s st)"
proof (cases "s ! ps_i st \<in> set WORD_ENDS")
  case True
  have nl: "ps_i st < ps_i (skip_heredoc_bodies nest s (end_command nest ''newline'' (adv 1 st)))"
    using ps_i_skip_heredoc_bodies [of "end_command nest ''newline'' (adv 1 st)" nest s] by simp
  have "ps_i st < ps_i (semicolon_turn nest s st)" "ps_i st < ps_i (ampersand_turn nest s st)"
    "ps_i st < ps_i (pipe_turn nest s st)" "ps_i st < ps_i (close_paren_turn nest st)"
    by (simp_all add: semicolon_turn_def ampersand_turn_def pipe_turn_def close_paren_turn_def Let_def)
  with nl True assms redirect_advances [OF assms, of nest] show ?thesis
    by (auto simp: run_turn_def Let_def WORD_ENDS_def)
next
  case False
  have "ps_i st < ps_i (case scan_word nest s st of (w, st') \<Rightarrow> add_word nest w st')"
    using scan_word_advances [OF assms False, of nest] by (cases "scan_word nest s st") simp
  with False assms comment_advances [OF assms] show ?thesis
    by (simp add: run_turn_def Let_def WORD_ENDS_def)
qed

function run_loop :: "nest \<Rightarrow> string \<Rightarrow> pstate \<Rightarrow> pstate" where
  "run_loop nest s st =
    (if length s \<le> ps_i st \<or> MAX_PARTS < b_parts (o_budget (ps_out st)) then st
     else run_loop nest s (run_turn nest s st))"
  by pat_completeness auto
termination
  by (relation "measure (\<lambda>(nest, s, st). length s - ps_i st)")
     (auto intro!: diff_less_mono2 run_turn_advances)

declare run_loop.simps [simp del]

definition bad_control :: "char \<Rightarrow> bool" where
  "bad_control c \<longleftrightarrow> is_control c \<and> c \<noteq> TAB \<and> c \<noteq> NL"

text \<open>What \<open>run\<close> does after the loop.\<close>

definition finish_run :: "nest \<Rightarrow> pstate \<Rightarrow> out" where
  "finish_run nest st0 =
    (let st1 = end_command nest ''eof'' st0;
         st2 = (if ps_pending st1 \<noteq> None then p_unk ''redirection without a target'' st1 else st1);
         st3 = (if ps_groups st2 \<noteq> [] then p_unk ''unbalanced ( or {'' st2 else st2);
         st4 = (if ps_heredocs st3 \<noteq> [] then p_unk ''unterminated here-document'' st3 else st3)
     in ps_out st4)"

definition run_parser :: "nest \<Rightarrow> string \<Rightarrow> budget \<Rightarrow> out" where
  "run_parser nest s b0 =
    (let b = b0\<lparr>b_work := b_work b0 + length s\<rparr>; o0 = new_out b in
     if MAX_WORK < b_work b then unk ''input too complex'' o0
     else let o1 = (if \<exists>c \<in> set s. bad_control c then unk ''control character in command'' o0 else o0)
          in finish_run nest (run_loop nest s (new_state o1)))"

section \<open>Nesting and the entry point\<close>

text \<open>
  \<open>nest_at d\<close> answers a nested request of a parser that has \<open>d\<close> levels left below it, that is
  one at depth \<open>MAX_DEPTH - d\<close>.
\<close>

primrec nest_at :: "nat \<Rightarrow> nest" where
  "nest_at 0 = (\<lambda>req b. unk ''nesting too deep'' (new_out b))"
| "nest_at (Suc d) = (\<lambda>req b.
     case req of
       Text t \<Rightarrow> run_parser (nest_at d) t b
     | Wrapped ws as us \<Rightarrow> classify (nest_at d) ws as [] us [''wrapped''] (new_out b))"

definition parse :: "json \<Rightarrow> parse_result" where
  "parse command =
    (case command of
       JStr s \<Rightarrow>
         (if MAX_LENGTH < length s then \<lparr>pr_parts = [], pr_unknown = [''command is too long to analyse'']\<rparr>
          else if NUL \<in> set s then \<lparr>pr_parts = [], pr_unknown = [''command contains a NUL byte'']\<rparr>
          else let r = run_parser (nest_at MAX_DEPTH) s \<lparr>b_parts = 0, b_work = 0\<rparr>
               in \<lparr>pr_parts = o_parts r, pr_unknown = dedup (o_unknown r)\<rparr>)
     | _ \<Rightarrow> \<lparr>pr_parts = [], pr_unknown = [''command is not a string'']\<rparr>)"

end
