(* ===== verification/GlobMatch.thy ===== *)
theory GlobMatch
  imports Prelude
begin

text \<open>
  \<open>fnmatch.fnmatchcase\<close> of the standard library, which \<open>decide.py\<close> uses to ask whether a
  shell glob can reach a sensitive name. A pattern is read into tokens; a bracket holds the
  chunks between range hyphens, as \<open>fnmatch.translate\<close> cuts them, with empty ranges removed.
\<close>

datatype glob_token = GStar | GAny | GSet bool "string list" | GLit char

text \<open>The position of the bracket that closes a set, in the text after the opening one.\<close>

definition bracket_end :: "string \<Rightarrow> nat option" where
  "bracket_end cs =
    (let j1 = (if prefix ''!'' cs then 1 else 0);
         j2 = (if char_at cs j1 = Some (CHR '']'') then j1 + 1 else j1)
     in find_char (CHR '']'') cs j2)"

text \<open>The chunks between the hyphens that make ranges; the search skips two characters after one.\<close>

function chunks :: "nat \<Rightarrow> string \<Rightarrow> string list" where
  "chunks off content =
    (case find_char (CHR ''-'') content off of
       None \<Rightarrow> [content]
     | Some k \<Rightarrow> take k content # chunks 2 (drop (k + 1) content))"
  by pat_completeness auto
termination
  by (relation "measure (\<lambda>(off, content). length content)") (auto dest: find_char_bounds)

declare chunks.simps [simp del]

text \<open>A hyphen at the very end is an ordinary character of the last chunk.\<close>

definition close_chunks :: "string list \<Rightarrow> string list" where
  "close_chunks cs =
     (if 1 < length cs \<and> last cs = [] then butlast (butlast cs) @ [last (butlast cs) @ ''-''] else cs)"

fun drop_empty_ranges :: "string list \<Rightarrow> string list" where
  "drop_empty_ranges [] = []"
| "drop_empty_ranges (c # cs) =
    (case drop_empty_ranges cs of
       [] \<Rightarrow> [c]
     | d # ds \<Rightarrow>
         if (of_char (hd d) :: nat) < of_char (last c) then (butlast c @ tl d) # ds else c # d # ds)"

definition bracket_token :: "string \<Rightarrow> glob_token" where
  "bracket_token content =
    (let neg = prefix ''!'' content;
         cs = drop_empty_ranges (close_chunks (chunks (if neg then 2 else 1) content))
     in if neg then (if cs = [''!''] then GAny else GSet True (tl (hd cs) # tl cs)) else GSet False cs)"

fun in_ranges :: "char \<Rightarrow> string list \<Rightarrow> bool" where
  "in_ranges x (c # d # ds) =
    (x \<in> set c
     \<or> (of_char (last c) :: nat) \<le> of_char x \<and> (of_char x :: nat) \<le> of_char (hd d)
     \<or> in_ranges x (d # ds))"
| "in_ranges x [c] = (x \<in> set c)"
| "in_ranges x [] = False"

function glob_tokens :: "string \<Rightarrow> glob_token list" where
  "glob_tokens [] = []"
| "glob_tokens (c # cs) =
    (if c = CHR ''*'' then GStar # glob_tokens cs
     else if c = CHR ''?'' then GAny # glob_tokens cs
     else if c = CHR ''['' then
       (case bracket_end cs of
          None \<Rightarrow> GLit c # glob_tokens cs
        | Some j \<Rightarrow> bracket_token (take j cs) # glob_tokens (drop (j + 1) cs))
     else GLit c # glob_tokens cs)"
  by pat_completeness auto
termination
  by (relation "measure length") auto

fun glob_match :: "glob_token list \<Rightarrow> string \<Rightarrow> bool" where
  "glob_match [] s = (s = [])"
| "glob_match (GStar # ts) s =
     (glob_match ts s \<or> (case s of [] \<Rightarrow> False | x # s' \<Rightarrow> glob_match (GStar # ts) s'))"
| "glob_match (GAny # ts) s = (case s of [] \<Rightarrow> False | x # s' \<Rightarrow> glob_match ts s')"
| "glob_match (GSet neg cs # ts) s =
     (case s of [] \<Rightarrow> False | x # s' \<Rightarrow> in_ranges x cs \<noteq> neg \<and> glob_match ts s')"
| "glob_match (GLit c # ts) s = (case s of [] \<Rightarrow> False | x # s' \<Rightarrow> x = c \<and> glob_match ts s')"

definition fnmatchcase :: "string \<Rightarrow> string \<Rightarrow> bool" where
  "fnmatchcase name pat = glob_match (glob_tokens pat) name"

text \<open>A pattern without wildcard characters matches exactly itself.\<close>

lemma fnmatchcase_literal:
  "CHR ''*'' \<notin> set p \<Longrightarrow> CHR ''?'' \<notin> set p \<Longrightarrow> CHR ''['' \<notin> set p \<Longrightarrow> fnmatchcase s p = (s = p)"
  unfolding fnmatchcase_def
proof (induction p arbitrary: s)
  case Nil
  then show ?case by simp
next
  case (Cons c p)
  then show ?case by (cases s) auto
qed

end
