(* ===== verification/ArgChecks.thy ===== *)
theory ArgChecks
  imports Verdicts ShellParse GlobMatch
begin

text \<open>
  The strictness-only checks \<open>decide.py\<close> makes on the arguments of a shell command: candidate
  paths inside an argument, globs that can reach a sensitive name, the sed scanner, hidden
  code in git, awk and option prefixes, environment variables and builtins, names a deny
  rule forbids. Every check returns a list of verdicts to add to the part's.
\<close>

section \<open>Tables\<close>

definition WRITERS :: "string list" where
  "WRITERS =
    [''tee'', ''cp'', ''mv'', ''rm'', ''ln'', ''install'', ''touch'', ''truncate'', ''chmod'', ''chown'', ''chgrp'',
     ''mkdir'', ''rmdir'', ''unlink'', ''shred'', ''dd'', ''sed'', ''perl'', ''awk'', ''gawk'', ''patch'', ''rsync'',
     ''scp'', ''mkfifo'', ''mknod'', ''split'', ''csplit'', ''ed'', ''ex'', ''vi'', ''vim'', ''nano'', ''emacs'',
     ''sponge'', ''fallocate'', ''setfacl'', ''chattr'', ''wget'', ''curl'', ''tar'', ''unzip'', ''zip'', ''gzip'',
     ''gunzip'', ''bzip2'', ''xz'', ''7z'', ''cpio'', ''python'', ''python3'', ''ruby'', ''node'', ''git'',
     ''sort'', ''uniq'', ''xxd'', ''tree'', ''find'', ''file'', ''column'', ''bat'', ''base64'', ''openssl'']"

definition READERS :: "string list" where
  "READERS =
    [''cat'', ''head'', ''tail'', ''less'', ''more'', ''ls'', ''wc'', ''file'', ''stat'', ''grep'', ''egrep'', ''fgrep'',
     ''rg'', ''diff'', ''cmp'', ''sort'', ''uniq'', ''nl'', ''tac'', ''od'', ''xxd'', ''hexdump'', ''strings'', ''du'',
     ''tree'', ''find'', ''readlink'', ''realpath'', ''md5sum'', ''sha1sum'', ''sha256sum'', ''sha512sum'', ''cut'',
     ''bat'', ''column'', ''fold'', ''paste'', ''comm'', ''join'']"

definition REMOVERS :: "string list" where
  "REMOVERS = [''rm'', ''rmdir'', ''unlink'', ''shred'', ''mv'']"

definition URL_SCHEMES :: "string list" where
  "URL_SCHEMES = [''http://'', ''https://'', ''ftp://'', ''ftps://'', ''ssh://'', ''git://'']"

definition REDIR_NOOP :: "string list" where
  "REDIR_NOOP = [''/dev/null'', ''/dev/stdout'', ''/dev/stderr'', ''/dev/stdin'', ''/dev/fd/0'', ''/dev/fd/1'', ''/dev/fd/2'']"

definition SENSITIVE_SAMPLES :: "string list" where
  "SENSITIVE_SAMPLES = SECRET_SAMPLES @
    [''.git'', ''.m2c'', ''.bashrc'', ''.zshrc'', ''.profile'', ''.bash_profile'', ''.zprofile'', ''.zshenv'', ''.gitconfig'']"

definition EXEC_OPTION_PREFIXES :: "string \<rightharpoonup> string list" where
  "EXEC_OPTION_PREFIXES = map_of
    [(''rg'', [''--pre'']),
     (''tar'', [''--to-command'', ''--checkpoint-action'', ''--use-compress-program'', ''-I'', ''--rsh-command'']),
     (''rsync'', [''-e'', ''--rsh'']), (''scp'', [''-S'', ''-o'']), (''sort'', [''--compress-program''])]"

definition AWKS :: "string list" where "AWKS = [''awk'', ''gawk'', ''mawk'', ''nawk'']"

definition AWK_RISKY :: "string list" where
  "AWK_RISKY = [''system'', ''getline'', ''|'', ''>'', ''@include'', ''@load'', ''inplace'', ''popen'', ''close('']"

definition GIT_ASK_SUBS :: "string list" where
  "GIT_ASK_SUBS = [''submodule'', ''filter-branch'', ''difftool'', ''mergetool'', ''daemon'', ''instaweb'', ''gui'', ''bisect'', ''config'']"

definition GIT_READONLY_CONFIG :: "string list" where
  "GIT_READONLY_CONFIG = [''--get'', ''--get-all'', ''--get-regexp'', ''--list'', ''-l'', ''--show-origin'', ''--show-scope'']"

definition GIT_ASK_OPTIONS :: "string list" where
  "GIT_ASK_OPTIONS = [''--exec'', ''--extcmd'', ''--ext-diff'', ''--upload-pack'', ''--receive-pack'', ''--open-files-in-pager'',
     ''--config-env'', ''--exec-path'', ''--ext-cmd'']"

definition BUILTINS_WITH_ARITHMETIC :: "string list" where
  "BUILTINS_WITH_ARITHMETIC = [''declare'', ''typeset'', ''let'', ''printf'', ''test'', ''['', ''export'', ''unset'', ''local'',
     ''read'', ''readonly'', ''set'', ''shopt'', ''mapfile'', ''readarray'', ''getopts'']"

definition DANGEROUS_ENV :: "string list" where
  "DANGEROUS_ENV =
    [''PS0'', ''PS1'', ''PS2'', ''PS4'', ''PROMPT_COMMAND'', ''BASH_ENV'', ''ENV'', ''SHELLOPTS'', ''BASHOPTS'', ''BASH_XTRACEFD'', ''IFS'',
     ''PATH'', ''CDPATH'', ''GLOBIGNORE'', ''LD_PRELOAD'', ''LD_LIBRARY_PATH'', ''LD_AUDIT'', ''DYLD_INSERT_LIBRARIES'', ''PAGER'',
     ''GIT_PAGER'', ''GIT_SSH'', ''GIT_SSH_COMMAND'', ''GIT_EXTERNAL_DIFF'', ''GIT_ASKPASS'', ''SSH_ASKPASS'', ''EDITOR'', ''VISUAL'',
     ''GIT_EDITOR'', ''NODE_OPTIONS'', ''PYTHONSTARTUP'', ''PYTHONPATH'', ''PERL5OPT'', ''PERL5LIB'', ''RUBYOPT'', ''RUBYLIB'', ''MANPAGER'']"

section \<open>Arguments that may be paths\<close>

definition glob_may_hit_sensitive :: "string \<Rightarrow> bool" where
  "glob_may_hit_sensitive t =
    (\<exists>c \<in> set (filter (\<lambda>c. c \<noteq> []) (split_on SLASH t)).
       has_char_of ''*?['' c \<and>
       (\<exists>sample \<in> set SENSITIVE_SAMPLES.
          \<not> (prefix ''.'' sample \<and> \<not> prefix ''.'' c) \<and> fnmatchcase sample c))"

text \<open>\<open>-cf.git/config\<close>: the value may start after any letter of the cluster.\<close>

definition cluster_values :: "string \<Rightarrow> string list" where
  "cluster_values t = map (\<lambda>i. drop i t) [2..<min (length t) 42]"

definition equals_value :: "string \<Rightarrow> string list" where
  "equals_value t = (if CHR ''='' \<in> set t then [after_first (CHR ''='') t] else [])"

definition base_candidates :: "string \<Rightarrow> string list" where
  "base_candidates t =
    (if prefix ''-'' t then
       (if prefix ''--'' t then equals_value t
        else if 2 < length t then cluster_values t @ equals_value t
        else [])
     else t # equals_value t)"

definition more_candidates :: "string \<Rightarrow> string list" where
  "more_candidates c =
     (if prefix ''@'' c \<and> 1 < length c then [tl c] else [])
     @ (if CHR '':'' \<in> set c \<and> \<not> has_prefix_of URL_SCHEMES c then [last (split_on (CHR '':'') c)] else [])"

definition arg_candidates :: "word \<Rightarrow> string list" where
  "arg_candidates w =
    (let t = w_text w in
     if t = [] \<or> has_prefix_of URL_SCHEMES t then []
     else let out = base_candidates t
          in filter (\<lambda>c. c \<noteq> [] \<and> \<not> has_prefix_of URL_SCHEMES c) (out @ concat (map more_candidates out)))"

section \<open>The sed scanner\<close>

text \<open>
  The scanner of \<open>_sed_script_is_risky\<close> on the rest of the script. \<open>None\<close> is the early
  \<open>return True\<close> (index -1 of \<open>skip_delimited\<close>).
\<close>

fun skip_delimited :: "char \<Rightarrow> string \<Rightarrow> string option" where
  "skip_delimited delim [] = None"
| "skip_delimited delim (c # cs) =
     (if c = BSL then (case cs of [] \<Rightarrow> None | _ # cs' \<Rightarrow> skip_delimited delim cs')
      else if c = delim then Some cs
      else skip_delimited delim cs)"

lemma skip_delimited_length: "skip_delimited d s = Some r \<Longrightarrow> length r < length s"
  by (induction d s arbitrary: r rule: skip_delimited.induct)
     (fastforce split: if_splits list.splits)+

function sed_addresses :: "string \<Rightarrow> string option" where
  "sed_addresses s =
    (case s of
       [] \<Rightarrow> Some []
     | c # cs \<Rightarrow>
        if py_isdigit c \<or> c \<in> set ''$,~+'' then sed_addresses cs
        else if c = SLASH then
          (case skip_delimited SLASH cs of
             None \<Rightarrow> None
           | Some r \<Rightarrow> sed_addresses (dropWhile (\<lambda>x. x \<in> set ''IM'') r))
        else if c = BSL \<and> cs \<noteq> [] then
          (case skip_delimited (hd cs) (tl cs) of None \<Rightarrow> None | Some r \<Rightarrow> sed_addresses r)
        else Some s)"
  by pat_completeness auto
termination
proof (relation "measure length", goal_cases)
  case (3 s c cs r)
  then show ?case
    using length_dropWhile_le [of "\<lambda>x. x \<in> set ''IM''" r] skip_delimited_length [of SLASH cs r] by simp
next
  case (4 s c cs r)
  then show ?case using skip_delimited_length [of "hd cs" "tl cs" r] by (cases cs) auto
qed auto

declare sed_addresses.simps [simp del]

lemma sed_addresses_Cons:
  "sed_addresses (c # cs) =
     (if py_isdigit c \<or> c \<in> set ''$,~+'' then sed_addresses cs
      else if c = SLASH then
        (case skip_delimited SLASH cs of
           None \<Rightarrow> None
         | Some r \<Rightarrow> sed_addresses (dropWhile (\<lambda>x. x \<in> set ''IM'') r))
      else if c = BSL \<and> cs \<noteq> [] then
        (case skip_delimited (hd cs) (tl cs) of None \<Rightarrow> None | Some r \<Rightarrow> sed_addresses r)
      else Some (c # cs))"
  by (subst sed_addresses.simps) (simp only: list.case)

lemma sed_addresses_length: "sed_addresses s = Some r \<Longrightarrow> length r \<le> length s"
proof (induction s arbitrary: r rule: length_induct)
  case (1 s)
  then have IH: "\<And>t r. length t < length s \<Longrightarrow> sed_addresses t = Some r \<Longrightarrow> length r \<le> length t"
    by blast
  show ?case
  proof (cases s)
    case Nil
    with "1.prems" show ?thesis by (simp add: sed_addresses.simps)
  next
    case (Cons c cs)
    have eq: "sed_addresses (c # cs) = Some r" using "1.prems" Cons by simp
    have "sed_addresses cs = Some r
      \<or> (\<exists>t. skip_delimited SLASH cs = Some t \<and> sed_addresses (dropWhile (\<lambda>x. x \<in> set ''IM'') t) = Some r)
      \<or> (\<exists>t. skip_delimited (hd cs) (tl cs) = Some t \<and> sed_addresses t = Some r)
      \<or> r = c # cs"
      using eq unfolding sed_addresses_Cons
      by (simp del: list.set split: if_split_asm option.split_asm)
    then consider "sed_addresses cs = Some r"
      | t where "skip_delimited SLASH cs = Some t" "sed_addresses (dropWhile (\<lambda>x. x \<in> set ''IM'') t) = Some r"
      | t where "skip_delimited (hd cs) (tl cs) = Some t" "sed_addresses t = Some r"
      | "r = c # cs"
      by blast
    then show ?thesis
    proof cases
      case 1
      then show ?thesis using IH [of cs r] Cons by simp
    next
      case (2 t)
      have le: "length (dropWhile (\<lambda>x. x \<in> set ''IM'') t) \<le> length t" by (rule length_dropWhile_le)
      with skip_delimited_length [OF 2(1)] have "length (dropWhile (\<lambda>x. x \<in> set ''IM'') t) < length s"
        using Cons by simp
      from IH [OF this 2(2)] le skip_delimited_length [OF 2(1)] Cons show ?thesis by simp
    next
      case (3 t)
      have "length (tl cs) \<le> length cs" by simp
      with skip_delimited_length [OF 3(1)] have "length t < length s" using Cons by simp
      from IH [OF this 3(2)] this show ?thesis by simp
    qed (use Cons in simp)
  qed
qed

text \<open>
  What one command letter does with the text after it: \<open>None\<close> is risky, otherwise the rest.
\<close>

definition sed_until :: "string \<Rightarrow> string \<Rightarrow> string" where
  "sed_until stops s = dropWhile (\<lambda>x. x \<notin> set stops) s"

definition sed_substitute :: "string \<Rightarrow> string option" where
  "sed_substitute s =
    (case s of
       [] \<Rightarrow> None
     | delim # cs \<Rightarrow>
        if delim \<in> {BSL, NL} then None
        else (case skip_delimited delim cs of
                None \<Rightarrow> None
              | Some r \<Rightarrow>
                 (case skip_delimited delim r of
                    None \<Rightarrow> None
                  | Some flags \<Rightarrow>
                      if \<exists>x \<in> set (takeWhile (\<lambda>x. x \<notin> set ('';}'' @ [NL])) flags). x \<in> set ''ewWrR''
                      then None else Some (sed_until ('';}'' @ [NL]) flags))))"

definition sed_command :: "char \<Rightarrow> string \<Rightarrow> string option" where
  "sed_command c s =
    (if c \<in> set ''sy'' then sed_substitute s
     else if c \<in> set ''aic'' then Some (sed_until [NL] s)
     else if c \<in> set ''btT:'' then Some (sed_until ('';}'' @ [NL]) s)
     else if c \<in> set ''qQlL'' then Some (dropWhile (\<lambda>x. py_isdigit x \<or> x = SPC) s)
     else if c \<in> set ''pPdDgGhHxnN=zF}'' then Some s
     else None)"

lemma sed_until_length: "length (sed_until stops s) \<le> length s"
  by (simp add: sed_until_def length_dropWhile_le)

lemma sed_substitute_length:
  assumes "sed_substitute s = Some r"
  shows "length r \<le> length s"
proof (cases s)
  case (Cons delim cs)
  with assms obtain t flags where "skip_delimited delim cs = Some t" "skip_delimited delim t = Some flags"
    and "r = sed_until ('';}'' @ [NL]) flags"
    by (auto simp: sed_substitute_def split: if_splits option.splits)
  then show ?thesis
    using skip_delimited_length [of delim cs t] skip_delimited_length [of delim t flags]
      sed_until_length [of "'';}'' @ [NL]" flags] Cons by simp
qed (use assms in \<open>simp add: sed_substitute_def\<close>)

lemma sed_command_length: "sed_command c s = Some r \<Longrightarrow> length r \<le> length s"
  unfolding sed_command_def
  by (simp del: list.set append.simps split: if_split_asm;
      (erule sed_substitute_length)?; (drule sym)?; simp del: list.set append.simps
      add: sed_until_length length_dropWhile_le)

function sed_script_is_risky :: "string \<Rightarrow> bool" where
  "sed_script_is_risky s =
    (case s of
       [] \<Rightarrow> False
     | c # cs \<Rightarrow>
        if c \<in> set ('' ;{}!'' @ [TAB, NL]) then sed_script_is_risky cs
        else if c = CHR ''#'' then sed_script_is_risky (sed_until [NL] cs)
        else (case sed_addresses s of
                None \<Rightarrow> True
              | Some r \<Rightarrow>
                 (case dropWhile (\<lambda>x. x \<in> set ('' !'' @ [TAB])) r of
                    [] \<Rightarrow> False
                  | d # ds \<Rightarrow>
                     (case sed_command d ds of
                        None \<Rightarrow> True
                      | Some rest \<Rightarrow> sed_script_is_risky rest))))"
  by pat_completeness auto
termination
proof (relation "measure length", goal_cases)
  case (3 s c cs)
  then show ?case using length_dropWhile_le [of "\<lambda>x. x \<notin> set [NL]" cs] by (simp add: sed_until_def)
next
  case (4 s c cs r d ds rest)
  then have "length rest \<le> length ds" by (simp add: sed_command_length)
  moreover have "length (d # ds) \<le> length r" using 4(5) by (metis length_dropWhile_le)
  moreover have "length r \<le> length s" using 4(4) by (simp add: sed_addresses_length)
  ultimately show ?case by simp
qed auto

declare sed_script_is_risky.simps [simp del]

section \<open>Programs that take code in an argument\<close>

definition assign_name :: "string \<Rightarrow> string" where
  "assign_name t = (let name = before_first (CHR ''='') t in if suffix ''+'' name then butlast name else name)"

text \<open>The loop that collects the sed scripts; \<open>flagged\<close> says whether some word is \<open>-e\<close>.\<close>

fun sed_scripts :: "bool \<Rightarrow> string list \<Rightarrow> string list \<Rightarrow> verdict list \<Rightarrow> string list \<times> verdict list" where
  "sed_scripts flagged [] scripts out = (scripts, out)"
| "sed_scripts flagged (t # ts) scripts out =
     (if t \<in> {''-e'', ''--expression''} \<and> ts \<noteq> []
      then (case ts of
              [] \<Rightarrow> (scripts, out)
            | s # ts' \<Rightarrow> sed_scripts flagged ts' (scripts @ [s]) out)
      else if prefix ''--expression='' t
      then sed_scripts flagged ts (scripts @ [after_first (CHR ''='') t]) out
      else if t = ''--file'' \<or> prefix ''--file='' t
              \<or> (prefix ''-'' t \<and> \<not> prefix ''--'' t \<and> CHR ''f'' \<in> set (tl t))
      then sed_scripts flagged ts scripts (out @ [ask_v ''sed reads its script from a file'' None])
      else if \<not> prefix ''-'' t \<and> scripts = [] \<and> \<not> flagged
      then (scripts @ [t], out)
      else sed_scripts flagged ts scripts out)"

definition sed_checks :: "string list \<Rightarrow> verdict list" where
  "sed_checks texts =
    (let (scripts, out) = sed_scripts (\<exists>x \<in> set texts. x \<in> {''-e'', ''--expression''}) texts [] []
     in out @ (if \<exists>sc \<in> set scripts. sed_script_is_risky sc
               then [ask_v ''this sed script can run a command or write a file'' None] else []))"

definition awk_checks :: "string list \<Rightarrow> verdict list" where
  "awk_checks texts =
    (if (\<exists>t \<in> set texts. \<exists>k \<in> set AWK_RISKY. contains k t)
        \<or> (\<exists>t \<in> set texts. t \<in> {''-f'', ''-i'', ''-E''}
             \<or> has_prefix_of [''--file'', ''--exec'', ''--source'', ''-f''] t)
     then [ask_v ''this awk program can run a command or write a file'' None] else [])"

text \<open>
  The \<open>while\<close> over git's global options: the words from the subcommand on, or \<open>None\<close> when
  the loop leaves by \<open>break\<close> and its \<open>else\<close> branch does not run.
\<close>

fun git_globals :: "string list \<Rightarrow> string list option" where
  "git_globals [] = Some []"
| "git_globals (t # ts) =
     (if \<not> prefix ''-'' t then Some (t # ts)
      else if t = ''-c'' \<or> has_prefix_of [''-c'', ''--exec-path'', ''--upload-pack'', ''--receive-pack'',
                                        ''--config-env'', ''--ext-cmd''] t
      then None
      else if t \<in> {''-C'', ''--git-dir'', ''--work-tree'', ''--namespace''}
      then (case ts of [] \<Rightarrow> Some [] | _ # ts' \<Rightarrow> git_globals ts')
      else git_globals ts)"

definition git_sub_checks :: "string \<Rightarrow> string list \<Rightarrow> verdict list" where
  "git_sub_checks sub rest =
    (if sub \<in> set GIT_ASK_SUBS
        \<and> \<not> (sub = ''config'' \<and> rest \<noteq> [] \<and> hd rest \<in> set GIT_READONLY_CONFIG)
     then [ask_v ''this git command can run a program or change .git/config'' None]
     else if sub = ''remote'' \<and> rest \<noteq> [] \<and> hd rest \<notin> {''-v'', ''--verbose'', ''show'', ''get-url''}
     then [ask_v ''this git command can change .git/config'' None]
     else if sub = ''rebase'' \<and> (\<exists>t \<in> set rest. t \<in> {''-x'', ''--exec''} \<or> has_prefix_of [''-x'', ''--exec''] t)
     then [ask_v ''git rebase --exec runs a command'' None]
     else if sub \<in> {''clone'', ''fetch'', ''ls-remote'', ''pull'', ''push''}
             \<and> (\<exists>t \<in> set rest. t = ''-u'' \<and> sub \<noteq> ''push'')
     then [ask_v ''a git option can run another program'' None]
     else if sub = ''grep'' \<and> (\<exists>t \<in> set rest. prefix ''-O'' t)
     then [ask_v ''git grep -O runs a program'' None]
     else [])
    @ (if \<exists>t \<in> set rest. has_prefix_of GIT_ASK_OPTIONS t
       then [ask_v ''a git option can run another program'' None] else [])"

definition git_checks :: "string list \<Rightarrow> verdict list" where
  "git_checks texts =
    (case git_globals texts of
       None \<Rightarrow> [ask_v ''a git option can run another program'' None]
     | Some [] \<Rightarrow> git_sub_checks [] []
     | Some (sub # rest) \<Rightarrow> git_sub_checks sub rest)"

definition hidden_code :: "string \<Rightarrow> part \<Rightarrow> verdict list" where
  "hidden_code name p =
    (let args = tl (p_argv p); texts = map w_text args in
     if (\<exists>w \<in> set args. \<not> literal w) \<and> name \<in> {''sed'', ''awk'', ''gawk'', ''mawk'', ''nawk''}
     then [ask_v ''the script of this program is built from an expansion'' None]
     else (if name = ''sed'' then sed_checks texts
           else if name \<in> set AWKS then awk_checks texts else [])
        @ (case EXEC_OPTION_PREFIXES name of
             Some pres \<Rightarrow>
               (if \<exists>t \<in> set texts. has_prefix_of pres t
                then [ask_v ''an option of this program can run another program'' None] else [])
           | None \<Rightarrow> if name = ''git'' then git_checks texts else []))"

section \<open>Environment variables and builtins\<close>

abbreviation env_ask :: verdict where
  "env_ask \<equiv> ask_v ''this sets an environment variable that can make a program run something'' None"

definition env_and_builtin_checks :: "string option \<Rightarrow> part \<Rightarrow> verdict list" where
  "env_and_builtin_checks name p =
    (let texts = map w_text (tl (p_argv p)) in
     map (\<lambda>w. env_ask) (filter (\<lambda>w. assign_name (w_text w) \<in> set DANGEROUS_ENV) (p_assigns p))
     @ (case name of
          None \<Rightarrow> []
        | Some n \<Rightarrow>
            if n \<notin> set BUILTINS_WITH_ARITHMETIC then []
            else (if \<exists>t \<in> set texts. contains ''$('' t \<or> BTK \<in> set t
                  then [ask_v ''a shell builtin evaluates this argument, which contains a command substitution'' None]
                  else [])
               @ (if n \<in> {''export'', ''declare'', ''typeset'', ''local'', ''readonly''}
                     \<and> (\<exists>t \<in> set texts. \<not> prefix ''-'' t \<and> assign_name t \<in> set DANGEROUS_ENV)
                  then [env_ask] else [])
               @ (if n = ''set'' \<and> (\<exists>t \<in> set texts.
                        prefix ''-'' t \<and> \<not> prefix ''--'' t \<and> CHR ''x'' \<in> set (tl t) \<or> t = ''xtrace'')
                  then [ask_v ''set -x makes the shell expand PS4 and print commands'' None] else [])))"

section \<open>Names that a deny rule forbids\<close>

definition denied_program_names :: "env \<Rightarrow> string list" where
  "denied_program_names env =
     map basename
       (filter (\<lambda>first. first \<noteq> [] \<and> CHR ''*'' \<notin> set first)
         (map (\<lambda>r. before_first (CHR '':'') (before_first SPC (r_pattern r)))
           (filter (\<lambda>r. r_tool r = ''bash'') (mr_deny (e_merged env)))))"

definition denied_name_as_argument :: "env \<Rightarrow> part \<Rightarrow> verdict list" where
  "denied_name_as_argument env p =
     (let names = denied_program_names env in
      if \<exists>w \<in> set (tl (p_argv p)). literal w \<and> basename (w_text w) \<in> set names
      then [ask_v ''an argument names a program that a deny rule forbids'' None] else [])"

section \<open>The argument scan\<close>

text \<open>\<open>_script_words\<close>: indexes into argv.\<close>

definition script_words :: "string \<Rightarrow> part \<Rightarrow> nat list" where
  "script_words name p =
    (if name \<noteq> ''sed'' \<and> name \<notin> set AWKS then []
     else let texts = map w_text (p_argv p);
              flag = (if name = ''sed'' then [''-e'', ''--expression''] else [''-e'', ''--source'']);
              has_flag = (\<exists>t \<in> set (tl texts). t \<in> set flag)
          in filter (\<lambda>i. texts ! (i - 1) \<in> set flag) [2..<length texts]
             @ (if has_flag then []
                else take 1 (filter (\<lambda>i. \<not> prefix ''-'' (texts ! i)) [1..<length texts])))"

definition in_plan :: "env \<Rightarrow> bool" where
  "in_plan env \<longleftrightarrow> cx_mode (e_ctx env) = ''plan''"

definition write_tools :: "string \<Rightarrow> string list" where
  "write_tools name = (if name = ''rm'' then [''edit_file'', ''write_file'', ''delete_path'']
                       else [''edit_file'', ''write_file''])"

text \<open>The body of the loop over the candidate paths of one argument.\<close>

definition candidate_verdicts ::
    "env \<Rightarrow> string \<Rightarrow> bool \<Rightarrow> bool \<Rightarrow> string option \<Rightarrow> string \<Rightarrow> verdict list" where
  "candidate_verdicts env name writer reader cwd cand =
    (case norm env (JStr cand) cwd of
       None \<Rightarrow> if writer \<or> reader then [ask_v ''an argument is not a usable path'' None] else []
     | Some np \<Rightarrow>
         if is_secret_path np
         then [deny_v ''an argument names a path on the hard denylist of secrets'' None]
         else if writer then
           (if is_protected_path np
            then [deny_v ''a protected path (.git, .m2c, shell start-up files) is read-only'' None]
            else if \<not> np_inside np then [ask_v ''a path outside the project needs approval'' None]
            else if np_rel np = Some ''.'' \<and> name \<in> set REMOVERS
            then [ask_v ''this would remove the whole project and needs approval'' None]
            else (case first_path_match (mr_deny (e_merged env)) (write_tools name) np (cx_home (e_ctx env)) True of
                    Some r \<Rightarrow> [deny_by r]
                  | None \<Rightarrow> if in_plan env then [deny_v ''plan mode does not allow changes'' None] else []))
         else if reader then
           (if \<not> np_inside np then [ask_v ''a path outside the project needs approval'' None]
            else (case first_path_match (mr_deny (e_merged env)) [''read_file''] np (cx_home (e_ctx env)) True of
                    Some r \<Rightarrow> [deny_by r]
                  | None \<Rightarrow> []))
         else if is_protected_path np then [ask_v ''an argument names a protected path'' None]
         else [])"

definition arg_verdicts ::
    "env \<Rightarrow> string \<Rightarrow> bool \<Rightarrow> bool \<Rightarrow> string option \<Rightarrow> word \<Rightarrow> verdict list" where
  "arg_verdicts env name writer reader cwd w =
    (if (w_expands w \<or> w_glob w) \<and> (writer \<or> reader)
        \<and> (w_expands w \<or> writer \<or> glob_may_hit_sensitive (w_text w))
     then [ask_v ''an argument expands at run time, so its target cannot be checked'' None] else [])
    @ concat (map (candidate_verdicts env name writer reader cwd) (arg_candidates w))"

definition scan_args :: "env \<Rightarrow> part \<Rightarrow> string \<Rightarrow> string option \<Rightarrow> verdict list" where
  "scan_args env p name cwd =
    (let scripts = script_words name p;
         writer = (name \<in> set WRITERS \<or> name = ''find'' \<and> (\<exists>w \<in> set (p_argv p). w_text w = ''-delete''));
         reader = name \<in> set READERS
     in hidden_code name p
        @ concat (map (\<lambda>(idx, w). arg_verdicts env name writer reader cwd w)
                   (filter (\<lambda>(idx, w). idx \<notin> set scripts) (enumerate 1 (tl (p_argv p))))))"

end
