(* ===== verification/Decide.thy ===== *)
theory Decide
  imports ArgChecks
begin

text \<open>
  The rest of \<open>m2c/src/m2c/policy/decide.py\<close>: redirections, one part of a shell command,
  following \<open>cd\<close>, the decision for a shell command and for leaving plan mode, and the entry
  point \<open>decide\<close>. A Python exception inside \<open>_decide\<close> is the value \<open>None\<close>, which \<open>decide\<close>
  turns into a denial.
\<close>

section \<open>Shell\<close>

text \<open>The body of the loop over the redirections of a part.\<close>

definition redirect_verdict :: "env \<Rightarrow> string option \<Rightarrow> redirect \<Rightarrow> verdict list" where
  "redirect_verdict env cwd rd =
    (if rd_op rd \<in> {''<<'', ''<<-'', ''<<<''} then []
     else (case rd_target rd of
         None \<Rightarrow> [ask_v ''a redirection has no target'' None]
       | Some tgt \<Rightarrow>
          if \<not> (writes_file rd \<or> reads_file rd) then []
          else if \<not> literal tgt then [ask_v ''a redirection target expands at run time'' None]
          else if w_text tgt \<in> set REDIR_NOOP then []
          else (case norm env (JStr (w_text tgt)) cwd of
             None \<Rightarrow> [ask_v ''a redirection target is not a usable path'' None]
           | Some np \<Rightarrow>
               (if writes_file rd
                then [path_verdict (env\<lparr>e_eff := ''R1''\<rparr>) [''edit_file'', ''write_file''] EDIT np] else [])
             @ (if reads_file rd
                then [path_verdict (env\<lparr>e_eff := ''R0''\<rparr>) [''read_file''] READ np] else []))))"

definition redirect_verdicts :: "env \<Rightarrow> part \<Rightarrow> string option \<Rightarrow> verdict list" where
  "redirect_verdicts env p cwd = concat (map (redirect_verdict env cwd) (p_redirects p))"

text \<open>
  The first verdict of a part: its command against the \<open>bash(...)\<close> rules. The text allowed
  is the full text when there are assignments; with a \<open>..\<close> among the arguments only rules
  without a wildcard can allow.
\<close>

definition climbs :: "part \<Rightarrow> bool" where
  "climbs p \<longleftrightarrow> (\<exists>w \<in> set (tl (p_argv p)). ''..'' \<in> set (split_on SLASH (w_text w)))"

definition looks :: "part \<Rightarrow> string list" where
  "looks p =
     [part_text p,
      join '' '' (basename (w_text (hd (p_argv p))) # map w_text (tl (p_argv p))),
      part_full_text p]"

definition allow_text :: "part \<Rightarrow> string" where
  "allow_text p = (if p_assigns p \<noteq> [] then part_full_text p else part_text p)"

definition allow_rules_for :: "env \<Rightarrow> part \<Rightarrow> rule list" where
  "allow_rules_for env p =
     (if climbs p then filter (\<lambda>a. CHR ''*'' \<notin> set (r_pattern a)) (mr_allow (e_merged env))
      else mr_allow (e_merged env))"

definition shell_mode_default :: "env \<Rightarrow> mode_def" where
  "shell_mode_default env = mode_default (cx_mode (e_ctx env)) SHELL (e_eff env) True False"

definition command_verdict :: "env \<Rightarrow> part \<Rightarrow> verdict" where
  "command_verdict env p =
    (let md = shell_mode_default env in
     if p_argv p \<noteq> [] then
       (case first_command_match (mr_deny (e_merged env)) ''bash'' (looks p) True False of
          Some r \<Rightarrow> deny_by r
        | None \<Rightarrow>
       (case first_command_match (mr_ask (e_merged env)) ''bash'' (looks p) True False of
          Some r \<Rightarrow> ask_by r
        | None \<Rightarrow>
       (case first_command_match (allow_rules_for env p) ''bash'' [allow_text p] False True of
          Some r \<Rightarrow> allow_rule r
        | None \<Rightarrow> if md_action md = Ask then ask_v (md_reason md) None else deny_v (md_reason md) None)))
     else if md_action md = Ask
     then ask_v ''a command with no program (assignment or redirection only) needs approval'' None
     else deny_v (md_reason md) None)"

text \<open>The verdicts added to the first one; none of them can be an allow by a rule of \<open>bash\<close>.\<close>

definition unknown_verdicts :: "string list \<Rightarrow> verdict list" where
  "unknown_verdicts rs =
     (if rs \<noteq> [] then [ask_v (''unknown shell syntax: '' @ join ''; '' rs) None] else [])"

definition extra_verdicts :: "env \<Rightarrow> part \<Rightarrow> string option \<Rightarrow> verdict list" where
  "extra_verdicts env p cwd =
     unknown_verdicts (dedup (p_unknown p))
     @ env_and_builtin_checks (part_name p) p
     @ (case part_name p of
          None \<Rightarrow> []
        | Some name \<Rightarrow> scan_args env p name cwd @ denied_name_as_argument env p)
     @ redirect_verdicts env p cwd"

definition part_verdict :: "env \<Rightarrow> part \<Rightarrow> string option \<Rightarrow> verdict" where
  "part_verdict env p cwd = worst (command_verdict env p) (extra_verdicts env p cwd)"

definition next_cwd :: "env \<Rightarrow> part \<Rightarrow> string option \<Rightarrow> string option" where
  "next_cwd env p cwd =
    (if part_name p \<in> {Some ''pushd'', Some ''popd''} then None
     else if part_name p \<noteq> Some ''cd'' then cwd
     else (case filter (\<lambda>w. \<not> (literal w \<and> w_text w \<in> {''-L'', ''-P'', ''-e'', ''-@'', ''--''})) (tl (p_argv p)) of
             [w] \<Rightarrow> if \<not> literal w \<or> w_text w = ''-'' then None
                    else map_option np_abs (norm env (JStr (w_text w)) cwd)
           | _ \<Rightarrow> None))"

fun part_verdicts :: "env \<Rightarrow> part list \<Rightarrow> string option \<Rightarrow> verdict list" where
  "part_verdicts env [] cwd = []"
| "part_verdicts env (p # ps) cwd = part_verdict env p cwd # part_verdicts env ps (next_cwd env p cwd)"

text \<open>\<open>_worst\<close> of a list that may be empty: \<open>vs[0]\<close> raises, the value \<open>None\<close>.\<close>

definition worst_of :: "verdict list \<Rightarrow> verdict option" where
  "worst_of vs = (case vs of [] \<Rightarrow> None | v # vs' \<Rightarrow> Some (worst v vs'))"

definition result_verdicts :: "env \<Rightarrow> parse_result \<Rightarrow> verdict list" where
  "result_verdicts env r =
     part_verdicts env (pr_parts r) (Some (or_else (cx_cwd (e_ctx env)) (e_root env)))
     @ unknown_verdicts (pr_unknown r)
     @ (if pr_parts r = [] \<and> pr_unknown r = [] then [ask_v ''there is no command to analyse'' None] else [])"

definition decide_shell :: "env \<Rightarrow> (string \<times> json) list \<Rightarrow> verdict option" where
  "decide_shell env kvs =
    (case map_of kvs ''command'' of
       Some (JStr command) \<Rightarrow>
         if strip command = [] then Some (deny_v ''the command is empty'' None)
         else worst_of (result_verdicts env (parse (JStr command)))
     | _ \<Rightarrow> None)"

section \<open>Leaving plan mode\<close>

definition decide_plan_exit :: "env \<Rightarrow> (string \<times> json) list \<Rightarrow> verdict option" where
  "decide_plan_exit env kvs =
    (case map_of kvs ''plan'' of
       Some (JStr t) \<Rightarrow>
         (case first_command_match (mr_deny (e_merged env)) ''plan_exit'' [t] False False of
            Some r \<Rightarrow> Some (deny_by r)
          | None \<Rightarrow> Some (ask_v ''leaving plan mode needs the user's approval'' None))
     | _ \<Rightarrow> None)"

section \<open>Entry point\<close>

definition unpack :: "request_arg \<Rightarrow> (json \<times> json \<times> json) option" where
  "unpack request =
    (case request of
       Request tool inp risk \<Rightarrow> Some (tool, inp, risk)
     | Request_mapping m \<Rightarrow>
         Some (table_get m ''tool'' JNull, table_get m ''input'' JNull, table_get m ''risk'' (JStr ''R0''))
     | Not_a_request \<Rightarrow> None)"

definition refuse :: "string \<Rightarrow> decision" where
  "refuse reason = \<lparr>d_action = Deny, d_reason = reason, d_matched_rule = None, d_risk = None, d_basis = None\<rparr>"

definition spec_of :: "json \<Rightarrow> tool_spec option" where
  "spec_of tool = (case tool of JStr t \<Rightarrow> TOOLS t | _ \<Rightarrow> None)"

definition bad_root :: "string \<Rightarrow> bool" where
  "bad_root root \<longleftrightarrow> \<not> prefix ''/'' root \<or> NUL \<in> set root \<or> 4096 < length root"

definition bad_dir :: "string option \<Rightarrow> bool" where
  "bad_dir d = (case d of Some h \<Rightarrow> \<not> prefix ''/'' h | None \<Rightarrow> False)"

definition merged_of :: "context_arg \<Rightarrow> merged_rules" where
  "merged_of ctx = (case cx_layers ctx of
      Some ls \<Rightarrow> merge_layers ls (cx_project_trusted ctx)
    | None \<Rightarrow> empty_merged\<lparr>mr_invalid := True\<rparr>)"

definition call_outside :: "context_arg \<Rightarrow> tool_spec \<Rightarrow> (string \<times> json) list \<Rightarrow> string \<Rightarrow> bool" where
  "call_outside ctx spec kvs root =
     (ts_name spec = ''delete_path'' \<and>
      (case normalize_path (table_get kvs ''path'' JNull) root (Some (or_else (cx_cwd ctx) root)) (cx_home ctx) of
         None \<Rightarrow> True
       | Some np \<Rightarrow> \<not> np_inside np))"

text \<open>The tail of \<open>_decide\<close>: the dispatch on the tool class.\<close>

definition dispatch :: "env \<Rightarrow> tool_spec \<Rightarrow> (string \<times> json) list \<Rightarrow> verdict option" where
  "dispatch env spec kvs =
    (if ts_class spec = SHELL then
       (if cx_mode (e_ctx env) = ''plan'' then Some (deny_v ''plan mode does not allow commands'' None)
        else decide_shell env kvs)
     else if ts_class spec = PLAN_EXIT then decide_plan_exit env kvs
     else decide_file_tool env spec kvs)"

text \<open>From the validated request on.\<close>

definition decide_call ::
    "context_arg \<Rightarrow> tool_spec \<Rightarrow> (string \<times> json) list \<Rightarrow> string \<Rightarrow> decision option" where
  "decide_call ctx spec kvs server_risk =
    (if bad_root (cx_project_root ctx) then Some (refuse ''the project root is not an absolute path'')
     else let root = clean_abs (cx_project_root ctx) in
     if root = ''/'' then Some (refuse ''the project root is the filesystem root'')
     else if bad_dir (cx_home ctx) then Some (refuse ''the home directory is not an absolute path'')
     else if bad_dir (cx_cwd ctx) then Some (refuse ''the working directory is not an absolute path'')
     else let merged = merged_of ctx in
     (case max_risk server_risk (client_risk spec (call_outside ctx spec kvs root)) of
        None \<Rightarrow> None
      | Some eff \<Rightarrow>
          map_option (\<lambda>v. finalize v ctx merged (Some eff))
            (dispatch \<lparr>e_ctx = ctx, e_merged = merged, e_root = root, e_eff = eff\<rparr> spec kvs)))"

definition decide_inner :: "request_arg \<Rightarrow> context_arg option \<Rightarrow> decision option" where
  "decide_inner request context =
    (case context of
       None \<Rightarrow> Some (refuse ''the policy context is malformed'')
     | Some ctx \<Rightarrow>
    (case unpack request of
       None \<Rightarrow> Some (refuse ''the request is malformed'')
     | Some (tool, inp, risk) \<Rightarrow>
        if \<not> is_valid_mode (cx_mode ctx) then Some (refuse ''unknown permission mode'')
        else (case risk of
          JStr server_risk \<Rightarrow>
            if server_risk \<notin> set RISKS then Some (refuse ''the request carries an unknown risk level'')
            else (case spec_of tool of
               None \<Rightarrow> Some (refuse ''unknown tool (not in the v0 catalog)'')
             | Some spec \<Rightarrow>
                 (case validate spec inp of
                    Some bad \<Rightarrow> Some (refuse bad)
                  | None \<Rightarrow> (case inp of
                      JObj kvs \<Rightarrow> decide_call ctx spec kvs server_risk
                    | _ \<Rightarrow> None)))
        | _ \<Rightarrow> Some (refuse ''the request carries an unknown risk level''))))"

definition decide :: "request_arg \<Rightarrow> context_arg option \<Rightarrow> decision" where
  "decide request context =
    (case decide_inner request context of
       Some d \<Rightarrow> d
     | None \<Rightarrow> refuse ''internal error while deciding (denied to be safe)'')"

section \<open>What a decision went through\<close>

definition call_env :: "context_arg \<Rightarrow> string \<Rightarrow> env" where
  "call_env ctx eff = \<lparr>e_ctx = ctx, e_merged = merged_of ctx, e_root = clean_abs (cx_project_root ctx), e_eff = eff\<rparr>"

text \<open>The checks of \<open>_decide\<close> before the dispatch, with the effective risk they end in.\<close>

definition admitted :: "request_arg \<Rightarrow> context_arg \<Rightarrow> tool_spec \<Rightarrow> (string \<times> json) list \<Rightarrow> string \<Rightarrow> string \<Rightarrow> bool" where
  "admitted request ctx spec kvs sr eff \<longleftrightarrow>
     (case unpack request of
        Some (JStr t, inp, risk) \<Rightarrow> inp = JObj kvs \<and> risk = JStr sr \<and> TOOLS t = Some spec
      | _ \<Rightarrow> False)
     \<and> is_valid_mode (cx_mode ctx) \<and> sr \<in> set RISKS \<and> validate spec (JObj kvs) = None
     \<and> \<not> bad_root (cx_project_root ctx) \<and> clean_abs (cx_project_root ctx) \<noteq> ''/''
     \<and> \<not> bad_dir (cx_home ctx) \<and> \<not> bad_dir (cx_cwd ctx)
     \<and> max_risk sr (client_risk spec (call_outside ctx spec kvs (clean_abs (cx_project_root ctx)))) = Some eff"

lemma admitted_iff:
  "admitted request ctx spec kvs sr eff \<longleftrightarrow>
     (\<exists>t. unpack request = Some (JStr t, JObj kvs, JStr sr) \<and> TOOLS t = Some spec)
     \<and> is_valid_mode (cx_mode ctx) \<and> sr \<in> set RISKS \<and> validate spec (JObj kvs) = None
     \<and> \<not> bad_root (cx_project_root ctx) \<and> clean_abs (cx_project_root ctx) \<noteq> ''/''
     \<and> \<not> bad_dir (cx_home ctx) \<and> \<not> bad_dir (cx_cwd ctx)
     \<and> max_risk sr (client_risk spec (call_outside ctx spec kvs (clean_abs (cx_project_root ctx)))) = Some eff"
  unfolding admitted_def by (auto split: option.splits prod.splits json.splits)

lemma refuse_simps [simp]: "d_action (refuse s) = Deny" "d_basis (refuse s) = None"
  by (simp_all add: refuse_def)

lemma decide_None [simp]: "decide request None = refuse ''the policy context is malformed''"
  by (simp add: decide_def decide_inner_def)

lemma spec_of_Some: "spec_of tool = Some spec \<longleftrightarrow> (\<exists>t. tool = JStr t \<and> TOOLS t = Some spec)"
  by (cases tool) (simp_all add: spec_of_def)

lemma validate_object: "validate spec inp = None \<Longrightarrow> \<exists>kvs. inp = JObj kvs"
  by (cases inp) (simp_all add: validate_def)

lemma decide_call_cases:
  assumes "sr \<in> set RISKS" "is_valid_mode (cx_mode ctx)" "validate spec (JObj kvs) = None"
    and "unpack request = Some (JStr t, JObj kvs, JStr sr)" "TOOLS t = Some spec"
  shows "(\<exists>reason. decide_call ctx spec kvs sr = Some (refuse reason))
       \<or> decide_call ctx spec kvs sr = None
       \<or> (\<exists>eff v. admitted request ctx spec kvs sr eff \<and> dispatch (call_env ctx eff) spec kvs = Some v
             \<and> decide_call ctx spec kvs sr = Some (finalize v ctx (merged_of ctx) (Some eff)))"
  using assms
  by (auto simp: decide_call_def Let_def admitted_iff call_env_def map_option_case split: option.splits)

lemma decide_cases:
  obtains (refused) reason where "decide request (Some ctx) = refuse reason"
  | (ran) spec kvs sr eff v where "admitted request ctx spec kvs sr eff"
      "dispatch (call_env ctx eff) spec kvs = Some v"
      "decide request (Some ctx) = finalize v ctx (merged_of ctx) (Some eff)"
proof (cases "unpack request")
  case None
  then show ?thesis using that(1) by (simp add: decide_def decide_inner_def)
next
  case (Some u)
  obtain tool inp risk where u: "u = (tool, inp, risk)" by (metis surj_pair)
  show ?thesis
  proof (cases "\<exists>t sr spec kvs. tool = JStr t \<and> risk = JStr sr \<and> inp = JObj kvs \<and> TOOLS t = Some spec
      \<and> is_valid_mode (cx_mode ctx) \<and> sr \<in> set RISKS \<and> validate spec (JObj kvs) = None")
    case True
    then obtain t sr spec kvs where *: "tool = JStr t" "risk = JStr sr" "inp = JObj kvs" "TOOLS t = Some spec"
      "is_valid_mode (cx_mode ctx)" "sr \<in> set RISKS" "validate spec (JObj kvs) = None" by blast
    have eq: "decide_inner request (Some ctx) = decide_call ctx spec kvs sr"
      using * by (simp add: decide_inner_def Some u spec_of_def)
    show ?thesis
      using decide_call_cases [OF *(6,5,7), of request t] * Some u that
      by (auto simp: decide_def eq)
  next
    case False
    then consider "\<not> is_valid_mode (cx_mode ctx)"
      | "is_valid_mode (cx_mode ctx)" "\<nexists>sr. risk = JStr sr \<and> sr \<in> set RISKS"
      | sr where "is_valid_mode (cx_mode ctx)" "risk = JStr sr" "sr \<in> set RISKS" "spec_of tool = None"
      | sr spec bad where "is_valid_mode (cx_mode ctx)" "risk = JStr sr" "sr \<in> set RISKS"
          "spec_of tool = Some spec" "validate spec inp = Some bad"
      using validate_object spec_of_Some by (metis option.exhaust)
    then have "\<exists>reason. decide_inner request (Some ctx) = Some (refuse reason)"
    proof cases
      case 2
      then show ?thesis by (cases risk) (auto simp: decide_inner_def Some u)
    qed (auto simp: decide_inner_def Some u)
    then show ?thesis using that(1) by (auto simp: decide_def)
  qed
qed

section \<open>The decision is total\<close>

lemma validate_values_types:
  "validate_values types kvs = None \<Longrightarrow> (k, v) \<in> set kvs \<Longrightarrow> \<exists>t. types k = Some t \<and> type_ok v t"
  by (induction types kvs rule: validate_values.induct) (auto split: if_splits option.splits)

lemma validated_arg:
  assumes "validate spec (JObj kvs) = None" and "k \<in> set (ts_required spec)"
  shows "\<exists>v t. map_of kvs k = Some v \<and> map_of (ts_types spec) k = Some t \<and> type_ok v t"
proof -
  from assms have "k \<in> set (map fst kvs)" and vals: "validate_values (map_of (ts_types spec)) kvs = None"
    by (auto simp: validate_def split: if_splits)
  then obtain v where v: "map_of kvs k = Some v" by (metis map_of_eq_None_iff option.exhaust set_map)
  then show ?thesis using validate_values_types [OF vals map_of_SomeD] by blast
qed

lemma type_ok_TStr: "type_ok v TStr \<longleftrightarrow> (\<exists>s. v = JStr s)"
  by (cases v) (simp_all add: type_ok_def)

lemma TOOLS_cases:
  assumes "TOOLS t = Some spec"
  shows "ts_name spec = t \<and> ts_risk spec \<in> set RISKS \<and>
    (ts_class spec = SHELL \<longrightarrow> ''command'' \<in> set (ts_required spec) \<and> map_of (ts_types spec) ''command'' = Some TStr) \<and>
    (ts_class spec = PLAN_EXIT \<longrightarrow> ''plan'' \<in> set (ts_required spec) \<and> map_of (ts_types spec) ''plan'' = Some TStr) \<and>
    (t \<in> {''read_file'', ''edit_file'', ''write_file'', ''delete_path''} \<longrightarrow> ''path'' \<in> set (ts_required spec))"
proof -
  from assms have "(t, spec) \<in> set (map (\<lambda>s. (ts_name s, s)) TOOL_SPECS)"
    unfolding TOOLS_def by (rule map_of_SomeD)
  then show ?thesis by (auto simp: TOOL_SPECS_def mk_spec_def RISKS_def)
qed

lemma worst_of_None [simp]: "worst_of vs = None \<longleftrightarrow> vs = []"
  by (cases vs) (simp_all add: worst_of_def)

lemma worst_of_Some_ex [simp]: "(\<exists>v. worst_of vs = Some v) \<longleftrightarrow> vs \<noteq> []"
  by (cases vs) (simp_all add: worst_of_def)

lemma part_verdicts_empty [simp]: "part_verdicts env ps cwd = [] \<longleftrightarrow> ps = []"
  by (cases ps) simp_all

lemma result_verdicts_not_empty: "result_verdicts env r \<noteq> []"
  by (auto simp: result_verdicts_def unknown_verdicts_def)

lemma dispatch_total:
  assumes "TOOLS t = Some spec" and "validate spec (JObj kvs) = None"
  shows "dispatch env spec kvs \<noteq> None"
proof -
  note T = TOOLS_cases [OF assms(1)]
  show ?thesis
  proof (cases "ts_class spec = SHELL")
    case True
    with T validated_arg [OF assms(2), of "''command''"] obtain s where "map_of kvs ''command'' = Some (JStr s)"
      by (auto simp: type_ok_TStr)
    with True show ?thesis by (simp add: dispatch_def decide_shell_def result_verdicts_not_empty)
  next
    case not_shell: False
    show ?thesis
    proof (cases "ts_class spec = PLAN_EXIT")
      case True
      with T validated_arg [OF assms(2), of "''plan''"] obtain s where "map_of kvs ''plan'' = Some (JStr s)"
        by (auto simp: type_ok_TStr)
      with True show ?thesis
        by (simp add: dispatch_def decide_plan_exit_def split: option.split)
    next
      case False
      have "path_argument (ts_name spec) kvs \<noteq> None"
        using T validated_arg [OF assms(2), of "''path''"] by (auto simp: path_argument_def)
      with False not_shell show ?thesis
        by (auto simp: dispatch_def decide_file_tool_def Let_def split: option.splits)
    qed
  qed
qed

lemma max_risk_total: "a \<in> set RISKS \<Longrightarrow> b \<in> set RISKS \<Longrightarrow> max_risk a b \<noteq> None"
  using max_risk_closed by fastforce

lemma client_risk_known: "TOOLS t = Some spec \<Longrightarrow> client_risk spec out \<in> set RISKS"
  using TOOLS_cases [of t spec] by (auto simp: client_risk_def RISKS_def)

lemma decide_inner_total: "decide_inner request context \<noteq> None"
proof -
  have "decide_call ctx spec kvs sr \<noteq> None"
    if "TOOLS t = Some spec" "validate spec (JObj kvs) = None" "sr \<in> set RISKS" for ctx spec kvs sr t
  proof -
    have "max_risk sr (client_risk spec out) \<noteq> None" for out
      using that client_risk_known max_risk_total by blast
    then show ?thesis using dispatch_total [OF that(1,2)] by (auto simp: decide_call_def Let_def simp del: not_None_eq split: option.splits)
  qed
  then show ?thesis
    by (auto simp: decide_inner_def spec_of_Some spec_of_def split: option.splits prod.splits json.splits
          dest: validate_object)
qed

section \<open>finalize\<close>

lemma finalize_allow:
  "d_action (finalize v ctx m risk) = Allow \<longleftrightarrow>
     v_action v = Allow \<and> \<not> mr_invalid m
     \<and> (v_basis v = Some ''rule'' \<and> v_rule v \<noteq> None \<and> v_rule v \<noteq> Some [] \<or> v_basis v = Some ''mode'')"
  by (auto simp: finalize_def Let_def deny_v_def ask_v_def)

lemma finalize_allow_fields:
  "d_action (finalize v ctx m risk) = Allow \<Longrightarrow>
     d_basis (finalize v ctx m risk) = v_basis v \<and> d_matched_rule (finalize v ctx m risk) = v_rule v
     \<and> d_risk (finalize v ctx m risk) = risk"
  by (auto simp: finalize_def Let_def deny_v_def ask_v_def split: if_splits)

lemma finalize_deny: "v_action v = Deny \<Longrightarrow> d_action (finalize v ctx m risk) = Deny"
  by (simp add: finalize_def Let_def)

lemma finalize_ask: "d_action (finalize v ctx m risk) = Ask \<Longrightarrow> \<not> cx_non_interactive ctx"
  by (auto simp: finalize_def Let_def split: if_splits)

lemma finalize_basis: "d_action (finalize v ctx m risk) \<noteq> Allow \<Longrightarrow> d_basis (finalize v ctx m risk) = None"
  by (auto simp: finalize_def Let_def deny_v_def ask_v_def split: if_splits)

lemma decide_allowE:
  assumes "d_action (decide request context) = Allow"
  obtains ctx spec kvs sr eff v where "context = Some ctx" "admitted request ctx spec kvs sr eff"
    "dispatch (call_env ctx eff) spec kvs = Some v" "v_action v = Allow"
    "decide request context = finalize v ctx (merged_of ctx) (Some eff)"
proof (cases "context")
  case (Some ctx)
  show ?thesis
  proof (cases request ctx rule: decide_cases)
    case (refused reason)
    then show ?thesis using assms Some by simp
  next
    case (ran spec kvs sr eff v)
    then show ?thesis using that [OF Some] assms Some by (auto simp: finalize_allow)
  qed
qed (use assms in simp)

end
