(* ===== verification/Guarantees.thy ===== *)
theory Guarantees
  imports Decide
begin

text \<open>
  What \<open>decide.py\<close> promises, over the models of all five modules: every allow is explained,
  the extra checks on a command only ever tighten, a command is allowed only part by part and
  by a rule, redirections and file paths stay inside the project, and decisions are monotone
  in the mode, the risk and the rules.
\<close>

section \<open>Allowing is explained\<close>

text \<open>Every allow verdict comes from \<open>_allow_rule\<close> or \<open>_allow_mode\<close>.\<close>

definition explained :: "verdict \<Rightarrow> bool" where
  "explained v \<longleftrightarrow> v_action v = Allow \<longrightarrow>
     v_basis v = Some ''mode'' \<and> v_rule v = None
     \<or> (\<exists>r. v_basis v = Some ''rule'' \<and> v_rule v = Some (rule_label r))"

lemma rule_label_not_empty: "rule_label r \<noteq> []"
  by (simp add: rule_label_def)

lemma explained_simps [simp]:
  "explained (deny_v s q)" "explained (ask_v s q)" "explained (allow_rule r)" "explained (allow_mode s)"
  "explained (deny_by r)" "explained (ask_by r)"
  by (auto simp: explained_def deny_v_def ask_v_def allow_rule_def allow_mode_def deny_by_def ask_by_def)

lemma explained_path: "explained (path_verdict env tools cls np)"
  by (simp add: path_verdict_def Let_def split: option.split action.split)

lemma worst_explained: "\<forall>x \<in> set (v # vs). explained x \<Longrightarrow> explained (worst v vs)"
  using worst_in [of v vs] by blast

lemma explained_file_tool: "decide_file_tool env spec kvs = Some v \<Longrightarrow> explained v"
  by (auto simp: decide_file_tool_def Let_def mixes_dots_def explained_path
      intro!: worst_explained split: option.splits if_splits)

lemma explained_command: "explained (command_verdict env p)"
  by (simp add: command_verdict_def Let_def split: option.split)

lemma v_action_simps [simp]:
  "v_action (deny_v s q) = Deny" "v_action (ask_v s q) = Ask" "v_action (allow_rule r) = Allow"
  "v_action (allow_mode s) = Allow" "v_action (deny_by r) = Deny" "v_action (ask_by r) = Ask"
  by (simp_all add: deny_v_def ask_v_def allow_rule_def allow_mode_def deny_by_def ask_by_def)

section \<open>The strictness-only checks never allow\<close>

text \<open>Every check on arguments and environment adds only asks and denials.\<close>

definition no_allow :: "verdict list \<Rightarrow> bool" where
  "no_allow vs \<longleftrightarrow> (\<forall>v \<in> set vs. v_action v \<noteq> Allow)"

lemma no_allow_simps [simp]:
  "no_allow []" "no_allow (v # vs) \<longleftrightarrow> v_action v \<noteq> Allow \<and> no_allow vs"
  "no_allow (vs @ ws) \<longleftrightarrow> no_allow vs \<and> no_allow ws"
  "no_allow (concat vss) \<longleftrightarrow> (\<forall>vs \<in> set vss. no_allow vs)"
  by (auto simp: no_allow_def)

lemma no_allow_if [simp]: "no_allow (if b then vs else ws) \<longleftrightarrow> (if b then no_allow vs else no_allow ws)"
  by simp

lemma sed_scripts_no_allow: "no_allow out \<Longrightarrow> no_allow (snd (sed_scripts fl ts scripts out))"
  by (induction fl ts scripts out rule: sed_scripts.induct) (auto split: list.splits)

lemma sed_checks_no_allow [simp]: "no_allow (sed_checks texts)"
  using sed_scripts_no_allow [of "[]" "\<exists>x \<in> set texts. x \<in> {''-e'', ''--expression''}" texts "[]"]
  by (auto simp: sed_checks_def split: prod.splits)

lemma git_sub_checks_no_allow [simp]: "no_allow (git_sub_checks sub rest)"
  by (simp add: git_sub_checks_def)

lemma git_checks_no_allow [simp]: "no_allow (git_checks texts)"
  by (simp add: git_checks_def split: option.split list.split)

lemma awk_checks_no_allow [simp]: "no_allow (awk_checks texts)"
  by (simp add: awk_checks_def)

lemma hidden_code_no_allow [simp]: "no_allow (hidden_code name p)"
  by (simp add: hidden_code_def Let_def split: option.split)

lemma env_checks_no_allow [simp]: "no_allow (env_and_builtin_checks name p)"
  by (simp add: env_and_builtin_checks_def Let_def no_allow_def [of "map _ _"] split: option.split)

lemma candidate_no_allow [simp]: "no_allow (candidate_verdicts env name w r cwd cand)"
  by (simp add: candidate_verdicts_def split: option.split)

lemma arg_verdicts_no_allow [simp]: "no_allow (arg_verdicts env name w r cwd a)"
  by (simp add: arg_verdicts_def)

lemma scan_args_no_allow [simp]: "no_allow (scan_args env p name cwd)"
  by (auto simp: scan_args_def Let_def)

lemma denied_name_no_allow [simp]: "no_allow (denied_name_as_argument env p)"
  by (simp add: denied_name_as_argument_def Let_def)

lemma unknown_verdicts_no_allow [simp]: "no_allow (unknown_verdicts rs)"
  by (simp add: unknown_verdicts_def)

lemma explained_redirect: "\<forall>v \<in> set (redirect_verdicts env p cwd). explained v"
  by (auto simp: redirect_verdicts_def redirect_verdict_def explained_path split: if_splits option.splits)

lemma no_allow_explained: "no_allow vs \<Longrightarrow> \<forall>v \<in> set vs. explained v"
  by (auto simp: no_allow_def explained_def)

text \<open>A part's further verdicts: strictness-only checks, then its redirections.\<close>

lemma extra_verdicts_split:
  "\<exists>xs. extra_verdicts env p cwd = xs @ redirect_verdicts env p cwd \<and> no_allow xs"
  by (intro exI [of _ "unknown_verdicts (dedup (p_unknown p)) @ env_and_builtin_checks (part_name p) p
        @ (case part_name p of None \<Rightarrow> [] | Some name \<Rightarrow> scan_args env p name cwd @ denied_name_as_argument env p)"])
     (simp add: extra_verdicts_def split: option.split)

lemma explained_part: "explained (part_verdict env p cwd)"
proof -
  obtain xs where "extra_verdicts env p cwd = xs @ redirect_verdicts env p cwd" "no_allow xs"
    using extra_verdicts_split by blast
  then show ?thesis
    using explained_redirect no_allow_explained [of xs]
    by (auto simp: part_verdict_def explained_command intro!: worst_explained)
qed

lemma explained_parts: "\<forall>v \<in> set (part_verdicts env ps cwd). explained v"
  by (induction ps arbitrary: cwd) (simp_all add: explained_part)

lemma worst_of_in: "worst_of vs = Some v \<Longrightarrow> v \<in> set vs"
  by (cases vs) (use worst_in in \<open>fastforce simp: worst_of_def\<close>)+

lemma explained_shell: "decide_shell env kvs = Some v \<Longrightarrow> explained v"
  unfolding decide_shell_def
  by (auto simp: result_verdicts_def explained_parts unknown_verdicts_def dest!: worst_of_in
      split: option.splits json.splits if_splits)

lemma explained_plan_exit: "decide_plan_exit env kvs = Some v \<Longrightarrow> explained v \<and> v_action v \<noteq> Allow"
  by (auto simp: decide_plan_exit_def split: option.splits json.splits)

lemma explained_dispatch: "dispatch env spec kvs = Some v \<Longrightarrow> explained v"
  by (auto simp: dispatch_def explained_shell explained_plan_exit explained_file_tool split: if_splits)

section \<open>When a part of a command is allowed\<close>

text \<open>The redirections that \<open>_redirect_verdicts\<close> lets through.\<close>

definition safe_target :: "env \<Rightarrow> string option \<Rightarrow> bool \<Rightarrow> redirect \<Rightarrow> bool" where
  "safe_target env cwd writing rd =
    (case rd_target rd of
       None \<Rightarrow> False
     | Some t \<Rightarrow> literal t \<and>
         (w_text t \<in> set REDIR_NOOP \<or>
          (case norm env (JStr (w_text t)) cwd of
             None \<Rightarrow> False
           | Some np \<Rightarrow> np_inside np \<and> \<not> is_secret_path np \<and> (writing \<longrightarrow> \<not> is_protected_path np))))"

definition safe_redirect :: "env \<Rightarrow> string option \<Rightarrow> redirect \<Rightarrow> bool" where
  "safe_redirect env cwd rd \<longleftrightarrow>
     rd_op rd \<in> {''<<'', ''<<-'', ''<<<''}
     \<or> (writes_file rd \<or> reads_file rd \<longrightarrow> safe_target env cwd (writes_file rd) rd)"

lemma redirect_verdicts_allow:
  assumes "\<forall>v \<in> set (redirect_verdicts env p cwd). v_action v = Allow" and "rd \<in> set (p_redirects p)"
  shows "safe_redirect env cwd rd"
proof -
  have "\<forall>v \<in> set (redirect_verdict env cwd rd). v_action v = Allow"
    using assms by (auto simp: redirect_verdicts_def)
  then show ?thesis
    by (auto simp: redirect_verdict_def safe_redirect_def safe_target_def path_verdict_allow_iff
        split: option.splits if_splits)
qed

lemma command_verdict_allow:
  assumes "v_action (command_verdict env p) = Allow"
  shows "p_argv p \<noteq> []"
    and "\<exists>r \<in> set (allow_rules_for env p). r_tool r = ''bash'' \<and> allow_matches (r_pattern r) (allow_text p)"
    and "first_command_match (mr_deny (e_merged env)) ''bash'' (looks p) True False = None"
    and "first_command_match (mr_ask (e_merged env)) ''bash'' (looks p) True False = None"
  using assms cmd.lookup_hit [of "allow_rules_for env p" "(''bash'', [allow_text p], False, True)"]
  by (auto simp: command_verdict_def Let_def command_hits_def split: option.splits if_splits)

lemma part_verdict_allow:
  assumes "v_action (part_verdict env p cwd) = Allow"
  shows "v_action (command_verdict env p) = Allow" and "p_unknown p = []"
    and "\<forall>rd \<in> set (p_redirects p). safe_redirect env cwd rd"
proof -
  have all: "\<forall>v \<in> set (command_verdict env p # extra_verdicts env p cwd). v_action v = Allow"
    using assms by (simp add: part_verdict_def worst_allow_iff)
  then show "v_action (command_verdict env p) = Allow" by simp
  have "v_action v = Allow" if "v \<in> set (unknown_verdicts (dedup (p_unknown p)))" for v
    using all that by (simp add: extra_verdicts_def)
  then show "p_unknown p = []" by (auto simp: unknown_verdicts_def split: if_splits)
  show "\<forall>rd \<in> set (p_redirects p). safe_redirect env cwd rd"
    using all redirect_verdicts_allow [of env p cwd] unfolding extra_verdicts_def by simp
qed

text \<open>
  What has to hold of a part for its verdict to be an allow: a program, an allow rule that
  matches the whole command (without a wildcard when an argument climbs with \<open>..\<close>), no deny and
  no ask rule in any of its forms, nothing the parser did not understand, and safe redirections.
\<close>

definition allowed_part :: "env \<Rightarrow> part \<Rightarrow> string option \<Rightarrow> bool" where
  "allowed_part env p cwd \<longleftrightarrow>
     p_argv p \<noteq> [] \<and> p_unknown p = []
     \<and> (\<exists>r \<in> set (mr_allow (e_merged env)). r_tool r = ''bash'' \<and> allow_matches (r_pattern r) (allow_text p)
          \<and> (climbs p \<longrightarrow> CHR ''*'' \<notin> set (r_pattern r)))
     \<and> first_command_match (mr_deny (e_merged env)) ''bash'' (looks p) True False = None
     \<and> first_command_match (mr_ask (e_merged env)) ''bash'' (looks p) True False = None
     \<and> (\<forall>rd \<in> set (p_redirects p). safe_redirect env cwd rd)"

lemma allow_rules_for_sub:
  "r \<in> set (allow_rules_for env p) \<Longrightarrow>
     r \<in> set (mr_allow (e_merged env)) \<and> (climbs p \<longrightarrow> CHR ''*'' \<notin> set (r_pattern r))"
  by (auto simp: allow_rules_for_def split: if_splits)

lemma part_verdict_allowed:
  assumes "v_action (part_verdict env p cwd) = Allow"
  shows "allowed_part env p cwd"
proof -
  note c = command_verdict_allow [OF part_verdict_allow(1) [OF assms]]
  obtain r where "r \<in> set (allow_rules_for env p)" "r_tool r = ''bash''" "allow_matches (r_pattern r) (allow_text p)"
    using c(2) by blast
  then show ?thesis
    using c(1,3,4) part_verdict_allow(2,3) [OF assms] allow_rules_for_sub [of r env p]
    unfolding allowed_part_def by blast
qed

section \<open>Where each part of a command runs\<close>

fun located :: "env \<Rightarrow> part list \<Rightarrow> string option \<Rightarrow> (part \<times> string option) list" where
  "located env [] cwd = []"
| "located env (p # ps) cwd = (p, cwd) # located env ps (next_cwd env p cwd)"

lemma part_verdicts_located: "part_verdicts env ps cwd = map (\<lambda>(p, c). part_verdict env p c) (located env ps cwd)"
  by (induction ps arbitrary: cwd) simp_all

lemma map_fst_located: "map fst (located env ps cwd) = ps"
  by (induction ps arbitrary: cwd) simp_all

abbreviation start_dir :: "env \<Rightarrow> string option" where
  "start_dir env \<equiv> Some (or_else (cx_cwd (e_ctx env)) (e_root env))"

lemma worst_of_allow: "worst_of vs = Some v \<Longrightarrow> v_action v = Allow \<longleftrightarrow> (\<forall>x \<in> set vs. v_action x = Allow)"
  by (cases vs) (auto simp: worst_of_def worst_allow_iff)

lemma worst_of_deny: "worst_of vs = Some v \<Longrightarrow> v_action v = Deny \<longleftrightarrow> (\<exists>x \<in> set vs. v_action x = Deny)"
  by (cases vs) (auto simp: worst_of_def worst_deny_iff)


lemma result_verdicts_allow:
  assumes "\<forall>x \<in> set (result_verdicts env r). v_action x = Allow"
  shows "\<forall>(p, cwd) \<in> set (located env (pr_parts r) (start_dir env)). v_action (part_verdict env p cwd) = Allow"
    and "pr_unknown r = []" and "pr_parts r \<noteq> []"
proof -
  have 1: "\<forall>x \<in> set (part_verdicts env (pr_parts r) (start_dir env)). v_action x = Allow"
    using assms unfolding result_verdicts_def set_append by blast
  then show "\<forall>(p, cwd) \<in> set (located env (pr_parts r) (start_dir env)). v_action (part_verdict env p cwd) = Allow"
    unfolding part_verdicts_located by auto
  have 2: "\<forall>x \<in> set (unknown_verdicts (pr_unknown r)). v_action x = Allow"
    using assms unfolding result_verdicts_def set_append by blast
  then show unk: "pr_unknown r = []" by (simp add: unknown_verdicts_def split: if_split_asm)
  show "pr_parts r \<noteq> []"
  proof
    assume "pr_parts r = []"
    with assms unk have "v_action (ask_v ''there is no command to analyse'' None) = Allow"
      unfolding result_verdicts_def by (simp only: set_append if_True simp_thms) (blast intro: list.set_intros)
    then show False by simp
  qed
qed

lemma decide_shell_allow:
  assumes "decide_shell env kvs = Some v" and "v_action v = Allow"
  obtains command where "map_of kvs ''command'' = Some (JStr command)" "strip command \<noteq> []"
    "certain (parse (JStr command))" "pr_parts (parse (JStr command)) \<noteq> []"
    "\<forall>(p, cwd) \<in> set (located env (pr_parts (parse (JStr command))) (start_dir env)).
        v_action (part_verdict env p cwd) = Allow"
proof -
  from assms(1) obtain command where c1: "map_of kvs ''command'' = Some (JStr command)"
    unfolding decide_shell_def by (cases "map_of kvs ''command''") (simp_all split: json.split_asm)
  have c: "map_of kvs ''command'' = Some (JStr command)" "strip command \<noteq> []"
    using c1 assms by (auto simp: decide_shell_def)
  with assms(1) have w: "worst_of (result_verdicts env (parse (JStr command))) = Some v"
    by (simp add: decide_shell_def)
  let ?r = "parse (JStr command)"
  have "\<forall>x \<in> set (result_verdicts env ?r). v_action x = Allow"
    using worst_of_allow [OF w] assms(2) by blast
  note parts = result_verdicts_allow(1) [OF this] and unk = result_verdicts_allow(2) [OF this]
    and ne = result_verdicts_allow(3) [OF this]
  have "p_unknown p = []" if "p \<in> set (pr_parts ?r)" for p
  proof -
    from that have "p \<in> fst ` set (located env (pr_parts ?r) (start_dir env))"
      by (metis map_fst_located set_map)
    then show ?thesis using parts part_verdict_allow(2) by fastforce
  qed
  then have "certain ?r" using unk by (simp add: certain_def)
  from that [OF c this ne parts] show ?thesis .
qed

end
