(* ===== verification/Monotone.thy ===== *)
theory Monotone
  imports Guarantees
begin

text \<open>
  The order on what a decision depends on (permission mode, risk, rules) and the proof that
  the decision is monotone in it, component by component: a stricter input never loosens a
  verdict.
\<close>

section \<open>The order\<close>

lemma rank_le_iff: "rank a \<le> rank b \<longleftrightarrow> (a = Deny \<longrightarrow> b = Deny) \<and> (b = Allow \<longrightarrow> a = Allow)"
  by (cases a; cases b) simp_all

text \<open>The modes from the most to the least permissive.\<close>

definition mode_le :: "string \<Rightarrow> string \<Rightarrow> bool" where
  "mode_le m m' \<longleftrightarrow> m \<in> set MODES \<and> m' \<in> set MODES \<and>
     (m = m' \<or> m = ''accept-edits'' \<or> m' = ''plan'')"

text \<open>More deny and ask rules, fewer allow rules, at least as invalid.\<close>

definition tighter :: "merged_rules \<Rightarrow> merged_rules \<Rightarrow> bool" where
  "tighter m m' \<longleftrightarrow> set (mr_deny m) \<subseteq> set (mr_deny m') \<and> set (mr_ask m) \<subseteq> set (mr_ask m')
     \<and> set (mr_allow m') \<subseteq> set (mr_allow m) \<and> (mr_invalid m \<longrightarrow> mr_invalid m')"

definition env_le :: "env \<Rightarrow> env \<Rightarrow> bool" where
  "env_le e e' \<longleftrightarrow> mode_le (cx_mode (e_ctx e)) (cx_mode (e_ctx e')) \<and> risk_at_most (e_eff e) (e_eff e')
     \<and> tighter (e_merged e) (e_merged e') \<and> e_root e = e_root e'
     \<and> cx_home (e_ctx e) = cx_home (e_ctx e') \<and> cx_cwd (e_ctx e) = cx_cwd (e_ctx e')"

lemma env_leD:
  assumes "env_le e e'"
  shows "set (mr_deny (e_merged e)) \<subseteq> set (mr_deny (e_merged e'))"
    and "set (mr_ask (e_merged e)) \<subseteq> set (mr_ask (e_merged e'))"
    and "set (mr_allow (e_merged e')) \<subseteq> set (mr_allow (e_merged e))"
    and "e_root e' = e_root e" and "cx_home (e_ctx e') = cx_home (e_ctx e)"
    and "cx_cwd (e_ctx e') = cx_cwd (e_ctx e)"
    and "cx_mode (e_ctx e) = ''plan'' \<Longrightarrow> cx_mode (e_ctx e') = ''plan''"
  using assms by (auto simp: env_le_def tighter_def mode_le_def)

text \<open>One list of verdicts is covered by another when each verdict has one at least as strict.\<close>

definition covered :: "verdict list \<Rightarrow> verdict list \<Rightarrow> bool" where
  "covered vs ws \<longleftrightarrow> (\<forall>v \<in> set vs. \<exists>w \<in> set ws. strictness v \<le> strictness w)"

lemma covered_refl [simp, intro]: "covered vs vs"
  by (auto simp: covered_def)

lemma covered_Nil [simp]: "covered [] ws"
  by (simp add: covered_def)

lemma covered_append: "covered vs ws \<Longrightarrow> covered vs' ws' \<Longrightarrow> covered (vs @ vs') (ws @ ws')"
  by (auto simp: covered_def)

lemma covered_Cons: "strictness v \<le> strictness w \<Longrightarrow> covered vs ws \<Longrightarrow> covered (v # vs) (w # ws)"
  by (auto simp: covered_def)

lemma covered_concat: "(\<And>x. x \<in> set xs \<Longrightarrow> covered (f x) (g x)) \<Longrightarrow> covered (concat (map f xs)) (concat (map g xs))"
  by (induction xs) (auto intro!: covered_append)

lemma covered_if:
  "(b \<Longrightarrow> covered vs ws) \<Longrightarrow> (\<not> b \<Longrightarrow> covered vs' ws') \<Longrightarrow>
     covered (if b then vs else vs') (if b then ws else ws')"
  by simp

lemma covered_deny_by:
  "(x \<noteq> None \<Longrightarrow> y \<noteq> None) \<Longrightarrow> covered vs ws \<Longrightarrow>
     covered (case x of Some r \<Rightarrow> [deny_by r] | None \<Rightarrow> vs) (case y of Some r \<Rightarrow> [deny_by r] | None \<Rightarrow> ws)"
  by (cases x; cases y) (auto simp: covered_def)

lemma covered_worst: "covered (v # vs) (w # ws) \<Longrightarrow> strictness (worst v vs) \<le> strictness (worst w ws)"
  unfolding covered_def by (rule vd.pick_mono) blast

section \<open>Mode defaults\<close>

lemma mode_default_mono:
  assumes "mode_le m m'" and "risk_at_most r r'"
  shows "rank (md_action (mode_default m cls r inside prot)) \<le> rank (md_action (mode_default m' cls r' inside prot))"
proof -
  have "r \<in> set RISKS" "r' \<in> set RISKS" using risk_at_most_RISKS [OF assms(2)] by auto
  moreover have "is_valid_mode m" "is_valid_mode m'" using assms(1) by (auto simp: mode_le_def is_valid_mode_def)
  moreover have "risk_at_most r' q \<Longrightarrow> risk_at_most r q" for q using assms(2) risk_at_most_trans by blast
  moreover have "m = ''plan'' \<Longrightarrow> m' = ''plan''" "m' = ''accept-edits'' \<Longrightarrow> m = ''accept-edits''"
    using assms(1) by (auto simp: mode_le_def MODES_def)
  ultimately show ?thesis unfolding mode_default_def by simp
qed

section \<open>Paths\<close>

lemma found_path_mono:
  "set rs \<subseteq> set rs' \<Longrightarrow> first_path_match rs tools np home raw \<noteq> None \<Longrightarrow> first_path_match rs' tools np home raw \<noteq> None"
  using pth.found_mono [of rs rs' "(tools, np, home, raw)"] by simp

lemma found_command_mono:
  "set rs \<subseteq> set rs' \<Longrightarrow> first_command_match rs tool texts c wb \<noteq> None \<Longrightarrow> first_command_match rs' tool texts c wb \<noteq> None"
  using cmd.found_mono [of rs rs' "(tool, texts, c, wb)"] by simp

lemma path_verdict_deny_iff:
  "v_action (path_verdict env tools cls np) = Deny \<longleftrightarrow>
     is_secret_path np
     \<or> (cls \<in> {EDIT, DELETE} \<and> (is_protected_path np \<or> cx_mode (e_ctx env) = ''plan''))
     \<or> first_path_match (mr_deny (e_merged env)) tools np (cx_home (e_ctx env)) True \<noteq> None
     \<or> \<not> (cls = DELETE \<and> np_rel np = Some ''.'') \<and> np_inside np
        \<and> first_path_match (mr_ask (e_merged env)) tools np (cx_home (e_ctx env)) True = None
        \<and> first_path_match (mr_allow (e_merged env)) tools np (cx_home (e_ctx env)) False = None
        \<and> md_action (mode_default (cx_mode (e_ctx env)) cls (e_eff env) True False) = Deny"
  by (auto simp: path_verdict_def Let_def split: option.splits action.splits)

lemma mode_default_deny:
  "is_valid_mode m \<Longrightarrow> r \<in> set RISKS \<Longrightarrow> cls \<in> {READ, EDIT, DELETE, SHELL} \<Longrightarrow>
     md_action (mode_default m cls r True False) = Deny \<Longrightarrow> cls \<noteq> READ \<and> m = ''plan''"
  by (auto simp: mode_default_def split: if_splits)

lemma env_le_valid:
  "env_le e e' \<Longrightarrow> is_valid_mode (cx_mode (e_ctx e)) \<and> is_valid_mode (cx_mode (e_ctx e'))
     \<and> e_eff e \<in> set RISKS \<and> e_eff e' \<in> set RISKS"
  using risk_at_most_RISKS by (auto simp: env_le_def mode_le_def is_valid_mode_def)

lemma path_verdict_mono:
  assumes le: "env_le e e'" and cls: "cls \<in> {READ, EDIT, DELETE}"
  shows "strictness (path_verdict e tools cls np) \<le> strictness (path_verdict e' tools cls np)"
proof -
  note D = env_leD [OF le]
  have md: "rank (md_action (mode_default (cx_mode (e_ctx e)) cls (e_eff e) True False))
      \<le> rank (md_action (mode_default (cx_mode (e_ctx e')) cls (e_eff e') True False))"
    using le by (intro mode_default_mono) (auto simp: env_le_def)
  have den: "v_action (path_verdict e' tools cls np) = Deny" if d: "v_action (path_verdict e tools cls np) = Deny"
  proof -
    have mdd: "cls \<in> {EDIT, DELETE} \<and> cx_mode (e_ctx e) = ''plan''"
      if "md_action (mode_default (cx_mode (e_ctx e)) cls (e_eff e) True False) = Deny"
      using mode_default_deny [OF _ _ _ that] env_le_valid [OF le] cls by auto
    consider "is_secret_path np" | "cls \<in> {EDIT, DELETE}" "is_protected_path np \<or> cx_mode (e_ctx e) = ''plan''"
      | "first_path_match (mr_deny (e_merged e)) tools np (cx_home (e_ctx e)) True \<noteq> None"
      using d mdd unfolding path_verdict_deny_iff by blast
    then show ?thesis
    proof cases
      case 1
      then show ?thesis by (rule path_verdict_secret)
    next
      case 2
      then show ?thesis using D(7) unfolding path_verdict_deny_iff by blast
    next
      case 3
      then show ?thesis using found_path_mono [OF D(1)] D(5) unfolding path_verdict_deny_iff by simp
    qed
  qed
  moreover have "v_action (path_verdict e tools cls np) = Allow"
    if a: "v_action (path_verdict e' tools cls np) = Allow"
  proof -
    let ?f = "\<lambda>rs raw. first_path_match rs tools np (cx_home (e_ctx e)) raw"
    have "?f (mr_deny (e_merged e')) True = None" "?f (mr_ask (e_merged e')) True = None"
      and al: "?f (mr_allow (e_merged e')) False \<noteq> None \<or>
        md_action (mode_default (cx_mode (e_ctx e')) cls (e_eff e') True False) = Allow"
      using a unfolding path_verdict_allow_iff D(5) by blast+
    then have "?f (mr_deny (e_merged e)) True = None" "?f (mr_ask (e_merged e)) True = None"
      using found_path_mono [OF D(1)] found_path_mono [OF D(2)] by blast+
    moreover have "?f (mr_allow (e_merged e)) False \<noteq> None \<or>
        md_action (mode_default (cx_mode (e_ctx e)) cls (e_eff e) True False) = Allow"
      using al found_path_mono [OF D(3)] md unfolding rank_le_iff by blast
    ultimately show ?thesis using a D(7) unfolding path_verdict_allow_iff D(5) by blast
  qed
  ultimately show ?thesis unfolding strictness_def rank_le_iff by blast
qed

lemma norm_same: "env_le e e' \<Longrightarrow> norm e' raw cwd = norm e raw cwd"
  by (simp add: norm_def env_leD)

lemma file_tool_mono:
  assumes le: "env_le e e'" and cls: "ts_class spec \<in> {READ, EDIT, DELETE}"
    and "decide_file_tool e spec kvs = Some v" and "decide_file_tool e' spec kvs = Some v'"
  shows "strictness v \<le> strictness v'"
proof -
  note D = env_leD [OF le] and N = norm_same [OF le]
  have mono: "strictness (path_verdict e tools cl np) \<le> strictness (path_verdict e' tools cl np)"
    if "cl \<in> {READ, EDIT, DELETE}" for tools cl np
    using path_verdict_mono [OF le that] .
  have "strictness (worst (path_verdict e t1 (ts_class spec) np) (xs @ [path_verdict e t2 READ np']))
      \<le> strictness (worst (path_verdict e' t1 (ts_class spec) np) (xs @ [path_verdict e' t2 READ np']))" for t1 t2 np np' xs
    by (intro covered_worst covered_Cons covered_append mono cls) simp_all
  moreover have "strictness (worst (path_verdict e t1 (ts_class spec) np) xs)
      \<le> strictness (worst (path_verdict e' t1 (ts_class spec) np) xs)" for t1 np xs
    by (intro covered_worst covered_Cons mono cls) simp_all
  ultimately show ?thesis
    using assms(3,4) by (auto simp: decide_file_tool_def Let_def N D(4,6) mono [OF cls] split: option.splits)
qed

section \<open>Shell commands\<close>

lemma command_verdict_mono:
  assumes le: "env_le e e'" and "cx_mode (e_ctx e') \<noteq> ''plan''"
  shows "strictness (command_verdict e p) \<le> strictness (command_verdict e' p)"
proof -
  note D = env_leD [OF le]
  have ask: "md_action (shell_mode_default x) = Ask" if "x \<in> {e, e'}" for x
    using that assms(2) D(7) env_le_valid [OF le] by (auto simp: shell_mode_default_def mode_default_def)
  have sub: "set (allow_rules_for e' p) \<subseteq> set (allow_rules_for e p)"
    using D(3) by (auto simp: allow_rules_for_def)
  show ?thesis
    using found_command_mono [OF D(1), of "''bash''" "looks p" True False]
      found_command_mono [OF D(2), of "''bash''" "looks p" True False]
      found_command_mono [OF sub, of "''bash''" "[allow_text p]" False True]
    by (auto simp: command_verdict_def Let_def ask split: option.split)
qed

lemma candidate_verdicts_mono:
  assumes le: "env_le e e'"
  shows "covered (candidate_verdicts e name w r cwd cand) (candidate_verdicts e' name w r cwd cand)"
proof -
  note D = env_leD [OF le]
  have plan: "in_plan e \<Longrightarrow> in_plan e'" using D(7) by (simp add: in_plan_def)
  show ?thesis
  proof (cases "norm e (JStr cand) cwd")
    case (Some np)
    show ?thesis
      unfolding candidate_verdicts_def norm_same [OF le] D(5) Some option.case
      by (intro covered_if covered_deny_by covered_refl found_path_mono [OF D(1)]) (auto dest: plan)
  qed (simp add: candidate_verdicts_def norm_same [OF le])
qed

lemma arg_verdicts_mono:
  "env_le e e' \<Longrightarrow> covered (arg_verdicts e name w r cwd a) (arg_verdicts e' name w r cwd a)"
  unfolding arg_verdicts_def by (intro covered_append covered_concat candidate_verdicts_mono) simp_all

lemma scan_args_mono: "env_le e e' \<Longrightarrow> covered (scan_args e p name cwd) (scan_args e' p name cwd)"
  unfolding scan_args_def Let_def
  by (intro covered_append covered_concat) (auto intro: arg_verdicts_mono)

lemma denied_name_mono:
  assumes "env_le e e'"
  shows "covered (denied_name_as_argument e p) (denied_name_as_argument e' p)"
proof -
  have "set (denied_program_names e) \<subseteq> set (denied_program_names e')"
    using env_leD(1) [OF assms] by (auto simp: denied_program_names_def)
  then show ?thesis by (auto simp: denied_name_as_argument_def Let_def covered_def)
qed

lemma redirect_verdicts_mono:
  assumes "env_le e e'"
  shows "covered (redirect_verdicts e p cwd) (redirect_verdicts e' p cwd)"
proof -
  have le: "env_le (e\<lparr>e_eff := x\<rparr>) (e'\<lparr>e_eff := x\<rparr>)" if "x \<in> set RISKS" for x
  proof -
    have "risk_at_most x x" using that by (auto simp: risk_at_most_def RISKS_def risk_rank_values)
    then show ?thesis using assms by (simp add: env_le_def)
  qed
  have R: "''R0'' \<in> set RISKS" "''R1'' \<in> set RISKS" by (simp_all add: RISKS_def)
  have "covered (redirect_verdict e cwd rd) (redirect_verdict e' cwd rd)" for rd
    unfolding redirect_verdict_def norm_same [OF assms]
    by (auto split: option.split intro!: covered_Cons path_verdict_mono le R)
  then show ?thesis unfolding redirect_verdicts_def by (intro covered_concat)
qed

lemma part_verdict_mono:
  assumes "env_le e e'" and "cx_mode (e_ctx e') \<noteq> ''plan''"
  shows "strictness (part_verdict e p cwd) \<le> strictness (part_verdict e' p cwd)"
  unfolding part_verdict_def extra_verdicts_def
  using assms
  by (intro covered_worst covered_Cons covered_append command_verdict_mono redirect_verdicts_mono)
     (auto split: option.split intro!: covered_append scan_args_mono denied_name_mono)

lemma next_cwd_same: "env_le e e' \<Longrightarrow> next_cwd e' p cwd = next_cwd e p cwd"
  unfolding next_cwd_def by (simp only: norm_same)

lemma part_verdicts_mono:
  assumes "env_le e e'" and "cx_mode (e_ctx e') \<noteq> ''plan''"
  shows "covered (part_verdicts e ps cwd) (part_verdicts e' ps cwd)"
  using assms by (induction ps arbitrary: cwd) (auto simp: next_cwd_same intro!: covered_Cons part_verdict_mono)

lemma worst_of_mono:
  "worst_of vs = Some v \<Longrightarrow> worst_of ws = Some w \<Longrightarrow> covered vs ws \<Longrightarrow> strictness v \<le> strictness w"
  by (cases vs; cases ws) (auto simp: worst_of_def intro: covered_worst)

lemma result_verdicts_mono:
  assumes le: "env_le e e'" and "cx_mode (e_ctx e') \<noteq> ''plan''"
  shows "covered (result_verdicts e r) (result_verdicts e' r)"
  unfolding result_verdicts_def env_leD(4,6) [OF le]
  by (intro covered_append part_verdicts_mono assms covered_refl)

lemma decide_shell_mono:
  assumes le: "env_le e e'" and np: "cx_mode (e_ctx e') \<noteq> ''plan''"
    and "decide_shell e kvs = Some v" and "decide_shell e' kvs = Some v'"
  shows "strictness v \<le> strictness v'"
proof -
  from assms(3) obtain command where c: "map_of kvs ''command'' = Some (JStr command)"
    unfolding decide_shell_def by (cases "map_of kvs ''command''") (simp_all split: json.split_asm)
  show ?thesis
  proof (cases "strip command = []")
    case True
    with c assms(3,4) show ?thesis by (simp add: decide_shell_def)
  next
    case False
    with c assms(3,4) have "worst_of (result_verdicts e (parse (JStr command))) = Some v"
      and "worst_of (result_verdicts e' (parse (JStr command))) = Some v'"
      by (simp_all add: decide_shell_def)
    then show ?thesis using worst_of_mono result_verdicts_mono [OF le np] by blast
  qed
qed

section \<open>The whole decision\<close>

lemma plan_exit_mono:
  assumes le: "env_le e e'" and "decide_plan_exit e kvs = Some v" and "decide_plan_exit e' kvs = Some v'"
  shows "strictness v \<le> strictness v'"
proof -
  have "first_command_match (mr_deny (e_merged e)) ''plan_exit'' [t] False False \<noteq> None \<Longrightarrow>
      first_command_match (mr_deny (e_merged e')) ''plan_exit'' [t] False False \<noteq> None" for t
    by (rule found_command_mono [OF env_leD(1) [OF le]])
  then show ?thesis
    using assms(2,3) by (fastforce simp: decide_plan_exit_def split: option.splits json.splits)
qed

lemma TOOLS_class:
  assumes "TOOLS t = Some spec"
  shows "ts_class spec \<in> {READ, EDIT, DELETE, SHELL, PLAN_EXIT}"
proof -
  from assms have "(t, spec) \<in> set (map (\<lambda>s. (ts_name s, s)) TOOL_SPECS)"
    unfolding TOOLS_def by (rule map_of_SomeD)
  then show ?thesis by (auto simp: TOOL_SPECS_def mk_spec_def)
qed

lemma dispatch_mono:
  assumes le: "env_le e e'" and t: "TOOLS t = Some spec"
    and "dispatch e spec kvs = Some v" and "dispatch e' spec kvs = Some v'"
  shows "strictness v \<le> strictness v'"
proof -
  consider "ts_class spec = SHELL" "cx_mode (e_ctx e') = ''plan''"
    | "ts_class spec = SHELL" "cx_mode (e_ctx e') \<noteq> ''plan''"
    | "ts_class spec = PLAN_EXIT" | "ts_class spec \<in> {READ, EDIT, DELETE}"
    using TOOLS_class [OF t] by auto
  then show ?thesis
  proof cases
    case 1
    with assms(4) show ?thesis by (auto simp: dispatch_def)
  next
    case 2
    with env_leD(7) [OF le] have "cx_mode (e_ctx e) \<noteq> ''plan''" by blast
    with 2 assms(3,4) show ?thesis using decide_shell_mono [OF le] by (simp add: dispatch_def)
  next
    case 3
    with assms(3,4) show ?thesis using plan_exit_mono [OF le] by (simp add: dispatch_def)
  next
    case 4
    then have "ts_class spec \<noteq> SHELL" "ts_class spec \<noteq> PLAN_EXIT" by auto
    with assms(3,4) show ?thesis using file_tool_mono [OF le 4] by (simp add: dispatch_def)
  qed
qed

definition context_le :: "context_arg \<Rightarrow> context_arg \<Rightarrow> bool" where
  "context_le c c' \<longleftrightarrow> mode_le (cx_mode c) (cx_mode c') \<and> tighter (merged_of c) (merged_of c')
     \<and> cx_project_root c = cx_project_root c' \<and> cx_home c = cx_home c' \<and> cx_cwd c = cx_cwd c'
     \<and> (cx_non_interactive c \<longrightarrow> cx_non_interactive c')"

lemma max_risk_mono:
  assumes "risk_at_most a b" and "max_risk a c = Some x" and "max_risk b c = Some y"
  shows "risk_at_most x y"
  using assms by (auto simp: max_risk_def risk_at_most_def simp del: risk_rank_None split: option.splits if_splits)

text \<open>On explained verdicts, \<open>_finalize\<close> only handles unreadable settings and non-interactive runs.\<close>

lemma finalize_action:
  assumes "explained v"
  shows "d_action (finalize v c m r) =
    (let a = (if v_action v = Allow \<and> mr_invalid m then Ask else v_action v)
     in if a = Ask \<and> cx_non_interactive c then Deny else a)"
proof -
  have "v_basis v = Some ''rule'' \<and> v_rule v \<noteq> None \<and> v_rule v \<noteq> Some [] \<or> v_basis v = Some ''mode''"
    if "v_action v = Allow"
    using that assms unfolding explained_def
      by (metis option.distinct(1) option.inject rule_label_not_empty)
  then show ?thesis by (auto simp: finalize_def Let_def)
qed

lemma finalize_mono:
  assumes "strictness v \<le> strictness v'" and "explained v" and "explained v'"
    and "mr_invalid m \<longrightarrow> mr_invalid m'" and "cx_non_interactive c \<longrightarrow> cx_non_interactive c'"
  shows "rank (d_action (finalize v c m r)) \<le> rank (d_action (finalize v' c' m' r'))"
  using assms
  by (cases "v_action v"; cases "v_action v'") (simp_all add: finalize_action strictness_def Let_def)

lemma decide_admitted:
  assumes "admitted request ctx spec kvs sr eff"
  obtains v where "dispatch (call_env ctx eff) spec kvs = Some v"
    "decide request (Some ctx) = finalize v ctx (merged_of ctx) (Some eff)"
proof -
  from assms obtain t where t: "unpack request = Some (JStr t, JObj kvs, JStr sr)" "TOOLS t = Some spec"
    and val: "validate spec (JObj kvs) = None" by (auto simp: admitted_iff)
  then obtain v where v: "dispatch (call_env ctx eff) spec kvs = Some v"
    using dispatch_total by (metis not_None_eq)
  moreover have "decide_call ctx spec kvs sr = Some (finalize v ctx (merged_of ctx) (Some eff))"
    using assms v by (auto simp: decide_call_def Let_def admitted_iff call_env_def)
  ultimately show ?thesis
    using that assms t val by (auto simp: decide_def decide_inner_def spec_of_def admitted_iff)
qed

lemma admitted_le:
  assumes "admitted (Request t i (JStr sr')) c' spec kvs s' eff'" and le: "context_le c c'"
    and sr: "risk_at_most sr sr'"
  obtains eff where "admitted (Request t i (JStr sr)) c spec kvs sr eff" "risk_at_most eff eff'"
proof -
  have s': "s' = sr'" and R: "sr \<in> set RISKS" using assms(1) risk_at_most_RISKS [OF sr]
    by (auto simp: admitted_iff unpack_def)
  have out: "call_outside c spec kvs r = call_outside c' spec kvs r" for r
    using le by (simp add: call_outside_def context_le_def)
  obtain u where "TOOLS u = Some spec" using assms(1) by (auto simp: admitted_iff)
  then have "client_risk spec o' \<in> set RISKS" for o' by (rule client_risk_known)
  then obtain eff where eff: "max_risk sr (client_risk spec (call_outside c spec kvs (clean_abs (cx_project_root c)))) = Some eff"
    using max_risk_total R by (metis not_None_eq)
  show ?thesis
  proof (rule that)
    show "admitted (Request t i (JStr sr)) c spec kvs sr eff"
      using assms(1) le eff R by (auto simp: admitted_iff unpack_def context_le_def mode_le_def is_valid_mode_def)
    show "risk_at_most eff eff'"
      using max_risk_mono [OF sr eff] assms(1) le s' out by (auto simp: admitted_iff context_le_def)
  qed
qed

lemma decide_le:
  assumes le: "context_le c c'" and sr: "risk_at_most sr sr'"
  shows "rank (d_action (decide (Request t i (JStr sr)) (Some c)))
       \<le> rank (d_action (decide (Request t i (JStr sr')) (Some c')))"
proof (cases "Request t i (JStr sr')" c' rule: decide_cases)
  case (refused reason)
  then show ?thesis by simp
next
  case (ran spec kvs s' eff' v')
  obtain eff where a: "admitted (Request t i (JStr sr)) c spec kvs sr eff" "risk_at_most eff eff'"
    by (rule admitted_le [OF ran(1) le sr])
  obtain v where v: "dispatch (call_env c eff) spec kvs = Some v"
    "decide (Request t i (JStr sr)) (Some c) = finalize v c (merged_of c) (Some eff)"
    by (rule decide_admitted [OF a(1)])
  obtain u where "TOOLS u = Some spec" using a(1) by (auto simp: admitted_iff)
  moreover have "env_le (call_env c eff) (call_env c' eff')"
    using le a(2) by (simp add: env_le_def context_le_def call_env_def)
  ultimately have "strictness v \<le> strictness v'" using dispatch_mono v(1) ran(2) by blast
  then show ?thesis
    using finalize_mono explained_dispatch v ran(2,3) le by (simp add: context_le_def tighter_def)
qed

section \<open>Denials\<close>

lemma command_verdict_denied:
  assumes "p_argv p \<noteq> []" and "r \<in> set (mr_deny (e_merged env))" and "command_hits r (''bash'', looks p, True, False)"
  shows "v_action (command_verdict env p) = Deny"
proof -
  have "first_command_match (mr_deny (e_merged env)) ''bash'' (looks p) True False \<noteq> None"
    using cmd.found_iff [of "mr_deny (e_merged env)" "(''bash'', looks p, True, False)"] assms(2,3) by auto
  then show ?thesis using assms(1) by (auto simp: command_verdict_def Let_def)
qed

lemma denied_command_in_result:
  assumes "p \<in> set (pr_parts r0)" and "p_argv p \<noteq> []"
    and "r \<in> set (mr_deny (e_merged env))" and "command_hits r (''bash'', looks p, True, False)"
  shows "\<exists>x \<in> set (result_verdicts env r0). v_action x = Deny"
proof -
  from assms(1) have "p \<in> fst ` set (located env (pr_parts r0) (start_dir env))"
    by (metis map_fst_located set_map)
  then obtain cwd where "(p, cwd) \<in> set (located env (pr_parts r0) (start_dir env))" by auto
  then have "part_verdict env p cwd \<in> set (part_verdicts env (pr_parts r0) (start_dir env))"
    unfolding part_verdicts_located by force
  moreover have "v_action (part_verdict env p cwd) = Deny"
    using command_verdict_denied [OF assms(2-4)] by (simp add: part_verdict_def worst_deny_iff)
  ultimately show ?thesis unfolding result_verdicts_def by auto
qed

lemma file_tool_path_in:
  assumes "decide_file_tool env spec kvs = Some v" and "path_argument (ts_name spec) kvs = Some raw"
    and "norm env raw (start_dir env) = Some np" and "v_action (path_verdict env [ts_name spec] (ts_class spec) np) = Deny"
  shows "v_action v = Deny"
  using assms by (auto simp: decide_file_tool_def Let_def worst_deny_iff split: option.splits)

lemma plan_file_tool:
  assumes "decide_file_tool env spec kvs = Some v" and "cx_mode (e_ctx env) = ''plan''"
    and "ts_class spec \<in> {EDIT, DELETE}"
  shows "v_action v = Deny"
proof -
  have plan: "v_action (path_verdict env tools (ts_class spec) np) = Deny" for tools np
    using assms(2,3) unfolding path_verdict_deny_iff by blast
  from assms(1) obtain raw where raw: "path_argument (ts_name spec) kvs = Some raw"
    by (auto simp: decide_file_tool_def Let_def split: option.splits)
  show ?thesis
  proof (cases "norm env raw (start_dir env)")
    case None
    then show ?thesis using assms(1) raw by (auto simp: decide_file_tool_def Let_def)
  next
    case (Some np)
    then show ?thesis using file_tool_path_in [OF assms(1) raw Some plan] by simp
  qed
qed

text \<open>Contexts with the same rules, up to \<open>tighter\<close> in both directions, take the same action.\<close>

lemma rank_inj: "rank a = rank b \<Longrightarrow> a = b"
  by (cases a; cases b) simp_all

lemma context_le_refl_rules:
  assumes "is_valid_mode (cx_mode c)" and "cx_mode c' = cx_mode c"
    and "cx_project_root c' = cx_project_root c" and "cx_home c' = cx_home c" and "cx_cwd c' = cx_cwd c"
    and "cx_non_interactive c' = cx_non_interactive c" and "tighter (merged_of c) (merged_of c')"
  shows "context_le c c'"
  using assms by (simp add: context_le_def mode_le_def is_valid_mode_def)

lemma risk_at_most_refl: "r \<in> set RISKS \<Longrightarrow> risk_at_most r r"
  by (auto simp: RISKS_def risk_at_most_def risk_rank_values)

lemma unpack_Request: "unpack request = Some (a, b, c) \<Longrightarrow> decide request x = decide (Request a b c) x"
  by (cases x) (simp_all add: decide_def decide_inner_def unpack_def [of "Request a b c"])

lemma same_rules_same_action:
  assumes same: "cx_mode c' = cx_mode c" "cx_project_root c' = cx_project_root c" "cx_home c' = cx_home c"
      "cx_cwd c' = cx_cwd c" "cx_non_interactive c' = cx_non_interactive c"
    and rules: "tighter (merged_of c) (merged_of c')" "tighter (merged_of c') (merged_of c)"
  shows "d_action (decide request (Some c')) = d_action (decide request (Some c))"
proof (cases "\<exists>a b sr. unpack request = Some (a, b, JStr sr) \<and> sr \<in> set RISKS \<and> is_valid_mode (cx_mode c)")
  case True
  then obtain a b sr where u: "unpack request = Some (a, b, JStr sr)" "sr \<in> set RISKS" "is_valid_mode (cx_mode c)"
    by blast
  have "context_le c c'" "context_le c' c"
    using same rules u(3) by (auto intro!: context_le_refl_rules)
  then show ?thesis
    using decide_le [OF _ risk_at_most_refl [OF u(2)]] unpack_Request [OF u(1)]
    by (metis le_antisym rank_inj)
next
  case False
  have "d_action (decide request (Some x)) = Deny" if "x \<in> {c, c'}" for x
  proof (cases request x rule: decide_cases)
    case (ran spec kvs sr eff v)
    then show ?thesis using False that same(1) by (auto simp: admitted_iff)
  qed simp
  then show ?thesis by simp
qed

lemma located_deny_in_result:
  assumes "(p, cwd) \<in> set (located env (pr_parts r) (start_dir env))" and "v_action (part_verdict env p cwd) = Deny"
  shows "\<exists>x \<in> set (result_verdicts env r). v_action x = Deny"
proof -
  from assms(1) have "part_verdict env p cwd \<in> set (part_verdicts env (pr_parts r) (start_dir env))"
    unfolding part_verdicts_located by force
  then show ?thesis using assms(2) unfolding result_verdicts_def by auto
qed

lemma scan_deny_part:
  assumes "part_name p = Some name" and "\<exists>x \<in> set (scan_args env p name cwd). v_action x = Deny"
  shows "v_action (part_verdict env p cwd) = Deny"
  using assms by (auto simp: part_verdict_def worst_deny_iff extra_verdicts_def)

lemma scan_args_secret:
  assumes i: "0 < i" "i < length (p_argv p)" "i \<notin> set (script_words name p)"
    and "cand \<in> set (arg_candidates (p_argv p ! i))" and "norm env (JStr cand) cwd = Some np" and "is_secret_path np"
  shows "\<exists>x \<in> set (scan_args env p name cwd). v_action x = Deny"
proof -
  have "(i, p_argv p ! i) \<in> set (enumerate 1 (tl (p_argv p)))"
    using i by (auto simp: in_set_enumerate_eq nth_tl)
  then have "set (arg_verdicts env name w r cwd (p_argv p ! i))
      \<subseteq> set (concat (map (\<lambda>(idx, a). arg_verdicts env name w r cwd a)
          (filter (\<lambda>(idx, a). idx \<notin> set (script_words name p)) (enumerate 1 (tl (p_argv p))))))" for w r
    using i(3) by (auto intro!: bexI [of _ "(i, p_argv p ! i)"])
  moreover have "\<exists>x \<in> set (arg_verdicts env name w r cwd (p_argv p ! i)). v_action x = Deny" for w r
  proof -
    have "candidate_verdicts env name w r cwd cand
        = [deny_v ''an argument names a path on the hard denylist of secrets'' None]"
      using assms(5,6) by (simp add: candidate_verdicts_def)
    then have "deny_v ''an argument names a path on the hard denylist of secrets'' None
        \<in> set (concat (map (candidate_verdicts env name w r cwd) (arg_candidates (p_argv p ! i))))"
      using assms(4) by force
    then show ?thesis unfolding arg_verdicts_def set_append by (metis UnI2 v_action_simps(1))
  qed
  ultimately show ?thesis unfolding scan_args_def Let_def set_append by blast
qed

text \<open>An awk with an option that names a program file is never allowed: \<open>_hidden_code\<close> asks.\<close>

definition names_program_file :: "string \<Rightarrow> bool" where
  "names_program_file t \<longleftrightarrow> t \<in> {''-i'', ''-E''} \<or> has_prefix_of [''--file'', ''--exec'', ''--source'', ''-f''] t"

lemma awk_file_is_not_allowed:
  assumes "name \<in> set AWKS" and "\<exists>w \<in> set (tl (p_argv p)). names_program_file (w_text w)"
    and "part_name p = Some name"
  shows "v_action (part_verdict env p cwd) \<noteq> Allow"
proof
  assume a: "v_action (part_verdict env p cwd) = Allow"
  have "awk_checks (map w_text (tl (p_argv p))) \<noteq> []"
    using assms(2) by (auto simp: awk_checks_def names_program_file_def)
  moreover have "name \<noteq> ''sed''" using assms(1) by (auto simp: AWKS_def)
  ultimately have "hidden_code name p \<noteq> []" using assms(1) by (simp add: hidden_code_def Let_def)
  then obtain x where x: "x \<in> set (scan_args env p name cwd)"
    by (cases "hidden_code name p") (auto simp: scan_args_def Let_def)
  then have "v_action x \<noteq> Allow" using scan_args_no_allow [of env p name cwd] by (simp add: no_allow_def)
  moreover have "v_action x = Allow" using a x assms(3) by (auto simp: part_verdict_def worst_allow_iff extra_verdicts_def)
  ultimately show False by simp
qed

lemma file_tool_allow:
  assumes "decide_file_tool env spec kvs = Some v" and "v_action v = Allow"
  obtains raw np where "path_argument (ts_name spec) kvs = Some raw" "norm env raw (start_dir env) = Some np"
    "v_action (path_verdict env [ts_name spec] (ts_class spec) np) = Allow"
  using assms by (auto simp: decide_file_tool_def Let_def worst_allow_iff split: option.splits)

section \<open>What a mode allows by itself\<close>

lemma mode_basis_path:
  assumes "v_action (path_verdict env tools cls np) = Allow" and "v_basis (path_verdict env tools cls np) = Some ''mode''"
  shows "md_action (mode_default (cx_mode (e_ctx env)) cls (e_eff env) True False) = Allow"
proof (cases "first_path_match (mr_allow (e_merged env)) tools np (cx_home (e_ctx env)) False")
  case None
  then show ?thesis using assms(1) unfolding path_verdict_allow_iff by blast
next
  case (Some r)
  have "path_verdict env tools cls np = allow_rule r"
    using assms(1) Some unfolding path_verdict_allow_iff by (auto simp: path_verdict_def Let_def)
  then show ?thesis using assms(2) by (simp add: allow_rule_def)
qed

lemma command_verdict_basis:
  "v_action (command_verdict env p) = Allow \<Longrightarrow> v_basis (command_verdict env p) = Some ''rule''"
  by (auto simp: command_verdict_def Let_def allow_rule_def split: option.splits if_splits)

text \<open>\<open>_worst\<close> keeps the first of several allows, so the verdict is that of the path argument.\<close>

lemma worst_all_allow: "\<forall>x \<in> set (v # vs). v_action x = Allow \<Longrightarrow> worst v vs = v"
proof (induction vs)
  case (Cons a vs)
  have "v_action a = Allow" using Cons.prems by simp
  then have "worst v (a # vs) = worst v vs" by simp
  also have "\<dots> = v" by (rule Cons.IH) (use Cons.prems in simp)
  finally show ?case .
qed simp

lemma file_tool_worst:
  assumes "decide_file_tool env spec kvs = Some v"
  shows "v_action v = Deny \<or> (\<exists>np ws. v = worst (path_verdict env [ts_name spec] (ts_class spec) np) ws)"
  using assms unfolding decide_file_tool_def Let_def
  by (auto simp del: worst.simps split: option.split_asm)

lemma file_tool_allow_first:
  assumes "decide_file_tool env spec kvs = Some v" and "v_action v = Allow"
  shows "\<exists>np. v = path_verdict env [ts_name spec] (ts_class spec) np"
proof -
  from file_tool_worst [OF assms(1)] assms(2) obtain np ws where
    "v = worst (path_verdict env [ts_name spec] (ts_class spec) np) ws" by auto
  then show ?thesis using assms(2) worst_all_allow worst_allow_iff by metis
qed

lemma shell_allow_basis:
  assumes "decide_shell env kvs = Some v" and "v_action v = Allow"
  shows "v_basis v = Some ''rule''"
proof -
  from decide_shell_allow [OF assms] obtain command where
    c: "map_of kvs ''command'' = Some (JStr command)" "strip command \<noteq> []"
      "pr_parts (parse (JStr command)) \<noteq> []"
    and parts: "\<forall>(p, cwd) \<in> set (located env (pr_parts (parse (JStr command))) (start_dir env)).
      v_action (part_verdict env p cwd) = Allow" by metis
  obtain p ps where ps: "pr_parts (parse (JStr command)) = p # ps" using c(3) by (cases "pr_parts (parse (JStr command))") auto
  have "worst_of (result_verdicts env (parse (JStr command))) = Some v"
    using assms(1) c(1,2) by (simp add: decide_shell_def)
  then obtain ws where w: "v = worst (part_verdict env p (start_dir env)) ws"
    by (auto simp: result_verdicts_def ps worst_of_def)
  have "v_action (worst (part_verdict env p (start_dir env)) ws) = Allow" using assms(2) w by simp
  then have "v = part_verdict env p (start_dir env)" using w worst_all_allow worst_allow_iff by blast
  moreover have a: "v_action (part_verdict env p (start_dir env)) = Allow" using parts ps by simp
  moreover have "part_verdict env p (start_dir env) = command_verdict env p"
    using a worst_all_allow worst_allow_iff unfolding part_verdict_def by blast
  ultimately show ?thesis using command_verdict_basis by simp
qed

lemma mode_basis_dispatch:
  assumes "dispatch env spec kvs = Some v" and "v_action v = Allow" and "v_basis v = Some ''mode''"
    and "ts_class spec \<in> {READ, EDIT, DELETE, SHELL, PLAN_EXIT}"
  shows "ts_class spec = READ \<and> risk_at_most (e_eff env) ''R0''
    \<or> ts_class spec = EDIT \<and> cx_mode (e_ctx env) = ''accept-edits'' \<and> risk_at_most (e_eff env) ''R1''"
proof -
  consider "ts_class spec = SHELL" | "ts_class spec = PLAN_EXIT" | "ts_class spec \<in> {READ, EDIT, DELETE}"
    using assms(4) by auto
  then show ?thesis
  proof cases
    case 1
    then have "decide_shell env kvs = Some v" using assms(1,2) by (auto simp: dispatch_def split: if_splits)
    then show ?thesis using shell_allow_basis assms(2,3) by fastforce
  next
    case 2
    then show ?thesis using assms(1,2) explained_plan_exit by (auto simp: dispatch_def)
  next
    case 3
    then have "decide_file_tool env spec kvs = Some v" using assms(1) by (auto simp: dispatch_def)
    from file_tool_allow_first [OF this assms(2)] obtain np where
      v: "v = path_verdict env [ts_name spec] (ts_class spec) np" by blast
    then have "md_action (mode_default (cx_mode (e_ctx env)) (ts_class spec) (e_eff env) True False) = Allow"
      using mode_basis_path assms(2,3) by blast
    then show ?thesis unfolding mode_default_allow_iff by auto
  qed
qed

lemma admitted_risk:
  assumes "admitted request ctx spec kvs sr eff"
  shows "risk_at_most sr eff"
proof -
  from assms obtain t where "TOOLS t = Some spec" "sr \<in> set RISKS"
    and m: "max_risk sr (client_risk spec (call_outside ctx spec kvs (clean_abs (cx_project_root ctx)))) = Some eff"
    by (auto simp: admitted_iff)
  then show ?thesis
    using max_risk_closed [OF _ client_risk_known, of sr t spec "call_outside ctx spec kvs (clean_abs (cx_project_root ctx))"]
    by auto
qed

lemma admitted_class: "admitted request ctx spec kvs sr eff \<Longrightarrow> ts_class spec \<in> {READ, EDIT, DELETE, SHELL, PLAN_EXIT}"
  using TOOLS_class unfolding admitted_iff by blast

lemma risk_at_most_R0: "risk_at_most r ''R0'' \<longleftrightarrow> r = ''R0''"
proof
  assume a: "risk_at_most r ''R0''"
  then show "r = ''R0''" using risk_at_most_RISKS [OF a] by (auto simp: RISKS_def risk_at_most_def risk_rank_values)
qed (simp add: risk_at_most_def risk_rank_values)

end
