(* ===== verification/Runs.thy ===== *)
theory Runs
  imports Prelude "HOL-Library.Multiset"
begin

text \<open>
  \<open>backend/codeagent/runs.py\<close>: the content-free record of a run and its state machine. The
  module's SQL statements are functions on the table (a list of rows); the Python functions
  call them one at a time, and between two calls other callers may have used the store. That is
  a script in the world the functions run in: before each store call it says which atomic
  operations of other callers come first, and whether the call itself fails.
\<close>

section \<open>Vocabulary\<close>

definition RUN_STATES :: "string list" where
  "RUN_STATES =
    [''created'', ''running'', ''awaiting_approval'', ''completed'', ''paused_budget'',
     ''paused_disconnected'', ''paused_error'', ''cancelled'', ''failed'', ''expired'']"

definition TERMINAL_STATES :: "string list" where
  "TERMINAL_STATES = [''completed'', ''cancelled'', ''failed'', ''expired'']"

definition PAUSED_STATES :: "string list" where
  "PAUSED_STATES = [''paused_budget'', ''paused_disconnected'', ''paused_error'']"

definition SLOT_STATES :: "string list" where
  "SLOT_STATES = [''created'', ''running'', ''awaiting_approval'']"

definition ERROR_CODES :: "string list" where
  "ERROR_CODES =
    [''unauthorized'', ''device_revoked'', ''quota_exhausted'', ''run_not_found'', ''protocol_unsupported'',
     ''rate_limited'', ''provider_unavailable'', ''tool_timeout'', ''invalid_message'', ''internal'']"

definition CODE_TARGETS :: "string list" where
  "CODE_TARGETS = PAUSED_STATES @ [''failed'', ''cancelled'', ''expired'']"

definition TRANSITIONS :: "string \<rightharpoonup> string list" where
  "TRANSITIONS = map_of
    [(''created'', [''running'', ''cancelled'', ''failed'', ''expired'']),
     (''running'', [''awaiting_approval'', ''completed'', ''paused_budget'', ''paused_disconnected'',
                    ''paused_error'', ''cancelled'', ''failed'', ''expired'']),
     (''awaiting_approval'', [''running'', ''paused_budget'', ''paused_disconnected'', ''paused_error'',
                    ''cancelled'', ''failed'', ''expired'']),
     (''paused_budget'', [''running'', ''cancelled'', ''failed'', ''expired'']),
     (''paused_disconnected'', [''running'', ''cancelled'', ''failed'', ''expired'']),
     (''paused_error'', [''running'', ''cancelled'', ''failed'', ''expired'']),
     (''completed'', []), (''cancelled'', []), (''failed'', []), (''expired'', [])]"

definition MAX_TRANSITION_ATTEMPTS :: nat where "MAX_TRANSITION_ATTEMPTS = 5"
definition MAX_USER_ID :: nat where "MAX_USER_ID = 128"

definition can_transition :: "string \<Rightarrow> string \<Rightarrow> bool" where
  "can_transition current target =
     (case TRANSITIONS current of Some ts \<Rightarrow> target \<in> set ts | None \<Rightarrow> False)"

section \<open>Errors\<close>

datatype run_error =
    InvalidRun string
  | RunNotFound
  | RunIdCollision
  | IllegalTransition string string
  | TransitionConflict
  | ParallelRunLimit int
  | RunStoreUnavailable "nat option"

section \<open>The record\<close>

text \<open>
  A row of \<open>runs\<close>, which is also the dataclass \<open>Run\<close>. Times are readings of the database
  clock; credits count millionths, the precision \<open>add_counters\<close> stores.
\<close>

record run =
  rn_id :: string
  rn_user :: string
  rn_device :: string
  rn_profile :: string
  rn_mode :: string
  rn_state :: string
  rn_created :: nat
  rn_updated :: nat
  rn_ended :: "nat option"
  rn_code :: "string option"
  rn_steps :: int
  rn_credits :: int

definition terminal :: "run \<Rightarrow> bool" where
  "terminal r \<longleftrightarrow> rn_state r \<in> set TERMINAL_STATES"

section \<open>Validation\<close>

definition id_char :: "char \<Rightarrow> bool" where
  "id_char c \<longleftrightarrow> ascii_alpha c \<or> ascii_digit c \<or> c = CHR ''_'' \<or> c = CHR ''-''"

text \<open>A Python value where a string is expected: \<open>None\<close> is anything that is not a \<open>str\<close>.\<close>

definition check_run_id :: "json \<Rightarrow> run_error + string" where
  "check_run_id v = (case v of
      JStr s \<Rightarrow> if 8 \<le> length s \<and> length s \<le> 64 \<and> list_all id_char s then Inr s
                 else Inl (InvalidRun ''malformed run id'')
    | _ \<Rightarrow> Inl (InvalidRun ''malformed run id''))"

definition check_user_id :: "json \<Rightarrow> run_error + string" where
  "check_user_id v = (case v of
      JStr s \<Rightarrow> if s = [] \<or> MAX_USER_ID < length s \<or> (\<exists>c \<in> set s. is_control c)
                 then Inl (InvalidRun ''malformed account id'') else Inr s
    | _ \<Rightarrow> Inl (InvalidRun ''malformed account id''))"

definition check_word :: "string \<Rightarrow> json \<Rightarrow> run_error + string" where
  "check_word what v = (case v of
      JStr s \<Rightarrow> if s \<noteq> [] \<and> ascii_lower (hd s) \<and> length s \<le> 32
                    \<and> list_all (\<lambda>c. ascii_lower c \<or> ascii_digit c \<or> c = CHR ''_'' \<or> c = CHR ''-'') (tl s)
                 then Inr s else Inl (InvalidRun (''malformed '' @ what))
    | _ \<Rightarrow> Inl (InvalidRun (''malformed '' @ what)))"

definition check_state :: "json \<Rightarrow> run_error + string" where
  "check_state v = (case v of
      JStr s \<Rightarrow> if s \<in> set RUN_STATES then Inr s else Inl (InvalidRun ''unknown run state'')
    | _ \<Rightarrow> Inl (InvalidRun ''unknown run state''))"

definition check_error_code :: "json \<Rightarrow> string \<Rightarrow> run_error + string option" where
  "check_error_code v target = (case v of
      JNull \<Rightarrow> Inr None
    | JStr s \<Rightarrow> if s \<notin> set ERROR_CODES then Inl (InvalidRun ''not a protocol error code'')
                 else if target \<notin> set CODE_TARGETS
                 then Inl (InvalidRun ''an error code does not belong on this state'')
                 else Inr (Some s)
    | _ \<Rightarrow> Inl (InvalidRun ''not a protocol error code''))"

definition check_cap :: "json \<Rightarrow> run_error + int option" where
  "check_cap v = (case v of
      JNull \<Rightarrow> Inr None
    | JInt n \<Rightarrow> if n < 1 then Inl (InvalidRun ''max_parallel must be a positive integer'') else Inr (Some n)
    | _ \<Rightarrow> Inl (InvalidRun ''max_parallel must be a positive integer''))"

text \<open>
  A number handed to \<open>add_progress\<close>. A finite float is \<open>m / 2 ^ k\<close> for its integers \<open>m\<close>, \<open>k\<close>.
\<close>

datatype number = NInt int | NFloat int nat | NNotFinite | NNotANumber

definition check_count :: "string \<Rightarrow> bool \<Rightarrow> number \<Rightarrow> run_error + number" where
  "check_count what integer v = (case v of
      NInt n \<Rightarrow> if n < 0 then Inl (InvalidRun (what @ '' cannot be negative'')) else Inr v
    | NFloat m k \<Rightarrow> if integer then Inl (InvalidRun (what @ '' must be a number''))
                     else if m < 0 then Inl (InvalidRun (what @ '' cannot be negative'')) else Inr v
    | NNotFinite \<Rightarrow> if integer then Inl (InvalidRun (what @ '' must be a number''))
                      else Inl (InvalidRun (what @ '' must be finite''))
    | NNotANumber \<Rightarrow> Inl (InvalidRun (what @ '' must be a number'')))"

text \<open>\<open>Decimal(str(round(x, 6)))\<close> in millionths: round half to even.\<close>

definition micro :: "number \<Rightarrow> int" where
  "micro v = (case v of
      NInt n \<Rightarrow> n * 10 ^ 6
    | NFloat m k \<Rightarrow>
        (let x = m * 10 ^ 6; d = 2 ^ k; q = x div d; r = x mod d
         in if 2 * r < d then q else if d < 2 * r then q + 1 else if even q then q else q + 1)
    | _ \<Rightarrow> 0)"

definition whole :: "number \<Rightarrow> int" where
  "whole v = (case v of NInt n \<Rightarrow> n | _ \<Rightarrow> 0)"

text \<open>
  \<open>uuid.UUID(value)\<close> of the standard library on a text of 36 characters: \<open>urn:\<close> and \<open>uuid:\<close> are
  removed, braces stripped, dashes removed; 32 characters must remain and \<open>int(hex, 16)\<close> must read
  them (it allows surrounding space, a sign, \<open>0x\<close> and single underscores between digits).
\<close>

function remove_all :: "string \<Rightarrow> string \<Rightarrow> string" where
  "remove_all sub s =
     (if s = [] then []
      else if sub \<noteq> [] \<and> prefix sub s then remove_all sub (drop (length sub) s)
      else hd s # remove_all sub (tl s))"
  by pat_completeness auto
termination
  by (relation "measure (\<lambda>(sub, s). length s)") auto

declare remove_all.simps [simp del]

definition hex_digit :: "char \<Rightarrow> nat option" where
  "hex_digit c =
     (let n = (of_char c :: nat) in
      if 48 \<le> n \<and> n \<le> 57 then Some (n - 48)
      else if 97 \<le> n \<and> n \<le> 102 then Some (n - 87)
      else if 65 \<le> n \<and> n \<le> 70 then Some (n - 55)
      else None)"

text \<open>Digits with single underscores between them.\<close>

fun hex_value :: "nat \<Rightarrow> string \<Rightarrow> nat option" where
  "hex_value acc [] = None"
| "hex_value acc (c # cs) =
     (case hex_digit c of
        None \<Rightarrow> None
      | Some d \<Rightarrow>
          (case cs of
             [] \<Rightarrow> Some (16 * acc + d)
           | c' # cs' \<Rightarrow> hex_value (16 * acc + d) (if c' = CHR ''_'' then cs' else cs)))"

definition hex_prefix :: "string \<Rightarrow> string" where
  "hex_prefix s =
     (if prefix ''0x'' s \<or> prefix ''0X'' s
      then (if prefix ''_'' (drop 2 s) then drop 3 s else drop 2 s) else s)"

text \<open>\<open>int(s, 16)\<close> when it is not negative; a negative value is out of range for a UUID.\<close>

definition int16 :: "string \<Rightarrow> nat option" where
  "int16 s =
     (let t = strip s in
      if prefix ''+'' t then hex_value 0 (hex_prefix (tl t))
      else if prefix ''-'' t
      then (case hex_value 0 (hex_prefix (tl t)) of Some 0 \<Rightarrow> Some 0 | _ \<Rightarrow> None)
      else hex_value 0 (hex_prefix t))"

definition hex_char :: "nat \<Rightarrow> char" where
  "hex_char d = (if d < 10 then char_of (48 + d) else char_of (87 + d))"

primrec hex_digits :: "nat \<Rightarrow> nat \<Rightarrow> string" where
  "hex_digits 0 n = []"
| "hex_digits (Suc k) n = hex_digits k (n div 16) @ [hex_char (n mod 16)]"

definition uuid_text :: "nat \<Rightarrow> string" where
  "uuid_text n =
     (let h = hex_digits 32 n in
      take 8 h @ ''-'' @ take 4 (drop 8 h) @ ''-'' @ take 4 (drop 12 h) @ ''-''
      @ take 4 (drop 16 h) @ ''-'' @ drop 20 h)"

definition is_brace :: "char \<Rightarrow> bool" where
  "is_brace c \<longleftrightarrow> c = CHR ''{'' \<or> c = CHR ''}''"

definition uuid_hex :: "string \<Rightarrow> string" where
  "uuid_hex s =
     filter (\<lambda>c. c \<noteq> CHR ''-'')
       (rev (dropWhile is_brace (rev (dropWhile is_brace
          (remove_all ''uuid:'' (remove_all ''urn:'' s))))))"

definition check_device_id :: "json \<Rightarrow> run_error + string" where
  "check_device_id v = (case v of
      JStr s \<Rightarrow>
        if length s \<noteq> 36 then Inl (InvalidRun ''malformed device id'')
        else if length (uuid_hex s) \<noteq> 32 then Inl (InvalidRun ''malformed device id'')
        else (case int16 (uuid_hex s) of
                Some n \<Rightarrow> Inr (uuid_text n)
              | None \<Rightarrow> Inl (InvalidRun ''malformed device id''))
    | _ \<Rightarrow> Inl (InvalidRun ''malformed device id''))"

section \<open>The store: one SQL transaction per function\<close>

text \<open>
  A store function maps the database time and the table to a result and the table after the
  transaction. \<open>None\<close> in a result is the missing row of a \<open>returning\<close> clause.
\<close>

type_synonym 'a store_result = "(run_error + 'a) \<times> run list"

definition owned :: "string \<Rightarrow> string \<Rightarrow> run \<Rightarrow> bool" where
  "owned user rid r \<longleftrightarrow> rn_id r = rid \<and> rn_user r = user"

definition slots_used :: "string \<Rightarrow> string \<Rightarrow> run list \<Rightarrow> int" where
  "slots_used user device rows =
     int (length (filter (\<lambda>r. rn_user r = user \<and> rn_device r = device \<and> rn_state r \<in> set SLOT_STATES) rows))"

definition at_cap :: "int option \<Rightarrow> string \<Rightarrow> string \<Rightarrow> run list \<Rightarrow> bool" where
  "at_cap cap user device rows = (case cap of Some n \<Rightarrow> n \<le> slots_used user device rows | None \<Rightarrow> False)"

definition fresh_run :: "nat \<Rightarrow> string \<Rightarrow> string \<Rightarrow> string \<Rightarrow> string \<Rightarrow> string \<Rightarrow> run" where
  "fresh_run now rid user device profile mode =
     \<lparr>rn_id = rid, rn_user = user, rn_device = device, rn_profile = profile, rn_mode = mode,
      rn_state = ''created'', rn_created = now, rn_updated = now, rn_ended = None, rn_code = None,
      rn_steps = 0, rn_credits = 0\<rparr>"

definition store_insert ::
    "string \<Rightarrow> string \<Rightarrow> string \<Rightarrow> string \<Rightarrow> string \<Rightarrow> int option \<Rightarrow> nat \<Rightarrow> run list \<Rightarrow> run option store_result" where
  "store_insert rid user device profile mode cap now rows =
    (if at_cap cap user device rows then (Inl (ParallelRunLimit (the cap)), rows)
     else if \<exists>r \<in> set rows. rn_id r = rid then (Inr None, rows)
     else let r = fresh_run now rid user device profile mode in (Inr (Some r), rows @ [r]))"

definition store_get :: "string \<Rightarrow> string \<Rightarrow> nat \<Rightarrow> run list \<Rightarrow> run option store_result" where
  "store_get user rid now rows = (Inr (find (owned user rid) rows), rows)"

text \<open>A conditional \<open>update ... where ... returning\<close>: the rows that match are rewritten.\<close>

definition update_where :: "(run \<Rightarrow> bool) \<Rightarrow> (run \<Rightarrow> run) \<Rightarrow> run list \<Rightarrow> run option \<times> run list" where
  "update_where cond f rows = (map_option f (find cond rows), map (\<lambda>r. if cond r then f r else r) rows)"

definition moved_run :: "nat \<Rightarrow> string \<Rightarrow> string option \<Rightarrow> run \<Rightarrow> run" where
  "moved_run now to_state code r =
     r\<lparr>rn_state := to_state, rn_updated := now,
       rn_ended := (if to_state \<in> set TERMINAL_STATES then Some now else None), rn_code := code\<rparr>"

definition store_move ::
    "string \<Rightarrow> string \<Rightarrow> string \<Rightarrow> string \<Rightarrow> string option \<Rightarrow> int option \<Rightarrow> nat \<Rightarrow> run list \<Rightarrow> run option store_result" where
  "store_move user rid from_state to_state code cap now rows =
    (case (cap, find (owned user rid) rows) of
       (Some n, None) \<Rightarrow> (Inr None, rows)
     | (c, row) \<Rightarrow>
         if (case row of Some r \<Rightarrow> at_cap c user (rn_device r) rows | None \<Rightarrow> False)
         then (Inl (ParallelRunLimit (the c)), rows)
         else (case update_where (\<lambda>r. owned user rid r \<and> rn_state r = from_state)
                      (moved_run now to_state code) rows of
                 (r', rows') \<Rightarrow> (Inr r', rows')))"

definition MAX_STEPS :: int where "MAX_STEPS = 2147483647"

definition counted_run :: "nat \<Rightarrow> int \<Rightarrow> int \<Rightarrow> run \<Rightarrow> run" where
  "counted_run now steps credits r =
     r\<lparr>rn_steps := rn_steps r + steps, rn_credits := rn_credits r + credits, rn_updated := now\<rparr>"

text \<open>The column \<open>steps\<close> is a 4-byte integer: an overflow is an error of the driver.\<close>

definition store_counters ::
    "string \<Rightarrow> string \<Rightarrow> int \<Rightarrow> int \<Rightarrow> nat \<Rightarrow> run list \<Rightarrow> run option store_result" where
  "store_counters user rid steps credits now rows =
    (if \<exists>r \<in> set rows. owned user rid r \<and> MAX_STEPS < rn_steps r + steps
     then (Inl (RunStoreUnavailable None), rows)
     else (case update_where (owned user rid) (counted_run now steps credits) rows of
             (r', rows') \<Rightarrow> (Inr r', rows')))"

definition store_set_mode ::
    "string \<Rightarrow> string \<Rightarrow> string \<Rightarrow> string \<Rightarrow> nat \<Rightarrow> run list \<Rightarrow> run option store_result" where
  "store_set_mode user rid from_mode to_mode now rows =
    (case update_where (\<lambda>r. owned user rid r \<and> rn_mode r = from_mode \<and> rn_ended r = None)
            (\<lambda>r. r\<lparr>rn_mode := to_mode, rn_updated := now\<rparr>) rows of
       (r', rows') \<Rightarrow> (Inr r', rows'))"

text \<open>\<open>order by created_at, id\<close>; ids compare by code point.\<close>

fun string_less_eq :: "string \<Rightarrow> string \<Rightarrow> bool" where
  "string_less_eq [] t = True"
| "string_less_eq (c # cs) [] = False"
| "string_less_eq (c # cs) (d # ds) =
     (if (of_char c :: nat) < of_char d then True else c = d \<and> string_less_eq cs ds)"

definition run_before :: "run \<Rightarrow> run \<Rightarrow> bool" where
  "run_before a b \<longleftrightarrow> rn_created a < rn_created b \<or> rn_created a = rn_created b \<and> string_less_eq (rn_id a) (rn_id b)"

fun insert_run :: "run \<Rightarrow> run list \<Rightarrow> run list" where
  "insert_run r [] = [r]"
| "insert_run r (x # xs) = (if run_before r x then r # x # xs else x # insert_run r xs)"

definition store_list_open :: "string \<Rightarrow> string \<Rightarrow> nat \<Rightarrow> run list \<Rightarrow> run list store_result" where
  "store_list_open user device now rows =
     (Inr (foldr insert_run
            (filter (\<lambda>r. rn_user r = user \<and> rn_device r = device \<and> rn_ended r = None) rows) []), rows)"

section \<open>The world the calls run in\<close>

text \<open>A write of some other caller, as data.\<close>

datatype store_op =
    Insert string string string string string "int option"
  | Move string string string string "string option" "int option"
  | Counters string string int int
  | Set_mode string string string string

fun apply_op :: "nat \<Rightarrow> store_op \<Rightarrow> run list \<Rightarrow> run list" where
  "apply_op now (Insert rid user device profile mode cap) rows =
     snd (store_insert rid user device profile mode cap now rows)"
| "apply_op now (Move user rid from_state to_state code cap) rows =
     snd (store_move user rid from_state to_state code cap now rows)"
| "apply_op now (Counters user rid steps credits) rows = snd (store_counters user rid steps credits now rows)"
| "apply_op now (Set_mode user rid from_mode to_mode) rows = snd (store_set_mode user rid from_mode to_mode now rows)"

text \<open>
  What happens around one store call: the other callers' writes before it, and a fault, which can
  strike before the transaction or after it has committed, with the pool's retry hint.
\<close>

datatype fault = No_fault | Fault_before "nat option" | Fault_after "nat option"

record world =
  wd_now :: nat
  wd_rows :: "run list"
  wd_script :: "(store_op list \<times> fault) list"

definition next_turn :: "world \<Rightarrow> (store_op list \<times> fault) \<times> (store_op list \<times> fault) list" where
  "next_turn w = (case wd_script w of [] \<Rightarrow> (([], No_fault), []) | t # ts \<Rightarrow> (t, ts))"

text \<open>\<open>_call\<close>: one store call with everything around it.\<close>

definition call_store ::
    "(nat \<Rightarrow> run list \<Rightarrow> 'a store_result) \<Rightarrow> world \<Rightarrow> (run_error + 'a) \<times> world" where
  "call_store f w =
    (case next_turn w of
       ((ops, fault), rest) \<Rightarrow>
         (let now = wd_now w + 1;
              rows = fold (apply_op now) ops (wd_rows w);
              (res, rows') = f now rows
          in case fault of
               No_fault \<Rightarrow> (res, \<lparr>wd_now = now, wd_rows = rows', wd_script = rest\<rparr>)
             | Fault_before hint \<Rightarrow>
                 (Inl (RunStoreUnavailable hint), \<lparr>wd_now = now, wd_rows = rows, wd_script = rest\<rparr>)
             | Fault_after hint \<Rightarrow>
                 (Inl (RunStoreUnavailable hint), \<lparr>wd_now = now, wd_rows = rows', wd_script = rest\<rparr>)))"

section \<open>The API\<close>

text \<open>Validation failures leave the world alone.\<close>

definition checked :: "(run_error + 'a) \<Rightarrow> ('a \<Rightarrow> world \<Rightarrow> (run_error + 'b) \<times> world) \<Rightarrow> world \<Rightarrow> (run_error + 'b) \<times> world" where
  "checked c k w = (case c of Inl e \<Rightarrow> (Inl e, w) | Inr x \<Rightarrow> k x w)"

definition row_or :: "run_error \<Rightarrow> (run_error + run option) \<times> world \<Rightarrow> (run_error + run) \<times> world" where
  "row_or e rw = (case rw of
      (Inl e', w) \<Rightarrow> (Inl e', w) | (Inr None, w) \<Rightarrow> (Inl e, w) | (Inr (Some r), w) \<Rightarrow> (Inr r, w))"

definition create_run :: "json \<Rightarrow> json \<Rightarrow> json \<Rightarrow> json \<Rightarrow> json \<Rightarrow> json \<Rightarrow> world \<Rightarrow> (run_error + run) \<times> world" where
  "create_run user_id device_id run_id profile mode max_parallel =
    checked (check_user_id user_id) (\<lambda>user.
    checked (check_device_id device_id) (\<lambda>device.
    checked (check_run_id run_id) (\<lambda>rid.
    checked (check_word ''profile'' profile) (\<lambda>p.
    checked (check_word ''mode'' mode) (\<lambda>m.
    checked (check_cap max_parallel) (\<lambda>cap w.
      row_or RunIdCollision (call_store (store_insert rid user device p m cap) w)))))))"

definition get_run :: "json \<Rightarrow> json \<Rightarrow> world \<Rightarrow> (run_error + run) \<times> world" where
  "get_run user_id run_id =
    checked (check_user_id user_id) (\<lambda>user.
    checked (check_run_id run_id) (\<lambda>rid w. row_or RunNotFound (call_store (store_get user rid) w)))"

definition takes_slot :: "string \<Rightarrow> string \<Rightarrow> bool" where
  "takes_slot current target \<longleftrightarrow> current \<notin> set SLOT_STATES \<and> target \<in> set SLOT_STATES"

definition refuses :: "string list option \<Rightarrow> string \<Rightarrow> string \<Rightarrow> bool" where
  "refuses allowed current target \<longleftrightarrow>
     (case allowed of Some ss \<Rightarrow> current \<notin> set ss | None \<Rightarrow> False) \<or> \<not> can_transition current target"

text \<open>The attempts of \<open>transition\<close>: read, judge, compare and set.\<close>

primrec attempts ::
    "nat \<Rightarrow> string \<Rightarrow> string \<Rightarrow> string \<Rightarrow> string option \<Rightarrow> string list option \<Rightarrow> int option \<Rightarrow> world
      \<Rightarrow> (run_error + run) \<times> world" where
  "attempts 0 user rid target code allowed cap w = (Inl TransitionConflict, w)"
| "attempts (Suc n) user rid target code allowed cap w =
    (case call_store (store_get user rid) w of
       (Inl e, w1) \<Rightarrow> (Inl e, w1)
     | (Inr None, w1) \<Rightarrow> (Inl RunNotFound, w1)
     | (Inr (Some row), w1) \<Rightarrow>
         (let current = rn_state row in
          if refuses allowed current target then (Inl (IllegalTransition current target), w1)
          else (case call_store (store_move user rid current target code
                       (if takes_slot current target then cap else None)) w1 of
                  (Inl e, w2) \<Rightarrow> (Inl e, w2)
                | (Inr (Some r), w2) \<Rightarrow> (Inr r, w2)
                | (Inr None, w2) \<Rightarrow> attempts n user rid target code allowed cap w2)))"

fun check_states :: "json list \<Rightarrow> run_error + string list" where
  "check_states [] = Inr []"
| "check_states (v # vs) =
     (case check_state v of
        Inl e \<Rightarrow> Inl e
      | Inr s \<Rightarrow> (case check_states vs of Inl e \<Rightarrow> Inl e | Inr ss \<Rightarrow> Inr (s # ss)))"

definition check_expected :: "json list option \<Rightarrow> run_error + string list option" where
  "check_expected e = (case e of
      None \<Rightarrow> Inr None
    | Some vs \<Rightarrow> (case check_states vs of Inl e \<Rightarrow> Inl e | Inr ss \<Rightarrow> Inr (Some ss)))"

definition transition ::
    "json \<Rightarrow> json \<Rightarrow> json \<Rightarrow> json \<Rightarrow> json list option \<Rightarrow> json \<Rightarrow> world \<Rightarrow> (run_error + run) \<times> world" where
  "transition user_id run_id to_state error_code expected max_parallel =
    checked (check_user_id user_id) (\<lambda>user.
    checked (check_run_id run_id) (\<lambda>rid.
    checked (check_state to_state) (\<lambda>target.
    checked (check_error_code error_code target) (\<lambda>code.
    checked (check_cap max_parallel) (\<lambda>cap.
    checked (check_expected expected) (\<lambda>allowed w.
      attempts MAX_TRANSITION_ATTEMPTS user rid target code allowed cap w))))))"

definition add_progress :: "json \<Rightarrow> json \<Rightarrow> number \<Rightarrow> number \<Rightarrow> world \<Rightarrow> (run_error + run) \<times> world" where
  "add_progress user_id run_id steps credits =
    checked (check_user_id user_id) (\<lambda>user.
    checked (check_run_id run_id) (\<lambda>rid.
    checked (check_count ''steps'' True steps) (\<lambda>s.
    checked (check_count ''credits'' False credits) (\<lambda>c w.
      row_or RunNotFound (call_store (store_counters user rid (whole s) (micro c)) w)))))"

definition set_mode :: "json \<Rightarrow> json \<Rightarrow> json \<Rightarrow> json \<Rightarrow> world \<Rightarrow> (run_error + run) \<times> world" where
  "set_mode user_id run_id to_mode expected =
    checked (check_user_id user_id) (\<lambda>user.
    checked (check_run_id run_id) (\<lambda>rid.
    checked (check_word ''mode'' to_mode) (\<lambda>to.
    checked (check_word ''mode'' expected) (\<lambda>ex w.
      case call_store (store_set_mode user rid ex to) w of
        (Inl e, w1) \<Rightarrow> (Inl e, w1)
      | (Inr (Some r), w1) \<Rightarrow> (Inr r, w1)
      | (Inr None, w1) \<Rightarrow> row_or RunNotFound (call_store (store_get user rid) w1)))))"

definition list_open_runs :: "json \<Rightarrow> json \<Rightarrow> world \<Rightarrow> (run_error + run list) \<times> world" where
  "list_open_runs user_id device_id =
    checked (check_user_id user_id) (\<lambda>user.
    checked (check_device_id device_id) (\<lambda>device w. call_store (store_list_open user device) w))"

section \<open>The step relation\<close>

text \<open>
  The writes the module can issue when every create and every move into a slot passes a cap of \<open>C\<close>
  (\<open>max_parallel\<close>, whose default is \<open>None\<close>): the edges of \<open>TRANSITIONS\<close>, error codes only where
  \<open>_error_code\<close> allows them, counters that only grow. \<open>C\<close> is \<open>UNIV\<close> when callers pass what they like,
  and \<open>{Some n}\<close> when all of them pass the cap \<open>n\<close>.
\<close>

definition code_fits :: "string \<Rightarrow> string option \<Rightarrow> bool" where
  "code_fits target code \<longleftrightarrow>
     (case code of None \<Rightarrow> True | Some c \<Rightarrow> c \<in> set ERROR_CODES \<and> target \<in> set CODE_TARGETS)"

fun legal_op :: "int option set \<Rightarrow> store_op \<Rightarrow> bool" where
  "legal_op C (Insert rid user device profile mode cap) = (cap \<in> C)"
| "legal_op C (Move user rid from_state to_state code cap) =
     (can_transition from_state to_state \<and> code_fits to_state code \<and> (takes_slot from_state to_state \<longrightarrow> cap \<in> C))"
| "legal_op C (Counters user rid steps credits) = (0 \<le> steps \<and> 0 \<le> credits)"
| "legal_op C (Set_mode user rid from_mode to_mode) = True"

inductive step :: "int option set \<Rightarrow> run list \<Rightarrow> run list \<Rightarrow> bool" for C where
  issued: "legal_op C op \<Longrightarrow> step C rows (apply_op now op rows)"

inductive reachable :: "int option set \<Rightarrow> run list \<Rightarrow> bool" for C where
  empty: "reachable C []"
| more: "reachable C rows \<Longrightarrow> step C rows rows' \<Longrightarrow> reachable C rows'"

inductive_cases stepE: "step C rows rows'"

text \<open>Any number of writes.\<close>

abbreviation steps :: "int option set \<Rightarrow> run list \<Rightarrow> run list \<Rightarrow> bool" where
  "steps C \<equiv> (step C)\<^sup>*\<^sup>*"

lemma reachable_steps: "steps C rows rows' \<Longrightarrow> reachable C rows \<Longrightarrow> reachable C rows'"
  by (induction rule: rtranclp_induct) (auto intro: reachable.more)

lemma steps_fold: "list_all (legal_op C) ops \<Longrightarrow> steps C rows (fold (apply_op now) ops rows)"
proof (induction ops arbitrary: rows)
  case (Cons op ops)
  then have "step C rows (apply_op now op rows)" by (simp add: step.issued)
  moreover have "steps C (apply_op now op rows) (fold (apply_op now) ops (apply_op now op rows))"
    using Cons by simp
  ultimately show ?case by (simp add: converse_rtranclp_into_rtranclp)
qed simp

section \<open>What one write does to the rows\<close>

text \<open>
  Every write leaves the rows in place, changing each by one of the row functions or not at all,
  and may append one fresh row.
\<close>

inductive row_change :: "run \<Rightarrow> run \<Rightarrow> bool" where
  same: "row_change r r"
| moved: "can_transition (rn_state r) to \<Longrightarrow> code_fits to code \<Longrightarrow> row_change r (moved_run now to code r)"
| counted: "0 \<le> s \<Longrightarrow> 0 \<le> c \<Longrightarrow> rn_steps r + s \<le> MAX_STEPS \<Longrightarrow> row_change r (counted_run now s c r)"
| moded: "rn_ended r = None \<Longrightarrow> row_change r (r\<lparr>rn_mode := m, rn_updated := now\<rparr>)"

lemma snd_move:
  "snd (store_move user rid from to code cap now rows) = rows
   \<or> snd (store_move user rid from to code cap now rows)
      = map (\<lambda>r. if owned user rid r \<and> rn_state r = from then moved_run now to code r else r) rows"
  by (auto simp: store_move_def update_where_def split: option.splits)

lemma step_shape:
  assumes "step C rows rows'"
  shows "\<exists>f new. rows' = map f rows @ new \<and> (\<forall>r \<in> set rows. row_change r (f r))
    \<and> (new = [] \<or> (\<exists>now rid user device p m. new = [fresh_run now rid user device p m]
         \<and> rid \<notin> rn_id ` set rows))"
proof -
  from assms obtain op now where issued: "rows' = apply_op now op rows" "legal_op C op" by (rule stepE)
  show ?thesis
  proof (cases op)
    case (Insert rid user device p m cap)
    then consider "rows' = rows"
      | "rows' = rows @ [fresh_run now rid user device p m]" "rid \<notin> rn_id ` set rows"
      using issued by (auto simp: store_insert_def at_cap_def Let_def split: if_splits)
    then show ?thesis
    proof cases
      case 1
      then show ?thesis by (intro exI [of _ "\<lambda>r. r"]) (simp add: row_change.same)
    next
      case 2
      then have "rows' = map (\<lambda>r. r) rows @ [fresh_run now rid user device p m]" by simp
      then show ?thesis using 2(2) row_change.same by blast
    qed
  next
    case (Move user rid fr to code cap)
    then have "can_transition fr to" "code_fits to code" using issued(2) by auto
    then show ?thesis using issued(1) Move snd_move [of user rid fr to code cap now rows]
      by (elim disjE; intro exI [of _ "\<lambda>r. r"] exI [of _ "\<lambda>r. if owned user rid r \<and> rn_state r = fr then moved_run now to code r else r"])
         (auto intro: row_change.intros)
  next
    case (Counters user rid s c)
    then have legal: "0 \<le> s" "0 \<le> c" using issued(2) by auto
    show ?thesis
    proof (cases "\<exists>r \<in> set rows. owned user rid r \<and> MAX_STEPS < rn_steps r + s")
      case True
      then show ?thesis using issued(1) Counters
        by (intro exI [of _ "\<lambda>r. r"]) (simp add: store_counters_def row_change.same)
    next
      case False
      have "rows' = map (\<lambda>r. if owned user rid r then counted_run now s c r else r) rows"
        unfolding issued(1) Counters by (simp only: apply_op.simps store_counters_def False if_False update_where_def prod.case snd_conv)
      moreover have "\<forall>r \<in> set rows. row_change r (if owned user rid r then counted_run now s c r else r)"
        using False legal by (auto intro: row_change.intros simp: not_less)
      ultimately show ?thesis by (intro exI [of _ "\<lambda>r. if owned user rid r then counted_run now s c r else r"]) simp
    qed
  next
    case (Set_mode user rid fr to)
    then show ?thesis using issued(1)
      by (intro exI [of _ "\<lambda>r. if owned user rid r \<and> rn_mode r = fr \<and> rn_ended r = None
             then r\<lparr>rn_mode := to, rn_updated := now\<rparr> else r"])
         (auto simp: store_set_mode_def update_where_def intro: row_change.intros)
  qed
qed


section \<open>Invariants of single rows\<close>

text \<open>
  A property of rows that holds of a fresh run and that every change keeps holds of every row
  the service can ever reach.
\<close>

locale row_invariant =
  fixes P :: "run \<Rightarrow> bool"
  assumes fresh: "P (fresh_run now rid user device p m)"
    and kept: "P r \<Longrightarrow> row_change r r' \<Longrightarrow> P r'"
begin

lemma step_keeps:
  assumes "step C rows rows'" and "\<forall>r \<in> set rows. P r"
  shows "\<forall>r \<in> set rows'. P r"
proof -
  obtain f new where eq: "rows' = map f rows @ new" and f: "\<forall>r \<in> set rows. row_change r (f r)"
    and new: "new = [] \<or> (\<exists>now rid user device p m. new = [fresh_run now rid user device p m])"
    using step_shape [OF assms(1)] by blast
  have "\<forall>r \<in> set rows. P (f r)" using f kept assms(2) by blast
  moreover have "\<forall>r \<in> set new. P r" using new fresh by auto
  ultimately show ?thesis unfolding eq by auto
qed

lemma reachable_all: "reachable C rows \<Longrightarrow> \<forall>r \<in> set rows. P r"
  by (induction rule: reachable.induct) (use step_keeps in auto)

end

text \<open>\<open>ended_at\<close> is set exactly in the terminal states (the constraint \<open>runs_ended_iff_terminal\<close>).\<close>

definition ended_iff_terminal :: "run \<Rightarrow> bool" where
  "ended_iff_terminal r \<longleftrightarrow> (rn_ended r \<noteq> None \<longleftrightarrow> terminal r)"

text \<open>An error code is a protocol code and sits on a paused, failed, cancelled or expired run.\<close>

definition code_placed :: "run \<Rightarrow> bool" where
  "code_placed r \<longleftrightarrow> code_fits (rn_state r) (rn_code r)"

definition known_state :: "run \<Rightarrow> bool" where
  "known_state r \<longleftrightarrow> rn_state r \<in> set RUN_STATES"

definition counters_ok :: "run \<Rightarrow> bool" where
  "counters_ok r \<longleftrightarrow> 0 \<le> rn_steps r \<and> rn_steps r \<le> MAX_STEPS \<and> 0 \<le> rn_credits r"

lemma can_transition_cases:
  "can_transition a b \<Longrightarrow> a \<notin> set TERMINAL_STATES \<and> a \<in> set RUN_STATES \<and> b \<in> set RUN_STATES \<and> a \<noteq> b"
  by (auto simp: can_transition_def TRANSITIONS_def TERMINAL_STATES_def RUN_STATES_def split: if_splits)

interpretation ended: row_invariant ended_iff_terminal
proof
  show "ended_iff_terminal (fresh_run now rid user device p m)" for now rid user device p m
    by (simp add: ended_iff_terminal_def terminal_def fresh_run_def TERMINAL_STATES_def)
  show "ended_iff_terminal r'" if "ended_iff_terminal r" "row_change r r'" for r r'
    using that(2,1) by cases (auto simp: ended_iff_terminal_def terminal_def moved_run_def counted_run_def)
qed

interpretation coded: row_invariant code_placed
proof
  show "code_placed (fresh_run now rid user device p m)" for now rid user device p m
    by (simp add: code_placed_def code_fits_def fresh_run_def)
  show "code_placed r'" if "code_placed r" "row_change r r'" for r r'
    using that(2,1) by cases (auto simp: code_placed_def moved_run_def counted_run_def)
qed

interpretation state: row_invariant known_state
proof
  show "known_state (fresh_run now rid user device p m)" for now rid user device p m
    by (simp add: known_state_def fresh_run_def RUN_STATES_def)
  show "known_state r'" if "known_state r" "row_change r r'" for r r'
    using that(2,1) can_transition_cases by cases (auto simp: known_state_def moved_run_def counted_run_def)
qed

interpretation counter: row_invariant counters_ok
proof
  show "counters_ok (fresh_run now rid user device p m)" for now rid user device p m
    by (simp add: counters_ok_def fresh_run_def MAX_STEPS_def)
  show "counters_ok r'" if "counters_ok r" "row_change r r'" for r r'
    using that(2,1) by cases (auto simp: counters_ok_def moved_run_def counted_run_def)
qed

section \<open>The guard of the migration\<close>

text \<open>
  What the trigger \<open>runs_guard_update\<close> of \<open>backend/migrations/0014_m2c_runs.sql\<close> demands of an
  update: identity columns fixed, a terminal run frozen, counters that never go down.
\<close>

definition guard_update :: "run \<Rightarrow> run \<Rightarrow> bool" where
  "guard_update old new \<longleftrightarrow>
     rn_id new = rn_id old \<and> rn_user new = rn_user old \<and> rn_device new = rn_device old
     \<and> rn_profile new = rn_profile old \<and> rn_created new = rn_created old
     \<and> (terminal old \<longrightarrow> rn_state new = rn_state old \<and> rn_ended new = rn_ended old \<and> rn_code new = rn_code old)
     \<and> rn_steps old \<le> rn_steps new \<and> rn_credits old \<le> rn_credits new"

lemma row_change_guard: "row_change r r' \<Longrightarrow> guard_update r r'"
  by (erule row_change.cases)
     (auto simp: guard_update_def terminal_def moved_run_def counted_run_def dest: can_transition_cases)

lemma step_guard:
  assumes "step C rows rows'"
  shows "length rows \<le> length rows' \<and> (\<forall>i < length rows. guard_update (rows ! i) (rows' ! i))"
proof -
  obtain f new where "rows' = map f rows @ new" "\<forall>r \<in> set rows. row_change r (f r)"
    using step_shape [OF assms] by blast
  then show ?thesis by (simp add: nth_append row_change_guard)
qed

lemma guard_trans: "guard_update a b \<Longrightarrow> guard_update b c \<Longrightarrow> guard_update a c"
  by (auto simp: guard_update_def terminal_def)

lemma steps_guard:
  "steps C rows rows' \<Longrightarrow> length rows \<le> length rows' \<and> (\<forall>i < length rows. guard_update (rows ! i) (rows' ! i))"
proof (induction rule: rtranclp_induct)
  case base
  show ?case by (simp add: guard_update_def)
next
  case (step y z)
  then show ?case using step_guard [OF step(2)] guard_trans by (meson order_trans less_le_trans)
qed

section \<open>Unique ids and the cap per device\<close>

lemma row_change_fixed: "row_change r r' \<Longrightarrow> rn_id r' = rn_id r \<and> rn_user r' = rn_user r \<and> rn_device r' = rn_device r"
  using row_change_guard by (simp add: guard_update_def)

definition unique_ids :: "run list \<Rightarrow> bool" where
  "unique_ids rows \<longleftrightarrow> distinct (map rn_id rows)"

lemma step_unique:
  assumes "step C rows rows'" and "unique_ids rows"
  shows "unique_ids rows'"
proof -
  obtain f new where eq: "rows' = map f rows @ new" and f: "\<forall>r \<in> set rows. row_change r (f r)"
    and new: "new = [] \<or> (\<exists>now rid user device p m. new = [fresh_run now rid user device p m] \<and> rid \<notin> rn_id ` set rows)"
    using step_shape [OF assms(1)] by blast
  have ids: "map rn_id (map f rows) = map rn_id rows" using f row_change_fixed by simp
  show ?thesis using new assms(2) unfolding eq unique_ids_def map_append ids by (auto simp: fresh_run_def)
qed

definition in_slot :: "string \<Rightarrow> string \<Rightarrow> run \<Rightarrow> bool" where
  "in_slot user device r \<longleftrightarrow> rn_user r = user \<and> rn_device r = device \<and> rn_state r \<in> set SLOT_STATES"

lemma slots_used_in_slot: "slots_used user device rows = int (length (filter (in_slot user device) rows))"
  by (simp add: slots_used_def in_slot_def [abs_def])

lemma filter_length_mono:
  "(\<And>r. r \<in> set rows \<Longrightarrow> P r \<Longrightarrow> Q r) \<Longrightarrow> length (filter P rows) \<le> length (filter Q rows)"
  by (induction rows) auto

text \<open>A write that takes no slot never raises a count.\<close>

lemma slots_map_le:
  assumes "\<And>r. r \<in> set rows \<Longrightarrow> in_slot user device (f r) \<Longrightarrow> in_slot user device r"
  shows "slots_used user device (map f rows) \<le> slots_used user device rows"
  using filter_length_mono [of rows "in_slot user device \<circ> f" "in_slot user device"] assms
  by (simp add: slots_used_in_slot filter_map)

text \<open>A write that takes a slot raises the count of one device by one.\<close>

lemma slots_one_more:
  assumes "distinct (map rn_id rows)" and "\<And>r. rn_id r \<noteq> rid \<Longrightarrow> f r = r"
  shows "slots_used user device (map f rows) \<le> slots_used user device rows + 1"
  using assms
proof (induction rows)
  case (Cons r rows)
  show ?case
  proof (cases "rn_id r = rid")
    case True
    have "map f rows = rows"
    proof (rule map_idI)
      fix x assume "x \<in> set rows"
      then have "rn_id x \<noteq> rid" using Cons.prems(1) True by (auto simp: image_iff)
      then show "f x = x" by (rule Cons.prems(2))
    qed
    then show ?thesis by (simp add: slots_used_in_slot)
  next
    case False
    then show ?thesis using Cons by (simp add: slots_used_in_slot)
  qed
qed (simp add: slots_used_in_slot)

definition within_cap :: "int \<Rightarrow> run list \<Rightarrow> bool" where
  "within_cap n rows \<longleftrightarrow> (\<forall>user device. slots_used user device rows \<le> n)"

lemma slots_append: "slots_used user device (xs @ ys) = slots_used user device xs + slots_used user device ys"
  by (simp add: slots_used_def)

lemma within_cap_map:
  "within_cap n rows \<Longrightarrow> (\<And>r user device. r \<in> set rows \<Longrightarrow> in_slot user device (f r) \<Longrightarrow> in_slot user device r) \<Longrightarrow>
     within_cap n (map f rows)"
  unfolding within_cap_def using slots_map_le by (meson order_trans)

lemma move_cap_checked:
  assumes "cap = Some n" and "find (owned user rid) rows = Some x"
    and "snd (store_move user rid fr to code cap now rows) \<noteq> rows"
  shows "slots_used user (rn_device x) rows < n"
  using assms by (auto simp: store_move_def at_cap_def split: if_splits)

lemma find_owned: "find (owned user rid) rows = Some x \<Longrightarrow> x \<in> set rows \<and> owned user rid x"
  by (auto simp: find_Some_iff)

lemma move_within_cap:
  assumes cap: "within_cap n rows" and u: "unique_ids rows" and legal: "legal_op {Some n} (Move user rid fr to code c)"
  shows "within_cap n (apply_op now (Move user rid fr to code c) rows)"
proof -
  let ?f = "\<lambda>r. if owned user rid r \<and> rn_state r = fr then moved_run now to code r else r"
  consider "apply_op now (Move user rid fr to code c) rows = rows"
    | "apply_op now (Move user rid fr to code c) rows = map ?f rows" "\<not> takes_slot fr to"
    | "apply_op now (Move user rid fr to code c) rows = map ?f rows" "takes_slot fr to"
      "\<exists>x \<in> set rows. owned user rid x \<and> slots_used user (rn_device x) rows < n"
    | "apply_op now (Move user rid fr to code c) rows = map ?f rows" "takes_slot fr to"
      "\<forall>x \<in> set rows. \<not> owned user rid x"
  proof (cases "apply_op now (Move user rid fr to code c) rows = rows \<or> \<not> takes_slot fr to")
    case True
    then show ?thesis using that(1,2) snd_move [of user rid fr to code c now rows] by auto
  next
    case False
    then have eq: "apply_op now (Move user rid fr to code c) rows = map ?f rows" and c: "c = Some n"
      using snd_move [of user rid fr to code c now rows] legal by auto
    show ?thesis
    proof (cases "find (owned user rid) rows")
      case None
      then show ?thesis using that(4) eq False by (auto simp: find_None_iff)
    next
      case (Some x)
      then show ?thesis
        using that(3) eq False move_cap_checked [OF c Some, of fr to code now] find_owned [OF Some] by auto
    qed
  qed
  then show ?thesis
  proof cases
    case 2
    show ?thesis unfolding 2(1)
      by (rule within_cap_map [OF cap]) (use 2(2) in \<open>auto simp: in_slot_def moved_run_def takes_slot_def\<close>)
  next
    case 3
    then obtain x where x: "x \<in> set rows" "owned user rid x" "slots_used user (rn_device x) rows < n" by blast
    show ?thesis unfolding within_cap_def 3(1)
    proof (intro allI)
      fix v d
      show "slots_used v d (map ?f rows) \<le> n"
      proof (cases "v = user \<and> d = rn_device x")
        case True
        have "slots_used v d (map ?f rows) \<le> slots_used v d rows + 1"
          by (rule slots_one_more [where rid = rid]) (use u in \<open>auto simp: unique_ids_def owned_def\<close>)
        then show ?thesis using x(3) True by simp
      next
        case False
        have "in_slot v d r" if "r \<in> set rows" "in_slot v d (?f r)" for r
        proof (cases "owned user rid r \<and> rn_state r = fr")
          case True
          then have "r = x" using x(1,2) that(1) u
            by (auto simp: owned_def unique_ids_def distinct_map inj_on_def)
          then show ?thesis using that(2) True False x(2) by (auto simp: in_slot_def moved_run_def owned_def)
        qed (use that in auto)
        then have "slots_used v d (map ?f rows) \<le> slots_used v d rows" by (rule slots_map_le)
        then show ?thesis using cap unfolding within_cap_def by (meson order_trans)
      qed
    qed
  next
    case 4
    then have "map ?f rows = rows" by (auto intro!: map_idI)
    with 4(1) cap show ?thesis by simp
  qed (use cap in simp)
qed


lemma row_preserving_within_cap:
  assumes "within_cap n rows" and "\<And>r. rn_user (f r) = rn_user r \<and> rn_device (f r) = rn_device r \<and> rn_state (f r) = rn_state r"
  shows "within_cap n (map f rows)"
  using assms by (intro within_cap_map) (auto simp: in_slot_def)

lemma insert_within_cap:
  assumes "within_cap n rows"
  shows "within_cap n (apply_op now (Insert rid user device p m (Some n)) rows)"
proof -
  have one: "slots_used v d [fresh_run now rid user device p m] = (if v = user \<and> d = device then 1 else 0)" for v d
    by (auto simp: slots_used_def fresh_run_def SLOT_STATES_def)
  show ?thesis
    using assms by (auto simp: within_cap_def store_insert_def at_cap_def Let_def slots_append one)
qed

lemma step_within_cap:
  assumes "step {Some n} rows rows'" and "within_cap n rows" and "unique_ids rows"
  shows "within_cap n rows'"
proof -
  obtain op now where op: "rows' = apply_op now op rows" "legal_op {Some n} op" using assms(1) by (rule stepE)
  show ?thesis
  proof (cases op)
    case (Insert rid user device p m cap)
    then show ?thesis using op insert_within_cap [OF assms(2)] by simp
  next
    case (Move user rid fr to code c)
    then show ?thesis using op move_within_cap [OF assms(2,3)] by blast
  next
    case (Counters user rid s c)
    then show ?thesis using op assms(2)
      by (auto simp: store_counters_def update_where_def counted_run_def intro!: row_preserving_within_cap)
  next
    case (Set_mode user rid fr to)
    then show ?thesis using op assms(2)
      by (auto simp: store_set_mode_def update_where_def intro!: row_preserving_within_cap)
  qed
qed

lemma reachable_table:
  assumes "0 \<le> n" and "reachable {Some n} rows"
  shows "unique_ids rows \<and> within_cap n rows"
  using assms(2)
proof (induction rule: reachable.induct)
  case empty
  show ?case using assms(1) by (simp add: unique_ids_def within_cap_def slots_used_def)
next
  case (more rows rows')
  then show ?case using step_unique step_within_cap by blast
qed


section \<open>Calls are sequences of legal writes\<close>

text \<open>Every write of the other callers in the script is legal.\<close>

definition legal_world :: "int option set \<Rightarrow> world \<Rightarrow> bool" where
  "legal_world C w \<longleftrightarrow> list_all (\<lambda>t. list_all (legal_op C) (fst t)) (wd_script w)"

text \<open>
  One store call, seen from outside: the other callers' writes lead to the rows \<open>before\<close>, and the
  table afterwards is \<open>before\<close> or what the call's own transaction makes of it.
\<close>

lemma call_store_steps:
  assumes "call_store f w = (res, w')" and "legal_world C w"
  shows "\<exists>before. steps C (wd_rows w) before \<and> legal_world C w'
    \<and> (wd_rows w' = before \<or> wd_rows w' = snd (f (wd_now w + 1) before))
    \<and> ((\<exists>x. res = Inr x) \<longrightarrow> res = fst (f (wd_now w + 1) before) \<and> wd_rows w' = snd (f (wd_now w + 1) before))"
proof -
  obtain ops ft rest where t: "next_turn w = ((ops, ft), rest)" by (metis surj_pair)
  have legal: "list_all (legal_op C) ops" "list_all (\<lambda>t. list_all (legal_op C) (fst t)) rest"
    using t assms(2) by (auto simp: next_turn_def legal_world_def split: list.splits)
  let ?b = "fold (apply_op (wd_now w + 1)) ops (wd_rows w)"
  have "steps C (wd_rows w) ?b" using legal(1) by (rule steps_fold)
  then show ?thesis
    using assms(1) legal(2)
    by (intro exI [of _ ?b])
       (cases ft; auto simp: call_store_def t Let_def legal_world_def split: prod.splits)
qed

lemma get_unchanged: "snd (store_get user rid now rows) = rows"
  by (simp add: store_get_def)

lemma move_is_step:
  assumes "can_transition fr to" and "code_fits to code" and "cap \<in> C"
  shows "step C rows (snd (store_move user rid fr to code (if takes_slot fr to then cap else None) now rows))"
proof -
  have "legal_op C (Move user rid fr to code (if takes_slot fr to then cap else None))" using assms by simp
  from step.issued [OF this] show ?thesis by simp
qed

lemma attempts_steps:
  assumes "attempts k user rid target code allowed cap w = (res, w')"
    and "legal_world C w" and "code_fits target code" and "cap \<in> C"
  shows "steps C (wd_rows w) (wd_rows w') \<and> legal_world C w'"
  using assms
proof (induction k arbitrary: w)
  case (Suc k)
  obtain r1 w1 where g: "call_store (store_get user rid) w = (r1, w1)" by (metis surj_pair)
  have s1: "steps C (wd_rows w) (wd_rows w1)" "legal_world C w1"
    using call_store_steps [OF g Suc.prems(2)] get_unchanged by metis+
  show ?case
  proof (cases "\<exists>row. r1 = Inr (Some row) \<and> \<not> refuses allowed (rn_state row) target")
    case False
    then have "w' = w1" using Suc.prems(1) by (auto simp: g split: sum.splits option.splits if_splits)
    then show ?thesis using s1 by simp
  next
    case True
    then obtain row where row: "r1 = Inr (Some row)" "\<not> refuses allowed (rn_state row) target" by blast
    let ?cur = "rn_state row"
    let ?mv = "store_move user rid ?cur target code (if takes_slot ?cur target then cap else None)"
    have edge: "can_transition ?cur target" using row(2) by (simp add: refuses_def)
    obtain r2 w2 where m: "call_store ?mv w1 = (r2, w2)" by (metis surj_pair)
    obtain b where b: "steps C (wd_rows w1) b" "legal_world C w2"
      "wd_rows w2 = b \<or> wd_rows w2 = snd (?mv (wd_now w1 + 1) b)"
      using call_store_steps [OF m s1(2)] by blast
    have "steps C b (wd_rows w2)"
      using b(3) move_is_step [OF edge Suc.prems(3,4)] by auto
    then have s2: "steps C (wd_rows w) (wd_rows w2)" using s1(1) b(1) by (meson rtranclp_trans)
    show ?thesis
    proof (cases "r2 = Inr None")
      case True
      then have "attempts k user rid target code allowed cap w2 = (res, w')"
        using Suc.prems(1) by (simp add: g row Let_def m)
      from Suc.IH [OF this b(2) Suc.prems(3,4)] s2 show ?thesis by (meson rtranclp_trans)
    next
      case False
      then have "w' = w2" using Suc.prems(1) by (auto simp: g row Let_def m split: sum.splits option.splits)
      then show ?thesis using s2 b(2) by simp
    qed
  qed
qed simp

text \<open>What a successful transition has done: one compare-and-set on the row it answers.\<close>

lemma store_move_result:
  assumes "fst (store_move user rid fr to code cap now rows) = Inr (Some r)"
  shows "\<exists>old \<in> set rows. owned user rid old \<and> rn_state old = fr \<and> r = moved_run now to code old
    \<and> r \<in> set (snd (store_move user rid fr to code cap now rows))"
proof -
  let ?c = "\<lambda>r. owned user rid r \<and> rn_state r = fr"
  have "map_option (moved_run now to code) (find ?c rows) = Some r"
    and snd: "snd (store_move user rid fr to code cap now rows) = map (\<lambda>r. if ?c r then moved_run now to code r else r) rows"
    using assms by (auto simp: store_move_def update_where_def split: option.splits if_splits)
  then obtain old where "find ?c rows = Some old" "r = moved_run now to code old" by auto
  then have "old \<in> set rows" "?c old" "r = moved_run now to code old" by (auto simp: find_Some_iff)
  then show ?thesis unfolding snd by (auto intro!: bexI [of _ old] image_eqI [of _ _ old])
qed

lemma store_move_slot:
  assumes "fst (store_move user rid fr to code cap now rows) = Inr (Some r)"
  shows "\<exists>row. find (owned user rid) rows = Some row \<and> \<not> at_cap cap user (rn_device row) rows"
proof -
  obtain old where "old \<in> set rows" "owned user rid old" using store_move_result [OF assms] by blast
  then obtain row where row: "find (owned user rid) rows = Some row"
    by (cases "find (owned user rid) rows") (auto simp: find_None_iff)
  have "\<not> at_cap cap user (rn_device row) rows"
    using assms row by (cases cap) (auto simp: store_move_def at_cap_def split: if_splits)
  with row show ?thesis by blast
qed

definition moved_by ::
    "int option \<Rightarrow> string \<Rightarrow> string \<Rightarrow> string \<Rightarrow> string option \<Rightarrow> string list option \<Rightarrow> run list \<Rightarrow> run \<Rightarrow> run list \<Rightarrow> bool" where
  "moved_by cap user rid target code allowed before r after \<longleftrightarrow>
     (\<exists>old \<in> set before. \<exists>now. owned user rid old \<and> \<not> refuses allowed (rn_state old) target
        \<and> r = moved_run now target code old
        \<and> after = snd (store_move user rid (rn_state old) target code
             (if takes_slot (rn_state old) target then cap else None) now before)
        \<and> r \<in> set after
        \<and> (takes_slot (rn_state old) target
             \<longrightarrow> (\<exists>row. find (owned user rid) before = Some row \<and> \<not> at_cap cap user (rn_device row) before)))"

lemma attempts_success:
  assumes "attempts k user rid target code allowed cap w = (Inr r, w')"
    and "legal_world C w" and "code_fits target code" and "cap \<in> C"
  shows "\<exists>before. steps C (wd_rows w) before \<and> moved_by cap user rid target code allowed before r (wd_rows w')"
  using assms
proof (induction k arbitrary: w)
  case (Suc k)
  obtain r1 w1 where g: "call_store (store_get user rid) w = (r1, w1)" by (metis surj_pair)
  have s1: "steps C (wd_rows w) (wd_rows w1)" "legal_world C w1"
    using call_store_steps [OF g Suc.prems(2)] get_unchanged by metis+
  obtain row where row: "r1 = Inr (Some row)" "\<not> refuses allowed (rn_state row) target"
    using Suc.prems(1) by (auto simp: g Let_def split: sum.splits option.splits if_splits)
  let ?cur = "rn_state row"
  let ?mv = "store_move user rid ?cur target code (if takes_slot ?cur target then cap else None)"
  obtain r2 w2 where m: "call_store ?mv w1 = (r2, w2)" by (metis surj_pair)
  obtain b where b: "steps C (wd_rows w1) b" "legal_world C w2"
    "wd_rows w2 = b \<or> wd_rows w2 = snd (?mv (wd_now w1 + 1) b)"
    "(\<exists>x. r2 = Inr x) \<Longrightarrow> r2 = fst (?mv (wd_now w1 + 1) b) \<and> wd_rows w2 = snd (?mv (wd_now w1 + 1) b)"
    using call_store_steps [OF m s1(2)] by blast
  show ?case
  proof (cases "r2 = Inr None")
    case True
    then have rec: "attempts k user rid target code allowed cap w2 = (Inr r, w')"
      using Suc.prems(1) by (simp add: g row Let_def m)
    have "step C b (snd (?mv (wd_now w1 + 1) b))"
      using row(2) Suc.prems(3,4) by (intro move_is_step) (simp_all add: refuses_def)
    then have "steps C b (wd_rows w2)" using b(3) by auto
    then have "steps C (wd_rows w) (wd_rows w2)" using s1(1) b(1) by (meson rtranclp_trans)
    then show ?thesis using Suc.IH [OF rec b(2) Suc.prems(3,4)] by (meson rtranclp_trans)
  next
    case False
    then have r2: "r2 = Inr (Some r)" "w' = w2"
      using Suc.prems(1) by (auto simp: g row Let_def m split: sum.splits option.splits)
    have f: "fst (?mv (wd_now w1 + 1) b) = Inr (Some r)" "wd_rows w2 = snd (?mv (wd_now w1 + 1) b)"
      using b(4) r2(1) by auto
    obtain old where old: "old \<in> set b" "owned user rid old" "rn_state old = ?cur" "r = moved_run (wd_now w1 + 1) target code old"
      "r \<in> set (snd (?mv (wd_now w1 + 1) b))"
      using store_move_result [OF f(1)] by blast
    have slot: "takes_slot ?cur target \<longrightarrow> (\<exists>row. find (owned user rid) b = Some row \<and> \<not> at_cap cap user (rn_device row) b)"
      using store_move_slot [OF f(1)] by (cases "takes_slot ?cur target") simp_all
    have "steps C (wd_rows w) b" using s1(1) b(1) by (meson rtranclp_trans)
    moreover have "moved_by cap user rid target code allowed b r (wd_rows w')"
      unfolding moved_by_def using old f(2) row(2) r2(2) slot by (intro bexI [of _ old] exI [of _ "wd_now w1 + 1"]) simp_all
    ultimately show ?thesis by blast
  qed
qed simp

section \<open>Quiet calls\<close>

text \<open>With no other caller and no fault a store call is the transaction itself.\<close>

lemma call_store_quiet:
  "wd_script w = [] \<Longrightarrow> call_store f w =
     (fst (f (wd_now w + 1) (wd_rows w)),
      \<lparr>wd_now = wd_now w + 1, wd_rows = snd (f (wd_now w + 1) (wd_rows w)), wd_script = []\<rparr>)"
  by (simp add: call_store_def next_turn_def Let_def split: prod.split)

text \<open>What one attempt decides about the row it has read.\<close>

definition judged ::
    "string \<Rightarrow> string \<Rightarrow> string \<Rightarrow> string option \<Rightarrow> string list option \<Rightarrow> int option \<Rightarrow> nat \<Rightarrow> run list \<Rightarrow> run_error + run" where
  "judged user rid target code allowed cap now rows =
    (case find (owned user rid) rows of
       None \<Rightarrow> Inl RunNotFound
     | Some row \<Rightarrow>
         if refuses allowed (rn_state row) target then Inl (IllegalTransition (rn_state row) target)
         else if takes_slot (rn_state row) target \<and> at_cap cap user (rn_device row) rows
         then Inl (ParallelRunLimit (the cap))
         else Inr (moved_run now target code row))"

lemma unique_owned:
  "unique_ids rows \<Longrightarrow> find (owned user rid) rows = Some row \<Longrightarrow> r \<in> set rows \<Longrightarrow> owned user rid r \<Longrightarrow> r = row"
  using find_owned by (fastforce simp: unique_ids_def owned_def distinct_map inj_on_def)

lemma find_same_state:
  assumes "unique_ids rows" and "find (owned user rid) rows = Some row"
  shows "find (\<lambda>r. owned user rid r \<and> rn_state r = rn_state row) rows = Some row"
proof (cases "find (\<lambda>r. owned user rid r \<and> rn_state r = rn_state row) rows")
  case None
  then show ?thesis using find_owned [OF assms(2)] by (auto simp: find_None_iff)
next
  case (Some r)
  then have "r \<in> set rows" "owned user rid r" by (auto simp: find_Some_iff)
  then show ?thesis using Some unique_owned [OF assms] by simp
qed

lemma move_found:
  assumes "unique_ids rows" and "find (owned user rid) rows = Some row"
  shows "fst (store_move user rid (rn_state row) target code c now rows)
    = (if at_cap c user (rn_device row) rows then Inl (ParallelRunLimit (the c))
       else Inr (Some (moved_run now target code row)))"
  using find_same_state [OF assms] assms(2)
  by (cases c) (simp_all add: store_move_def at_cap_def update_where_def)

lemma attempts_quiet:
  assumes "wd_script w = []" and u: "unique_ids (wd_rows w)"
  shows "fst (attempts (Suc k) user rid target code allowed cap w)
       = judged user rid target code allowed cap (wd_now w + 2) (wd_rows w)"
proof (cases "find (owned user rid) (wd_rows w)")
  case None
  then show ?thesis using assms(1) by (simp add: call_store_quiet store_get_def judged_def)
next
  case (Some row)
  let ?cap = "if takes_slot (rn_state row) target then cap else None"
  have g: "call_store (store_get user rid) w
      = (Inr (Some row), \<lparr>wd_now = wd_now w + 1, wd_rows = wd_rows w, wd_script = []\<rparr>)"
    using assms(1) Some by (simp add: call_store_quiet store_get_def)
  note m = move_found [OF u Some]
  show ?thesis
  proof (cases "refuses allowed (rn_state row) target")
    case True
    then show ?thesis by (simp add: g judged_def Some Let_def)
  next
    case False
    then show ?thesis
      by (auto simp: g judged_def Some Let_def call_store_quiet m at_cap_def split: option.splits)
  qed
qed

section \<open>The order of a listing\<close>

lemma char_less_eq: "(of_char c :: nat) = of_char d \<longleftrightarrow> c = d"
  by simp

lemma string_less_eq_total: "string_less_eq s t \<or> string_less_eq t s"
proof (induction s t rule: string_less_eq.induct)
  case (3 c cs d ds)
  then show ?case by (cases "(of_char c :: nat) = of_char d") auto
qed auto

lemma string_less_eq_trans: "string_less_eq s t \<Longrightarrow> string_less_eq t u \<Longrightarrow> string_less_eq s u"
proof (induction s t arbitrary: u rule: string_less_eq.induct)
  case (3 c cs d ds)
  then show ?case by (cases u) (auto split: if_splits)
qed (auto elim: string_less_eq.elims)

lemma run_before_total: "run_before a b \<or> run_before b a"
  using string_less_eq_total [of "rn_id a" "rn_id b"] by (auto simp: run_before_def)

lemma run_before_trans: "run_before a b \<Longrightarrow> run_before b c \<Longrightarrow> run_before a c"
  using string_less_eq_trans [of "rn_id a" "rn_id b" "rn_id c"] by (auto simp: run_before_def)

lemma set_insert_run [simp]: "set (insert_run r xs) = insert r (set xs)"
  by (induction xs) auto

lemma sorted_insert_run: "sorted_wrt run_before xs \<Longrightarrow> sorted_wrt run_before (insert_run r xs)"
proof (induction xs)
  case (Cons x xs)
  show ?case
  proof (cases "run_before r x")
    case True
    then have "\<forall>y \<in> set (x # xs). run_before r y" using Cons.prems run_before_trans by auto
    then show ?thesis using Cons.prems True by simp
  next
    case False
    then have "run_before x r" using run_before_total by blast
    then show ?thesis using Cons False by simp
  qed
qed simp

lemma sorted_runs: "sorted_wrt run_before (foldr insert_run xs [])"
  by (induction xs) (simp_all add: sorted_insert_run)

lemma mset_insert_run [simp]: "mset (insert_run r xs) = add_mset r (mset xs)"
  by (induction xs) auto

lemma mset_runs: "mset (foldr insert_run xs []) = mset xs"
  by (induction xs) simp_all

section \<open>Properties\<close>

text \<open>C12: the invariants of the runs table. Whatever writes the service issues, in whatever order,
  starting from an empty table and with the device cap \<open>n\<close> on every create and resume: run ids stay
  unique, no device of an account ever holds more than \<open>n\<close> slots, \<open>ended_at\<close> is set exactly on
  terminal runs, error codes are protocol codes on the states that may carry one, states stay in the
  vocabulary and counters stay non-negative.\<close>

theorem runs_table_invariants:
  assumes "0 \<le> n" and "reachable {Some n} rows"
  shows "unique_ids rows \<and> within_cap n rows
    \<and> (\<forall>r \<in> set rows. ended_iff_terminal r \<and> code_placed r \<and> known_state r \<and> counters_ok r)"
  using reachable_table [OF assms] ended.reachable_all [OF assms(2)] coded.reachable_all [OF assms(2)]
    state.reachable_all [OF assms(2)] counter.reachable_all [OF assms(2)] by blast

definition demo_table :: "run list" where
  "demo_table = apply_op 2 (Move ''u'' ''run-0001'' ''created'' ''cancelled'' (Some ''internal'') None)
     (apply_op 1 (Insert ''run-0001'' ''u'' ''d'' ''coder'' ''plan'' (Some 1)) [])"

definition demo_open :: "run list" where
  "demo_open = apply_op 1 (Insert ''run-0001'' ''u'' ''d'' ''coder'' ''plan'' (Some 1)) []"

lemma demo_reachable: "reachable {Some 1} demo_table"
proof -
  have "legal_op {Some 1} (Insert ''run-0001'' ''u'' ''d'' ''coder'' ''plan'' (Some 1))"
    and "legal_op {Some 1} (Move ''u'' ''run-0001'' ''created'' ''cancelled'' (Some ''internal'') None)"
    by code_simp+
  then show ?thesis unfolding demo_table_def
    using reachable.more [OF reachable.more [OF reachable.empty step.issued] step.issued] by blast
qed

theorem runs_table_invariants_witness:
  "length demo_table = 1 \<and> ended_iff_terminal (hd demo_table) \<and> code_placed (hd demo_table)"
proof -
  have l: "length demo_table = 1" by code_simp
  then have "hd demo_table \<in> set demo_table" by (metis hd_in_set list.size(3) zero_neq_one)
  then show ?thesis using runs_table_invariants [OF _ demo_reachable] l by simp
qed

text \<open>the service never trips the database's guard. Along any sequence of the service's writes a
  row keeps its identity columns, a terminal run keeps its state, its end stamp and its error code,
  and the counters never go down: exactly what the trigger \<open>runs_guard_update\<close> demands.\<close>

theorem runs_obey_the_guard:
  assumes "steps C rows rows'" and "i < length rows"
  shows "i < length rows' \<and> guard_update (rows ! i) (rows' ! i)"
  using steps_guard [OF assms(1)] assms(2) by simp

theorem runs_obey_the_guard_witness:
  "guard_update (demo_table ! 0) (apply_op 9 (Counters ''u'' ''run-0001'' 3 4) demo_table ! 0)"
proof -
  have "legal_op {Some 1} (Counters ''u'' ''run-0001'' 3 4)" by simp
  then have "steps {Some 1} demo_table (apply_op 9 (Counters ''u'' ''run-0001'' 3 4) demo_table)"
    by (intro r_into_rtranclp step.issued)
  moreover have "0 < length demo_table" by code_simp
  ultimately show ?thesis using runs_obey_the_guard by blast
qed

text \<open>C11: a transition is one serial step. Let all callers pass parallel caps of a set \<open>C\<close> (all of them
  the cap \<open>n\<close>, none of them a cap, or, for \<open>UNIV\<close>, each what it likes). Whatever the other callers write
  between its reads and writes and whichever call fails, \<open>transition\<close> changes the table only by legal
  writes; and when it answers a run, that run is the result of a single compare-and-set, applied to the
  table as it stood then, on a row of this account whose state had an edge to the target and was among
  the expected ones. When the caller passed a cap and the move takes a slot, the account's device had a
  slot free in that table.\<close>

theorem transition_is_serial:
  assumes "transition user_id run_id to_state error_code expected max_parallel w = (res, w')"
    and "legal_world C w" and "\<And>cap. check_cap max_parallel = Inr cap \<Longrightarrow> cap \<in> C"
  shows "steps C (wd_rows w) (wd_rows w') \<and>
    (\<forall>r. res = Inr r \<longrightarrow> (\<exists>user rid target code cap allowed before.
        check_user_id user_id = Inr user \<and> check_run_id run_id = Inr rid \<and> check_state to_state = Inr target
        \<and> check_error_code error_code target = Inr code \<and> check_cap max_parallel = Inr cap
        \<and> check_expected expected = Inr allowed
        \<and> steps C (wd_rows w) before \<and> moved_by cap user rid target code allowed before r (wd_rows w')))"
proof -
  have fits: "code_fits target code" if "check_error_code error_code target = Inr code" for target code
    using that by (auto simp: check_error_code_def code_fits_def split: json.splits if_splits)
  show ?thesis
  proof (cases "\<exists>user rid target code cap allowed. check_user_id user_id = Inr user \<and> check_run_id run_id = Inr rid
      \<and> check_state to_state = Inr target \<and> check_error_code error_code target = Inr code
      \<and> check_cap max_parallel = Inr cap \<and> check_expected expected = Inr allowed")
    case True
    then obtain user rid target code cap allowed where c: "check_user_id user_id = Inr user" "check_run_id run_id = Inr rid"
      "check_state to_state = Inr target" "check_error_code error_code target = Inr code"
      "check_cap max_parallel = Inr cap" "check_expected expected = Inr allowed" by blast
    then have a: "attempts MAX_TRANSITION_ATTEMPTS user rid target code allowed cap w = (res, w')"
      using assms(1) by (simp add: transition_def checked_def)
    note C = assms(3) [OF c(5)]
    show ?thesis
      using attempts_steps [OF a assms(2) fits [OF c(4)] C] attempts_success [OF _ assms(2) fits [OF c(4)] C] a c by blast
  next
    case False
    then have "\<exists>e. transition user_id run_id to_state error_code expected max_parallel w = (Inl e, w)"
      by (auto simp: transition_def checked_def split: sum.split)
    then show ?thesis using assms(1) by auto
  qed
qed

definition demo_world :: world where
  "demo_world = \<lparr>wd_now = 5, wd_rows = demo_open, wd_script = [([Counters ''u'' ''run-0001'' 1 1], No_fault)]\<rparr>"

theorem transition_is_serial_witness:
  "\<exists>before after. steps UNIV demo_open before \<and> before \<noteq> [] \<and> steps {Some 1} demo_open after \<and> after \<noteq> []"
proof -
  let ?w = demo_world
  have w: "wd_rows ?w = demo_open" by (simp add: demo_world_def)
  let ?t = "transition (JStr ''u'') (JStr ''run-0001'') (JStr ''running'') JNull None JNull ?w"
  have "fst ?t = Inr (hd (wd_rows (snd ?t)))" and l: "legal_world UNIV ?w" by code_simp+
  then have "?t = (Inr (hd (wd_rows (snd ?t))), snd ?t)" by (metis prod.collapse)
  from transition_is_serial [OF this l] obtain before user rid target code allowed where
    "steps UNIV (wd_rows ?w) before" "moved_by None user rid target code allowed before (hd (wd_rows (snd ?t))) (wd_rows (snd ?t))"
    by (auto simp: check_cap_def)
  then have "steps UNIV demo_open before \<and> before \<noteq> []" unfolding w by (auto simp: moved_by_def)
  let ?s = "transition (JStr ''u'') (JStr ''run-0001'') (JStr ''running'') JNull None (JInt 1) ?w"
  have "fst ?s = Inr (hd (wd_rows (snd ?s)))" and m: "legal_world {Some 1} ?w" by code_simp+
  then have "?s = (Inr (hd (wd_rows (snd ?s))), snd ?s)" by (metis prod.collapse)
  from transition_is_serial [OF this m] obtain b user rid target code allowed where
    "steps {Some 1} (wd_rows ?w) b" "moved_by (Some 1) user rid target code allowed b (hd (wd_rows (snd ?s))) (wd_rows (snd ?s))"
    by (auto simp: check_cap_def)
  then have "steps {Some 1} demo_open b \<and> b \<noteq> []" unfolding w by (auto simp: moved_by_def)
  with \<open>steps UNIV demo_open before \<and> before \<noteq> []\<close> show ?thesis by blast
qed

text \<open>What \<open>transition\<close> answers when nobody interferes. The first attempt settles it: no such run
  of the account, a move that is not an edge or not expected, a full device when the move takes a
  slot, or the moved run. In particular \<open>TransitionConflict\<close> needs interference.\<close>

theorem transition_undisturbed:
  assumes "wd_script w = []" and "unique_ids (wd_rows w)"
    and "check_user_id user_id = Inr user" and "check_run_id run_id = Inr rid"
    and "check_state to_state = Inr target" and "check_error_code error_code target = Inr code"
    and "check_cap max_parallel = Inr cap" and "check_expected expected = Inr allowed"
  shows "fst (transition user_id run_id to_state error_code expected max_parallel w)
       = judged user rid target code allowed cap (wd_now w + 2) (wd_rows w)"
proof -
  have five: "MAX_TRANSITION_ATTEMPTS = Suc 4" by (simp add: MAX_TRANSITION_ATTEMPTS_def)
  show ?thesis
    using attempts_quiet [OF assms(1,2), of 4] assms(3-8)
    by (simp add: transition_def checked_def five del: attempts.simps)
qed

theorem transition_undisturbed_witness:
  "fst (transition (JStr ''u'') (JStr ''run-0001'') (JStr ''completed'') JNull None JNull
      \<lparr>wd_now = 5, wd_rows = demo_table, wd_script = []\<rparr>) = Inl (IllegalTransition ''cancelled'' ''completed'')"
proof -
  let ?w = "\<lparr>wd_now = 5, wd_rows = demo_table, wd_script = []\<rparr>"
  have "wd_script ?w = []" and "unique_ids (wd_rows ?w)" and "check_user_id (JStr ''u'') = Inr ''u''"
    and "check_run_id (JStr ''run-0001'') = Inr ''run-0001''" and "check_state (JStr ''completed'') = Inr ''completed''"
    and "check_error_code JNull ''completed'' = Inr None" and "check_cap JNull = Inr None"
    and "check_expected None = Inr None"
    by code_simp+
  from transition_undisturbed [OF this]
  have "fst (transition (JStr ''u'') (JStr ''run-0001'') (JStr ''completed'') JNull None JNull ?w)
      = judged ''u'' ''run-0001'' ''completed'' None None None (wd_now ?w + 2) (wd_rows ?w)" .
  also have "\<dots> = Inl (IllegalTransition ''cancelled'' ''completed'')" by code_simp
  finally show ?thesis .
qed

text \<open>Of two callers that read the same state exactly one moves the run. After a compare-and-set
  from \<open>fr\<close> along an edge has succeeded, a second one from the same state answers no row and leaves
  the table alone.\<close>

theorem second_mover_loses:
  assumes "can_transition fr to" and "store_move user rid fr to code cap now rows = (Inr (Some r), rows')"
  shows "snd (store_move user rid fr to2 code2 cap2 now2 rows') = rows'
    \<and> fst (store_move user rid fr to2 code2 cap2 now2 rows') \<noteq> Inr (Some r2)"
proof -
  let ?c = "\<lambda>r. owned user rid r \<and> rn_state r = fr"
  have eq: "rows' = map (\<lambda>r. if ?c r then moved_run now to code r else r) rows"
    using assms(2) by (auto simp: store_move_def update_where_def split: option.splits if_splits)
  have "fr \<noteq> to" using can_transition_cases [OF assms(1)] by simp
  then have none: "\<forall>r \<in> set rows'. \<not> ?c r" unfolding eq by (auto simp: moved_run_def)
  have "find ?c rows' = None" using none by (simp add: find_None_iff)
  moreover have "map (\<lambda>r. if ?c r then moved_run now2 to2 code2 r else r) rows' = rows'"
    using none by (intro map_idI) auto
  ultimately show ?thesis by (auto simp: store_move_def update_where_def split: option.splits)
qed

theorem second_mover_loses_witness:
  "fst (store_move ''u'' ''run-0001'' ''created'' ''running'' None None 3
      (snd (store_move ''u'' ''run-0001'' ''created'' ''cancelled'' None None 2 demo_open))) \<noteq> Inr (Some (hd demo_open))"
proof -
  let ?m = "store_move ''u'' ''run-0001'' ''created'' ''cancelled'' None None 2 demo_open"
  have "can_transition ''created'' ''cancelled''" and "fst ?m = Inr (Some (hd (snd ?m)))" by code_simp+
  then have "?m = (Inr (Some (hd (snd ?m))), snd ?m)" by (metis prod.collapse)
  from second_mover_loses [OF \<open>can_transition ''created'' ''cancelled''\<close> this] show ?thesis by blast
qed

text \<open>A run that was created is found. After a successful \<open>create_run\<close> the very next undisturbed
  \<open>get_run\<close> of the same account answers the same run, in state created, open and with zero counters;
  another account is told there is no such run.\<close>

theorem create_then_get:
  assumes "create_run user_id device_id run_id profile mode max_parallel w = (Inr r, w')"
    and "wd_script w' = []" and "unique_ids (wd_rows w')"
  shows "fst (get_run user_id run_id w') = Inr r \<and> rn_state r = ''created'' \<and> \<not> terminal r
    \<and> rn_ended r = None \<and> rn_steps r = 0 \<and> rn_credits r = 0
    \<and> (\<forall>other. check_user_id other \<noteq> check_user_id user_id \<longrightarrow> (\<exists>e. fst (get_run other run_id w') = Inl e))"
proof -
  from assms(1) obtain user device rid p m cap where
    c: "check_user_id user_id = Inr user" "check_run_id run_id = Inr rid"
    and k: "row_or RunIdCollision (call_store (store_insert rid user device p m cap) w) = (Inr r, w')"
    by (auto simp: create_run_def checked_def split: sum.splits)
  from k obtain rows now where "store_insert rid user device p m cap now rows = (Inr (Some r), wd_rows w')"
    by (auto simp: row_or_def call_store_def Let_def split: sum.splits option.splits prod.splits fault.splits)
  then have r: "r = fresh_run now rid user device p m" "r \<in> set (wd_rows w')"
    by (auto simp: store_insert_def Let_def split: if_splits) (metis in_set_conv_decomp)
  have own: "owned user rid r" using r(1) by (simp add: owned_def fresh_run_def)
  have "find (owned user rid) (wd_rows w') \<noteq> None"
    using r(2) own by (auto simp: find_None_iff)
  then obtain row where row: "find (owned user rid) (wd_rows w') = Some row" by blast
  have "r = row" by (rule unique_owned [OF assms(3) row r(2) own])
  then have g: "fst (get_run user_id run_id w') = Inr r"
    using row assms(2) c by (simp add: get_run_def checked_def call_store_quiet store_get_def row_or_def)
  have "\<exists>e. fst (get_run other run_id w') = Inl e" if "check_user_id other \<noteq> check_user_id user_id" for other
  proof (cases "check_user_id other")
    case (Inr u)
    then have "u \<noteq> user" using that c(1) by auto
    then have "\<not> owned u rid x" if "x \<in> set (wd_rows w')" for x
      using that r own assms(3) by (auto simp: owned_def unique_ids_def distinct_map inj_on_def)
    then have "find (owned u rid) (wd_rows w') = None" by (simp add: find_None_iff)
    then show ?thesis
      using Inr assms(2) c by (simp add: get_run_def checked_def call_store_quiet store_get_def row_or_def)
  qed (simp add: get_run_def checked_def)
  then show ?thesis using g r(1) by (simp add: fresh_run_def terminal_def TERMINAL_STATES_def)
qed

theorem create_then_get_witness:
  "\<exists>r w'. create_run (JStr ''u'') (JStr ''00000000-0000-0000-0000-000000000001'') (JStr ''run-0001'') (JStr ''coder'')
      (JStr ''plan'') (JInt 1) \<lparr>wd_now = 0, wd_rows = [], wd_script = []\<rparr> = (Inr r, w')
    \<and> fst (get_run (JStr ''u'') (JStr ''run-0001'') w') = Inr r"
proof -
  let ?c = "create_run (JStr ''u'') (JStr ''00000000-0000-0000-0000-000000000001'') (JStr ''run-0001'') (JStr ''coder'')
      (JStr ''plan'') (JInt 1) \<lparr>wd_now = 0, wd_rows = [], wd_script = []\<rparr>"
  have "fst ?c = Inr (hd (wd_rows (snd ?c)))" and 2: "wd_script (snd ?c) = []" and 3: "unique_ids (wd_rows (snd ?c))"
    by code_simp+
  then have 1: "?c = (Inr (hd (wd_rows (snd ?c))), snd ?c)" by (metis prod.collapse)
  show ?thesis using create_then_get [OF 1 2 3] 1 by blast
qed

text \<open>The open runs of a device, oldest first. An undisturbed \<open>list_open_runs\<close> answers exactly the
  account's runs on that device that have not ended, each as often as it is stored, ordered by
  creation time and then by id.\<close>

theorem list_open_is_sorted:
  assumes "wd_script w = []" and "check_user_id user_id = Inr user" and "check_device_id device_id = Inr device"
  shows "\<exists>rs. fst (list_open_runs user_id device_id w) = Inr rs \<and> sorted_wrt run_before rs
    \<and> mset rs = mset (filter (\<lambda>r. rn_user r = user \<and> rn_device r = device \<and> rn_ended r = None) (wd_rows w))"
  using assms sorted_runs mset_runs
  by (auto simp: list_open_runs_def checked_def call_store_quiet store_list_open_def)

theorem list_open_is_sorted_witness:
  "\<exists>rs. fst (list_open_runs (JStr ''u'') (JStr ''00000000-0000-0000-0000-000000000001'') \<lparr>wd_now = 0, wd_rows = demo_table, wd_script = []\<rparr>)
    = Inr rs \<and> sorted_wrt run_before rs"
proof -
  let ?w = "\<lparr>wd_now = 0, wd_rows = demo_table, wd_script = []\<rparr>"
  have "wd_script ?w = []" and "check_user_id (JStr ''u'') = Inr ''u''"
    and "check_device_id (JStr ''00000000-0000-0000-0000-000000000001'') = Inr ''00000000-0000-0000-0000-000000000001''"
    by code_simp+
  from list_open_is_sorted [OF this] show ?thesis by blast
qed

end
