(* ===== verification/Json.thy ===== *)
theory Json
  imports Prelude
begin

text \<open>
  JSON objects as Python dictionaries: association lists in insertion order, read with \<open>get\<close>,
  changed with item assignment; truth values; and the length of a value's compact JSON text.
\<close>

section \<open>Dictionaries\<close>

fun dict_set :: "'k \<Rightarrow> 'v \<Rightarrow> ('k \<times> 'v) list \<Rightarrow> ('k \<times> 'v) list" where
  "dict_set k v [] = [(k, v)]"
| "dict_set k v ((k', v') # d) = (if k = k' then (k, v) # d else (k', v') # dict_set k v d)"

lemma map_of_dict_set [simp]: "map_of (dict_set k v d) = (map_of d)(k \<mapsto> v)"
  by (induction d) (auto simp: fun_upd_def)

lemma dom_map_of_image: "dom (map_of d) = fst ` set d"
  by (simp add: dom_map_of_conv_image_fst)

lemma fst_image_dict_set [simp]: "fst ` set (dict_set k v d) = insert k (fst ` set d)"
  unfolding dom_map_of_image [symmetric] by simp

lemma distinct_dict_set: "distinct (map fst d) \<Longrightarrow> distinct (map fst (dict_set k v d))"
  by (induction k v d rule: dict_set.induct) simp_all

text \<open>\<open>data.get(key)\<close>: a missing key is \<open>None\<close>.\<close>

definition field :: "(string \<times> json) list \<Rightarrow> string \<Rightarrow> json" where
  "field d k = (case map_of d k of Some v \<Rightarrow> v | None \<Rightarrow> JNull)"

definition as_dict :: "json \<Rightarrow> (string \<times> json) list" where
  "as_dict v = (case v of JObj d \<Rightarrow> d | _ \<Rightarrow> [])"

text \<open>A dictionary lookup with an arbitrary value as key: lists and objects are not hashable.\<close>

definition hashable :: "json \<Rightarrow> bool" where
  "hashable v = (case v of JList _ \<Rightarrow> False | JObj _ \<Rightarrow> False | _ \<Rightarrow> True)"

lemma map_of_filter_keys: "map_of (filter (\<lambda>p. P (fst p)) d) k = (if P k then map_of d k else None)"
  by (induction d) auto

lemma dict_set_twice: "dict_set k v (dict_set k u d) = dict_set k v d"
  by (induction d) auto

lemma dict_set_mem: "(a, b) \<in> set (dict_set k v d) \<Longrightarrow> b = v \<or> (a, b) \<in> set d"
  by (induction k v d rule: dict_set.induct) (auto split: if_splits)


text \<open>\<open>bool(value)\<close>; a float is false when its text is that of a zero.\<close>

definition truthy :: "json \<Rightarrow> bool" where
  "truthy v = (case v of JNull \<Rightarrow> False | JBool b \<Rightarrow> b | JInt i \<Rightarrow> i \<noteq> 0 | JFloat r \<Rightarrow> r \<notin> {''0.0'', ''-0.0''}
     | JStr s \<Rightarrow> s \<noteq> [] | JList vs \<Rightarrow> vs \<noteq> [] | JObj kvs \<Rightarrow> kvs \<noteq> [])"

definition str_or :: "string \<Rightarrow> json \<Rightarrow> string" where
  "str_or d v = (case v of JStr s \<Rightarrow> s | _ \<Rightarrow> d)"

text \<open>\<open>str(i)\<close> of an integer.\<close>

definition int_text :: "int \<Rightarrow> string" where
  "int_text i = (if i < 0 then ''-'' else []) @ digits_of (nat \<bar>i\<bar>)"

text \<open>The characters of \<open>json.dumps(value, separators=(",", ":"), ensure_ascii=False)\<close>.\<close>

definition escaped_len :: "char \<Rightarrow> nat" where
  "escaped_len c =
    (let n = (of_char c :: nat) in
     if n = 34 \<or> n = 92 \<or> n = 8 \<or> n = 9 \<or> n = 10 \<or> n = 12 \<or> n = 13 then 2 else if n < 32 then 6 else 1)"

definition text_len :: "string \<Rightarrow> nat" where
  "text_len s = 2 + sum_list (map escaped_len s)"

fun compact_len :: "json \<Rightarrow> nat" where
  "compact_len JNull = 4"
| "compact_len (JBool b) = (if b then 4 else 5)"
| "compact_len (JInt i) = length (digits_of (nat \<bar>i\<bar>)) + (if i < 0 then 1 else 0)"
| "compact_len (JFloat r) = length r"
| "compact_len (JStr s) = text_len s"
| "compact_len (JList vs) = 2 + (length vs - 1) + sum_list (map compact_len vs)"
| "compact_len (JObj kvs) = 2 + (length kvs - 1) + sum_list (map (\<lambda>(k, v). text_len k + 1 + compact_len v) kvs)"

end
