(* ===== verification/History.thy ===== *)
theory History
  imports Json
begin

text \<open>
  \<open>m2c/src/m2c/tui/history.py\<close>: the conversation rebuilt from the local log. A log is a list of
  \<open>(type, data)\<close> pairs, a history a list of JSON objects. The \<open>_Group\<close> objects are records in a
  list and the \<open>index\<close> of the source, which maps a call id to its group object, maps it to the
  group's position: groups are only appended, or removed from the end together with the index
  entries that point at them. Python dictionaries are association lists in insertion order.
\<close>

section \<open>Constants and records\<close>

definition CHECKPOINTED_TOOLS :: "string list" where
  "CHECKPOINTED_TOOLS = [''edit_file'', ''write_file'', ''delete_path'']"

definition MAX_OUTPUT_CHARS :: nat where "MAX_OUTPUT_CHARS = 30000"
definition HEAD_CHARS :: nat where "HEAD_CHARS = 20000"
definition TAIL_CHARS :: nat where "TAIL_CHARS = 8000"
definition MAX_TEXT_CHARS :: nat where "MAX_TEXT_CHARS = 150000"
definition DEFAULT_MAX_BYTES :: nat where "DEFAULT_MAX_BYTES = 600000"
definition MAX_ITEMS :: nat where "MAX_ITEMS = 10000"

definition NO_OUTPUT :: "string \<rightharpoonup> string" where
  "NO_OUTPUT = map_of
    [(''denied'', ''The call was denied and did not run.''),
     (''cancelled'', ''The call was cancelled before it finished.''),
     (''timeout'', ''The call took too long and was stopped.''),
     (''disconnected'', ''The connection dropped before the call finished.''),
     (''error'', ''The call failed; its output was not kept.''),
     (''ok'', ''The call finished; its output was not kept.'')]"

record history =
  h_items :: "json list"
  h_omitted :: nat
  h_shortened :: nat

record group =
  g_step :: bool
  g_text :: string
  g_calls :: "(string \<times> (string \<times> (string \<times> json) list)) list"
  g_results :: "(string \<times> (string \<times> json) list) list"
  g_closed :: "(string \<times> string) list"
  g_steps :: "int list"
  g_unmapped :: nat

definition user_group :: "string \<Rightarrow> group" where
  "user_group t = \<lparr>g_step = False, g_text = t, g_calls = [], g_results = [], g_closed = [], g_steps = [], g_unmapped = 0\<rparr>"

definition step_group :: "string \<Rightarrow> group" where
  "step_group t = \<lparr>g_step = True, g_text = t, g_calls = [], g_results = [], g_closed = [], g_steps = [], g_unmapped = 0\<rparr>"

section \<open>Shortening an output\<close>

definition marker :: "nat \<Rightarrow> string" where
  "marker left = [NL] @ ''[... '' @ digits_of left @ '' characters left out to keep the conversation small ...]'' @ [NL]"

definition shorten_output :: "string \<Rightarrow> string \<times> bool" where
  "shorten_output t =
    (if length t \<le> MAX_OUTPUT_CHARS then (t, False)
     else (take HEAD_CHARS t @ marker (length t - HEAD_CHARS - TAIL_CHARS) @ drop (length t - TAIL_CHARS) t, True))"

section \<open>The checkpoint list\<close>

text \<open>\<open>isinstance(step, int)\<close> holds of booleans, and \<open>True\<close> is the key 1.\<close>

definition step_key :: "json \<Rightarrow> int option" where
  "step_key v = (case v of JInt n \<Rightarrow> Some n | JBool b \<Rightarrow> Some (if b then 1 else 0) | _ \<Rightarrow> None)"

definition checkpoint_entry :: "string \<times> json \<Rightarrow> (int \<times> string) list \<Rightarrow> (int \<times> string) list" where
  "checkpoint_entry e out =
    (case e of (kind, data) \<Rightarrow>
      if kind = ''checkpoint'' then
        (case (step_key (field (as_dict data) ''step''), field (as_dict data) ''tool'') of
           (Some n, JStr t) \<Rightarrow> dict_set n t out
         | _ \<Rightarrow> out)
      else out)"

definition checkpoint_tools :: "(string \<times> json) list \<Rightarrow> (int \<times> string) list" where
  "checkpoint_tools events = fold checkpoint_entry events []"

section \<open>Where a rewind cuts\<close>

definition has_checkpointed :: "group \<Rightarrow> bool" where
  "has_checkpointed g \<longleftrightarrow> g_unmapped g \<noteq> 0 \<or> (\<exists>(cid, tool, inp) \<in> set (g_calls g). tool \<in> set CHECKPOINTED_TOOLS)"

fun first_index :: "('a \<Rightarrow> bool) \<Rightarrow> 'a list \<Rightarrow> nat option" where
  "first_index P [] = None"
| "first_index P (x # xs) = (if P x then Some 0 else map_option Suc (first_index P xs))"

text \<open>One past the last index with the property: \<open>max(..., default=-1) + 1\<close>.\<close>

fun after_last :: "('a \<Rightarrow> bool) \<Rightarrow> 'a list \<Rightarrow> nat" where
  "after_last P [] = 0"
| "after_last P (x # xs) =
     (if after_last P xs \<noteq> 0 then Suc (after_last P xs) else if P x then 1 else 0)"

definition cut_index :: "group list \<Rightarrow> int \<Rightarrow> nat" where
  "cut_index groups n =
    (case first_index (\<lambda>g. n \<in> set (g_steps g)) groups of
       Some i \<Rightarrow> i
     | None \<Rightarrow>
         (let lo = after_last (\<lambda>g. \<exists>s \<in> set (g_steps g). s < n) groups
          in case first_index (\<lambda>g. g_step g \<and> has_checkpointed g) (drop lo groups) of
               Some i \<Rightarrow> lo + i
             | None \<Rightarrow> length groups))"

section \<open>Items\<close>

text \<open>The tool item of one call, with whether its output was cut; \<open>None\<close> for a call that is dropped.\<close>

definition result_item :: "string \<Rightarrow> (string \<times> json) list \<Rightarrow> json \<times> bool" where
  "result_item cid r =
    (let text = (case field r ''output'' of JStr s \<Rightarrow> s | _ \<Rightarrow> []);
         (output, was_cut) = shorten_output text
     in (JObj ([(''role'', JStr ''tool''), (''call_id'', JStr cid), (''ok'', field r ''ok''), (''output'', JStr output)]
               @ (if field r ''truncated'' = JBool True \<or> was_cut then [(''truncated'', JBool True)] else [])
               @ (if field r ''trust'' \<in> {JStr ''local_project'', JStr ''local_other'', JStr ''external''}
                  then [(''trust'', field r ''trust'')] else [])), was_cut))"

definition call_item :: "group \<Rightarrow> string \<Rightarrow> (json \<times> bool) option" where
  "call_item g cid =
    (case map_of (g_results g) cid of
       Some r \<Rightarrow> Some (result_item cid r)
     | None \<Rightarrow>
         (case map_of (g_closed g) cid of
            None \<Rightarrow> None
          | Some status \<Rightarrow>
              (case NO_OUTPUT status of
                 None \<Rightarrow> None
               | Some msg \<Rightarrow>
                   Some (JObj [(''role'', JStr ''tool''), (''call_id'', JStr cid), (''ok'', JBool (status = ''ok'')),
                               (''output'', JStr msg)], False))))"

definition call_entry :: "string \<Rightarrow> string \<Rightarrow> (string \<times> json) list \<Rightarrow> json" where
  "call_entry cid tool inp = JObj [(''call_id'', JStr cid), (''tool'', JStr tool), (''input'', JObj inp)]"

text \<open>The loop over the calls: the kept calls, their tool items and the number of cut outputs.\<close>

fun build_calls ::
    "group \<Rightarrow> (string \<times> (string \<times> (string \<times> json) list)) list \<Rightarrow> json list \<times> json list \<times> nat" where
  "build_calls g [] = ([], [], 0)"
| "build_calls g ((cid, tool, inp) # cs) =
    (case build_calls g cs of
       (calls, items, n) \<Rightarrow>
         (case call_item g cid of
            None \<Rightarrow> (calls, items, n)
          | Some (item, was_cut) \<Rightarrow> (call_entry cid tool inp # calls, item # items, n + (if was_cut then 1 else 0))))"

definition build_items :: "group \<Rightarrow> json list \<times> nat" where
  "build_items g =
    (if \<not> g_step g then
       (let text = take MAX_TEXT_CHARS (g_text g)
        in (if strip text \<noteq> [] then [JObj [(''role'', JStr ''user''), (''text'', JStr text)]] else [], 0))
     else
       (case build_calls g (g_calls g) of
          (calls, tool_items, shortened) \<Rightarrow>
            (let head = [(''role'', JStr ''assistant'')]
                   @ (if strip (g_text g) \<noteq> [] then [(''text'', JStr (take MAX_TEXT_CHARS (g_text g)))] else [])
                   @ (if calls \<noteq> [] then [(''tool_calls'', JList calls)] else [])
             in ((if 1 < length head then [JObj head] else []) @ (if calls \<noteq> [] then tool_items else []), shortened))))"

text \<open>
  \<open>len(json.dumps(item, ensure_ascii=False).encode("utf-8")) + 2\<close>: the separators are \<open>", "\<close> and
  \<open>": "\<close>; quote, backslash and the control characters are escaped; a code point from 128 on takes
  two bytes. A float is held as its \<open>repr\<close>.
\<close>

definition char_len :: "char \<Rightarrow> nat" where
  "char_len c =
    (let n = (of_char c :: nat) in
     if n = 34 \<or> n = 92 \<or> n = 8 \<or> n = 9 \<or> n = 10 \<or> n = 12 \<or> n = 13 then 2
     else if n < 32 then 6 else if n < 128 then 1 else 2)"

definition str_len :: "string \<Rightarrow> nat" where
  "str_len s = 2 + sum_list (map char_len s)"

definition int_len :: "int \<Rightarrow> nat" where
  "int_len i = length (digits_of (nat \<bar>i\<bar>)) + (if i < 0 then 1 else 0)"

definition sep_len :: "nat \<Rightarrow> nat" where
  "sep_len n = 2 + 2 * (n - 1)"

fun json_len :: "json \<Rightarrow> nat" where
  "json_len JNull = 4"
| "json_len (JBool b) = (if b then 4 else 5)"
| "json_len (JInt i) = int_len i"
| "json_len (JFloat r) = length r"
| "json_len (JStr s) = str_len s"
| "json_len (JList vs) = sep_len (length vs) + sum_list (map json_len vs)"
| "json_len (JObj kvs) = sep_len (length kvs) + sum_list (map (\<lambda>(k, v). str_len k + 2 + json_len v) kvs)"

definition item_size :: "json \<Rightarrow> nat" where
  "item_size item = json_len item + 2"

section \<open>Reading the log\<close>

record log_state =
  l_groups :: "group list"
  l_index :: "(string \<times> nat) list"

text \<open>\<open>index.get(call_id)\<close>: \<open>None\<close> when the key cannot be hashed, which raises.\<close>

definition find_group :: "log_state \<Rightarrow> json \<Rightarrow> nat option option" where
  "find_group st v =
    (if \<not> hashable v then None
     else Some (case v of JStr cid \<Rightarrow> map_of (l_index st) cid | _ \<Rightarrow> None))"

definition on_group :: "nat \<Rightarrow> (group \<Rightarrow> group) \<Rightarrow> log_state \<Rightarrow> log_state" where
  "on_group i f st = st\<lparr>l_groups := (l_groups st)[i := f (l_groups st ! i)]\<rparr>"

text \<open>\<open>step_group()\<close>: the last group if it is a step, else a new one.\<close>

definition with_step :: "log_state \<Rightarrow> log_state" where
  "with_step st =
    (if l_groups st = [] \<or> \<not> g_step (last (l_groups st))
     then st\<lparr>l_groups := l_groups st @ [step_group []]\<rparr> else st)"

definition on_call :: "(string \<times> json) list \<Rightarrow> log_state \<Rightarrow> log_state" where
  "on_call d st0 =
    (case (field d ''call_id'', field d ''tool'', field d ''input'') of
       (JStr cid, JStr tool, JObj args) \<Rightarrow>
         (let st = with_step st0; i = length (l_groups st) - 1
          in (on_group i (\<lambda>g. g\<lparr>g_calls := dict_set cid (tool, args) (g_calls g),
                              g_unmapped := g_unmapped g + (if tool \<in> set CHECKPOINTED_TOOLS then 1 else 0)\<rparr>) st)
               \<lparr>l_index := dict_set cid i (l_index st)\<rparr>)
     | _ \<Rightarrow> st0)"

definition on_result :: "(string \<times> json) list \<Rightarrow> log_state \<Rightarrow> log_state option" where
  "on_result d st =
    (case find_group st (field d ''call_id'') of
       None \<Rightarrow> None
     | Some None \<Rightarrow> Some st
     | Some (Some i) \<Rightarrow>
         (case (field d ''call_id'', field d ''ok'', field d ''output'') of
            (JStr cid, JBool _, JStr _) \<Rightarrow>
              Some (on_group i (\<lambda>g. g\<lparr>g_results := dict_set cid d (g_results g)\<rparr>) st)
          | _ \<Rightarrow> Some st))"

definition on_closed :: "(string \<times> json) list \<Rightarrow> log_state \<Rightarrow> log_state option" where
  "on_closed d st =
    (case find_group st (field d ''call_id'') of
       None \<Rightarrow> None
     | Some None \<Rightarrow> Some st
     | Some (Some i) \<Rightarrow>
         (case (field d ''call_id'', field d ''status'') of
            (JStr cid, JStr status) \<Rightarrow>
              Some (on_group i (\<lambda>g. g\<lparr>g_closed := dict_set cid status (g_closed g)\<rparr>) st)
          | _ \<Rightarrow> Some st))"

text \<open>The last step group that still has an unmapped checkpointed call.\<close>

definition last_unmapped :: "group list \<Rightarrow> nat option" where
  "last_unmapped groups =
    (let k = after_last (\<lambda>g. g_step g \<and> g_unmapped g \<noteq> 0) groups in if k = 0 then None else Some (k - 1))"

definition on_checkpoint :: "(string \<times> json) list \<Rightarrow> log_state \<Rightarrow> log_state option" where
  "on_checkpoint d st =
    (case field d ''step'' of
       JInt n \<Rightarrow>
         (case (if field d ''call_id'' = JNull then Some None else find_group st (field d ''call_id'')) of
            None \<Rightarrow> None
          | Some found \<Rightarrow>
              (case (case found of Some i \<Rightarrow> Some i | None \<Rightarrow> last_unmapped (l_groups st)) of
                 None \<Rightarrow> Some st
               | Some i \<Rightarrow>
                   Some (on_group i (\<lambda>g. g\<lparr>g_steps := List.insert n (g_steps g), g_unmapped := g_unmapped g - 1\<rparr>) st)))
     | _ \<Rightarrow> Some st)"

text \<open>The index rebuilt after a rewind: later groups win.\<close>

definition index_group :: "nat \<times> group \<Rightarrow> (string \<times> nat) list \<Rightarrow> (string \<times> nat) list" where
  "index_group ig idx =
    (case ig of (i, g) \<Rightarrow> if g_step g then fold (\<lambda>(cid, _) idx. dict_set cid i idx) (g_calls g) idx else idx)"

definition rebuild_index :: "group list \<Rightarrow> (string \<times> nat) list" where
  "rebuild_index groups = fold index_group (enumerate 0 groups) []"

definition on_rewind :: "(string \<times> json) list \<Rightarrow> log_state \<Rightarrow> log_state" where
  "on_rewind d st =
    (case field d ''to_step'' of
       JInt n \<Rightarrow> (let kept = take (cut_index (l_groups st) n) (l_groups st)
                  in \<lparr>l_groups = kept, l_index = rebuild_index kept\<rparr>)
     | _ \<Rightarrow> st)"

text \<open>One entry of the log. \<open>None\<close> is the \<open>TypeError\<close> of an unhashable call id.\<close>

definition log_entry :: "string \<times> json \<Rightarrow> log_state \<Rightarrow> log_state option" where
  "log_entry e st =
    (case e of (kind, data) \<Rightarrow>
      let d = as_dict data in
      if kind = ''user.message'' then
        Some (case field d ''text'' of JStr t \<Rightarrow> st\<lparr>l_groups := l_groups st @ [user_group t]\<rparr> | _ \<Rightarrow> st)
      else if kind = ''user.unsent'' then
        Some (if l_groups st \<noteq> [] \<and> \<not> g_step (last (l_groups st))
              then st\<lparr>l_groups := butlast (l_groups st)\<rparr> else st)
      else if kind = ''assistant.message'' then
        Some (st\<lparr>l_groups := l_groups st @ [step_group (case field d ''text'' of JStr t \<Rightarrow> t | _ \<Rightarrow> [])]\<rparr>)
      else if kind = ''tool.call'' then Some (on_call d st)
      else if kind = ''tool.result'' then on_result d st
      else if kind = ''tool.closed'' then on_closed d st
      else if kind = ''checkpoint'' then on_checkpoint d st
      else if kind = ''rewind'' then Some (on_rewind d st)
      else Some st)"

fun read_log :: "(string \<times> json) list \<Rightarrow> log_state \<Rightarrow> log_state option" where
  "read_log [] st = Some st"
| "read_log (e # es) st = (case log_entry e st of None \<Rightarrow> None | Some st' \<Rightarrow> read_log es st')"

section \<open>Choosing what is kept\<close>

definition role :: "json \<Rightarrow> json" where
  "role item = field (as_dict item) ''role''"

definition starts_user :: "json list \<Rightarrow> bool" where
  "starts_user items \<longleftrightarrow> items \<noteq> [] \<and> role (hd items) = JStr ''user''"

text \<open>The loop over \<open>reversed(per_group)\<close>, given the groups from the last on.\<close>

fun keep_newest :: "nat \<Rightarrow> nat \<Rightarrow> json list list \<Rightarrow> nat \<Rightarrow> nat \<Rightarrow> json list list" where
  "keep_newest max_bytes max_items [] sz count = []"
| "keep_newest max_bytes max_items (items # rest) sz count =
    (let add = sum_list (map item_size items) in
     if max_bytes < sz + add \<or> max_items < count + length items then []
     else items # keep_newest max_bytes max_items rest (sz + add) (count + length items))"

definition per_group :: "group list \<Rightarrow> json list list" where
  "per_group groups =
     dropWhile (\<lambda>items. \<not> starts_user items) (filter (\<lambda>items. items \<noteq> []) (map (fst \<circ> build_items) groups))"

definition rebuild_history :: "(string \<times> json) list \<Rightarrow> nat \<Rightarrow> nat \<Rightarrow> history option" where
  "rebuild_history events max_bytes max_items =
    (case read_log events \<lparr>l_groups = [], l_index = []\<rparr> of
       None \<Rightarrow> None
     | Some st \<Rightarrow>
         (let parts = per_group (l_groups st);
              kept = dropWhile (\<lambda>items. \<not> starts_user items) (rev (keep_newest max_bytes max_items (rev parts) 0 0));
              flat = concat kept
          in Some \<lparr>h_items = flat, h_omitted = sum_list (map length parts) - length flat,
                   h_shortened = sum_list (map (snd \<circ> build_items) (l_groups st))\<rparr>))"


section \<open>What the log keeps\<close>

text \<open>
  The invariant of the groups: a user group has no calls, a call id has one entry, a recorded result
  has a boolean \<open>ok\<close> and a string \<open>output\<close>, and every index entry points at a step group that has
  the call.
\<close>

definition result_ok :: "(string \<times> json) list \<Rightarrow> bool" where
  "result_ok r \<longleftrightarrow> (\<exists>b s. field r ''ok'' = JBool b \<and> field r ''output'' = JStr s)"

definition group_ok :: "group \<Rightarrow> bool" where
  "group_ok g \<longleftrightarrow> distinct (map fst (g_calls g)) \<and> (\<forall>r \<in> snd ` set (g_results g). result_ok r)
     \<and> (\<not> g_step g \<longrightarrow> g_calls g = [])"

definition index_ok :: "log_state \<Rightarrow> string \<Rightarrow> nat \<Rightarrow> bool" where
  "index_ok st cid i \<longleftrightarrow> i < length (l_groups st) \<and> g_step (l_groups st ! i) \<and> cid \<in> fst ` set (g_calls (l_groups st ! i))"

definition log_ok :: "log_state \<Rightarrow> bool" where
  "log_ok st \<longleftrightarrow> (\<forall>g \<in> set (l_groups st). group_ok g) \<and> (\<forall>cid i. map_of (l_index st) cid = Some i \<longrightarrow> index_ok st cid i)"

lemma log_okI [intro?]:
  assumes "\<And>g. g \<in> set (l_groups st) \<Longrightarrow> group_ok g"
    and "\<And>cid i. map_of (l_index st) cid = Some i \<Longrightarrow> index_ok st cid i"
  shows "log_ok st"
  using assms by (simp add: log_ok_def)

lemma group_ok_new [simp]: "group_ok (user_group t)" "group_ok (step_group t)" "g_step (step_group t)"
    "\<not> g_step (user_group t)" "g_calls (step_group t) = []"
  by (simp_all add: group_ok_def user_group_def step_group_def)

lemma index_ok_append: "index_ok st cid i \<Longrightarrow> index_ok (st\<lparr>l_groups := l_groups st @ gs\<rparr>) cid i"
  by (simp add: index_ok_def nth_append)

lemma log_ok_append:
  assumes "log_ok st" and "\<And>g. g \<in> set gs \<Longrightarrow> group_ok g"
  shows "log_ok (st\<lparr>l_groups := l_groups st @ gs\<rparr>)"
  by standard (use assms in \<open>auto simp: log_ok_def intro: index_ok_append\<close>)

lemma log_ok_with_step: "log_ok st \<Longrightarrow> log_ok (with_step st)"
  unfolding with_step_def using log_ok_append [of st "[step_group []]"] by (metis group_ok_new(2) empty_iff list.set(1) set_ConsD)

lemma with_step_last: "l_groups (with_step st) \<noteq> [] \<and> g_step (last (l_groups (with_step st)))"
  by (simp add: with_step_def)

text \<open>An update of one group that keeps its kind and its calls keeps the invariant.\<close>

lemma log_ok_on_group:
  assumes ok: "log_ok st" and i: "i < length (l_groups st)" and g: "group_ok (f (l_groups st ! i))"
    and step: "g_step (f (l_groups st ! i)) = g_step (l_groups st ! i)"
    and calls: "fst ` set (g_calls (l_groups st ! i)) \<subseteq> fst ` set (g_calls (f (l_groups st ! i)))"
  shows "log_ok (on_group i f st)"
proof
  show "group_ok h" if "h \<in> set (l_groups (on_group i f st))" for h
  proof -
    have "h \<in> insert (f (l_groups st ! i)) (set (l_groups st))"
      using that set_update_subset_insert by (fastforce simp: on_group_def)
    then show ?thesis using ok g by (auto simp: log_ok_def)
  qed
  show "index_ok (on_group i f st) cid j" if "map_of (l_index (on_group i f st)) cid = Some j" for cid j
  proof -
    have "index_ok st cid j" using that ok by (simp add: on_group_def log_ok_def)
    then show ?thesis using i step calls by (auto simp: index_ok_def on_group_def nth_list_update)
  qed
qed

lemma group_ok_nth: "log_ok st \<Longrightarrow> i < length (l_groups st) \<Longrightarrow> group_ok (l_groups st ! i)"
  by (simp add: log_ok_def)

lemma find_group_ok:
  assumes "log_ok st" and "find_group st v = Some (Some i)"
  shows "i < length (l_groups st)" "g_step (l_groups st ! i)"
  using assms by (auto simp: find_group_def log_ok_def index_ok_def split: if_splits json.splits)

lemma log_ok_on_call:
  assumes ok: "log_ok st" shows "log_ok (on_call d st)"
proof -
  have main: "log_ok ((on_group i (\<lambda>g. g\<lparr>g_calls := dict_set cid (tool, args) (g_calls g), g_unmapped := u g\<rparr>) (with_step st))
                \<lparr>l_index := dict_set cid i (l_index (with_step st))\<rparr>)"
    (is "log_ok (?s\<lparr>l_index := _\<rparr>)")
    if i: "i = length (l_groups (with_step st)) - 1" for i cid tool args u
  proof -
    have lt: "i < length (l_groups (with_step st))" and step: "g_step (l_groups (with_step st) ! i)"
      using with_step_last [of st] last_conv_nth [of "l_groups (with_step st)"] i by auto
    have s: "log_ok ?s"
      by (rule log_ok_on_group [OF log_ok_with_step [OF ok] lt])
        (use group_ok_nth [OF log_ok_with_step [OF ok] lt] step in \<open>auto simp: group_ok_def distinct_dict_set\<close>)
    have idx: "l_index ?s = l_index (with_step st)" by (simp add: on_group_def)
    show ?thesis
    proof
      fix g assume "g \<in> set (l_groups (?s\<lparr>l_index := dict_set cid i (l_index (with_step st))\<rparr>))"
      then show "group_ok g" using s by (simp add: log_ok_def)
    next
      fix c j assume "map_of (l_index (?s\<lparr>l_index := dict_set cid i (l_index (with_step st))\<rparr>)) c = Some j"
      then have "(c = cid \<and> j = i) \<or> map_of (l_index ?s) c = Some j" by (auto simp: idx split: if_splits)
      then show "index_ok (?s\<lparr>l_index := dict_set cid i (l_index (with_step st))\<rparr>) c j"
      proof
        assume "c = cid \<and> j = i"
        then show ?thesis using lt step by (simp add: index_ok_def on_group_def)
      next
        assume "map_of (l_index ?s) c = Some j"
        then show ?thesis using s by (simp add: log_ok_def index_ok_def)
      qed
    qed
  qed
  show ?thesis
    using ok by (auto simp: on_call_def Let_def intro!: main split: json.splits split del: if_split)
qed

lemma log_ok_on_result:
  assumes ok: "log_ok st" and s: "on_result d st = Some st'" shows "log_ok st'"
proof -
  have main: "log_ok (on_group i (\<lambda>g. g\<lparr>g_results := dict_set cid d (g_results g)\<rparr>) st)"
    if "find_group st v = Some (Some i)" and "result_ok d" for i cid v
    by (rule log_ok_on_group [OF ok find_group_ok(1) [OF ok that(1)]])
      (use group_ok_nth [OF ok find_group_ok(1) [OF ok that(1)]] find_group_ok(2) [OF ok that(1)] that(2)
        in \<open>auto simp: group_ok_def dest!: dict_set_mem\<close>)
  show ?thesis
    using ok s main by (auto simp: on_result_def result_ok_def split: option.splits json.splits)
qed

lemma log_ok_on_closed:
  assumes ok: "log_ok st" and s: "on_closed d st = Some st'" shows "log_ok st'"
proof -
  have main: "log_ok (on_group i (\<lambda>g. g\<lparr>g_closed := u g\<rparr>) st)" if "find_group st v = Some (Some i)" for i v u
    by (rule log_ok_on_group [OF ok find_group_ok(1) [OF ok that]])
      (use group_ok_nth [OF ok find_group_ok(1) [OF ok that]] in \<open>auto simp: group_ok_def\<close>)
  show ?thesis
    using ok s main by (auto simp: on_closed_def split: option.splits json.splits)
qed

lemma after_last_bound: "after_last P xs \<le> length xs"
  by (induction xs) auto

lemma log_ok_on_checkpoint:
  assumes ok: "log_ok st" and s: "on_checkpoint d st = Some st'" shows "log_ok st'"
proof -
  have main: "log_ok (on_group i (\<lambda>g. g\<lparr>g_steps := u g, g_unmapped := w g\<rparr>) st)" if "i < length (l_groups st)" for i u w
    by (rule log_ok_on_group [OF ok that]) (use group_ok_nth [OF ok that] in \<open>auto simp: group_ok_def\<close>)
  have last: "i < length (l_groups st)" if "last_unmapped (l_groups st) = Some i" for i
    using that after_last_bound [of "\<lambda>g. g_step g \<and> g_unmapped g \<noteq> 0" "l_groups st"]
    by (auto simp: last_unmapped_def Let_def split: if_splits)
  show ?thesis
    using ok s main last find_group_ok(1) [OF ok]
    by (auto simp: on_checkpoint_def split: option.splits json.splits if_splits)
qed


lemma log_ok_rewound:
  assumes "\<And>g. g \<in> set kept \<Longrightarrow> group_ok g"
  shows "log_ok \<lparr>l_groups = kept, l_index = rebuild_index kept\<rparr>"
proof -
  have inner: "map_of (fold (\<lambda>(cid, _) idx. dict_set cid i idx) cs idx) c = Some j
      \<Longrightarrow> map_of idx c = Some j \<or> (j = i \<and> c \<in> fst ` set cs)"
    for cs :: "(string \<times> string \<times> (string \<times> json) list) list" and i idx c j
  proof (induction cs arbitrary: idx)
    case (Cons x cs)
    then show ?case by (cases x) (fastforce split: if_splits)
  qed simp
  have outer: "map_of (fold index_group igs idx) c = Some j
      \<Longrightarrow> map_of idx c = Some j \<or> (\<exists>g. (j, g) \<in> set igs \<and> g_step g \<and> c \<in> fst ` set (g_calls g))" for igs idx c j
  proof (induction igs arbitrary: idx)
    case (Cons x igs)
    show ?case
      using Cons.IH [of "index_group x idx"] Cons.prems inner [of "fst x" "g_calls (snd x)" idx c j]
      by (cases x) (auto simp: index_group_def split: if_splits)
  qed simp
  show ?thesis
  proof
    show "group_ok g" if "g \<in> set (l_groups \<lparr>l_groups = kept, l_index = rebuild_index kept\<rparr>)" for g
      using that assms by simp
    show "index_ok \<lparr>l_groups = kept, l_index = rebuild_index kept\<rparr> cid i"
      if "map_of (l_index \<lparr>l_groups = kept, l_index = rebuild_index kept\<rparr>) cid = Some i" for cid i
      using outer [of "enumerate 0 kept" "[]" cid i] that
      by (auto simp: rebuild_index_def index_ok_def in_set_enumerate_eq)
  qed
qed

lemma log_ok_entry:
  assumes ok: "log_ok st" and s: "log_entry e st = Some st'"
  shows "log_ok st'"
proof -
  obtain kind data where e: "e = (kind, data)" by fastforce
  have rewind: "log_ok (on_rewind d st)" for d
    using ok by (auto simp: on_rewind_def Let_def log_ok_def [of st] intro!: log_ok_rewound dest: in_set_takeD split: json.splits)
  have unsent: "log_ok (st\<lparr>l_groups := butlast (l_groups st)\<rparr>)" if "\<not> g_step (last (l_groups st))" "l_groups st \<noteq> []"
  proof
    show "group_ok g" if "g \<in> set (l_groups (st\<lparr>l_groups := butlast (l_groups st)\<rparr>))" for g
      using that ok by (auto simp: log_ok_def dest: in_set_butlastD)
    show "index_ok (st\<lparr>l_groups := butlast (l_groups st)\<rparr>) cid i"
      if "map_of (l_index (st\<lparr>l_groups := butlast (l_groups st)\<rparr>)) cid = Some i" for cid i
    proof -
      have a: "index_ok st cid i" using that ok by (simp add: log_ok_def)
      moreover have "i \<noteq> length (l_groups st) - 1"
        using a \<open>\<not> g_step (last (l_groups st))\<close> \<open>l_groups st \<noteq> []\<close> by (auto simp: index_ok_def last_conv_nth)
      ultimately show ?thesis by (auto simp: index_ok_def nth_butlast)
    qed
  qed
  have new: "log_ok (st\<lparr>l_groups := l_groups st @ [user_group t]\<rparr>)" "log_ok (st\<lparr>l_groups := l_groups st @ [step_group t]\<rparr>)" for t
    using ok by (auto intro!: log_ok_append)
  show ?thesis
    using s ok rewind unsent new log_ok_on_call [OF ok] log_ok_on_result [OF ok]
      log_ok_on_closed [OF ok] log_ok_on_checkpoint [OF ok]
    by (auto simp: e log_entry_def Let_def split: if_splits json.splits)
qed

lemma log_ok_read: "log_ok st \<Longrightarrow> read_log es st = Some st' \<Longrightarrow> log_ok st'"
  by (induction es arbitrary: st) (auto split: option.splits dest: log_ok_entry)

lemma log_ok_empty: "log_ok \<lparr>l_groups = [], l_index = []\<rparr>"
  by (simp add: log_ok_def)

text \<open>A log whose call ids are never lists or objects is read to its end.\<close>

definition plain_ids :: "(string \<times> json) list \<Rightarrow> bool" where
  "plain_ids events \<longleftrightarrow> (\<forall>(kind, data) \<in> set events. hashable (field (as_dict data) ''call_id''))"

lemma find_group_total: "hashable v \<Longrightarrow> \<exists>r. find_group st v = Some r"
  by (simp add: find_group_def)

lemma log_entry_total:
  assumes "hashable (field (as_dict (snd e)) ''call_id'')"
  shows "\<exists>st'. log_entry e st = Some st'"
proof -
  obtain kind data where e: "e = (kind, data)" by fastforce
  obtain r where r: "find_group st (field (as_dict data) ''call_id'') = Some r"
    using find_group_total [of "field (as_dict data) ''call_id''" st] assms by (auto simp: e)
  have "\<exists>st'. on_result (as_dict data) st = Some st'" "\<exists>st'. on_closed (as_dict data) st = Some st'"
    by (auto simp: on_result_def on_closed_def r split: option.splits json.splits)
  moreover have "\<exists>st'. on_checkpoint (as_dict data) st = Some st'"
    by (auto simp: on_checkpoint_def r split: option.splits json.splits)
  ultimately show ?thesis by (simp add: e log_entry_def Let_def)
qed

lemma read_log_total: "plain_ids es \<Longrightarrow> \<exists>st'. read_log es st = Some st'"
proof (induction es arbitrary: st)
  case (Cons e es)
  obtain st' where "log_entry e st = Some st'"
    using log_entry_total [of e st] Cons.prems by (auto simp: plain_ids_def)
  then show ?case using Cons.IH [of st'] Cons.prems by (simp add: plain_ids_def)
qed simp

section \<open>Well-formed histories\<close>

definition entry_id :: "json \<Rightarrow> json" where
  "entry_id v = field (as_dict v) ''call_id''"

definition tool_calls :: "json \<Rightarrow> json list" where
  "tool_calls item = (case field (as_dict item) ''tool_calls'' of JList vs \<Rightarrow> vs | _ \<Rightarrow> [])"

text \<open>
  A user or an assistant item, then the results of its calls in the order of the calls, one for
  each, and nothing else: no call dangles and no tool item stands alone.
\<close>

function paired :: "json list \<Rightarrow> bool" where
  "paired [] = True"
| "paired (x # xs) =
    (let ids = map entry_id (tool_calls x); results = take (length ids) xs
     in role x \<in> {JStr ''user'', JStr ''assistant''} \<and> (role x = JStr ''user'' \<longrightarrow> ids = [])
        \<and> distinct ids \<and> map entry_id results = ids \<and> (\<forall>y \<in> set results. role y = JStr ''tool'')
        \<and> paired (drop (length ids) xs))"
  by pat_completeness auto
termination by (relation "measure length") auto

text \<open>The items of one turn: reading them leaves the rest to be read.\<close>

definition whole_turn :: "json list \<Rightarrow> bool" where
  "whole_turn items \<longleftrightarrow> (\<forall>rest. paired (items @ rest) = paired rest)"

lemma paired_turns: "(\<forall>t \<in> set ts. whole_turn t) \<Longrightarrow> paired (concat ts)"
  by (induction ts) (auto simp: whole_turn_def)

lemma result_item_shape: "entry_id (fst (result_item cid r)) = JStr cid \<and> role (fst (result_item cid r)) = JStr ''tool''"
  by (simp add: result_item_def Let_def split_beta entry_id_def role_def field_def as_dict_def)

lemma call_item_shape:
  assumes "call_item g cid = Some (item, b)"
  shows "entry_id item = JStr cid" "role item = JStr ''tool''"
proof -
  have "entry_id item = JStr cid \<and> role item = JStr ''tool''"
  proof (cases "map_of (g_results g) cid")
    case (Some r)
    then show ?thesis using assms result_item_shape [of cid r] by (simp add: call_item_def)
  next
    case None
    obtain ok msg where "item = JObj [(''role'', JStr ''tool''), (''call_id'', JStr cid), (''ok'', ok), (''output'', JStr msg)]"
      using assms None by (auto simp: call_item_def split: option.splits)
    then show ?thesis by (simp add: entry_id_def role_def field_def as_dict_def)
  qed
  then show "entry_id item = JStr cid" "role item = JStr ''tool''" by simp_all
qed

text \<open>The results are those of the calls, in their order.\<close>

lemma call_entry_id [simp]: "entry_id (call_entry cid tool inp) = JStr cid"
  by (simp add: entry_id_def call_entry_def field_def as_dict_def)

lemma build_calls_shape:
  "build_calls g cs = (calls, items, n)
    \<Longrightarrow> map entry_id items = map entry_id calls \<and> (\<forall>y \<in> set items. role y = JStr ''tool'')"
  by (induction g cs arbitrary: calls items n rule: build_calls.induct)
    (auto simp: call_item_shape split: prod.splits option.splits)

lemma build_calls_ids:
  assumes "build_calls g cs = (calls, items, n)"
  shows "map entry_id calls = map (JStr \<circ> fst) (filter (\<lambda>c. call_item g (fst c) \<noteq> None) cs)"
  using assms
  by (induction g cs arbitrary: calls items n rule: build_calls.induct)
    (auto split: prod.splits option.splits)

lemma whole_turn_build:
  assumes "group_ok g" shows "whole_turn (fst (build_items g))"
proof (cases "g_step g")
  case False
  then show ?thesis
    by (simp add: whole_turn_def build_items_def Let_def role_def tool_calls_def field_def as_dict_def)
next
  case True
  obtain calls items n where b: "build_calls g (g_calls g) = (calls, items, n)" by (metis prod_cases3)
  note shape = build_calls_shape [OF b]
  have len: "length items = length calls" using shape by (metis length_map)
  define head where "head = (''role'', JStr ''assistant'')
    # (if strip (g_text g) \<noteq> [] then [(''text'', JStr (take MAX_TEXT_CHARS (g_text g)))] else [])
    @ (if calls \<noteq> [] then [(''tool_calls'', JList calls)] else [])"
  have items: "fst (build_items g) = (if 1 < length head then [JObj head] else []) @ (if calls \<noteq> [] then items else [])"
    using True by (simp add: build_items_def b Let_def head_def)
  have tc: "tool_calls (JObj head) = calls" and role: "role (JObj head) = JStr ''assistant''"
    by (simp_all add: tool_calls_def role_def head_def field_def as_dict_def)
  have dist: "distinct (map entry_id calls)"
    unfolding build_calls_ids [OF b] using assms
    by (simp add: group_ok_def distinct_map inj_on_def)
  have nz: "calls \<noteq> [] \<Longrightarrow> 1 < length head" by (simp add: head_def)
  have turn: "paired (JObj head # items @ rest) = paired rest" for rest
    using shape dist by (simp add: tc role Let_def len)
  show ?thesis
    unfolding whole_turn_def items
  proof
    fix rest
    show "paired (((if 1 < length head then [JObj head] else []) @ (if calls \<noteq> [] then items else [])) @ rest) = paired rest"
      using turn [of rest] nz len by (cases "calls = []") (auto simp del: paired.simps)
  qed
qed


lemma keep_newest_take:
  "keep_newest mb mi parts sz n = take (length (keep_newest mb mi parts sz n)) parts"
  by (induction mb mi parts sz n rule: keep_newest.induct) (simp_all add: Let_def)

abbreviation size_of :: "json list \<Rightarrow> nat" where
  "size_of items \<equiv> sum_list (map item_size items)"

lemma keep_newest_fits:
  "sz \<le> mb \<Longrightarrow> n \<le> mi \<Longrightarrow>
    sz + size_of (concat (keep_newest mb mi parts sz n)) \<le> mb \<and> n + length (concat (keep_newest mb mi parts sz n)) \<le> mi"
  by (induction mb mi parts sz n rule: keep_newest.induct) (auto simp: Let_def)

text \<open>No longer prefix of the newest-first list fits.\<close>

lemma keep_newest_longest:
  "sz + size_of (concat (take k parts)) \<le> mb \<Longrightarrow> n + length (concat (take k parts)) \<le> mi \<Longrightarrow> k \<le> length parts
    \<Longrightarrow> k \<le> length (keep_newest mb mi parts sz n)"
proof (induction mb mi parts sz n arbitrary: k rule: keep_newest.induct)
  case (2 mb mi items rest sz n)
  show ?case
  proof (cases k)
    case (Suc j)
    have "\<not> (mb < sz + size_of items \<or> mi < n + length items)" using "2.prems" Suc by auto
    then show ?thesis using "2.IH" [OF refl, of j] "2.prems" Suc by (simp add: Let_def)
  qed simp
qed simp


text \<open>The turns that are kept, and the bound they are held to.\<close>

definition fits :: "nat \<Rightarrow> nat \<Rightarrow> json list list \<Rightarrow> bool" where
  "fits mb mi ts \<longleftrightarrow> size_of (concat ts) \<le> mb \<and> length (concat ts) \<le> mi"

definition kept_turns :: "nat \<Rightarrow> nat \<Rightarrow> json list list \<Rightarrow> json list list" where
  "kept_turns mb mi parts = dropWhile (\<lambda>items. \<not> starts_user items) (rev (keep_newest mb mi (rev parts) 0 0))"

lemma rebuild_history_cases:
  assumes "rebuild_history events mb mi = Some h"
  obtains st where "read_log events \<lparr>l_groups = [], l_index = []\<rparr> = Some st" and "log_ok st"
    and "h_items h = concat (kept_turns mb mi (per_group (l_groups st)))"
    and "h_omitted h = length (concat (per_group (l_groups st))) - length (h_items h)"
  using assms log_ok_read [OF log_ok_empty]
  by (fastforce simp: rebuild_history_def kept_turns_def Let_def length_concat split: option.splits)

lemma rev_keep_newest:
  "\<exists>old. parts = old @ rev (keep_newest mb mi (rev parts) sz n)"
proof -
  have "rev parts = keep_newest mb mi (rev parts) sz n @ drop (length (keep_newest mb mi (rev parts) sz n)) (rev parts)"
    by (metis append_take_drop_id keep_newest_take)
  then show ?thesis by (metis rev_append rev_rev_ident)
qed

lemma size_of_concat_rev: "size_of (concat (rev ts)) = size_of (concat ts)" "length (concat (rev ts)) = length (concat ts)"
  by (induction ts) simp_all

lemma fits_keep_newest: "fits mb mi (rev (keep_newest mb mi parts 0 0))"
  using keep_newest_fits [of 0 mb 0 mi parts] by (simp add: fits_def size_of_concat_rev)

lemma fits_suffix: "fits mb mi (xs @ ys) \<Longrightarrow> fits mb mi ys"
  by (simp add: fits_def)

lemma kept_turns_suffix:
  "\<exists>old. parts = old @ kept_turns mb mi parts" and kept_turns_fit: "fits mb mi (kept_turns mb mi parts)"
proof -
  let ?r = "rev (keep_newest mb mi (rev parts) 0 0)"
  have split: "?r = takeWhile (\<lambda>items. \<not> starts_user items) ?r @ kept_turns mb mi parts"
    by (simp add: kept_turns_def)
  show "\<exists>old. parts = old @ kept_turns mb mi parts"
    using rev_keep_newest [of parts mb mi 0 0] split by (metis append.assoc)
  show "fits mb mi (kept_turns mb mi parts)"
    using fits_keep_newest [of mb mi "rev parts"] split by (metis fits_suffix)
qed

lemma kept_turns_start: "kept_turns mb mi parts \<noteq> [] \<Longrightarrow> starts_user (hd (kept_turns mb mi parts))"
  using hd_dropWhile [of "\<lambda>items. \<not> starts_user items" "rev (keep_newest mb mi (rev parts) 0 0)"]
  by (simp add: kept_turns_def)

lemma dropWhile_longest:
  assumes "ys = [] \<or> \<not> P (hd ys)" shows "length ys \<le> length (dropWhile P (pre @ ys))"
proof (cases "\<forall>x \<in> set pre. P x")
  case True
  then show ?thesis using assms by (cases ys) (simp_all add: dropWhile_append2)
next
  case False
  then show ?thesis by (auto simp: dropWhile_append1)
qed

lemma kept_turns_longest:
  assumes parts: "parts = old @ ts" and fit: "fits mb mi ts" and start: "ts = [] \<or> starts_user (hd ts)"
  shows "length ts \<le> length (kept_turns mb mi parts)"
proof -
  let ?k = "keep_newest mb mi (rev parts) 0 0"
  have "take (length ts) (rev parts) = rev ts" by (simp add: parts)
  then have "length ts \<le> length ?k"
    using keep_newest_longest [of 0 "length ts" "rev parts" mb 0 mi] fit
    by (simp add: fits_def size_of_concat_rev parts)
  moreover obtain old' where "old' @ rev ?k = old @ ts"
    using rev_keep_newest [of parts mb mi 0 0] parts by metis
  ultimately obtain pre where "rev ?k = pre @ ts"
    by (auto simp: append_eq_append_conv2)
  then show ?thesis unfolding kept_turns_def using dropWhile_longest [of ts "\<lambda>items. \<not> starts_user items" pre] start by simp
qed

lemma per_group_turns:
  assumes "\<forall>g \<in> set groups. group_ok g" and "t \<in> set (per_group groups)"
  shows "whole_turn t" "t \<noteq> []"
proof -
  have "t \<in> set (filter (\<lambda>items. items \<noteq> []) (map (fst \<circ> build_items) groups))"
    using assms(2) unfolding per_group_def by (rule set_dropWhileD)
  then show "whole_turn t" "t \<noteq> []" using assms(1) whole_turn_build by auto
qed


section \<open>Where a rewind cuts\<close>

lemma first_index_Some:
  "first_index P xs = Some i \<Longrightarrow> i < length xs \<and> P (xs ! i) \<and> (\<forall>j<i. \<not> P (xs ! j))"
proof (induction xs arbitrary: i)
  case (Cons x xs)
  then show ?case by (cases i) (auto split: if_splits simp: less_Suc_eq_0_disj)
qed simp

lemma first_index_None: "first_index P xs = None \<longleftrightarrow> (\<forall>x \<in> set xs. \<not> P x)"
  by (induction xs) auto

lemma after_last_0: "after_last P xs = 0 \<longleftrightarrow> (\<forall>x \<in> set xs. \<not> P x)"
  by (induction xs) auto

lemma after_last_witness: "i < after_last P xs \<Longrightarrow> \<exists>j\<ge>i. j < length xs \<and> P (xs ! j)"
proof (induction xs arbitrary: i)
  case (Cons x xs)
  show ?case
  proof (cases "after_last P xs")
    case 0
    then show ?thesis using Cons.prems by (auto split: if_splits)
  next
    case (Suc k)
    then obtain j where "j \<ge> i - 1" "j < length xs" "P (xs ! j)"
      using Cons.IH [of "i - 1"] Cons.prems by force
    then show ?thesis by (intro exI [of _ "Suc j"]) auto
  qed
qed simp

text \<open>What stays before the cut: no owner of the step, and no checkpointed call that might own it.\<close>

lemma cut_index_bound: "cut_index gs n \<le> length gs"
  using after_last_bound [of "\<lambda>g. \<exists>s \<in> set (g_steps g). s < n" gs]
  by (auto simp: cut_index_def Let_def dest!: first_index_Some split: option.splits)

lemma cut_index_no_owner:
  assumes "i < cut_index gs n" shows "n \<notin> set (g_steps (gs ! i))"
proof (cases "first_index (\<lambda>g. n \<in> set (g_steps g)) gs")
  case (Some k)
  then show ?thesis using first_index_Some [OF Some] assms by (simp add: cut_index_def)
next
  case None
  then show ?thesis using cut_index_bound [of gs n] assms by (simp add: first_index_None)
qed

lemma cut_index_conservative:
  assumes none: "\<forall>g \<in> set gs. n \<notin> set (g_steps g)" and i: "i < cut_index gs n"
    and g: "g_step (gs ! i)" "has_checkpointed (gs ! i)"
  shows "\<exists>j\<ge>i. j < length gs \<and> (\<exists>s \<in> set (g_steps (gs ! j)). s < n)"
proof -
  define lo where "lo = after_last (\<lambda>g. \<exists>s \<in> set (g_steps g). s < n) gs"
  have owner: "first_index (\<lambda>g. n \<in> set (g_steps g)) gs = None" using none by (simp add: first_index_None)
  have lo: "lo \<le> length gs" by (simp add: lo_def after_last_bound)
  have "i < lo"
  proof (rule ccontr)
    assume "\<not> i < lo"
    then have ge: "lo \<le> i" by simp
    show False
    proof (cases "first_index (\<lambda>g. g_step g \<and> has_checkpointed g) (drop lo gs)")
      case None
      have "i < length gs" using i cut_index_bound [of gs n] by simp
      then have "gs ! i \<in> set (drop lo gs)" using ge by (auto simp: in_set_conv_nth intro!: exI [of _ "i - lo"])
      then show False using None g by (auto simp: first_index_None)
    next
      case (Some k)
      have "cut_index gs n = lo + k" by (simp add: cut_index_def owner Let_def lo_def [symmetric] Some)
      then have "i - lo < k" using i ge by simp
      then show False using first_index_Some [OF Some] g ge lo by auto
    qed
  qed
  then show ?thesis unfolding lo_def by (rule after_last_witness)
qed

section \<open>Bounds of a shortened output\<close>

lemma digits_of_length: "n < 10 ^ k \<Longrightarrow> 0 < k \<Longrightarrow> length (digits_of n) \<le> k"
proof (induction n arbitrary: k rule: digits_of.induct)
  case (1 n)
  show ?case
  proof (cases "n < 10")
    case False
    then have "k \<noteq> 1" using "1.prems" by auto
    then have "1 < k" using "1.prems" by simp
    then obtain j where k: "k = Suc j" "0 < j" by (cases k) auto
    then have "n div 10 < 10 ^ j" using "1.prems" by (simp add: less_mult_imp_div_less mult.commute)
    then show ?thesis using "1.IH" [of j] k False by (simp add: digits_of.simps [of n])
  qed (use "1.prems" in \<open>simp add: digits_of.simps [of n]\<close>)
qed


section \<open>Properties\<close>

text \<open>A log used by the examples.\<close>

definition sample_log :: "(string \<times> json) list" where
  "sample_log =
    [(''user.message'', JObj [(''text'', JStr ''one'')]),
     (''tool.call'', JObj [(''call_id'', JStr ''a''), (''tool'', JStr ''edit_file''), (''input'', JObj [])]),
     (''tool.result'', JObj [(''call_id'', JStr ''a''), (''ok'', JBool True), (''output'', JStr ''done'')]),
     (''checkpoint'', JObj [(''step'', JInt 1), (''call_id'', JStr ''a'')]),
     (''user.message'', JObj [(''text'', JStr ''two'')]),
     (''tool.call'', JObj [(''call_id'', JStr ''b''), (''tool'', JStr ''run_command''), (''input'', JObj [])]),
     (''tool.closed'', JObj [(''call_id'', JStr ''b''), (''status'', JStr ''denied'')]),
     (''tool.call'', JObj [(''call_id'', JStr ''c''), (''tool'', JStr ''edit_file''), (''input'', JObj [])])]"

definition sample_history :: history where
  "sample_history = the (rebuild_history sample_log 280 100)"

definition sample_state :: log_state where
  "sample_state = the (read_log sample_log \<lparr>l_groups = [], l_index = []\<rparr>)"

lemma sample_history: "rebuild_history sample_log 280 100 = Some sample_history"
  by code_simp

lemma sample_state: "read_log sample_log \<lparr>l_groups = [], l_index = []\<rparr> = Some sample_state"
  by code_simp

text \<open>C29: A rebuilt history is well formed: it starts with a user item, every assistant item is followed at once by exactly one tool item for each of its calls, in their order and with their ids, and no tool item stands anywhere else; its items are at most \<open>max_items\<close> and their encoded sizes at most \<open>max_bytes\<close>.\<close>

theorem history_is_well_formed:
  assumes "rebuild_history events max_bytes max_items = Some h"
  shows "paired (h_items h) \<and> (h_items h = [] \<or> role (hd (h_items h)) = JStr ''user'')
    \<and> length (h_items h) \<le> max_items \<and> size_of (h_items h) \<le> max_bytes"
proof -
  obtain st where st: "log_ok st" and items: "h_items h = concat (kept_turns max_bytes max_items (per_group (l_groups st)))"
    using assms by (rule rebuild_history_cases)
  let ?kept = "kept_turns max_bytes max_items (per_group (l_groups st))"
  obtain old where old: "per_group (l_groups st) = old @ ?kept" using kept_turns_suffix by blast
  have turns: "whole_turn t \<and> t \<noteq> []" if "t \<in> set ?kept" for t
    using per_group_turns [of "l_groups st" t] st that old by (metis Un_iff log_ok_def set_append)
  have "paired (h_items h)" using turns by (simp add: items paired_turns)
  moreover have "h_items h = [] \<or> role (hd (h_items h)) = JStr ''user''"
  proof (cases ?kept)
    case (Cons t ts)
    then have "starts_user t" using kept_turns_start [of max_bytes max_items "per_group (l_groups st)"] by simp
    then show ?thesis using Cons by (simp add: items starts_user_def hd_append)
  qed (simp add: items)
  ultimately show ?thesis
    using kept_turns_fit [of max_bytes max_items "per_group (l_groups st)"] by (simp add: items fits_def)
qed

theorem history_is_well_formed_witness:
  "paired (h_items sample_history) \<and> length (h_items sample_history) = 3 \<and> size_of (h_items sample_history) \<le> 280"
proof -
  have "length (h_items sample_history) = 3" by code_simp
  then show ?thesis using history_is_well_formed [OF sample_history] by simp
qed

text \<open>C30: Size is kept by leaving out the oldest groups whole. The groups are the user messages and the assistant steps with their results, each a whole turn of the exchange (calls and their results together). What is kept is a suffix of the conversation's groups; it meets both bounds, it is empty or starts with a user message, and it is the longest such suffix: every suffix that meets both bounds and starts with a user message is no longer. \<open>omitted\<close> counts the items of the groups before it.\<close>

theorem history_keeps_the_newest_turns:
  assumes "rebuild_history events max_bytes max_items = Some h"
  shows "\<exists>st old kept. read_log events \<lparr>l_groups = [], l_index = []\<rparr> = Some st
    \<and> per_group (l_groups st) = old @ kept \<and> (\<forall>t \<in> set (old @ kept). t \<noteq> [] \<and> whole_turn t)
    \<and> h_items h = concat kept \<and> h_omitted h = length (concat old)
    \<and> fits max_bytes max_items kept \<and> (kept = [] \<or> starts_user (hd kept))
    \<and> (\<forall>front ts. per_group (l_groups st) = front @ ts \<and> fits max_bytes max_items ts \<and> (ts = [] \<or> starts_user (hd ts))
        \<longrightarrow> length ts \<le> length kept)"
proof -
  obtain st where st: "read_log events \<lparr>l_groups = [], l_index = []\<rparr> = Some st" and ok: "log_ok st"
    and items: "h_items h = concat (kept_turns max_bytes max_items (per_group (l_groups st)))"
    and omitted: "h_omitted h = length (concat (per_group (l_groups st))) - length (h_items h)"
    using assms by (rule rebuild_history_cases)
  let ?kept = "kept_turns max_bytes max_items (per_group (l_groups st))"
  obtain old where old: "per_group (l_groups st) = old @ ?kept" using kept_turns_suffix by blast
  have "length (concat (per_group (l_groups st))) = length (concat old) + length (concat ?kept)"
    by (metis old concat_append length_append)
  then have "h_omitted h = length (concat old)" by (simp add: omitted items)
  moreover have "\<forall>t \<in> set (old @ ?kept). t \<noteq> [] \<and> whole_turn t"
    unfolding old [symmetric] using per_group_turns [of "l_groups st"] ok by (auto simp: log_ok_def)
  moreover have "?kept = [] \<or> starts_user (hd ?kept)" using kept_turns_start by blast
  moreover have "length ts \<le> length ?kept"
    if "per_group (l_groups st) = front @ ts \<and> fits max_bytes max_items ts \<and> (ts = [] \<or> starts_user (hd ts))" for front ts
    using kept_turns_longest that by blast
  ultimately show ?thesis using st old items kept_turns_fit
    by (intro exI [of _ st] exI [of _ old] exI [of _ ?kept] conjI allI impI)
qed

theorem history_keeps_the_newest_turns_witness:
  "\<exists>old kept. h_items sample_history = concat kept \<and> 3 = length (concat old)
    \<and> per_group (l_groups sample_state) = old @ kept \<and> starts_user (hd kept) \<and> size_of (concat kept) \<le> 280
    \<and> \<not> fits 280 100 (per_group (l_groups sample_state))"
proof -
  have f: "h_omitted sample_history = 3" "h_items sample_history \<noteq> []" "\<not> fits 280 100 (per_group (l_groups sample_state))" by code_simp+
  from history_keeps_the_newest_turns [OF sample_history] obtain old kept
    where "per_group (l_groups sample_state) = old @ kept" "h_items sample_history = concat kept" "3 = length (concat old)"
      "fits 280 100 kept" "kept = [] \<or> starts_user (hd kept)" by (auto simp: sample_state f(1))
  then show ?thesis using f(2,3) by (intro exI [of _ old] exI [of _ kept]) (auto simp: fits_def)
qed

text \<open>A rewind leaves nothing of the undone step: no group that stays owns the step; when no group owns it, every step that stays with a checkpointed call is followed (or is itself) by one known to be earlier; and the groups that stay are the first ones, with the index pointing only at them.\<close>

theorem rewind_cuts_enough:
  assumes ok: "log_ok st" and n: "field d ''to_step'' = JInt n"
    and s: "log_entry (''rewind'', JObj d) st = Some st'"
  shows "log_ok st' \<and> (\<exists>k. l_groups st' = take k (l_groups st)) \<and> (\<forall>g \<in> set (l_groups st'). n \<notin> set (g_steps g))
    \<and> ((\<forall>g \<in> set (l_groups st). n \<notin> set (g_steps g)) \<longrightarrow>
        (\<forall>i < length (l_groups st'). g_step (l_groups st' ! i) \<and> has_checkpointed (l_groups st' ! i)
          \<longrightarrow> (\<exists>j\<ge>i. j < length (l_groups st) \<and> (\<exists>s \<in> set (g_steps (l_groups st ! j)). s < n))))"
proof -
  let ?k = "cut_index (l_groups st) n"
  have st': "l_groups st' = take ?k (l_groups st)"
    using s n by (auto simp: log_entry_def on_rewind_def as_dict_def Let_def)
  have "n \<notin> set (g_steps g)" if "g \<in> set (l_groups st')" for g
    using that cut_index_no_owner [of _ "l_groups st" n] by (auto simp: st' in_set_conv_nth)
  moreover have "\<exists>j\<ge>i. j < length (l_groups st) \<and> (\<exists>s \<in> set (g_steps (l_groups st ! j)). s < n)"
    if "\<forall>g \<in> set (l_groups st). n \<notin> set (g_steps g)" "i < length (l_groups st')"
      "g_step (l_groups st' ! i)" "has_checkpointed (l_groups st' ! i)" for i
    by (rule cut_index_conservative) (use that in \<open>auto simp: st'\<close>)
  ultimately show ?thesis using log_ok_entry [OF ok s] st' by blast
qed

theorem rewind_cuts_enough_witness:
  "\<exists>st'. log_entry (''rewind'', JObj [(''to_step'', JInt 1)]) sample_state = Some st'
    \<and> log_ok st' \<and> length (l_groups st') = 1 \<and> 1 \<notin> set (g_steps (hd (l_groups st')))"
proof -
  let ?e = "(''rewind'', JObj [(''to_step'', JInt 1)])"
  obtain st' where s: "log_entry ?e sample_state = Some st'"
    by (simp add: log_entry_def Let_def)
  have "map_option (\<lambda>st. length (l_groups st)) (log_entry ?e sample_state) = Some 1" by code_simp
  moreover have "field [(''to_step'', JInt 1)] ''to_step'' = JInt 1" by (simp add: field_def)
  ultimately show ?thesis
    using rewind_cuts_enough [OF log_ok_read [OF log_ok_empty sample_state] _ s] s
    by (cases "l_groups st'") auto
qed

text \<open>Reading a log never fails when no call id in it is a list or an object, whatever else the entries hold; the groups and the index it ends with are well formed.\<close>

theorem history_is_total:
  assumes "plain_ids events"
  shows "\<exists>h st. rebuild_history events max_bytes max_items = Some h
    \<and> read_log events \<lparr>l_groups = [], l_index = []\<rparr> = Some st \<and> log_ok st"
proof -
  obtain st where st: "read_log events \<lparr>l_groups = [], l_index = []\<rparr> = Some st"
    using read_log_total [OF assms] by blast
  then show ?thesis using log_ok_read [OF log_ok_empty st] by (simp add: rebuild_history_def Let_def)
qed

theorem history_is_total_witness: "\<exists>h. rebuild_history sample_log 0 0 = Some h"
proof -
  have "plain_ids sample_log" by code_simp
  then show ?thesis using history_is_total by blast
qed

text \<open>An output is kept as it is up to the limit; a longer one is its head, a marker and its tail, at most the limit in all for any text a machine can hold, and the flag says which.\<close>

theorem shorten_output_bounds:
  assumes "length t < 2 ^ 63" and "shorten_output t = (out, was_cut)"
  shows "length out \<le> MAX_OUTPUT_CHARS \<and> (was_cut \<longleftrightarrow> out \<noteq> t) \<and> (was_cut \<longleftrightarrow> MAX_OUTPUT_CHARS < length t)
    \<and> take HEAD_CHARS out = take HEAD_CHARS t \<and> shorten_output out = (out, False)"
proof (cases "length t \<le> MAX_OUTPUT_CHARS")
  case True
  then show ?thesis using assms by (simp add: shorten_output_def)
next
  case False
  define left where "left = length t - HEAD_CHARS - TAIL_CHARS"
  have out: "out = take HEAD_CHARS t @ marker left @ drop (length t - TAIL_CHARS) t" and c: "was_cut"
    using assms False by (simp_all add: shorten_output_def left_def)
  have "left < 10 ^ 19" using assms(1) by (simp add: left_def)
  then have "length (digits_of left) \<le> 19" by (intro digits_of_length) simp_all
  then have m: "length (marker left) \<le> 100" by (simp add: marker_def)
  have len: "length out = HEAD_CHARS + length (marker left) + TAIL_CHARS"
    using False by (simp add: out MAX_OUTPUT_CHARS_def HEAD_CHARS_def TAIL_CHARS_def)
  have bound: "length out \<le> MAX_OUTPUT_CHARS"
    using len m by (simp add: MAX_OUTPUT_CHARS_def HEAD_CHARS_def TAIL_CHARS_def)
  moreover have "take HEAD_CHARS out = take HEAD_CHARS t"
    using False by (simp add: out MAX_OUTPUT_CHARS_def HEAD_CHARS_def)
  ultimately show ?thesis using False c by (auto simp: shorten_output_def)
qed

theorem shorten_output_bounds_witness:
  "shorten_output (replicate 40000 CHR ''x'') \<noteq> (replicate 40000 CHR ''x'', False)
    \<and> length (fst (shorten_output (replicate 40000 CHR ''x''))) \<le> MAX_OUTPUT_CHARS"
  using shorten_output_bounds [of "replicate 40000 CHR ''x''" "fst (shorten_output (replicate 40000 CHR ''x''))"
      "snd (shorten_output (replicate 40000 CHR ''x''))"]
  by (auto simp: MAX_OUTPUT_CHARS_def)

end
