(* ===== verification/Instructions.thy ===== *)
theory Instructions
  imports Paths
begin

text \<open>
  \<open>m2c/src/m2c/context/instructions.py\<close>: the instruction files of a session with their \<open>@path\<close>
  imports, and the helpers that the rule loader shares. The file system and the UTF-8 decoder are
  arguments (the record \<open>file_system\<close>). The two methods \<open>_expand\<close> and \<open>_import\<close> call each other;
  here \<open>expand\<close> takes the import call as an argument and \<open>import_file\<close> recurses on the number of
  import levels that are left, which is what \<open>max_depth\<close> bounds.
\<close>

section \<open>Notes\<close>

record context_note =
  n_code :: string
  n_source :: string
  n_message :: string

definition mk_note :: "string \<Rightarrow> string \<Rightarrow> string \<Rightarrow> context_note" where
  "mk_note c src m = \<lparr>n_code = c, n_source = src, n_message = m\<rparr>"

definition REASONS :: "string \<Rightarrow> string" where
  "REASONS c = (case map_of
    [(''missing'', ''file not found''),
     (''not_text'', ''not a text file (only .md and .txt can be imported)''),
     (''outside_root'', ''it is outside the allowed directory''),
     (''symlink_escape'', ''a symbolic link leads outside the allowed directory''),
     (''cycle'', ''import cycle''),
     (''depth_limit'', ''import depth limit reached''),
     (''duplicate'', ''already included''),
     (''unreadable'', ''could not be read''),
     (''import_budget'', ''import size budget used up'')] c of Some r \<Rightarrow> r | None \<Rightarrow> [])"

section \<open>Bytes\<close>

text \<open>A code point below 128 takes one byte in UTF-8, one up to U+00FF two.\<close>

definition utf8_len :: "char \<Rightarrow> nat" where
  "utf8_len c = (if (of_char c :: nat) < 128 then 1 else 2)"

definition nbytes :: "string \<Rightarrow> nat" where
  "nbytes s = sum_list (map utf8_len s)"

fun clip_chars :: "nat \<Rightarrow> string \<Rightarrow> string" where
  "clip_chars n [] = []"
| "clip_chars n (c # cs) = (if utf8_len c \<le> n then c # clip_chars (n - utf8_len c) cs else [])"

text \<open>\<open>raw[:max_bytes].decode("utf-8", "ignore")\<close> drops the character the cut falls into.\<close>

definition clip_utf8 :: "string \<Rightarrow> int \<Rightarrow> string" where
  "clip_utf8 text max_bytes =
    (if max_bytes \<le> 0 then []
     else if int (nbytes text) \<le> max_bytes then text
     else clip_chars (nat max_bytes) text)"

text \<open>\<open>text.rfind("\n")\<close>, \<open>None\<close> for -1.\<close>

definition rfind_char :: "char \<Rightarrow> string \<Rightarrow> nat option" where
  "rfind_char c s = (let r = dropWhile (\<lambda>x. x \<noteq> c) (rev s) in if r = [] then None else Some (length r - 1))"

definition cut_at_line :: "string \<Rightarrow> string" where
  "cut_at_line text = (case rfind_char NL text of Some k \<Rightarrow> if 0 < k then take k text else text | None \<Rightarrow> text)"

section \<open>Labels and places\<close>

text \<open>\<open>str.isprintable\<close> on one code point up to U+00FF.\<close>

definition py_printable :: "char \<Rightarrow> bool" where
  "py_printable c \<longleftrightarrow> (let n = (of_char c :: nat) in (32 \<le> n \<and> n \<le> 126) \<or> (161 \<le> n \<and> n \<noteq> 173))"

definition safe_label :: "string \<Rightarrow> string" where
  "safe_label v = take 120 (map (\<lambda>c. if py_printable c \<and> c \<notin> set ''<>'' then c else CHR ''_'') v)"

definition inside_dir :: "string \<Rightarrow> string \<Rightarrow> bool" where
  "inside_dir path base \<longleftrightarrow> path = base \<or> prefix (if suffix ''/'' base then base else base @ ''/'') path"

definition classify_escape :: "string \<Rightarrow> string \<Rightarrow> string \<Rightarrow> string option" where
  "classify_escape lexical real base_real =
    (if inside_dir real base_real then None
     else Some (if inside_dir lexical base_real then ''symlink_escape'' else ''outside_root''))"

definition skipped :: "string \<Rightarrow> string \<Rightarrow> context_note" where
  "skipped c label = mk_note c label (''Skipped '' @ safe_label label @ '': '' @ REASONS c @ ''.'')"

text \<open>\<open>os.path.join\<close> of two parts.\<close>

definition path_join :: "string \<Rightarrow> string \<Rightarrow> string" where
  "path_join a b = (if prefix ''/'' b then b else if a = [] \<or> suffix ''/'' a then a @ b else a @ ''/'' @ b)"

section \<open>Names of files\<close>

fun common_length :: "string list \<Rightarrow> string list \<Rightarrow> nat" where
  "common_length (x # xs) (y # ys) = (if x = y then Suc (common_length xs ys) else 0)"
| "common_length _ _ = 0"

text \<open>\<open>os.path.relpath\<close> of two normalised absolute paths.\<close>

definition relpath :: "string \<Rightarrow> string \<Rightarrow> string" where
  "relpath path start =
    (let sl = filter (\<lambda>x. x \<noteq> []) (split_on (CHR ''/'') start);
         pl = filter (\<lambda>x. x \<noteq> []) (split_on (CHR ''/'') path);
         i = common_length sl pl;
         rel = replicate (length sl - i) ''..'' @ drop i pl
     in if rel = [] then ''.'' else join ''/'' rel)"

definition rel_label :: "string \<Rightarrow> string \<Rightarrow> string \<Rightarrow> string" where
  "rel_label real base_real pre = (let rel = relpath real base_real in pre @ (if rel = ''.'' then [] else rel))"

text \<open>\<open>os.path.dirname\<close> and \<open>os.path.splitext(p)[1].lower()\<close>.\<close>

definition dirname :: "string \<Rightarrow> string" where
  "dirname p =
    (let h = take (length p - length (basename p)) p
     in if set h \<subseteq> {CHR ''/''} then h else rstrip_char (CHR ''/'') h)"

definition ascii_lower_char :: "char \<Rightarrow> char" where
  "ascii_lower_char c = (if ascii_upper c then char_of ((of_char c :: nat) + 32) else c)"

definition extension :: "string \<Rightarrow> string" where
  "extension p =
    (let b = basename p; e = takeWhile (\<lambda>c. c \<noteq> CHR ''.'') (rev b); stem = drop (Suc (length e)) (rev b)
     in if CHR ''.'' \<in> set b \<and> \<not> set stem \<subseteq> {CHR ''.''} then map ascii_lower_char (CHR ''.'' # rev e) else [])"

definition IMPORT_EXTENSIONS :: "string list" where
  "IMPORT_EXTENSIONS = [''.md'', ''.txt'']"

section \<open>Reading a file\<close>

text \<open>
  The file system: \<open>os.path.lexists\<close>, \<open>os.path.realpath\<close>, and what opening a resolved path and
  reading at most the given number of bytes answers: \<open>missing\<close> or \<open>unreadable\<close>, or the bytes. The
  UTF-8 decoder (with the byte order mark removed) is a parameter too; its first argument is \<open>final\<close>.
\<close>

record file_system =
  fs_lexists :: "string \<Rightarrow> bool"
  fs_realpath :: "string \<Rightarrow> string"
  fs_bytes :: "string \<Rightarrow> nat \<Rightarrow> string + string"
  fs_decode :: "bool \<Rightarrow> string \<Rightarrow> string"

text \<open>\<open>.replace("\r\n", "\n").replace("\r", "\n")\<close>.\<close>

fun unix_lines :: "string \<Rightarrow> string" where
  "unix_lines [] = []"
| "unix_lines (c # cs) =
    (if c = CHR 0x0D then NL # (case cs of [] \<Rightarrow> [] | d # ds \<Rightarrow> if d = NL then unix_lines ds else unix_lines cs)
     else c # unix_lines cs)"

definition read_text_capped :: "file_system \<Rightarrow> string \<Rightarrow> nat \<Rightarrow> string + string \<times> bool" where
  "read_text_capped fs real max_bytes =
    bindE (fs_bytes fs real (max_bytes + 1)) (\<lambda>all.
      let truncated = max_bytes < length all; raw = take max_bytes all in
      if NUL \<in> set raw then Inl ''not_text''
      else (let content = unix_lines (fs_decode fs (\<not> truncated) raw)
            in Inr (if truncated then cut_at_line content else content, truncated)))"

section \<open>The loader\<close>

record settings =
  cf_fs :: file_system
  cf_max_depth :: nat
  cf_max_file_bytes :: nat
  cf_max_total_bytes :: nat

text \<open>The state of one \<open>load_instructions\<close> call. The set \<open>seen\<close> is the list of what was added to it.\<close>

record loader =
  ld_seen :: "string list"
  ld_notes :: "context_note list"
  ld_imports :: "string list"
  ld_imported_bytes :: nat

definition new_loader :: loader where
  "new_loader = \<lparr>ld_seen = [], ld_notes = [], ld_imports = [], ld_imported_bytes = 0\<rparr>"

definition add_note :: "context_note \<Rightarrow> loader \<Rightarrow> loader" where
  "add_note n st = st\<lparr>ld_notes := ld_notes st @ [n]\<rparr>"

text \<open>The file that is being expanded.\<close>

record importer =
  im_real :: string
  im_label :: string
  im_base :: string
  im_prefix :: string
  im_stack :: "string list"

definition truncation_marker :: "nat \<Rightarrow> string \<Rightarrow> string" where
  "truncation_marker max_file label =
    ''<!-- m2c: truncated: '' @ safe_label label @ '' is larger than '' @ digits_of max_file @ '' bytes; the rest was left out -->''"

definition truncation_note :: "nat \<Rightarrow> string \<Rightarrow> context_note" where
  "truncation_note max_file label =
    mk_note ''truncated'' label (safe_label label @ '' is larger than '' @ digits_of max_file @ '' bytes; the rest was left out.'')"

definition mark_truncated :: "settings \<Rightarrow> string \<Rightarrow> bool \<Rightarrow> string \<times> loader \<Rightarrow> string \<times> loader" where
  "mark_truncated cf label truncated r =
    (case r of (body, st) \<Rightarrow>
      if truncated
      then (body @ [NL] @ truncation_marker (cf_max_file_bytes cf) label,
            add_note (truncation_note (cf_max_file_bytes cf) label) st)
      else (body, st))"

section \<open>The import syntax\<close>

definition path_char :: "char \<Rightarrow> bool" where
  "path_char c \<longleftrightarrow> \<not> py_space c \<and> c \<notin> set ''()<>[]{},;'' \<and> c \<notin> {DQ, SQ, BTK}"

definition may_precede :: "char \<Rightarrow> bool" where
  "may_precede c \<longleftrightarrow> py_space c \<or> c \<in> set ''([{'' \<or> c \<in> {DQ, SQ}"

text \<open>
  \<open>_IMPORT_RE.finditer\<close>: the start of each match and its \<open>path\<close> group. \<open>ok\<close> says that the
  lookbehind holds at position \<open>i\<close>, \<open>skip\<close> is the number of characters of the last match left.
\<close>

fun import_matches :: "nat \<Rightarrow> bool \<Rightarrow> nat \<Rightarrow> string \<Rightarrow> (nat \<times> string) list" where
  "import_matches i ok skip [] = []"
| "import_matches i ok skip (c # cs) =
    (if skip = 0 \<and> c = CHR ''@'' \<and> ok \<and> takeWhile path_char cs \<noteq> []
     then (i, takeWhile path_char cs) # import_matches (i + 1) (may_precede c) (length (takeWhile path_char cs)) cs
     else import_matches (i + 1) (may_precede c) (skip - 1) cs)"

text \<open>
  \<open>_CODE_SPAN_RE.finditer\<close>. With \<open>k\<close> opening backticks the shortest span of at least one
  character closed by \<open>k\<close> backticks is taken; fewer opening backticks are tried when there is none.
\<close>

fun closing :: "nat \<Rightarrow> nat \<Rightarrow> string \<Rightarrow> nat option" where
  "closing k e [] = None"
| "closing k e (c # cs) = (if prefix (replicate k BTK) (c # cs) then Some e else closing k (e + 1) cs)"

fun span_of :: "nat \<Rightarrow> nat \<Rightarrow> string \<Rightarrow> nat option" where
  "span_of i 0 rest = None"
| "span_of i (Suc k) rest =
    (case closing (Suc k) (i + Suc k + 1) (drop (Suc k + 1) rest) of
       Some e \<Rightarrow> Some (e + Suc k)
     | None \<Rightarrow> span_of i k rest)"

fun code_spans :: "nat \<Rightarrow> nat \<Rightarrow> string \<Rightarrow> (nat \<times> nat) list" where
  "code_spans i skip [] = []"
| "code_spans i skip (c # cs) =
    (if skip \<noteq> 0 then code_spans (i + 1) (skip - 1) cs
     else
       (case span_of i (length (takeWhile (\<lambda>x. x = BTK) (c # cs))) (c # cs) of
          Some e \<Rightarrow> (i, e) # code_spans (i + 1) (e - i - 1) cs
        | None \<Rightarrow> code_spans (i + 1) 0 cs))"

definition rstrip_set :: "string \<Rightarrow> string \<Rightarrow> string" where
  "rstrip_set cs s = rev (dropWhile (\<lambda>c. c \<in> set cs) (rev s))"

definition alnum :: "char \<Rightarrow> bool" where
  "alnum c \<longleftrightarrow> ascii_alpha c \<or> ascii_digit c"

text \<open>\<open>_PATHLIKE_RE.search\<close>: a slash, or an extension of one to eight characters at the end.\<close>

definition pathlike :: "string \<Rightarrow> bool" where
  "pathlike t \<longleftrightarrow> CHR ''/'' \<in> set t \<or>
    (let e = takeWhile alnum (rev t) in 1 \<le> length e \<and> length e \<le> 8 \<and> prefix ''.'' (drop (length e) (rev t)))"

type_synonym import_call = "string \<Rightarrow> loader \<Rightarrow> (string + string list) \<times> loader"

record line_state =
  ln_lines :: "string list"
  ln_pending :: string
  ln_cursor :: nat
  ln_spliced :: bool

text \<open>One match of the line: \<open>imp\<close> is the call of \<open>_import\<close>.\<close>

definition line_match ::
    "import_call \<Rightarrow> string \<Rightarrow> string \<Rightarrow> (nat \<times> nat) list \<Rightarrow> nat \<times> string \<Rightarrow> line_state \<times> loader \<Rightarrow> line_state \<times> loader" where
  "line_match imp label line spans m s =
    (case (m, s) of ((start, path), (ln, st)) \<Rightarrow>
      let token = rstrip_set ''.:!?'' path; stop = start + 1 + length token in
      if (\<exists>(a, b) \<in> set spans. a \<le> start \<and> start < b) \<or> token = [] \<or> \<not> pathlike token then (ln, st)
      else
        (let pending = ln_pending ln @ substr line (ln_cursor ln) start in
         case imp token st of
           (Inr block, st') \<Rightarrow>
             (\<lparr>ln_lines = ln_lines ln @ (if strip pending \<noteq> [] then [rstrip pending] else []) @ block,
               ln_pending = [], ln_cursor = stop, ln_spliced = True\<rparr>, st')
         | (Inl code, st') \<Rightarrow>
             (\<lparr>ln_lines = ln_lines ln,
               ln_pending = pending @ substr line start stop @ '' <!-- m2c: import skipped: '' @ REASONS code @ '' -->'',
               ln_cursor = stop, ln_spliced = ln_spliced ln\<rparr>,
              add_note (mk_note code label (''Import of '' @ safe_label token @ '' in '' @ safe_label label @ '' was skipped: ''
                                 @ REASONS code @ ''.'')) st')))"

definition expand_line :: "import_call \<Rightarrow> string \<Rightarrow> string \<Rightarrow> loader \<Rightarrow> string list \<times> loader" where
  "expand_line imp label line st =
    (case fold (line_match imp label line (code_spans 0 0 line)) (import_matches 0 True 0 line)
            (\<lparr>ln_lines = [], ln_pending = [], ln_cursor = 0, ln_spliced = False\<rparr>, st) of
       (ln, st') \<Rightarrow>
         (let rest = ln_pending ln @ drop (ln_cursor ln) line in
          (ln_lines ln @ (if ln_spliced ln then (if strip rest \<noteq> [] then [lstrip rest] else []) else [rest]), st')))"

text \<open>The lines of a file; the fence is the character that opened a code block.\<close>

fun expand_lines :: "import_call \<Rightarrow> string \<Rightarrow> char option \<Rightarrow> string list \<Rightarrow> loader \<Rightarrow> string list \<times> loader" where
  "expand_lines imp label fence [] st = ([], st)"
| "expand_lines imp label fence (line # rest) st =
    (let stripped = lstrip line;
         (fence', now, st') =
           (case fence of
              Some f \<Rightarrow> (if prefix [f, f, f] stripped then None else fence, [line], st)
            | None \<Rightarrow>
                if prefix [BTK, BTK, BTK] stripped then (Some BTK, [line], st)
                else if prefix ''~~~'' stripped then (Some (CHR ''~''), [line], st)
                else if CHR ''@'' \<notin> set line then (None, [line], st)
                else (case expand_line imp label line st of (ls, st1) \<Rightarrow> (None, ls, st1)));
         (later, st'') = expand_lines imp label fence' rest st'
     in (now @ later, st''))"

definition expand :: "import_call \<Rightarrow> string \<Rightarrow> string \<Rightarrow> loader \<Rightarrow> string \<times> loader" where
  "expand imp label content st =
    (case expand_lines imp label None (split_on NL content) st of (out, st') \<Rightarrow> (join [NL] out, st'))"

section \<open>Imports\<close>

definition strip_newlines :: "string \<Rightarrow> string" where
  "strip_newlines s = rstrip_char NL (lstrip_char NL s)"

definition import_target :: "settings \<Rightarrow> importer \<Rightarrow> string \<Rightarrow> string \<times> string" where
  "import_target cf im token =
    (let lexical = normpath (path_join (dirname (im_real im)) token) in (lexical, fs_realpath (cf_fs cf) lexical))"

text \<open>The refusals of \<open>_import\<close> before the file is read; \<open>deep\<close> says that the depth is used up.\<close>

definition import_refusal :: "settings \<Rightarrow> importer \<Rightarrow> bool \<Rightarrow> string \<Rightarrow> loader \<Rightarrow> string option" where
  "import_refusal cf im deep token st =
    (case import_target cf im token of (lexical, target) \<Rightarrow>
      case classify_escape lexical target (im_base im) of
        Some code \<Rightarrow> Some code
      | None \<Rightarrow>
          if extension lexical \<notin> set IMPORT_EXTENSIONS \<or> extension target \<notin> set IMPORT_EXTENSIONS then Some ''not_text''
          else if deep then Some ''depth_limit''
          else if target \<in> set (im_stack im) then Some ''cycle''
          else if target \<in> set (ld_seen st) then Some ''duplicate''
          else if cf_max_total_bytes cf \<le> ld_imported_bytes st then Some ''import_budget''
          else None)"

definition note_import :: "string \<Rightarrow> string \<Rightarrow> string \<Rightarrow> loader \<Rightarrow> loader" where
  "note_import target label content st =
    st\<lparr>ld_seen := ld_seen st @ [target], ld_imported_bytes := ld_imported_bytes st + nbytes content,
       ld_imports := ld_imports st @ [label]\<rparr>"

definition import_block :: "string \<Rightarrow> string \<Rightarrow> string list" where
  "import_block label body =
    [''<!-- m2c: begin import '' @ safe_label label @ '' -->'']
    @ (if strip body \<noteq> [] then split_on NL (strip_newlines body) else [])
    @ [''<!-- m2c: end import '' @ safe_label label @ '' -->'']"

text \<open>\<open>_import\<close> with the number of levels that are left below the limit.\<close>

fun import_file :: "nat \<Rightarrow> settings \<Rightarrow> importer \<Rightarrow> import_call" where
  "import_file levels cf im token st =
    (case import_refusal cf im (levels = 0) token st of
       Some code \<Rightarrow> (Inl code, st)
     | None \<Rightarrow>
         (let target = snd (import_target cf im token) in
          case read_text_capped (cf_fs cf) target (cf_max_file_bytes cf) of
            Inl code \<Rightarrow> (Inl code, st)
          | Inr (content, truncated) \<Rightarrow>
              (case levels of
                 0 \<Rightarrow> (Inl ''depth_limit'', st)
               | Suc k \<Rightarrow>
                   (let label = rel_label target (im_base im) (im_prefix im);
                        im' = im\<lparr>im_real := target, im_label := label, im_stack := im_stack im @ [target]\<rparr>;
                        (body, st') = mark_truncated cf label truncated
                                        (expand (import_file k cf im') label content (note_import target label content st))
                    in (Inr (import_block label body), st')))))"

declare import_file.simps [simp del]

section \<open>Discovered files\<close>

record chunk =
  ck_label :: string
  ck_text :: string
  ck_imports :: "string list"

definition discovered :: "settings \<Rightarrow> string \<Rightarrow> string \<Rightarrow> string \<Rightarrow> string \<Rightarrow> loader \<Rightarrow> chunk option \<times> loader" where
  "discovered cf candidate label base_real pre st =
    (let real = fs_realpath (cf_fs cf) candidate in
     case classify_escape candidate real base_real of
       Some code \<Rightarrow> (None, add_note (skipped code label) st)
     | None \<Rightarrow>
         if real \<in> set (ld_seen st)
         then (None, add_note (mk_note ''duplicate'' label
                      (''Skipped '' @ safe_label label @ '': same file as one already included.'')) st)
         else
           (case read_text_capped (cf_fs cf) real (cf_max_file_bytes cf) of
              Inl code \<Rightarrow> (None, add_note (skipped code label) st)
            | Inr (content, truncated) \<Rightarrow>
                (let im = \<lparr>im_real = real, im_label = label, im_base = base_real, im_prefix = pre, im_stack = [real]\<rparr>;
                     first_import = length (ld_imports st);
                     (body, st') = mark_truncated cf label truncated
                       (expand (import_file (cf_max_depth cf) cf im) label content (st\<lparr>ld_seen := ld_seen st @ [real]\<rparr>))
                 in if strip body = [] then (None, st')
                    else (Some \<lparr>ck_label = label,
                                ck_text = ''<!-- m2c: instructions from '' @ safe_label label @ '' -->'' @ [NL] @ strip_newlines body,
                                ck_imports = drop first_import (ld_imports st')\<rparr>, st'))))"

fun discover :: "settings \<Rightarrow> string \<Rightarrow> string list \<Rightarrow> string \<Rightarrow> string \<Rightarrow> loader \<Rightarrow> chunk list \<times> loader" where
  "discover cf directory [] base_real pre st = ([], st)"
| "discover cf directory (name # names) base_real pre st =
    (let candidate = path_join directory name in
     if \<not> fs_lexists (cf_fs cf) candidate then discover cf directory names base_real pre st
     else
       (let (c, st1) = discovered cf candidate (rel_label candidate base_real pre) base_real pre st;
            (cs, st2) = discover cf directory names base_real pre st1
        in (case c of None \<Rightarrow> cs | Some x \<Rightarrow> x # cs, st2)))"

section \<open>Fitting the total\<close>

definition omitted_marker :: "string list \<Rightarrow> string" where
  "omitted_marker labels =
    (if labels = [] then []
     else ''<!-- m2c: left out (size limit): '' @ join '', '' (map safe_label labels) @ '' -->'')"

definition fit_total :: "chunk list \<Rightarrow> string list \<Rightarrow> nat" where
  "fit_total kept dropped =
    (let marker = omitted_marker dropped
     in sum_list (map (\<lambda>c. nbytes (ck_text c)) kept) + 2 * (length kept - 1)
        + (if marker \<noteq> [] then nbytes marker + 2 else 0))"

fun fit_drop :: "nat \<Rightarrow> chunk list \<Rightarrow> string list \<Rightarrow> loader \<Rightarrow> chunk list \<times> string list \<times> loader" where
  "fit_drop cap (c # d # kept) dropped st =
    (if cap < fit_total (c # d # kept) dropped
     then fit_drop cap (d # kept) (dropped @ [ck_label c])
            (add_note (mk_note ''total_cap'' (ck_label c)
               (safe_label (ck_label c) @ '' was left out: the instructions exceed the size limit.'')) st)
     else (c # d # kept, dropped, st))"
| "fit_drop cap kept dropped st = (kept, dropped, st)"

definition fit_only :: "nat \<Rightarrow> string \<Rightarrow> chunk \<Rightarrow> chunk" where
  "fit_only cap marker only =
    (let trunc = ''<!-- m2c: truncated: '' @ safe_label (ck_label only) @ '' did not fit the size limit -->'';
         allowed = int cap - (if marker \<noteq> [] then int (nbytes marker) + 2 else 0) - int (nbytes trunc) - 1;
         body = (if 0 < allowed then cut_at_line (clip_utf8 (ck_text only) allowed) else [])
     in only\<lparr>ck_text := if body \<noteq> [] then body @ [NL] @ trunc else trunc\<rparr>)"

definition fit :: "chunk list \<Rightarrow> nat \<Rightarrow> loader \<Rightarrow> string \<times> chunk list \<times> loader" where
  "fit chunks cap st =
    (case fit_drop cap chunks [] st of (kept, dropped, st1) \<Rightarrow>
      let marker = omitted_marker dropped;
          over = kept \<noteq> [] \<and> cap < fit_total kept dropped;
          kept' = (if over then fit_only cap marker (hd kept) # tl kept else kept);
          st2 = (if over then add_note (mk_note ''truncated'' (ck_label (hd kept))
                   (safe_label (ck_label (hd kept)) @ '' was cut: the instructions exceed the size limit.'')) st1 else st1);
          parts = (if marker \<noteq> [] then [marker] else []) @ map ck_text kept'
      in (clip_utf8 (join [NL, NL] parts) (int cap), kept', st2))"

section \<open>The entry point\<close>

definition INSTRUCTION_FILE_NAMES :: "string list" where
  "INSTRUCTION_FILE_NAMES = [''M2C.md'', ''AGENTS.md'', ''CLAUDE.md'']"

definition GLOBAL_FILE_NAMES :: "string list" where
  "GLOBAL_FILE_NAMES = [''M2C.md'']"

record instructions_result =
  ir_text :: string
  ir_sources :: "string list"
  ir_imports :: "string list"
  ir_notes :: "context_note list"

text \<open>The directories from the root down, each searched for the three names.\<close>

fun discover_down :: "settings \<Rightarrow> string \<Rightarrow> string \<Rightarrow> string list \<Rightarrow> loader \<Rightarrow> chunk list \<times> loader" where
  "discover_down cf real_root directory [] st = ([], st)"
| "discover_down cf real_root directory (part # parts) st =
    (let below = path_join directory part;
         (cs, st1) = discover cf below INSTRUCTION_FILE_NAMES real_root [] st;
         (ds, st2) = discover_down cf real_root below parts st1
     in (cs @ ds, st2))"

definition discover_all :: "settings \<Rightarrow> string \<Rightarrow> string \<Rightarrow> string \<Rightarrow> chunk list \<times> loader" where
  "discover_all cf real_root real_cwd global_dir =
    (let (c1, st1) = discover cf global_dir GLOBAL_FILE_NAMES global_dir ''global/'' new_loader;
         (c2, st2) = discover cf real_root INSTRUCTION_FILE_NAMES real_root [] st1;
         rel = relpath real_cwd real_root;
         (c3, st3) = discover_down cf real_root real_root (if rel = ''.'' then [] else split_on (CHR ''/'') rel) st2
     in (c1 @ c2 @ c3, st3))"

text \<open>With the resolved root, working directory and global directory; \<open>None\<close> is the \<open>ValueError\<close>.\<close>

definition load_instructions :: "settings \<Rightarrow> string \<Rightarrow> string \<Rightarrow> string \<Rightarrow> instructions_result option" where
  "load_instructions cf real_root real_cwd global_dir =
    (if \<not> inside_dir real_cwd real_root then None
     else
       (case discover_all cf real_root real_cwd global_dir of (chunks, st) \<Rightarrow>
         case fit chunks (cf_max_total_bytes cf) st of (content, kept, st') \<Rightarrow>
           Some \<lparr>ir_text = content, ir_sources = map ck_label kept, ir_imports = concat (map ck_imports kept),
                  ir_notes = ld_notes st'\<rparr>))"

section \<open>Facts about the helpers\<close>

lemma nbytes_append [simp]: "nbytes (a @ b) = nbytes a + nbytes b"
  by (simp add: nbytes_def)

lemma nbytes_Nil [simp]: "nbytes [] = 0"
  by (simp add: nbytes_def)

lemma nbytes_length: "length s \<le> nbytes s"
  by (induction s) (auto simp: nbytes_def utf8_len_def)

lemma clip_chars_prefix: "prefix (clip_chars n s) s"
  by (induction n s rule: clip_chars.induct) auto

lemma clip_chars_nbytes: "nbytes (clip_chars n s) \<le> n"
  by (induction n s rule: clip_chars.induct) (auto simp: nbytes_def)

lemma clip_utf8_prefix: "prefix (clip_utf8 s n) s"
  by (simp add: clip_utf8_def clip_chars_prefix)

lemma clip_utf8_nbytes: "int (nbytes (clip_utf8 s n)) \<le> max 0 n"
proof -
  have "int (nbytes (clip_chars (nat n) s)) \<le> n" if "0 < n"
    using clip_chars_nbytes [of "nat n" s] that by linarith
  then show ?thesis by (auto simp: clip_utf8_def)
qed

lemma cut_at_line_prefix: "prefix (cut_at_line s) s"
  by (auto simp: cut_at_line_def take_is_prefix split: option.split)

lemma nbytes_prefix: "prefix a b \<Longrightarrow> nbytes a \<le> nbytes b"
  by (auto simp: prefix_def)

lemma safe_label_no_comment: "CHR ''<'' \<notin> set (safe_label v)" "CHR ''>'' \<notin> set (safe_label v)" "length (safe_label v) \<le> 120"
  by (auto simp: safe_label_def dest!: in_set_takeD split: if_splits)


section \<open>Invariants of the loader\<close>

text \<open>
  What every part of the loader keeps. A property of the state that survives a note, the start of an
  accepted import and the start of an accepted discovery survives the whole load. \<open>bases\<close> are the
  directories whose files may be read.
\<close>

locale loader_invariant =
  fixes cf :: settings and bases :: "string set" and inv :: "loader \<Rightarrow> bool"
  assumes inv_note: "inv st \<Longrightarrow> inv (add_note n st)"
    and inv_import: "inv st \<Longrightarrow> im_base im \<in> bases \<Longrightarrow> import_refusal cf im deep token st = None
      \<Longrightarrow> read_text_capped (cf_fs cf) (snd (import_target cf im token)) (cf_max_file_bytes cf) = Inr (content, truncated)
      \<Longrightarrow> inv (note_import (snd (import_target cf im token)) label content st)"
    and inv_discover: "inv st \<Longrightarrow> base \<in> bases \<Longrightarrow> inside_dir real base \<Longrightarrow> real \<notin> set (ld_seen st)
      \<Longrightarrow> inv (st\<lparr>ld_seen := ld_seen st @ [real]\<rparr>)"
begin

definition keeps :: "import_call \<Rightarrow> bool" where
  "keeps imp \<longleftrightarrow> (\<forall>token st. inv st \<longrightarrow> inv (snd (imp token st)))"

lemma inv_mark_truncated: "inv (snd r) \<Longrightarrow> inv (snd (mark_truncated cf label truncated r))"
  by (cases r) (simp add: mark_truncated_def inv_note)

lemma inv_line_match:
  assumes "keeps imp" and "inv (snd s)" shows "inv (snd (line_match imp label line spans m s))"
proof -
  obtain start path ln st where ms: "m = (start, path)" "s = (ln, st)" by (metis surj_pair)
  have "inv (snd (imp token st))" for token using assms ms by (simp add: keeps_def)
  then show ?thesis
    using assms(2) ms by (auto simp: line_match_def Let_def split: prod.split sum.split intro!: inv_note dest: arg_cong [where f = snd])
      (metis snd_conv)+
qed

lemma inv_expand_line:
  assumes "keeps imp" and "inv st" shows "inv (snd (expand_line imp label line st))"
proof -
  have "inv (snd (fold (line_match imp label line spans) ms s))" if "inv (snd s)" for ms s spans
    using that by (induction ms arbitrary: s) (simp_all add: inv_line_match [OF assms(1)])
  from this [of "(_, st)"] show ?thesis
    using assms(2) by (simp add: expand_line_def Let_def split_beta)
qed

lemma inv_expand_lines:
  "keeps imp \<Longrightarrow> inv st \<Longrightarrow> inv (snd (expand_lines imp label fence ls st))"
proof (induction ls arbitrary: fence st)
  case (Cons l ls)
  have "inv (snd (expand_line imp label l st))" by (rule inv_expand_line [OF Cons.prems])
  then show ?case
    using Cons by (simp add: Let_def split_beta split: option.split)
qed simp

lemma inv_expand: "keeps imp \<Longrightarrow> inv st \<Longrightarrow> inv (snd (expand imp label content st))"
  using inv_expand_lines [of imp st label None "split_on NL content"] by (simp add: expand_def split_beta)

lemma keeps_import: "im_base im \<in> bases \<Longrightarrow> keeps (import_file levels cf im)"
proof (induction levels arbitrary: im)
  case 0
  have "snd (import_file 0 cf im token st) = st" for token st
  proof -
    obtain code where "import_refusal cf im True token st = Some code"
      by (fastforce simp: import_refusal_def split: prod.split option.split)
    then show ?thesis by (simp add: import_file.simps [of 0])
  qed
  then show ?case by (simp add: keeps_def)
next
  case (Suc k)
  show ?case
    unfolding keeps_def
  proof (intro allI impI)
    fix token st assume st: "inv st"
    let ?t = "snd (import_target cf im token)"
    show "inv (snd (import_file (Suc k) cf im token st))"
    proof (cases "import_refusal cf im False token st")
      case (Some code)
      then show ?thesis using st by (simp add: import_file.simps [of "Suc k"])
    next
      case None
      show ?thesis
      proof (cases "read_text_capped (cf_fs cf) ?t (cf_max_file_bytes cf)")
        case (Inl code)
        then show ?thesis using st None by (simp add: import_file.simps [of "Suc k"] Let_def)
      next
        case (Inr p)
        then obtain content truncated where
          r: "read_text_capped (cf_fs cf) ?t (cf_max_file_bytes cf) = Inr (content, truncated)" by (cases p) auto
        let ?label = "rel_label ?t (im_base im) (im_prefix im)"
        let ?im = "im\<lparr>im_real := ?t, im_label := ?label, im_stack := im_stack im @ [?t]\<rparr>"
        have "keeps (import_file k cf ?im)" by (rule Suc.IH) (use Suc.prems in simp)
        then have "inv (snd (expand (import_file k cf ?im) ?label content (note_import ?t ?label content st)))"
          by (rule inv_expand) (rule inv_import [OF st Suc.prems None r])
        then have "inv (snd (mark_truncated cf ?label truncated
            (expand (import_file k cf ?im) ?label content (note_import ?t ?label content st))))"
          by (rule inv_mark_truncated)
        then show ?thesis by (simp add: import_file.simps [of "Suc k"] None r Let_def split_beta)
      qed
    qed
  qed
qed

lemma inv_discovered:
  assumes base: "base \<in> bases" and st: "inv st" shows "inv (snd (discovered cf candidate label base pre st))"
proof (cases "classify_escape candidate (fs_realpath (cf_fs cf) candidate) base")
  case (Some code)
  then show ?thesis using st by (simp add: discovered_def inv_note)
next
  case None
  let ?real = "fs_realpath (cf_fs cf) candidate"
  have inside: "inside_dir ?real base" using None by (auto simp: classify_escape_def split: if_splits)
  show ?thesis
  proof (cases "?real \<in> set (ld_seen st)")
    case True
    then show ?thesis using st None by (simp add: discovered_def inv_note)
  next
    case fresh: False
    show ?thesis
    proof (cases "read_text_capped (cf_fs cf) ?real (cf_max_file_bytes cf)")
      case (Inl code)
      then show ?thesis using st None fresh by (simp add: discovered_def inv_note)
    next
      case (Inr p)
      then obtain content truncated where p: "p = (content, truncated)" by (cases p) auto
      let ?im = "\<lparr>im_real = ?real, im_label = label, im_base = base, im_prefix = pre, im_stack = [?real]\<rparr>"
      have "inv (snd (expand (import_file (cf_max_depth cf) cf ?im) label content (st\<lparr>ld_seen := ld_seen st @ [?real]\<rparr>)))"
        by (rule inv_expand [OF keeps_import]) (use base inv_discover [OF st base inside fresh] in simp_all)
      then show ?thesis
        using inv_mark_truncated [of _ label truncated]
        by (simp add: discovered_def None fresh Inr p Let_def split_beta)
    qed
  qed
qed

lemma inv_discover_names: "base \<in> bases \<Longrightarrow> inv st \<Longrightarrow> inv (snd (discover cf directory names base pre st))"
proof (induction names arbitrary: st)
  case (Cons name names)
  then show ?case using inv_discovered by (simp add: Let_def split_beta)
qed simp

lemma inv_discover_down: "root \<in> bases \<Longrightarrow> inv st \<Longrightarrow> inv (snd (discover_down cf root directory parts st))"
proof (induction parts arbitrary: directory st)
  case (Cons part parts)
  then show ?case using inv_discover_names by (simp add: Let_def split_beta)
qed simp

lemma inv_discover_all:
  assumes "inv new_loader" and "root \<in> bases" and "global_dir \<in> bases"
  shows "inv (snd (discover_all cf root cwd global_dir))"
  using assms by (simp add: discover_all_def Let_def split_beta inv_discover_names inv_discover_down)

end

text \<open>No file is accepted twice.\<close>

interpretation once: loader_invariant cf UNIV "\<lambda>st. distinct (ld_seen st)" for cf
  by unfold_locales
    (auto simp: add_note_def note_import_def import_refusal_def split: prod.splits option.splits if_splits)

text \<open>A file that was accepted stays accepted.\<close>

interpretation remembered: loader_invariant cf UNIV "\<lambda>st. p \<in> set (ld_seen st)" for cf p
  by unfold_locales (auto simp: add_note_def note_import_def)

text \<open>No file outside the directories is accepted.\<close>

interpretation confined: loader_invariant cf bases "\<lambda>st. \<forall>p \<in> set (ld_seen st). \<exists>base \<in> bases. inside_dir p base" for cf bases
  by unfold_locales
    (auto simp: add_note_def note_import_def import_refusal_def classify_escape_def split: prod.splits option.splits if_splits)

text \<open>The budget: a decoder may replace each byte by a character of at most three bytes.\<close>

definition decoder_bounded :: "settings \<Rightarrow> bool" where
  "decoder_bounded cf \<longleftrightarrow> (\<forall>final raw. nbytes (fs_decode (cf_fs cf) final raw) \<le> 3 * length raw)"

lemma nbytes_Cons: "nbytes (c # s) = utf8_len c + nbytes s"
  by (simp add: nbytes_def)

lemma unix_lines_nbytes: "nbytes (unix_lines s) \<le> nbytes s"
proof (induction s rule: unix_lines.induct)
  case (2 c cs)
  have one: "utf8_len NL = 1" "1 \<le> utf8_len c" by (simp_all add: utf8_len_def)
  show ?case
  proof (cases "c = CHR 0x0D")
    case True
    show ?thesis
    proof (cases cs)
      case Nil
      then show ?thesis using one by (simp add: True nbytes_Cons)
    next
      case (Cons d ds)
      show ?thesis
      proof (cases "d = NL")
        case nl: True
        have "nbytes (unix_lines ds) \<le> nbytes ds" by (rule "2.IH"(1) [OF True Cons nl])
        then show ?thesis using one by (simp add: True Cons nl nbytes_Cons)
      next
        case False
        have "nbytes (unix_lines cs) \<le> nbytes cs" by (rule "2.IH"(2) [OF True Cons False])
        then show ?thesis using one False by (simp add: True Cons nbytes_Cons [of NL] nbytes_Cons [of "CHR 0x0D"])
      qed
    qed
  next
    case False
    then show ?thesis using "2.IH"(3) by (simp add: nbytes_Cons)
  qed
qed simp

lemma read_text_capped_nbytes:
  assumes d: "decoder_bounded cf" and r: "read_text_capped (cf_fs cf) real n = Inr (content, truncated)"
  shows "nbytes content \<le> 3 * n"
proof -
  obtain bytes where b: "fs_bytes (cf_fs cf) real (n + 1) = Inr bytes"
    using r by (auto simp: read_text_capped_def result_iff)
  let ?u = "unix_lines (fs_decode (cf_fs cf) (\<not> n < length bytes) (take n bytes))"
  have "content = ?u \<or> content = cut_at_line ?u"
    using r b by (auto simp: read_text_capped_def Let_def split: if_splits)
  then have "nbytes content \<le> nbytes ?u"
    using nbytes_prefix [OF cut_at_line_prefix] by auto
  also have "\<dots> \<le> nbytes (fs_decode (cf_fs cf) (\<not> n < length bytes) (take n bytes))"
    by (rule unix_lines_nbytes)
  also have "\<dots> \<le> 3 * length (take n bytes)"
    using d unfolding decoder_bounded_def by blast
  finally show ?thesis by simp
qed

interpretation budget: loader_invariant cf UNIV
    "\<lambda>st. decoder_bounded cf \<longrightarrow> ld_imported_bytes st \<le> cf_max_total_bytes cf + 3 * cf_max_file_bytes cf" for cf
proof unfold_locales
  fix st im deep token content truncated label
  assume inv: "decoder_bounded cf \<longrightarrow> ld_imported_bytes st \<le> cf_max_total_bytes cf + 3 * cf_max_file_bytes cf"
    and ok: "import_refusal cf im deep token st = None"
    and r: "read_text_capped (cf_fs cf) (snd (import_target cf im token)) (cf_max_file_bytes cf) = Inr (content, truncated)"
  have "ld_imported_bytes st < cf_max_total_bytes cf"
    using ok by (auto simp: import_refusal_def split: prod.splits option.splits if_splits)
  then show "decoder_bounded cf \<longrightarrow> ld_imported_bytes (note_import (snd (import_target cf im token)) label content st)
      \<le> cf_max_total_bytes cf + 3 * cf_max_file_bytes cf"
    using read_text_capped_nbytes [OF _ r] by (auto simp: note_import_def)
qed (simp_all add: add_note_def)


section \<open>Fitting keeps the most specific files\<close>

lemma nbytes_join: "ts \<noteq> [] \<Longrightarrow> nbytes (join [NL, NL] ts) = sum_list (map nbytes ts) + 2 * (length ts - 1)"
proof (induction ts rule: induct_list012)
  case (3 t u ts)
  then show ?case by (simp add: nbytes_Cons utf8_len_def)
qed simp_all

lemma fit_drop_suffix:
  "fit_drop cap chunks dropped st = (kept, dropped', st') \<Longrightarrow>
    (\<exists>front. chunks = front @ kept \<and> dropped' = dropped @ map ck_label front)
    \<and> (chunks \<noteq> [] \<longrightarrow> kept \<noteq> []) \<and> (1 < length kept \<longrightarrow> fit_total kept dropped' \<le> cap)
    \<and> (fit_total chunks dropped \<le> cap \<longrightarrow> kept = chunks)"
proof (induction cap chunks dropped st rule: fit_drop.induct)
  case (1 cap c d rest dropped st)
  show ?case
  proof (cases "cap < fit_total (c # d # rest) dropped")
    case True
    let ?st = "add_note (mk_note ''total_cap'' (ck_label c)
               (safe_label (ck_label c) @ '' was left out: the instructions exceed the size limit.'')) st"
    have "fit_drop cap (d # rest) (dropped @ [ck_label c]) ?st = (kept, dropped', st')"
      using "1.prems" True by simp
    note IH = "1.IH" [OF True this]
    then obtain front where "d # rest = front @ kept" "dropped' = (dropped @ [ck_label c]) @ map ck_label front" by blast
    then have "c # d # rest = (c # front) @ kept \<and> dropped' = dropped @ map ck_label (c # front)" by simp
    moreover have "kept \<noteq> []" using IH by blast
    moreover have "1 < length kept \<longrightarrow> fit_total kept dropped' \<le> cap" using IH by blast
    moreover have "\<not> fit_total (c # d # rest) dropped \<le> cap" using True by simp
    ultimately show ?thesis by blast
  next
    case False
    then show ?thesis using "1.prems" by auto
  qed
qed auto

lemma fit_total_join:
  assumes "kept \<noteq> []"
  shows "nbytes (join [NL, NL] ((if omitted_marker dropped \<noteq> [] then [omitted_marker dropped] else []) @ map ck_text kept))
    = fit_total kept dropped"
  using assms by (cases kept) (auto simp: nbytes_join fit_total_def Let_def comp_def)

text \<open>The instructions never exceed the cap, and what is dropped is dropped from the front: the files in the text are the last of the files found, at least the last one, and when everything fits nothing is dropped and the text is the files joined by empty lines.\<close>

theorem fit_keeps_the_most_specific:
  assumes "fit chunks cap st = (content, kept, st')"
  shows "nbytes content \<le> cap \<and> suffix (map ck_label kept) (map ck_label chunks) \<and> (chunks \<noteq> [] \<longrightarrow> kept \<noteq> [])
    \<and> (fit_total chunks [] \<le> cap \<longrightarrow> kept = chunks \<and> content = join [NL, NL] (map ck_text chunks))"
proof -
  obtain k0 dropped st1 where fd: "fit_drop cap chunks [] st = (k0, dropped, st1)" by (metis prod_cases3)
  define over where "over \<longleftrightarrow> k0 \<noteq> [] \<and> cap < fit_total k0 dropped"
  let ?parts = "(if omitted_marker dropped \<noteq> [] then [omitted_marker dropped] else []) @ map ck_text kept"
  have kept: "kept = (if over then fit_only cap (omitted_marker dropped) (hd k0) # tl k0 else k0)"
    and content: "content = clip_utf8 (join [NL, NL] ?parts) (int cap)"
    using assms by (auto simp: fit_def fd Let_def over_def)
  have labels: "map ck_label kept = map ck_label k0"
    by (cases k0) (simp_all add: kept over_def fit_only_def Let_def)
  note drop = fit_drop_suffix [OF fd]
  have "nbytes content \<le> cap" using clip_utf8_nbytes [of "join [NL, NL] ?parts" "int cap"] by (simp add: content)
  moreover have "suffix (map ck_label kept) (map ck_label chunks)"
    using drop labels by (auto simp: suffix_def)
  moreover have "chunks \<noteq> [] \<longrightarrow> kept \<noteq> []" using drop labels by auto
  moreover have "kept = chunks \<and> content = join [NL, NL] (map ck_text chunks)" if fits: "fit_total chunks [] \<le> cap"
  proof -
    have k0: "k0 = chunks" "dropped = []" using drop fits by auto
    then have k: "kept = chunks" using fits by (auto simp: kept over_def)
    have "nbytes (join [NL, NL] (map ck_text chunks)) \<le> cap"
    proof (cases "chunks = []")
      case False
      then show ?thesis using fit_total_join [OF False, of "[]"] fits by (simp add: omitted_marker_def)
    qed simp
    moreover have "join [NL, NL] (map ck_text chunks) = []" if "nbytes (join [NL, NL] (map ck_text chunks)) = 0"
      using nbytes_length [of "join [NL, NL] (map ck_text chunks)"] that by simp
    ultimately show ?thesis using k k0 by (auto simp: content omitted_marker_def clip_utf8_def)
  qed
  ultimately show ?thesis by blast
qed

definition sample_chunks :: "chunk list" where
  "sample_chunks = [\<lparr>ck_label = ''global/M2C.md'', ck_text = replicate 60 CHR ''g'', ck_imports = []\<rparr>,
     \<lparr>ck_label = ''M2C.md'', ck_text = replicate 60 CHR ''r'', ck_imports = []\<rparr>]"

theorem fit_keeps_the_most_specific_witness:
  "map ck_label (fst (snd (fit sample_chunks 120 new_loader))) = [''M2C.md'']
    \<and> nbytes (fst (fit sample_chunks 120 new_loader)) \<le> 120"
proof
  show "map ck_label (fst (snd (fit sample_chunks 120 new_loader))) = [''M2C.md'']" by code_simp
  show "nbytes (fst (fit sample_chunks 120 new_loader)) \<le> 120"
    using fit_keeps_the_most_specific [of sample_chunks 120 new_loader "fst (fit sample_chunks 120 new_loader)"
        "fst (snd (fit sample_chunks 120 new_loader))" "snd (snd (fit sample_chunks 120 new_loader))"] by simp
qed

section \<open>Files outside the directories\<close>

text \<open>The same settings over a file system whose files hold other bytes. What is read is decided from the resolved paths
  alone, so the bytes of a file outside the directories never matter: not for what is included, and not for what is refused.\<close>

definition with_bytes :: "settings \<Rightarrow> (string \<Rightarrow> nat \<Rightarrow> string + string) \<Rightarrow> settings" where
  "with_bytes cf other = cf\<lparr>cf_fs := (cf_fs cf)\<lparr>fs_bytes := other\<rparr>\<rparr>"

definition agrees_inside :: "string set \<Rightarrow> settings \<Rightarrow> (string \<Rightarrow> nat \<Rightarrow> string + string) \<Rightarrow> bool" where
  "agrees_inside bases cf other \<longleftrightarrow> (\<forall>p n. (\<exists>base \<in> bases. inside_dir p base) \<longrightarrow> other p n = fs_bytes (cf_fs cf) p n)"

lemma with_bytes_same [simp]:
  "fs_lexists (cf_fs (with_bytes cf other)) = fs_lexists (cf_fs cf)" "fs_realpath (cf_fs (with_bytes cf other)) = fs_realpath (cf_fs cf)"
  "cf_max_depth (with_bytes cf other) = cf_max_depth cf" "cf_max_file_bytes (with_bytes cf other) = cf_max_file_bytes cf"
  "cf_max_total_bytes (with_bytes cf other) = cf_max_total_bytes cf"
  by (simp_all add: with_bytes_def)

lemma with_bytes_read:
  "agrees_inside bases cf other \<Longrightarrow> base \<in> bases \<Longrightarrow> inside_dir p base
    \<Longrightarrow> read_text_capped (cf_fs (with_bytes cf other)) p n = read_text_capped (cf_fs cf) p n"
  by (auto simp: read_text_capped_def agrees_inside_def with_bytes_def Let_def split: sum.split cong: if_cong)

lemma with_bytes_target: "import_target (with_bytes cf other) im token = import_target cf im token"
  by (simp add: import_target_def)

lemma with_bytes_refusal: "import_refusal (with_bytes cf other) im deep token st = import_refusal cf im deep token st"
  by (simp add: import_refusal_def with_bytes_target)

lemma with_bytes_mark: "mark_truncated (with_bytes cf other) = mark_truncated cf"
  by (intro ext) (simp add: mark_truncated_def split: prod.split)

lemma refusal_none_inside: "import_refusal cf im deep token st = None \<Longrightarrow> inside_dir (snd (import_target cf im token)) (im_base im)"
  by (auto simp: import_refusal_def classify_escape_def split: prod.splits option.splits if_splits)

lemma with_bytes_import:
  assumes agrees: "agrees_inside bases cf other"
  shows "im_base im \<in> bases \<Longrightarrow> import_file levels (with_bytes cf other) im = import_file levels cf im"
proof (induction levels arbitrary: im)
  case 0
  show ?case
  proof (intro ext)
    fix token st
    obtain code where "import_refusal cf im True token st = Some code"
      by (fastforce simp: import_refusal_def split: prod.split option.split)
    then show "import_file 0 (with_bytes cf other) im token st = import_file 0 cf im token st"
      by (simp add: import_file.simps [of 0] with_bytes_refusal)
  qed
next
  case (Suc k)
  have deeper: "import_file k (with_bytes cf other) (im\<lparr>im_real := t, im_label := l, im_stack := s\<rparr>)
      = import_file k cf (im\<lparr>im_real := t, im_label := l, im_stack := s\<rparr>)" for t l s
    by (rule Suc.IH) (use Suc.prems in simp)
  show ?case
  proof (intro ext)
    fix token st
    show "import_file (Suc k) (with_bytes cf other) im token st = import_file (Suc k) cf im token st"
    proof (cases "import_refusal cf im False token st")
      case None
      then show ?thesis
        using with_bytes_read [OF agrees Suc.prems refusal_none_inside [OF None]]
        by (simp add: import_file.simps [of "Suc k"] with_bytes_refusal with_bytes_target with_bytes_mark deeper Let_def split: sum.split prod.split)
    qed (simp add: import_file.simps [of "Suc k"] with_bytes_refusal)
  qed
qed

lemma with_bytes_discovered:
  assumes agrees: "agrees_inside bases cf other" and base: "base \<in> bases"
  shows "discovered (with_bytes cf other) candidate label base pre st = discovered cf candidate label base pre st"
proof (cases "classify_escape candidate (fs_realpath (cf_fs cf) candidate) base")
  case None
  then have "inside_dir (fs_realpath (cf_fs cf) candidate) base" by (auto simp: classify_escape_def split: if_splits)
  then show ?thesis
    using with_bytes_read [OF agrees base] with_bytes_import [OF agrees] base
    by (simp add: discovered_def None with_bytes_mark Let_def split: sum.split prod.split)
qed (simp add: discovered_def)

lemma with_bytes_discover:
  assumes "agrees_inside bases cf other" and "base \<in> bases"
  shows "discover (with_bytes cf other) directory names base pre st = discover cf directory names base pre st"
  by (induction names arbitrary: st) (simp_all add: Let_def with_bytes_discovered [OF assms])

lemma with_bytes_discover_down:
  assumes "agrees_inside bases cf other" and "root \<in> bases"
  shows "discover_down (with_bytes cf other) root directory parts st = discover_down cf root directory parts st"
  by (induction parts arbitrary: directory st) (simp_all add: Let_def with_bytes_discover [OF assms])

lemma with_bytes_discover_all:
  assumes "agrees_inside bases cf other" and "root \<in> bases" and "global_dir \<in> bases"
  shows "discover_all (with_bytes cf other) root cwd global_dir = discover_all cf root cwd global_dir"
  by (simp add: discover_all_def Let_def with_bytes_discover [OF assms(1,2)] with_bytes_discover [OF assms(1,3)]
      with_bytes_discover_down [OF assms(1,2)])

text \<open>C39: A load takes nothing from outside the root and the global directory, however the imports and the symbolic links lead:
  each file it accepts lies, resolved, inside one of the two, and its whole result - text, sources, imports and notes - is the
  same whatever bytes the files outside hold, also those it refuses. No file is accepted twice (one that is refused, because it
  is no text, may be opened again), and the text imported is bounded by the budget and one file more, when the decoder gives at
  most three bytes for one.\<close>

theorem load_reads_are_contained:
  "distinct (ld_seen (snd (discover_all cf root cwd global_dir)))
    \<and> (\<forall>p \<in> set (ld_seen (snd (discover_all cf root cwd global_dir))). inside_dir p root \<or> inside_dir p global_dir)
    \<and> (\<forall>other. agrees_inside {root, global_dir} cf other \<longrightarrow>
        load_instructions (with_bytes cf other) root cwd global_dir = load_instructions cf root cwd global_dir)
    \<and> (decoder_bounded cf \<longrightarrow> ld_imported_bytes (snd (discover_all cf root cwd global_dir))
        \<le> cf_max_total_bytes cf + 3 * cf_max_file_bytes cf)"
proof -
  have "\<forall>p \<in> set (ld_seen (snd (discover_all cf root cwd global_dir))). \<exists>base \<in> {root, global_dir}. inside_dir p base"
    by (rule confined.inv_discover_all) (simp_all add: new_loader_def)
  moreover have "distinct (ld_seen (snd (discover_all cf root cwd global_dir)))"
    by (rule once.inv_discover_all) (simp_all add: new_loader_def)
  moreover have "decoder_bounded cf \<longrightarrow> ld_imported_bytes (snd (discover_all cf root cwd global_dir))
      \<le> cf_max_total_bytes cf + 3 * cf_max_file_bytes cf"
    by (rule budget.inv_discover_all) (simp_all add: new_loader_def)
  moreover have "load_instructions (with_bytes cf other) root cwd global_dir = load_instructions cf root cwd global_dir"
    if "agrees_inside {root, global_dir} cf other" for other
    using with_bytes_discover_all [OF that, of root global_dir cwd] by (simp add: load_instructions_def)
  ultimately show ?thesis by blast
qed

text \<open>Two files that import each other, and a link out of the repository.\<close>

definition sample_fs :: file_system where
  "sample_fs = \<lparr>
     fs_lexists = (\<lambda>p. p = ''/r/M2C.md''),
     fs_realpath = (\<lambda>p. if p = ''/r/out.md'' then ''/etc/passwd.md'' else p),
     fs_bytes = (\<lambda>p n. if p = ''/r/M2C.md'' then Inr ''see @a.md and @out.md''
                       else if p = ''/r/a.md'' then Inr ''back to @M2C.md now'' else Inl ''missing''),
     fs_decode = (\<lambda>final raw. raw)\<rparr>"

definition sample_settings :: settings where
  "sample_settings = \<lparr>cf_fs = sample_fs, cf_max_depth = 5, cf_max_file_bytes = 32768, cf_max_total_bytes = 100000\<rparr>"

lemma sample_load: "ld_seen (snd (discover_all sample_settings ''/r'' ''/r'' ''/g'')) = [''/r/M2C.md'', ''/r/a.md'']"
  by code_simp

text \<open>A file outside that the link leads to, with a secret in it.\<close>

definition sample_other :: "string \<Rightarrow> nat \<Rightarrow> string + string" where
  "sample_other p n = (if p = ''/etc/passwd.md'' then Inr ''root:x:0:0'' else fs_bytes sample_fs p n)"

theorem load_reads_are_contained_witness:
  "decoder_bounded sample_settings \<and> distinct [''/r/M2C.md'', ''/r/a.md'']
    \<and> sample_other ''/etc/passwd.md'' 10 \<noteq> fs_bytes sample_fs ''/etc/passwd.md'' 10
    \<and> load_instructions (with_bytes sample_settings sample_other) ''/r'' ''/r'' ''/g'' = load_instructions sample_settings ''/r'' ''/r'' ''/g''
    \<and> ld_imported_bytes (snd (discover_all sample_settings ''/r'' ''/r'' ''/g'')) \<le> 198304"
proof -
  have "nbytes raw \<le> 3 * length raw" for raw
    by (induction raw) (auto simp: nbytes_Cons utf8_len_def)
  then have d: "decoder_bounded sample_settings"
    by (simp add: decoder_bounded_def sample_settings_def sample_fs_def)
  have "\<not> inside_dir ''/etc/passwd.md'' ''/r''" "\<not> inside_dir ''/etc/passwd.md'' ''/g''" by code_simp+
  then have other: "agrees_inside {''/r'', ''/g''} sample_settings sample_other"
    by (auto simp: agrees_inside_def sample_other_def sample_settings_def)
  have "cf_max_total_bytes sample_settings + 3 * cf_max_file_bytes sample_settings = 198304"
    by (simp add: sample_settings_def)
  moreover have "sample_other ''/etc/passwd.md'' 10 \<noteq> fs_bytes sample_fs ''/etc/passwd.md'' 10"
    by (simp add: sample_other_def sample_fs_def)
  ultimately show ?thesis
    using load_reads_are_contained [of sample_settings "''/r''" "''/r''" "''/g''"] d other by (simp add: sample_load)
qed

lemma split_on_subset: "l \<in> set (split_on c s) \<Longrightarrow> set l \<subseteq> set s"
proof (induction s arbitrary: l)
  case (Cons x xs)
  obtain v vs where "split_on c xs = v # vs" by (metis list.exhaust split_on_nonempty)
  then show ?case using Cons by (fastforce split: if_splits)
qed simp

lemma refusal_none:
  "import_refusal cf im deep token st = None \<Longrightarrow>
    inside_dir (snd (import_target cf im token)) (im_base im) \<and> extension (snd (import_target cf im token)) \<in> set IMPORT_EXTENSIONS
    \<and> \<not> deep \<and> snd (import_target cf im token) \<notin> set (im_stack im) \<and> snd (import_target cf im token) \<notin> set (ld_seen st)
    \<and> ld_imported_bytes st < cf_max_total_bytes cf"
  by (auto simp: import_refusal_def classify_escape_def split: prod.splits option.splits if_splits)

text \<open>An import that is spliced in was allowed: its target is inside the directory, has a text extension, was not read before, is not being expanded, and neither the depth nor the budget was used up; and it counts as read from then on.\<close>

theorem imports_are_checked:
  assumes r: "import_file levels cf im token st = (Inr block, st')"
  shows "inside_dir (snd (import_target cf im token)) (im_base im) \<and> extension (snd (import_target cf im token)) \<in> set IMPORT_EXTENSIONS
    \<and> 0 < levels \<and> snd (import_target cf im token) \<notin> set (im_stack im) \<and> snd (import_target cf im token) \<notin> set (ld_seen st)
    \<and> ld_imported_bytes st < cf_max_total_bytes cf \<and> snd (import_target cf im token) \<in> set (ld_seen st')"
proof -
  let ?t = "snd (import_target cf im token)"
  have ok: "import_refusal cf im (levels = 0) token st = None"
    using r by (auto simp: import_file.simps [of levels] split: option.splits)
  note checks = refusal_none [OF ok]
  obtain k where levels: "levels = Suc k" using checks by (cases levels) auto
  obtain content truncated where rd: "read_text_capped (cf_fs cf) ?t (cf_max_file_bytes cf) = Inr (content, truncated)"
    using r ok by (auto simp: import_file.simps [of levels] Let_def split: sum.splits)
  let ?label = "rel_label ?t (im_base im) (im_prefix im)"
  let ?im = "im\<lparr>im_real := ?t, im_label := ?label, im_stack := im_stack im @ [?t]\<rparr>"
  have "st' = snd (mark_truncated cf ?label truncated (expand (import_file k cf ?im) ?label content (note_import ?t ?label content st)))"
    using r ok rd by (auto simp: levels import_file.simps [of "Suc k"] Let_def split: prod.splits)
  moreover have "?t \<in> set (ld_seen (snd (expand (import_file k cf ?im) ?label content (note_import ?t ?label content st))))"
    by (rule remembered.inv_expand [OF remembered.keeps_import]) (simp_all add: note_import_def)
  ultimately have "?t \<in> set (ld_seen st')"
    by (simp add: remembered.inv_mark_truncated)
  then show ?thesis using checks levels by simp
qed

theorem imports_are_checked_witness:
  "\<exists>st'. import_file 1 sample_settings \<lparr>im_real = ''/r/M2C.md'', im_label = ''M2C.md'', im_base = ''/r'', im_prefix = [],
      im_stack = [''/r/M2C.md'']\<rparr> ''a.md'' new_loader = (Inr [''<!-- m2c: begin import a.md -->'',
        ''back to @M2C.md <!-- m2c: import skipped: import depth limit reached --> now'', ''<!-- m2c: end import a.md -->''], st')
    \<and> ''/r/a.md'' \<in> set (ld_seen st')"
proof -
  let ?im = "\<lparr>im_real = ''/r/M2C.md'', im_label = ''M2C.md'', im_base = ''/r'', im_prefix = [], im_stack = [''/r/M2C.md'']\<rparr>"
  let ?c = "import_file 1 sample_settings ?im ''a.md'' new_loader"
  let ?block = "[''<!-- m2c: begin import a.md -->'',
        ''back to @M2C.md <!-- m2c: import skipped: import depth limit reached --> now'', ''<!-- m2c: end import a.md -->'']"
  have "fst ?c = Inr ?block" and t: "snd (import_target sample_settings ?im ''a.md'') = ''/r/a.md''" by code_simp+
  then have c: "?c = (Inr ?block, snd ?c)" by (metis prod.collapse)
  show ?thesis using imports_are_checked [OF c] c t by auto
qed

text \<open>A file without an at sign is passed on unchanged, fences and all, and the loader is left as it was.\<close>

theorem expand_plain_text:
  assumes "CHR ''@'' \<notin> set content" shows "expand imp label content st = (content, st)"
proof -
  have lines: "expand_lines imp label fence ls st = (ls, st)" if "\<forall>l \<in> set ls. CHR ''@'' \<notin> set l" for fence ls
    using that by (induction ls arbitrary: fence) (auto simp: Let_def split: option.split)
  have "CHR ''@'' \<notin> set l" if "l \<in> set (split_on NL content)" for l
    using that assms split_on_subset by blast
  then show ?thesis by (simp add: expand_def lines join_split)
qed

theorem expand_plain_text_witness:
  "expand (import_file 5 sample_settings \<lparr>im_real = [], im_label = [], im_base = [], im_prefix = [], im_stack = []\<rparr>) ''a'' ''no imports'' new_loader
    = (''no imports'', new_loader)"
  by (rule expand_plain_text) simp

end
