(* ===== verification/ContextRules.thy ===== *)
theory ContextRules
  imports Instructions GlobMatch Paths "HOL-Library.Multiset" "HOL-Library.Char_ord" "HOL-Library.List_Lexorder"
begin

text \<open>
  \<open>m2c/src/m2c/context/rules.py\<close>: instruction rules that apply to paths. The front-matter parser,
  the segment glob matcher and the selection are translated in full. The file system is an argument:
  what \<open>os.listdir\<close>, \<open>os.path.realpath\<close>, \<open>os.path.isdir\<close> and \<open>read_text_capped\<close> answer for a
  directory is the record \<open>dir_view\<close>. A \<open>FrontMatterError\<close> is \<open>Inl\<close> of its fixed message.
\<close>

section \<open>Limits and records\<close>

definition MAX_RULE_BYTES :: nat where "MAX_RULE_BYTES = 16384"
definition MAX_RULES_TOTAL_BYTES :: nat where "MAX_RULES_TOTAL_BYTES = 60000"
definition MAX_RULES :: nat where "MAX_RULES = 64"
definition MAX_GLOBS :: nat where "MAX_GLOBS = 32"
definition MAX_GLOB_LENGTH :: nat where "MAX_GLOB_LENGTH = 256"
definition MAX_BRACE_EXPANSIONS :: nat where "MAX_BRACE_EXPANSIONS = 32"
definition MAX_PATH_SEGMENTS :: nat where "MAX_PATH_SEGMENTS = 256"
definition MAX_ID_LENGTH :: nat where "MAX_ID_LENGTH = 128"

record context_rule =
  cr_id :: string
  cr_paths :: "string list"
  cr_text :: string
  cr_source :: string

text \<open>A front-matter value: a scalar or a list.\<close>

datatype fm_value = FStr string | FList "string list"

type_synonym fm_meta = "(string \<times> fm_value) list"

section \<open>Front matter\<close>

definition key_start :: "char \<Rightarrow> bool" where
  "key_start c \<longleftrightarrow> ascii_alpha c \<or> c = CHR ''_''"

definition key_char :: "char \<Rightarrow> bool" where
  "key_char c \<longleftrightarrow> key_start c \<or> ascii_digit c \<or> c = CHR ''-''"

text \<open>
  \<open>_KEY_RE\<close>: a key, white space, a colon, then white space and the value or nothing. The classes
  do not overlap, so the match is unique. The value is already stripped.
\<close>

definition match_key :: "string \<Rightarrow> (string \<times> string) option" where
  "match_key line =
    (case line of
       [] \<Rightarrow> None
     | c # cs \<Rightarrow>
         if \<not> key_start c then None
         else (case dropWhile py_space (dropWhile key_char cs) of
                 [] \<Rightarrow> None
               | d # v \<Rightarrow>
                   if d = CHR '':'' \<and> (v = [] \<or> py_space (hd v))
                   then Some (c # takeWhile key_char cs, strip v) else None))"

definition unquote :: "string \<Rightarrow> string + string" where
  "unquote value =
    (let v = strip value in
     if v \<noteq> [] \<and> hd v \<in> {SQ, DQ} then
       (if length v < 2 \<or> last v \<noteq> hd v then Inl ''a quote is not closed''
        else Inr (butlast (tl v)))
     else Inr v)"

text \<open>The loop of \<open>_split_flow\<close>: the open quote, the brace depth, the current item, the items.\<close>

fun split_flow_loop :: "char option \<Rightarrow> nat \<Rightarrow> string \<Rightarrow> string list \<Rightarrow> string \<Rightarrow> string + string list" where
  "split_flow_loop q depth cur items [] =
    (if q \<noteq> None then Inl ''a quote is not closed'' else Inr (items @ [cur]))"
| "split_flow_loop q depth cur items (ch # s) =
    (case q of
       Some d \<Rightarrow> split_flow_loop (if ch = d then None else q) depth (cur @ [ch]) items s
     | None \<Rightarrow>
         if ch \<in> {SQ, DQ} then split_flow_loop (Some ch) depth (cur @ [ch]) items s
         else if ch = CHR ''{'' then split_flow_loop None (depth + 1) (cur @ [ch]) items s
         else if ch = CHR ''}'' then split_flow_loop None (depth - 1) (cur @ [ch]) items s
         else if ch = CHR '','' \<and> depth = 0 then split_flow_loop None depth [] (items @ [cur]) s
         else split_flow_loop None depth (cur @ [ch]) items s)"

definition split_flow :: "string \<Rightarrow> string + string list" where
  "split_flow inner =
    bindE (split_flow_loop None 0 [] [] inner) (\<lambda>items. Inr (if strip inner \<noteq> [] then map strip items else []))"

definition parse_flow_list :: "string \<Rightarrow> string + string list" where
  "parse_flow_list value =
    (if \<not> suffix '']'' value then Inl ''a bracketed list is not closed''
     else bindE (split_flow (butlast (tl value))) (mapE unquote))"

text \<open>\<open>meta[key] = v\<close> for a new key, and \<open>meta[current].append(v)\<close>.\<close>

fun meta_append :: "string \<Rightarrow> string \<Rightarrow> fm_meta \<Rightarrow> fm_meta" where
  "meta_append k v [] = []"
| "meta_append k v ((k', w) # m) =
    (if k = k' then (k', case w of FList vs \<Rightarrow> FList (vs @ [v]) | FStr s \<Rightarrow> FStr s) # m
     else (k', w) # meta_append k v m)"

definition block_line :: "string \<Rightarrow> fm_meta \<times> string option \<Rightarrow> string + fm_meta \<times> string option" where
  "block_line raw st =
    (case st of (meta, current) \<Rightarrow>
      let line = rstrip raw; stripped = strip line in
      if stripped = [] \<or> prefix ''#'' stripped then Inr (meta, current)
      else if \<exists>ch \<in> set line. (of_char ch :: nat) < 32 \<and> ch \<noteq> TAB then Inl ''a control character is not allowed''
      else if stripped = ''-'' \<or> prefix ''- '' stripped then
        (case current of
           None \<Rightarrow> Inl ''a list item has no key''
         | Some k \<Rightarrow> bindE (unquote (tl stripped)) (\<lambda>v. Inr (meta_append k v meta, current)))
      else if hd line \<in> {SPC, TAB} then Inl ''unexpected indentation''
      else
        (case match_key line of
           None \<Rightarrow> Inl (''a line is not '' @ [SQ] @ ''key: value'' @ [SQ])
         | Some (key, value) \<Rightarrow>
             if map_of meta key \<noteq> None then Inl ''a key is repeated''
             else if value = [] then Inr (meta @ [(key, FList [])], Some key)
             else if prefix ''['' value then bindE (parse_flow_list value) (\<lambda>vs. Inr (meta @ [(key, FList vs)], None))
             else bindE (unquote value) (\<lambda>v. Inr (meta @ [(key, FStr v)], None))))"

fun parse_lines :: "string list \<Rightarrow> fm_meta \<times> string option \<Rightarrow> string + fm_meta" where
  "parse_lines [] st = Inr (fst st)"
| "parse_lines (raw # rest) st = bindE (block_line raw st) (parse_lines rest)"

definition parse_block :: "string list \<Rightarrow> string + fm_meta" where
  "parse_block lines = parse_lines lines ([], None)"

section \<open>Brace groups\<close>

text \<open>The position, counted from \<open>i\<close>, at which the brace depth returns to 0.\<close>

fun close_brace :: "nat \<Rightarrow> int \<Rightarrow> string \<Rightarrow> nat option" where
  "close_brace i depth [] = None"
| "close_brace i depth (c # cs) =
    (if c = CHR ''{'' then close_brace (i + 1) (depth + 1) cs
     else if c = CHR ''}'' then (if depth - 1 = 0 then Some i else close_brace (i + 1) (depth - 1) cs)
     else close_brace (i + 1) depth cs)"

text \<open>The alternatives between the braces: cut at the commas of depth 0.\<close>

fun alternatives :: "int \<Rightarrow> string \<Rightarrow> string \<Rightarrow> string list" where
  "alternatives depth cur [] = [cur]"
| "alternatives depth cur (c # cs) =
    (if c = CHR ''{'' then alternatives (depth + 1) (cur @ [c]) cs
     else if c = CHR ''}'' then alternatives (depth - 1) (cur @ [c]) cs
     else if c = CHR '','' \<and> depth = 0 then cur # alternatives depth [] cs
     else alternatives depth (cur @ [c]) cs)"

lemma close_brace_bounds: "close_brace i depth cs = Some b \<Longrightarrow> i \<le> b \<and> b < i + length cs"
  by (induction i depth cs rule: close_brace.induct) (fastforce split: if_splits)+

function find_group_from :: "nat \<Rightarrow> string \<Rightarrow> (nat \<times> nat \<times> string list) option" where
  "find_group_from start text =
    (case find_char (CHR ''{'') text start of
       None \<Rightarrow> None
     | Some a \<Rightarrow>
         (case close_brace a 0 (drop a text) of
            None \<Rightarrow> None
          | Some b \<Rightarrow>
              (let alts = alternatives 0 [] (substr text (a + 1) b) in
               if 2 \<le> length alts then Some (a, b, alts) else find_group_from (a + 1) text)))"
  by pat_completeness auto
termination
  by (relation "measure (\<lambda>(start, text). length text - start)") (auto dest!: find_char_bounds)

declare find_group_from.simps [simp del]

definition find_brace_group :: "string \<Rightarrow> (nat \<times> nat \<times> string list) option" where
  "find_brace_group text = find_group_from 0 text"

lemma alternatives_length: "alt \<in> set (alternatives depth cur cs) \<Longrightarrow> length alt \<le> length cur + length cs"
  by (induction depth cur cs rule: alternatives.induct) (fastforce split: if_splits)+

lemma find_group_bounds:
  "find_group_from start str = Some (a, b, alts) \<Longrightarrow>
    a < b \<and> b < length str \<and> (\<forall>alt \<in> set alts. length alt \<le> b - (a + 1))"
proof (induction start str rule: find_group_from.induct)
  case (1 start str)
  obtain k where k: "find_char (CHR ''{'') str start = Some k"
    using "1.prems" by (auto simp: find_group_from.simps [of start] split: option.splits)
  obtain e where e: "close_brace k 0 (drop k str) = Some e"
    using "1.prems" k by (auto simp: find_group_from.simps [of start] split: option.splits)
  have k': "k < length str" "str ! k = CHR ''{''" using find_char_bounds [OF k] find_char_hit [OF k] by auto
  have "drop k str = CHR ''{'' # drop (Suc k) str" using k' by (metis Cons_nth_drop_Suc)
  then have "close_brace (k + 1) 1 (drop (Suc k) str) = Some e" using e by simp
  then have b: "k < e" "e < length str" using close_brace_bounds k' by fastforce+
  show ?case
  proof (cases "2 \<le> length (alternatives 0 [] (substr str (k + 1) e))")
    case True
    then have "a = k" "b = e" "alts = alternatives 0 [] (substr str (k + 1) e)"
      using "1.prems" by (auto simp: find_group_from.simps [of start] k e)
    then show ?thesis using b alternatives_length by (fastforce simp: substr_def)
  next
    case False
    then show ?thesis using "1.prems" "1.IH" [OF k e] by (simp add: find_group_from.simps [of start] k e)
  qed
qed

text \<open>
  \<open>_expand_braces\<close>. The top of the stack \<open>work\<close> is the head of the list; \<open>extend\<close> pushes the
  alternatives in order, so the last one is popped first. \<open>None\<close> is the \<open>ValueError\<close>.
\<close>

function expand_loop :: "string list \<Rightarrow> string list \<Rightarrow> string list option" where
  "expand_loop finished [] = Some finished"
| "expand_loop finished (item # work) =
    (let (finished', work') =
       (case find_brace_group item of
          None \<Rightarrow> (finished @ [item], work)
        | Some (a, b, alts) \<Rightarrow> (finished, rev (map (\<lambda>alt. take a item @ alt @ drop (b + 1) item) alts) @ work))
     in if MAX_BRACE_EXPANSIONS < length finished' + length work' then None else expand_loop finished' work')"
  by pat_completeness auto
termination
proof (relation "inv_image (mult {(x, y). x < y}) (\<lambda>(finished, work). mset (map length work))", goal_cases)
  case 1
  show ?case by (intro wf_inv_image wf_mult wf)
next
  case (2 finished item work p finished' work')
  show ?case
  proof (cases "find_brace_group item")
    case None
    then have "work' = work" using 2 by simp
    have "(mset (map length work) + {#}, mset (map length work) + {#length item#}) \<in> mult {(x, y). x < y}"
      by (rule one_step_implies_mult) simp_all
    then show ?thesis by (simp add: \<open>work' = work\<close>)
  next
    case (Some g)
    then obtain a b alts where g: "find_brace_group item = Some (a, b, alts)" by (metis prod_cases3)
    let ?new = "map (\<lambda>alt. take a item @ alt @ drop (b + 1) item) alts"
    have work': "work' = rev ?new @ work" using 2 by (simp add: g)
    have short: "n < length item" if n: "n \<in># mset (map length (rev ?new))" for n
    proof -
      obtain alt where "alt \<in> set alts" and n': "n = length (take a item @ alt @ drop (b + 1) item)"
        using n by auto
      then show ?thesis using find_group_bounds [of 0 item a b alts] g by (auto simp: find_brace_group_def)
    qed
    have "(mset (map length work) + mset (map length (rev ?new)), mset (map length work) + {#length item#})
        \<in> mult {(x, y). x < y}"
      by (rule one_step_implies_mult) (use short in auto)
    then show ?thesis by (simp add: work' add.commute)
  qed
qed

declare expand_loop.simps [simp del]

definition expand_braces :: "string \<Rightarrow> string list option" where
  "expand_braces pattern = expand_loop [] [pattern]"


definition check_glob :: "string \<Rightarrow> string + string" where
  "check_glob p =
    (let pattern = strip p in
     if pattern = [] then Inl ''a pattern is empty''
     else if MAX_GLOB_LENGTH < length pattern then Inl ''a pattern is too long''
     else if \<exists>ch \<in> set pattern. is_control ch then Inl ''a control character is not allowed''
     else if expand_braces pattern = None then Inl ''a pattern has too many brace alternatives''
     else Inr pattern)"

definition check_globs :: "fm_value \<Rightarrow> string + string list" where
  "check_globs value =
    (let patterns = (case value of FStr s \<Rightarrow> [s] | FList ps \<Rightarrow> ps) in
     if patterns = [] then Inl ''paths lists no pattern''
     else if MAX_GLOBS < length patterns then Inl ''paths lists too many patterns''
     else mapE check_glob patterns)"

text \<open>The index of the line that closes the block, counted from \<open>i\<close>.\<close>

fun block_end :: "nat \<Rightarrow> string list \<Rightarrow> nat option" where
  "block_end i [] = None"
| "block_end i (l # ls) = (if rstrip l \<in> {''---'', ''...''} then Some i else block_end (i + 1) ls)"

fun meta_set :: "string \<Rightarrow> fm_value \<Rightarrow> fm_meta \<Rightarrow> fm_meta" where
  "meta_set k v [] = []"
| "meta_set k v ((k', w) # m) = (if k = k' then (k', v) # m else (k', w) # meta_set k v m)"

definition parse_front_matter :: "string \<Rightarrow> string + fm_meta \<times> string" where
  "parse_front_matter txt =
    (let lines = split_on NL txt in
     if rstrip (hd lines) \<noteq> ''---'' then Inr ([], txt)
     else
       (case block_end 1 (tl lines) of
          None \<Rightarrow> Inl ''the front matter block is not closed''
        | Some e \<Rightarrow>
            bindE (parse_block (take (e - 1) (tl lines))) (\<lambda>meta.
            bindE (case map_of meta ''paths'' of
                     None \<Rightarrow> Inr meta
                   | Some v \<Rightarrow> bindE (check_globs v) (\<lambda>ps. Inr (meta_set ''paths'' (FList ps) meta))) (\<lambda>meta'.
            Inr (meta', join [NL] (drop (e + 1) lines))))))"

section \<open>Glob matching\<close>

definition remove_prefix :: "string \<Rightarrow> string \<Rightarrow> string" where
  "remove_prefix p s = (if prefix p s then drop (length p) s else s)"

definition segments :: "string \<Rightarrow> string list" where
  "segments pattern =
    (let p0 = remove_prefix ''./'' (strip pattern);
         rooted = prefix ''/'' p0;
         p = (if rooted then tl p0 else p0);
         directory = suffix ''/'' p;
         core = rstrip_char (CHR ''/'') p;
         anchored = rooted \<or> CHR ''/'' \<in> set core;
         segs = filter (\<lambda>s. s \<notin> {[], ''.''}) (split_on (CHR ''/'') core)
     in if segs = [] then []
        else
          (let segs' = (if directory then segs @ [''**''] else segs)
           in if \<not> anchored \<and> hd segs' \<noteq> ''**'' then ''**'' # segs' else segs'))"

definition compile_glob :: "string \<Rightarrow> string list list" where
  "compile_glob pattern =
    (case expand_braces pattern of
       None \<Rightarrow> []
     | Some expanded \<Rightarrow> filter (\<lambda>seg. seg \<noteq> []) (map segments expanded))"

text \<open>One round of \<open>_match_segments\<close> on the set of reachable positions.\<close>

definition reach_step :: "string list \<Rightarrow> bool \<Rightarrow> string \<Rightarrow> nat set \<Rightarrow> nat set" where
  "reach_step parts final segment reachable =
    (if segment = ''**'' then
       (let lowest = Min reachable; lowest' = (if final then lowest + 1 else lowest)
        in {lowest' ..< length parts + 1})
     else (\<lambda>j. j + 1) ` Set.filter (\<lambda>j. j < length parts \<and> fnmatchcase (parts ! j) segment) reachable)"

fun match_from :: "string list \<Rightarrow> nat set \<Rightarrow> string list \<Rightarrow> bool" where
  "match_from parts reachable [] = (length parts \<in> reachable)"
| "match_from parts reachable (segment # rest) =
    (let reachable' = reach_step parts (rest = []) segment reachable
     in if reachable' = {} then False else match_from parts reachable' rest)"

definition match_segments :: "string list \<Rightarrow> string list \<Rightarrow> bool" where
  "match_segments pattern parts = match_from parts {0} pattern"

definition path_parts :: "string \<Rightarrow> string list option" where
  "path_parts rel_path =
    (if rel_path = [] \<or> prefix ''/'' rel_path then None
     else
       (let parts = filter (\<lambda>p. p \<noteq> ''.'') (split_on (CHR ''/'') rel_path) in
        if parts = [] \<or> MAX_PATH_SEGMENTS < length parts \<or> (\<exists>p \<in> set parts. p \<in> {[], ''..''}) then None
        else Some parts))"

definition path_glob_match :: "string \<Rightarrow> string \<Rightarrow> bool" where
  "path_glob_match pattern rel_path =
    (case path_parts rel_path of
       None \<Rightarrow> False
     | Some parts \<Rightarrow> \<exists>segs \<in> set (compile_glob pattern). match_segments segs parts)"

section \<open>Loading\<close>

definition rule_id :: "string \<Rightarrow> string \<Rightarrow> string" where
  "rule_id scope stem =
    (let cleaned = map (\<lambda>c. if py_printable c \<and> c \<noteq> CHR ''/'' then c else CHR ''_'') stem
     in take MAX_ID_LENGTH (scope @ ''/'' @ (if cleaned \<noteq> [] then cleaned else ''rule'')))"

text \<open>
  What the file system answers about one name of a directory: \<open>isdir\<close>, \<open>realpath\<close>, and
  \<open>read_text_capped\<close> (a skip code, or the text and whether it was cut).
\<close>

record dir_entry =
  de_name :: string
  de_isdir :: bool
  de_real :: string
  de_read :: "string + string \<times> bool"

text \<open>And about the directory: \<open>lexists\<close>, \<open>realpath\<close>, and \<open>listdir\<close> with \<open>None\<close> for an \<open>OSError\<close>.\<close>

record dir_view =
  dv_exists :: bool
  dv_real :: string
  dv_entries :: "dir_entry list option"

definition is_rule_name :: "string \<Rightarrow> bool" where
  "is_rule_name name \<longleftrightarrow> \<not> prefix ''.'' name \<and> suffix ''.md'' (map ascii_lower_char name)"

text \<open>One name of the directory: the rule it gives, if any, and the notes.\<close>

definition load_entry ::
    "string \<Rightarrow> string \<Rightarrow> string \<Rightarrow> string \<Rightarrow> nat \<Rightarrow> dir_entry \<Rightarrow> context_rule option \<times> context_note list" where
  "load_entry real_dir base_real scope label_prefix max_rule_bytes e =
    (let name = de_name e; candidate = path_join real_dir name; label = label_prefix @ name in
     if \<not> is_rule_name name \<or> de_isdir e then (None, [])
     else
       (case classify_escape candidate (de_real e) base_real of
          Some code \<Rightarrow> (None, [skipped code label])
        | None \<Rightarrow>
            (case de_read e of
               Inl code \<Rightarrow> (None, [skipped code label])
             | Inr (txt, truncated) \<Rightarrow>
                 (case parse_front_matter txt of
                    Inl exc \<Rightarrow>
                      (None, [mk_note ''bad_front_matter'' label
                                (''Skipped '' @ safe_label label @ '': invalid front matter ('' @ exc @ '').'')])
                  | Inr (meta, body0) \<Rightarrow>
                      (let body = strip body0 in
                       if body = [] then
                         (None, [mk_note ''empty_rule'' label (''Skipped '' @ safe_label label @ '': the rule has no text.'')])
                       else
                         (let size = digits_of max_rule_bytes;
                              stem = take (length name - 3) name;
                              paths = (case map_of meta ''paths'' of Some (FList ps) \<Rightarrow> ps | _ \<Rightarrow> []);
                              body' = (if truncated then body @ [NL] @ ''<!-- m2c: truncated: '' @ safe_label label
                                         @ '' is larger than '' @ size @ '' bytes; the rest was left out -->'' else body)
                          in (Some \<lparr>cr_id = rule_id scope stem, cr_paths = paths, cr_text = body', cr_source = label\<rparr>,
                              if truncated then [mk_note ''truncated'' label (safe_label label @ '' is larger than '' @ size
                                                   @ '' bytes; the rest was left out.'')] else [])))))))"

fun load_entries ::
    "string \<Rightarrow> string \<Rightarrow> string \<Rightarrow> string \<Rightarrow> nat \<Rightarrow> dir_entry list \<Rightarrow> context_rule list \<times> context_note list" where
  "load_entries real_dir base_real scope label_prefix max_rule_bytes [] = ([], [])"
| "load_entries real_dir base_real scope label_prefix max_rule_bytes (e # es) =
    (let (r, ns) = load_entry real_dir base_real scope label_prefix max_rule_bytes e;
         (rs, ns') = load_entries real_dir base_real scope label_prefix max_rule_bytes es
     in ((case r of None \<Rightarrow> rs | Some x \<Rightarrow> x # rs), ns @ ns'))"

definition load_directory ::
    "dir_view \<Rightarrow> string \<Rightarrow> string \<Rightarrow> string \<Rightarrow> string \<Rightarrow> nat \<Rightarrow> context_rule list \<times> context_note list" where
  "load_directory dv directory base_real scope label_prefix max_rule_bytes =
    (if \<not> dv_exists dv then ([], [])
     else
       (let label_dir = rstrip_char (CHR ''/'') label_prefix in
        case classify_escape directory (dv_real dv) base_real of
          Some code \<Rightarrow> ([], [skipped code label_dir])
        | None \<Rightarrow>
            (case dv_entries dv of
               None \<Rightarrow> ([], [])
             | Some es \<Rightarrow> load_entries (dv_real dv) base_real scope label_prefix max_rule_bytes (sort_key de_name es))))"

text \<open>The loop that drops rules from the front until both caps hold.\<close>

fun cap_rules :: "nat \<Rightarrow> nat \<Rightarrow> context_rule list \<Rightarrow> context_rule list \<times> context_note list" where
  "cap_rules max_total max_rules [] = ([], [])"
| "cap_rules max_total max_rules (r # rs) =
    (if max_rules < length (r # rs) \<or> max_total < sum_list (map (\<lambda>r. nbytes (cr_text r)) (r # rs))
     then (let (kept, ns) = cap_rules max_total max_rules rs
           in (kept, mk_note ''total_cap'' (cr_source r)
                       (safe_label (cr_source r) @ '' was left out: the rules exceed the size limit.'') # ns))
     else (r # rs, []))"

text \<open>\<open>load_rules\<close> with the resolved root and global directory, and the views of the two rule directories.\<close>

definition load_rules ::
    "string \<Rightarrow> string \<Rightarrow> dir_view \<Rightarrow> dir_view \<Rightarrow> nat \<Rightarrow> nat \<Rightarrow> nat \<Rightarrow> context_rule list \<times> context_note list" where
  "load_rules real_root global_dir global_view project_view max_rule_bytes max_total_bytes max_rules =
    (let (rs1, ns1) = load_directory global_view (path_join global_dir ''rules'') global_dir ''global'' ''global/rules/''
                        max_rule_bytes;
         (rs2, ns2) = load_directory project_view (path_join (path_join real_root ''.m2c'') ''rules'') real_root ''project''
                        ''.m2c/rules/'' max_rule_bytes;
         (rules, ns3) = cap_rules max_total_bytes max_rules (rs1 @ rs2)
     in (rules, ns1 @ ns2 @ ns3))"

section \<open>Selecting and sending\<close>

text \<open>One file in play; \<open>roots\<close> is the normalised root and its real path, or empty for no root.\<close>

definition relative_path :: "string list \<Rightarrow> string \<Rightarrow> string option" where
  "relative_path roots item =
    (let p = normpath item;
         q = (if prefix ''/'' p then map_option (relpath p) (List.find (inside_dir p) roots) else Some p)
     in case q of
          None \<Rightarrow> None
        | Some t \<Rightarrow> if t = ''.'' \<or> t = ''..'' \<or> prefix ''../'' t then None else Some t)"

definition relative_paths :: "string list \<Rightarrow> string list \<Rightarrow> string list" where
  "relative_paths roots files = List.map_filter (relative_path roots) files"

definition applies :: "string list \<Rightarrow> context_rule \<Rightarrow> bool" where
  "applies files r \<longleftrightarrow> cr_paths r = [] \<or> (\<exists>g \<in> set (cr_paths r). \<exists>f \<in> set files. path_glob_match g f)"

definition select_rules :: "context_rule list \<Rightarrow> string list \<Rightarrow> string list \<Rightarrow> context_rule list" where
  "select_rules rules files_in_play roots = filter (applies (relative_paths roots files_in_play)) rules"

definition rules_for_run_start :: "context_rule list \<Rightarrow> (string \<times> string) list" where
  "rules_for_run_start rules = map (\<lambda>r. (take MAX_ID_LENGTH (cr_id r), cr_text r)) rules"


section \<open>The reachable sets compute the recursive match\<close>

text \<open>What a list of segments matches, by recursion on the segments.\<close>

fun seg_match :: "string list \<Rightarrow> string list \<Rightarrow> bool" where
  "seg_match [] parts = (parts = [])"
| "seg_match (segment # rest) parts =
    (if segment = ''**'' then (\<exists>k \<le> length parts. (rest = [] \<longrightarrow> 0 < k) \<and> seg_match rest (drop k parts))
     else (case parts of [] \<Rightarrow> False | p # ps \<Rightarrow> fnmatchcase p segment \<and> seg_match rest ps))"

lemma reach_star:
  assumes "finite R" and "R \<noteq> {}" and "R \<subseteq> {..length parts}"
  shows "(\<exists>m \<in> reach_step parts final ''**'' R. P (drop m parts)) \<longleftrightarrow>
    (\<exists>j \<in> R. \<exists>k \<le> length (drop j parts). (final \<longrightarrow> 0 < k) \<and> P (drop k (drop j parts)))"
    (is "?l \<longleftrightarrow> ?r")
proof
  assume ?l
  then obtain m where m: "(if final then Min R + 1 else Min R) \<le> m" "m \<le> length parts" "P (drop m parts)"
    by (auto simp: reach_step_def Let_def split: if_splits)
  have "Min R \<in> R" using assms by simp
  moreover have "drop (m - Min R) (drop (Min R) parts) = drop m parts"
    using m(1) by (simp split: if_splits)
  ultimately show ?r using m by (intro bexI [of _ "Min R"] exI [of _ "m - Min R"]) (auto split: if_splits)
next
  assume ?r
  then obtain j k where j: "j \<in> R" "k \<le> length (drop j parts)" "final \<longrightarrow> 0 < k" "P (drop (k + j) parts)" by auto
  have "Min R \<le> j" using assms j by simp
  then have "k + j \<in> reach_step parts final ''**'' R"
    using j assms(3) by (auto simp: reach_step_def Let_def)
  then show ?l using j(4) by blast
qed

lemma reach_plain:
  assumes "R \<subseteq> {..length parts}" and "segment \<noteq> ''**''"
  shows "(\<exists>m \<in> reach_step parts final segment R. P (drop m parts)) \<longleftrightarrow>
    (\<exists>j \<in> R. case drop j parts of [] \<Rightarrow> False | p # ps \<Rightarrow> fnmatchcase p segment \<and> P ps)"
proof -
  have "(case drop j parts of [] \<Rightarrow> False | p # ps \<Rightarrow> fnmatchcase p segment \<and> P ps)
      \<longleftrightarrow> j < length parts \<and> fnmatchcase (parts ! j) segment \<and> P (drop (j + 1) parts)" for j
  proof (cases "j < length parts")
    case True
    then have "drop j parts = parts ! j # drop (j + 1) parts" by (simp add: Cons_nth_drop_Suc)
    then show ?thesis using True by simp
  qed simp
  then show ?thesis using assms by (auto simp: reach_step_def)
qed

lemma reach_step_range:
  assumes "finite R" "R \<subseteq> {..length parts}"
  shows "finite (reach_step parts final segment R) \<and> reach_step parts final segment R \<subseteq> {..length parts}"
  using assms by (auto simp: reach_step_def Let_def)

lemma match_from_iff:
  "finite R \<Longrightarrow> R \<noteq> {} \<Longrightarrow> R \<subseteq> {..length parts} \<Longrightarrow>
    match_from parts R pattern \<longleftrightarrow> (\<exists>j \<in> R. seg_match pattern (drop j parts))"
proof (induction pattern arbitrary: R)
  case Nil
  then show ?case by (auto intro!: bexI [of _ "length parts"] simp: subset_iff dest: le_antisym)
next
  case (Cons segment rest)
  let ?R = "reach_step parts (rest = []) segment R"
  note range = reach_step_range [OF Cons.prems(1,3), of "rest = []" segment]
  have "match_from parts R (segment # rest) \<longleftrightarrow> (\<exists>m \<in> ?R. seg_match rest (drop m parts))"
    using Cons.IH [of ?R] range by (cases "?R = {}") (simp_all only: match_from.simps Let_def simp_thms if_True if_False bex_empty)
  also have "\<dots> \<longleftrightarrow> (\<exists>j \<in> R. seg_match (segment # rest) (drop j parts))"
  proof (cases "segment = ''**''")
    case True
    show ?thesis
      unfolding True reach_star [OF Cons.prems, where P = "seg_match rest"] by (intro bex_cong refl) simp
  next
    case False
    show ?thesis
      unfolding reach_plain [OF Cons.prems(3) False, where P = "seg_match rest"] by (simp only: seg_match.simps False if_False)
  qed
  finally show ?case .
qed

section \<open>What the brace groups expand to\<close>

inductive alternative :: "string \<Rightarrow> string \<Rightarrow> bool" where
  alternative_self: "find_brace_group p = None \<Longrightarrow> alternative p p"
| alternative_step: "find_brace_group p = Some (a, b, alts) \<Longrightarrow> alt \<in> set alts
    \<Longrightarrow> alternative (take a p @ alt @ drop (b + 1) p) q \<Longrightarrow> alternative p q"

inductive_cases alternativeE: "alternative p q"

lemma alternative_none: "find_brace_group p = None \<Longrightarrow> alternative p q \<longleftrightarrow> q = p"
  by (auto elim: alternativeE intro: alternative_self)

lemma alternative_some:
  assumes g: "find_brace_group p = Some (a, b, alts)"
  shows "alternative p q \<longleftrightarrow> (\<exists>alt \<in> set alts. alternative (take a p @ alt @ drop (b + 1) p) q)"
proof
  assume "alternative p q"
  then show "\<exists>alt \<in> set alts. alternative (take a p @ alt @ drop (b + 1) p) q"
  proof cases
    case alternative_self
    then show ?thesis by (simp add: g)
  next
    case (alternative_step a' b' alts' alt)
    then show ?thesis by (auto simp: g)
  qed
qed (blast intro: alternative_step [OF g])

lemma alternative_no_group: "alternative p q \<Longrightarrow> find_brace_group q = None"
  by (induction rule: alternative.induct)

lemma expand_loop_set:
  "expand_loop finished work = Some qs \<Longrightarrow>
    set qs = set finished \<union> {q. \<exists>w \<in> set work. alternative w q} \<and> (work \<noteq> [] \<longrightarrow> length qs \<le> MAX_BRACE_EXPANSIONS)"
proof (induction finished work rule: expand_loop.induct)
  case (1 finished)
  then show ?case by (simp add: expand_loop.simps)
next
  case (2 finished item work)
  show ?case
  proof (cases "find_brace_group item")
    case None
    have le: "length finished + length work < MAX_BRACE_EXPANSIONS"
      and s: "expand_loop (finished @ [item]) work = Some qs"
      using "2.prems" by (simp_all add: expand_loop.simps [of finished] None split: if_splits)
    have "set qs = set (finished @ [item]) \<union> {q. \<exists>w \<in> set work. alternative w q}
        \<and> (work \<noteq> [] \<longrightarrow> length qs \<le> MAX_BRACE_EXPANSIONS)"
      by (rule "2.IH" [where x = "(finished @ [item], work)" and xa = "finished @ [item]" and y = work])
        (use le s in \<open>simp_all add: None\<close>)
    moreover have "length qs \<le> MAX_BRACE_EXPANSIONS" if "work = []"
      using s le that by (auto simp: expand_loop.simps)
    ultimately show ?thesis by (auto simp: alternative_none [OF None])
  next
    case (Some g)
    then obtain a b alts where g: "find_brace_group item = Some (a, b, alts)" by (metis prod_cases3)
    let ?w = "rev (map (\<lambda>alt. take a item @ alt @ drop (b + 1) item) alts) @ work"
    have le: "\<not> MAX_BRACE_EXPANSIONS < length finished + length ?w" and s: "expand_loop finished ?w = Some qs"
      using "2.prems" by (simp_all add: expand_loop.simps [of finished] g split: if_splits)
    have "set qs = set finished \<union> {q. \<exists>w \<in> set ?w. alternative w q}
        \<and> (?w \<noteq> [] \<longrightarrow> length qs \<le> MAX_BRACE_EXPANSIONS)"
      by (rule "2.IH" [where x = "(finished, ?w)" and xa = finished and y = ?w]) (use le s in \<open>simp_all add: g\<close>)
    moreover have "?w \<noteq> [] \<or> length qs \<le> MAX_BRACE_EXPANSIONS"
      using s le by (auto simp: expand_loop.simps)
    ultimately show ?thesis by (auto simp: alternative_some [OF g])
  qed
qed


section \<open>What a rule file may say\<close>

text \<open>A pattern \<open>_check_globs\<close> lets through.\<close>

definition good_glob :: "string \<Rightarrow> bool" where
  "good_glob p \<longleftrightarrow> p \<noteq> [] \<and> strip p = p \<and> length p \<le> MAX_GLOB_LENGTH \<and> (\<forall>c \<in> set p. \<not> is_control c)
    \<and> expand_braces p \<noteq> None"

lemma dropWhile_idem: "dropWhile P (dropWhile P xs) = dropWhile P xs"
  by (induction xs) auto

lemma strip_ends: "strip s = [] \<or> \<not> py_space (hd (strip s)) \<and> \<not> py_space (last (strip s))"
proof (cases "strip s")
  case (Cons c cs)
  let ?d = "dropWhile py_space s"
  have r: "rev (strip s) = dropWhile py_space (rev ?d)" by (simp add: strip_def)
  have ne: "dropWhile py_space (rev ?d) \<noteq> []" using r Cons by (metis Nil_is_rev_conv list.distinct(1))
  have last: "\<not> py_space (last (strip s))"
    using hd_dropWhile [OF ne] r Cons by (metis hd_rev list.distinct(1))
  obtain t where "?d = strip s @ t"
    using r by (metis rev_append rev_rev_ident takeWhile_dropWhile_id)
  moreover have "?d \<noteq> []" using ne by (metis dropWhile.simps(1) rev.simps(1))
  ultimately have "hd (strip s) = hd ?d" using Cons by (metis hd_append2 list.distinct(1))
  then show ?thesis using hd_dropWhile \<open>?d \<noteq> []\<close> last by metis
qed simp

lemma dropWhile_id: "xs \<noteq> [] \<Longrightarrow> \<not> P (hd xs) \<Longrightarrow> dropWhile P xs = xs"
  by (cases xs) auto

lemma strip_id: "s \<noteq> [] \<Longrightarrow> \<not> py_space (hd s) \<Longrightarrow> \<not> py_space (last s) \<Longrightarrow> strip s = s"
  by (simp add: strip_def dropWhile_id hd_rev)

lemma strip_Nil [simp]: "strip [] = []"
  by (simp add: strip_def)

lemma strip_strip: "strip (strip s) = strip s"
  using strip_ends [of s] strip_id [of "strip s"] by (cases "strip s = []") auto

lemma rstrip_id: "s \<noteq> [] \<Longrightarrow> \<not> py_space (last s) \<Longrightarrow> rstrip s = s"
  by (cases s rule: rev_cases) (auto simp: rstrip_def)

lemma check_glob_iff [result_iff]: "check_glob p = Inr q \<longleftrightarrow> q = strip p \<and> good_glob q"
  by (auto simp: check_glob_def good_glob_def Let_def strip_strip not_le)

lemma check_globs_good:
  "check_globs v = Inr ps \<Longrightarrow> ps \<noteq> [] \<and> length ps \<le> MAX_GLOBS \<and> (\<forall>p \<in> set ps. good_glob p)"
  by (auto simp: check_globs_def Let_def result_iff list_all2_conv_all_nth in_set_conv_nth split: if_splits)

lemma map_of_meta_set: "map_of (meta_set k v m) k = (if map_of m k = None then None else Some v)"
  by (induction k v m rule: meta_set.induct) auto

lemma parse_front_matter_cases:
  assumes "parse_front_matter src = Inr (meta, body)"
  obtains "meta = []" "body = src"
  | meta0 where "map_of meta0 ''paths'' = None" "meta = meta0"
  | meta0 v ps where "map_of meta0 ''paths'' = Some v" "check_globs v = Inr ps" "meta = meta_set ''paths'' (FList ps) meta0"
proof (cases "rstrip (hd (split_on NL src)) = ''---''")
  case False
  then show ?thesis using assms that(1) by (simp add: parse_front_matter_def Let_def)
next
  case True
  obtain e where e: "block_end 1 (tl (split_on NL src)) = Some e"
    using assms True by (auto simp: parse_front_matter_def Let_def split: option.splits)
  obtain meta0 where m: "(case map_of meta0 ''paths'' of None \<Rightarrow> Inr meta0
      | Some v \<Rightarrow> bindE (check_globs v) (\<lambda>ps. Inr (meta_set ''paths'' (FList ps) meta0))) = Inr meta"
    using assms True e unfolding parse_front_matter_def Let_def by (simp add: bindE_return) blast
  show ?thesis
  proof (cases "map_of meta0 ''paths''")
    case None
    then show ?thesis using m that(2) by simp
  next
    case (Some v)
    then show ?thesis using m that(3) by (auto simp: result_iff)
  qed
qed

lemma parsed_paths:
  assumes "parse_front_matter src = Inr (meta, body)" and v: "map_of meta ''paths'' = Some v"
  shows "\<exists>ps. v = FList ps \<and> ps \<noteq> [] \<and> length ps \<le> MAX_GLOBS \<and> (\<forall>p \<in> set ps. good_glob p)"
  using assms(1)
proof (cases rule: parse_front_matter_cases)
  case (3 meta0 w ps)
  have "v = FList ps" using v 3 by (simp add: map_of_meta_set)
  then show ?thesis using check_globs_good [OF 3(2)] by blast
qed (use v in simp_all)

text \<open>A loaded rule: its id fits the protocol, its text is not empty, its patterns are well formed.\<close>

definition good_rule :: "context_rule \<Rightarrow> bool" where
  "good_rule r \<longleftrightarrow> length (cr_id r) \<le> MAX_ID_LENGTH \<and> cr_text r \<noteq> []
    \<and> length (cr_paths r) \<le> MAX_GLOBS \<and> (\<forall>p \<in> set (cr_paths r). good_glob p)"

lemma load_entry_good:
  assumes "load_entry real_dir base sc lp mb e = (Some r, ns)" shows "good_rule r"
proof -
  obtain src truncated where rd: "de_read e = Inr (src, truncated)"
    using assms by (auto simp: load_entry_def Let_def split: if_splits option.splits sum.splits)
  obtain meta body where pf: "parse_front_matter src = Inr (meta, body)"
    using assms rd by (auto simp: load_entry_def Let_def split: if_splits option.splits sum.splits)
  define paths where "paths = (case map_of meta ''paths'' of Some (FList ps) \<Rightarrow> ps | _ \<Rightarrow> [])"
  have r: "cr_id r = rule_id sc (take (length (de_name e) - 3) (de_name e))" "cr_paths r = paths" "cr_text r \<noteq> []"
    using assms rd pf by (auto simp: load_entry_def paths_def Let_def split: if_splits option.splits)
  have "length paths \<le> MAX_GLOBS \<and> (\<forall>p \<in> set paths. good_glob p)"
    using parsed_paths [OF pf] by (auto simp: paths_def split: option.split)
  then show ?thesis using r by (simp add: good_rule_def rule_id_def Let_def)
qed

lemma load_entries_good:
  "load_entries real_dir base sc lp mb es = (rs, ns) \<Longrightarrow> r \<in> set rs \<Longrightarrow> good_rule r"
  by (induction es arbitrary: rs ns) (auto split: prod.splits option.splits dest: load_entry_good)

lemma load_directory_good:
  "load_directory dv d base sc lp mb = (rs, ns) \<Longrightarrow> r \<in> set rs \<Longrightarrow> good_rule r"
  by (auto simp: load_directory_def Let_def split: if_splits option.splits dest: load_entries_good)

text \<open>The two caps, and that no longer tail of the list meets them.\<close>

definition within_caps :: "nat \<Rightarrow> nat \<Rightarrow> context_rule list \<Rightarrow> bool" where
  "within_caps mt mr rs \<longleftrightarrow> length rs \<le> mr \<and> sum_list (map (\<lambda>r. nbytes (cr_text r)) rs) \<le> mt"

lemma cap_rules_spec:
  "cap_rules mt mr rs = (kept, ns) \<Longrightarrow>
    suffix kept rs \<and> within_caps mt mr kept \<and> (\<forall>ts. suffix ts rs \<and> within_caps mt mr ts \<longrightarrow> length ts \<le> length kept)
    \<and> length ns = length rs - length kept"
proof (induction rs arbitrary: kept ns)
  case Nil
  then show ?case by (simp add: within_caps_def)
next
  case (Cons r rs)
  show ?case
  proof (cases "within_caps mt mr (r # rs)")
    case True
    then show ?thesis using Cons.prems by (auto simp: within_caps_def suffix_length_le)
  next
    case False
    then have drop: "mr < length (r # rs) \<or> mt < sum_list (map (\<lambda>r. nbytes (cr_text r)) (r # rs))"
      by (auto simp: within_caps_def)
    obtain kept' ns' where c: "cap_rules mt mr rs = (kept', ns')" by fastforce
    then have k: "kept = kept'" "length ns = Suc (length ns')"
      using Cons.prems drop by (auto simp: Let_def)
    have IH: "suffix kept' rs" "within_caps mt mr kept'" "length ns' = length rs - length kept'"
      "\<And>ts. suffix ts rs \<Longrightarrow> within_caps mt mr ts \<Longrightarrow> length ts \<le> length kept'"
      using Cons.IH [OF c] by auto
    have "length ts \<le> length kept'" if "suffix ts (r # rs)" "within_caps mt mr ts" for ts
      using that False IH(4) by (auto simp: suffix_Cons)
    then show ?thesis using IH(1-3) k suffix_length_le [OF IH(1)] by (simp add: suffix_Cons)
  qed
qed

lemma path_parts_relative:
  "path_parts f = Some parts \<Longrightarrow> \<not> prefix ''/'' f \<and> parts \<noteq> [] \<and> (\<forall>p \<in> set parts. p \<notin> {[], ''.'', ''..''})
    \<and> length parts \<le> MAX_PATH_SEGMENTS"
  by (auto simp: path_parts_def Let_def split: if_splits)


section \<open>A printed rule file\<close>

definition glob_line :: "string \<Rightarrow> string" where
  "glob_line p = ''  - '' @ [DQ] @ p @ [DQ]"

definition rule_file :: "string list \<Rightarrow> string \<Rightarrow> string" where
  "rule_file ps body = join [NL] ([''---'', ''paths:''] @ map glob_line ps @ [''---'']) @ [NL] @ body"

lemma split_on_join_append:
  "ws \<noteq> [] \<Longrightarrow> \<forall>w \<in> set ws. c \<notin> set w \<Longrightarrow> split_on c (join [c] ws @ c # s) = ws @ split_on c s"
  by (induction ws rule: induct_list012) (simp_all add: split_on_append_sep)

lemma unquote_quoted: "unquote (SPC # DQ # p @ [DQ]) = Inr p"
proof -
  have "strip (DQ # p @ [DQ]) = DQ # p @ [DQ]" by (rule strip_id) (simp_all add: py_space_def Let_def)
  moreover have "strip (SPC # w) = strip w" for w by (simp add: strip_def py_space_def Let_def)
  ultimately show ?thesis by (simp add: unquote_def)
qed

lemma glob_line_strip: "rstrip (glob_line p) = glob_line p" "strip (glob_line p) = ''- '' @ [DQ] @ p @ [DQ]"
proof -
  show "rstrip (glob_line p) = glob_line p"
    by (rule rstrip_id) (simp_all add: glob_line_def py_space_def Let_def)
  have "strip (''- '' @ [DQ] @ p @ [DQ]) = ''- '' @ [DQ] @ p @ [DQ]"
    by (rule strip_id) (simp_all add: py_space_def Let_def)
  moreover have "strip (SPC # SPC # w) = strip w" for w by (simp add: strip_def py_space_def Let_def)
  ultimately show "strip (glob_line p) = ''- '' @ [DQ] @ p @ [DQ]" by (simp add: glob_line_def)
qed

lemma glob_line_printable: "\<forall>c \<in> set p. \<not> is_control c \<Longrightarrow> c \<in> set (glob_line p) \<Longrightarrow> \<not> (of_char c :: nat) < 32"
  by (auto simp: glob_line_def is_control_def)

lemma block_line_glob:
  assumes "\<forall>c \<in> set p. \<not> is_control c"
  shows "block_line (glob_line p) ([(''paths'', FList ps)], Some ''paths'') = Inr ([(''paths'', FList (ps @ [p]))], Some ''paths'')"
proof -
  have "\<not> (\<exists>ch \<in> set (glob_line p). (of_char ch :: nat) < 32 \<and> ch \<noteq> TAB)"
    using glob_line_printable [OF assms] by blast
  then show ?thesis
    using unquote_quoted [of p] by (simp add: block_line_def Let_def glob_line_strip)
qed

lemma parse_lines_globs:
  "\<forall>p \<in> set qs. \<forall>c \<in> set p. \<not> is_control c \<Longrightarrow>
    parse_lines (map glob_line qs) ([(''paths'', FList ps)], Some ''paths'') = Inr [(''paths'', FList (ps @ qs))]"
  by (induction qs arbitrary: ps) (simp_all add: block_line_glob)

lemma block_line_paths: "block_line ''paths:'' ([], None) = Inr ([(''paths'', FList [])], Some ''paths'')"
  by code_simp

lemma block_end_globs:
  "block_end i (map glob_line ps @ ''---'' # ls) = Some (i + length ps)"
proof (induction ps arbitrary: i)
  case Nil
  have "rstrip ''---'' = ''---''" by code_simp
  then show ?case by simp
next
  case (Cons p ps)
  then show ?case using Cons.IH [of "Suc i"] by (simp add: glob_line_strip(1)) (simp add: glob_line_def)
qed

lemma mapE_id: "(\<forall>x \<in> set xs. f x = Inr x) \<Longrightarrow> mapE f xs = Inr xs"
  by (induction xs) simp_all

section \<open>Properties\<close>

text \<open>C37: The set of reachable positions decides exactly the recursive segment match: a double star is any number of whole segments, at least one at the end of a pattern, and every other segment matches one segment.\<close>

theorem match_segments_is_seg_match: "match_segments pattern parts = seg_match pattern parts"
  using match_from_iff [of "{0}" parts pattern] by (simp add: match_segments_def)

text \<open>Brace expansion is complete and bounded: when it succeeds it lists exactly the alternatives of the pattern, each free of groups, and there are at most 32 of them.\<close>

theorem expand_braces_is_complete:
  assumes "expand_braces p = Some qs"
  shows "set qs = {q. alternative p q} \<and> length qs \<le> MAX_BRACE_EXPANSIONS \<and> (\<forall>q \<in> set qs. find_brace_group q = None)"
  using expand_loop_set [of "[]" "[p]" qs] assms alternative_no_group by (auto simp: expand_braces_def)

theorem expand_braces_is_complete_witness:
  "expand_braces ''{a,b{c,d}}.py'' = Some [''bd.py'', ''bc.py'', ''a.py''] \<and> alternative ''{a,b{c,d}}.py'' ''bc.py''"
proof -
  have e: "expand_braces ''{a,b{c,d}}.py'' = Some [''bd.py'', ''bc.py'', ''a.py'']" by code_simp
  then show ?thesis using expand_braces_is_complete [OF e] by auto
qed

text \<open>A glob matches only relative paths without \<open>..\<close> segments, and then one of its brace alternatives matches the path's segments; a pattern that cannot be expanded matches nothing.\<close>

theorem glob_match_is_confined:
  assumes "path_glob_match g f"
  shows "\<not> prefix ''/'' f \<and> (\<exists>parts q. path_parts f = Some parts \<and> (\<forall>p \<in> set parts. p \<notin> {[], ''.'', ''..''})
    \<and> alternative g q \<and> segments q \<noteq> [] \<and> seg_match (segments q) parts)"
proof -
  obtain parts segs where parts: "path_parts f = Some parts" and segs: "segs \<in> set (compile_glob g)" "match_segments segs parts"
    using assms by (auto simp: path_glob_match_def split: option.splits)
  obtain qs q where qs: "expand_braces g = Some qs" "q \<in> set qs" "segs = segments q" "segs \<noteq> []"
    using segs(1) by (cases "expand_braces g") (auto simp: compile_glob_def)
  have "alternative g q"
    using expand_loop_set [of "[]" "[g]" qs] qs(1,2) by (auto simp: expand_braces_def)
  moreover have "seg_match (segments q) parts"
    using match_from_iff [of "{0}" parts segs] segs(2) qs(3) by (simp add: match_segments_def)
  ultimately show ?thesis using path_parts_relative [OF parts] parts qs by blast
qed

theorem glob_match_is_confined_witness:
  "path_glob_match ''src/**/*.{py,pyi}'' ''src/./a/b.py'' \<and> \<not> path_glob_match ''**'' ''a/../b'' \<and> \<not> prefix ''/'' ''src/./a/b.py''"
proof -
  have m: "path_glob_match ''src/**/*.{py,pyi}'' ''src/./a/b.py''" and n: "\<not> path_glob_match ''**'' ''a/../b''"
    by code_simp+
  show ?thesis using glob_match_is_confined [OF m] m n by blast
qed

text \<open>Selection keeps the order, keeps every unconditional rule, and keeps a rule with patterns exactly when one of them matches a file in play; with no file in play only the unconditional rules apply.\<close>

theorem select_rules_spec:
  "subseq (select_rules rules files roots) rules
    \<and> (\<forall>r \<in> set rules. r \<in> set (select_rules rules files roots) \<longleftrightarrow>
        cr_paths r = [] \<or> (\<exists>g \<in> set (cr_paths r). \<exists>f \<in> set (relative_paths roots files). path_glob_match g f))
    \<and> select_rules rules [] roots = filter (\<lambda>r. cr_paths r = []) rules"
proof -
  have "applies (relative_paths roots []) = (\<lambda>r. cr_paths r = [])"
    by (auto simp: applies_def relative_paths_def map_filter_def fun_eq_iff)
  then show ?thesis by (auto simp: select_rules_def applies_def [of "relative_paths roots files"])
qed

theorem select_rules_spec_witness:
  "select_rules [\<lparr>cr_id = ''a'', cr_paths = [''*.py''], cr_text = ''x'', cr_source = ''a''\<rparr>,
      \<lparr>cr_id = ''b'', cr_paths = [''docs/''], cr_text = ''y'', cr_source = ''b''\<rparr>,
      \<lparr>cr_id = ''c'', cr_paths = [], cr_text = ''z'', cr_source = ''c''\<rparr>] [''/r/src/m.py''] [''/r'']
    = [\<lparr>cr_id = ''a'', cr_paths = [''*.py''], cr_text = ''x'', cr_source = ''a''\<rparr>,
       \<lparr>cr_id = ''c'', cr_paths = [], cr_text = ''z'', cr_source = ''c''\<rparr>]
    \<and> subseq (select_rules [] [''/r/src/m.py''] [''/r'']) []"
  using select_rules_spec [of "[]" "[''/r/src/m.py'']" "[''/r'']"] by (intro conjI) (code_simp, blast)

text \<open>The loaded rules meet the protocol: they are the longest tail of the rules found (global before project) that meets both caps, one note names each rule dropped, every pattern is well formed, and the names sent have at most 128 characters and a text.\<close>

theorem load_rules_meets_the_protocol:
  assumes "load_rules real_root global_dir gv pv max_rule_bytes max_total max_rules = (rules, notes)"
  shows "\<exists>found. suffix rules found \<and> within_caps max_total max_rules rules
    \<and> (\<forall>ts. suffix ts found \<and> within_caps max_total max_rules ts \<longrightarrow> length ts \<le> length rules)
    \<and> length found - length rules \<le> length notes \<and> (\<forall>r \<in> set rules. good_rule r)
    \<and> (\<forall>(name, body) \<in> set (rules_for_run_start rules). length name \<le> MAX_ID_LENGTH \<and> body \<noteq> [])"
proof -
  obtain rs1 ns1 where 1: "load_directory gv (path_join global_dir ''rules'') global_dir ''global'' ''global/rules/''
      max_rule_bytes = (rs1, ns1)" by fastforce
  obtain rs2 ns2 where 2: "load_directory pv (path_join (path_join real_root ''.m2c'') ''rules'') real_root ''project''
      ''.m2c/rules/'' max_rule_bytes = (rs2, ns2)" by fastforce
  obtain ns3 where 3: "cap_rules max_total max_rules (rs1 @ rs2) = (rules, ns3)" and n: "notes = ns1 @ ns2 @ ns3"
    using assms by (auto simp: load_rules_def 1 2 split: prod.splits)
  note cap = cap_rules_spec [OF 3]
  have good: "good_rule r" if "r \<in> set rules" for r
    using that cap load_directory_good [OF 1] load_directory_good [OF 2] set_mono_suffix by fastforce
  then have "\<forall>(name, body) \<in> set (rules_for_run_start rules). length name \<le> MAX_ID_LENGTH \<and> body \<noteq> []"
    by (auto simp: rules_for_run_start_def good_rule_def)
  then show ?thesis using cap good n by (intro exI [of _ "rs1 @ rs2"]) auto
qed

definition sample_view :: dir_view where
  "sample_view = \<lparr>dv_exists = True, dv_real = ''/g/rules'', dv_entries = Some
    [\<lparr>de_name = ''b.md'', de_isdir = False, de_real = ''/g/rules/b.md'', de_read = Inr (''use tabs'', False)\<rparr>,
     \<lparr>de_name = ''a.MD'', de_isdir = False, de_real = ''/g/rules/a.MD'', de_read = Inr (''long text'', True)\<rparr>,
     \<lparr>de_name = ''x.md'', de_isdir = False, de_real = ''/etc/x'', de_read = Inr (''no'', False)\<rparr>]\<rparr>"

theorem load_rules_meets_the_protocol_witness:
  "map cr_id (fst (load_rules ''/r'' ''/g'' sample_view (sample_view\<lparr>dv_exists := False\<rparr>) 16384 60000 1)) = [''global/b'']
    \<and> within_caps 60000 1 (fst (load_rules ''/r'' ''/g'' sample_view (sample_view\<lparr>dv_exists := False\<rparr>) 16384 60000 1))"
  (is "?l \<and> _")
proof
  show ?l by code_simp
  show "within_caps 60000 1 (fst (load_rules ''/r'' ''/g'' sample_view (sample_view\<lparr>dv_exists := False\<rparr>) 16384 60000 1))"
    using load_rules_meets_the_protocol [OF surjective_pairing] by blast
qed

text \<open>C38: A rule file written with a block of quoted patterns reads back as those patterns and that body, whatever the body holds.\<close>

theorem rule_file_round_trip:
  assumes "ps \<noteq> []" and "length ps \<le> MAX_GLOBS" and good: "\<forall>p \<in> set ps. good_glob p"
  shows "parse_front_matter (rule_file ps body) = Inr ([(''paths'', FList ps)], body)"
proof -
  have clean: "\<forall>p \<in> set ps. \<forall>c \<in> set p. \<not> is_control c" using good by (auto simp: good_glob_def)
  have nl: "NL \<notin> set (glob_line p)" if "p \<in> set ps" for p
    using clean glob_line_printable [of p NL] that by auto
  have lines: "split_on NL (rule_file ps body) = ''---'' # ''paths:'' # map glob_line ps @ ''---'' # split_on NL body"
    unfolding rule_file_def append_assoc [symmetric]
    by (subst append_assoc, simp only: append_Cons append_Nil, subst split_on_join_append) (use nl in auto)
  have dash: "rstrip ''---'' = ''---''" "rstrip ''paths:'' \<notin> {''---'', ''...''}" by code_simp+
  have parsed: "parse_block (''paths:'' # map glob_line ps) = Inr [(''paths'', FList ps)]"
    using parse_lines_globs [OF clean, of "[]"] by (simp add: parse_block_def block_line_paths)
  have "mapE check_glob ps = Inr ps"
    using good by (intro mapE_id) (simp add: check_glob_iff good_glob_def)
  then have "check_globs (FList ps) = Inr ps" using assms by (simp add: check_globs_def)
  then show ?thesis
    using dash(2) by (simp add: parse_front_matter_def lines dash(1) Let_def block_end_globs parsed join_split)
qed

theorem rule_file_round_trip_witness:
  "parse_front_matter (rule_file [''src/**/*.py'', ''{a,b}''] ''Use tabs.'') = Inr ([(''paths'', FList [''src/**/*.py'', ''{a,b}''])], ''Use tabs.'')"
proof (rule rule_file_round_trip)
  show "\<forall>p \<in> set [''src/**/*.py'', ''{a,b}'']. good_glob p" by code_simp
qed (simp_all add: MAX_GLOBS_def)

end
