(* ===== verification/Assembler.thy ===== *)
theory Assembler
  imports Prompts "HOL-Library.Char_ord" "HOL-Library.List_Lexorder"
begin

text \<open>
  \<open>backend/codeagent/context.py\<close>: the budgeted context assembler. The water marks, which the
  constructor computes with floats, and the other settings are the record \<open>config\<close>; the digest that
  names a run without an id is a parameter of it. The per-run memory, an ordered dictionary, is an
  association list from the least to the most recently used. A conversation item is a JSON value.
\<close>

section \<open>Settings\<close>

definition MIN_WINDOW_TOKENS :: nat where "MIN_WINDOW_TOKENS = 512"
definition MAX_WINDOW_TOKENS :: nat where "MAX_WINDOW_TOKENS = 10000000"
definition MIN_CLEAR_SAVING_TOKENS :: nat where "MIN_CLEAR_SAVING_TOKENS = 16"
definition CHARS_PER_TOKEN :: nat where "CHARS_PER_TOKEN = 4"
definition MESSAGE_OVERHEAD_TOKENS :: nat where "MESSAGE_OVERHEAD_TOKENS = 4"
definition CALL_OVERHEAD_TOKENS :: nat where "CALL_OVERHEAD_TOKENS = 4"
definition USER_TEXT_CAP_CHARS :: nat where "USER_TEXT_CAP_CHARS = 1500"
definition USER_TEXT_BUDGET_CHARS :: nat where "USER_TEXT_BUDGET_CHARS = 6000"
definition MAX_NAMES_IN_SUMMARY :: nat where "MAX_NAMES_IN_SUMMARY = 20"
definition MAX_RUN_KEY_CHARS :: nat where "MAX_RUN_KEY_CHARS = 200"

definition NOTE_COMPACTED :: string where "NOTE_COMPACTED = ''context_compacted''"
definition NOTE_THRASH :: string where "NOTE_THRASH = ''context_thrash''"
definition STUB_TEXT :: string where "STUB_TEXT = ''[tool output cleared to save space]''"
definition DENIED_PREFIX :: string where "DENIED_PREFIX = ''The user denied this action.''"

definition SUMMARY_HEADER :: string where
  "SUMMARY_HEADER = ''[Earlier part of this conversation, condensed by the server without a model]''"

record config =
  cf_high :: nat
  cf_low :: nat
  cf_cap :: nat
  cf_thrash :: nat
  cf_keep :: nat
  cf_max_runs :: nat
  cf_digest :: "string \<Rightarrow> string"
  cf_str :: "json \<Rightarrow> string"

text \<open>
  The window from the environment: a plain number within the bounds, else nothing. \<open>int\<close> raises for a text
  of more than 4300 digits; then the answer is \<open>None\<close>.
\<close>

definition MAX_STR_DIGITS :: nat where "MAX_STR_DIGITS = 4300"

definition number_of :: "string \<Rightarrow> nat" where
  "number_of s = foldl (\<lambda>n c. n * 10 + ((of_char c :: nat) - 48)) 0 s"

definition env_window :: "string option \<Rightarrow> nat option option" where
  "env_window raw =
    (case raw of
       None \<Rightarrow> Some None
     | Some r \<Rightarrow>
         (let s = strip r in
          if s = [] \<or> \<not> (\<forall>c \<in> set s. ascii_digit c) then Some None
          else if MAX_STR_DIGITS < length s then None
          else (let v = number_of s in
                Some (if MIN_WINDOW_TOKENS \<le> v \<and> v \<le> MAX_WINDOW_TOKENS then Some v else None))))"

lemma long_env_window_raises: "env_window (Some (replicate 4301 CHR ''1'')) = None"
proof -
  have "strip (replicate 4301 CHR ''1'') = replicate 4301 CHR ''1''"
    by (simp add: strip_def dropWhile_replicate py_space_def)
  then show ?thesis by (simp add: env_window_def MAX_STR_DIGITS_def Let_def ascii_digit_def)
qed

section \<open>The estimate\<close>

definition tokens_of_length :: "nat \<Rightarrow> nat" where
  "tokens_of_length n = (n + CHARS_PER_TOKEN - 1) div CHARS_PER_TOKEN"

definition estimate_tokens :: "json \<Rightarrow> nat" where
  "estimate_tokens v = (case v of JStr s \<Rightarrow> tokens_of_length (length s) | _ \<Rightarrow> 0)"

definition json_tokens :: "json \<Rightarrow> nat" where
  "json_tokens v = tokens_of_length (compact_len v)"

definition estimate_message_tokens :: "message \<Rightarrow> nat" where
  "estimate_message_tokens m =
    MESSAGE_OVERHEAD_TOKENS + tokens_of_length (length (m_content m))
    + sum_list (map (\<lambda>c. CALL_OVERHEAD_TOKENS + estimate_tokens (tc_name c) + json_tokens (JObj (tc_args c))) (m_calls m))"

definition estimate_tool_tokens :: "offered_tool \<Rightarrow> nat" where
  "estimate_tool_tokens t =
    MESSAGE_OVERHEAD_TOKENS + tokens_of_length (length (ot_name t)) + tokens_of_length (length (ot_description t))
    + json_tokens (ot_schema t)"

definition estimate_context_tokens :: "assembled \<Rightarrow> nat" where
  "estimate_context_tokens ctx =
    sum_list (map estimate_message_tokens (as_messages ctx)) + sum_list (map estimate_tool_tokens (as_tools ctx))"

definition middle_marker :: "nat \<Rightarrow> string" where
  "middle_marker omitted =
    [NL] @ ''[... '' @ digits_of omitted @ '' characters omitted from the middle of this tool result to save space ...]'' @ [NL]"

definition truncate_middle :: "string \<Rightarrow> nat \<Rightarrow> string" where
  "truncate_middle t cap =
    (if length t \<le> cap then t
     else
       (let head = (cap * 3) div 5; tail = cap - head; omitted = length t - head - tail
        in take head t @ middle_marker omitted @ drop (length t - tail) t))"

section \<open>Items as rows\<close>

datatype item_kind = User_item | Assistant_item | Tool_item

definition item_kind :: "json \<Rightarrow> item_kind option" where
  "item_kind item =
    (case item of
       JObj d \<Rightarrow>
         (case (field d ''role'', field d ''text'', field d ''call_id'') of
            (JStr r, txt, cid) \<Rightarrow>
              if r = ''user'' then (case txt of JStr _ \<Rightarrow> Some User_item | _ \<Rightarrow> None)
              else if r = ''assistant'' then Some Assistant_item
              else if r = ''tool'' then (case cid of JStr _ \<Rightarrow> Some Tool_item | _ \<Rightarrow> None)
              else None
          | _ \<Rightarrow> None)
     | _ \<Rightarrow> None)"

definition call_pair :: "json \<Rightarrow> (string \<times> string) option" where
  "call_pair c =
    (case (field (as_dict c) ''call_id'', field (as_dict c) ''tool'') of
       (JStr cid, JStr tool) \<Rightarrow> Some (cid, tool)
     | _ \<Rightarrow> None)"

definition well_formed_calls :: "json \<Rightarrow> (string \<times> string) list" where
  "well_formed_calls item =
    (case field (as_dict item) ''tool_calls'' of JList cs \<Rightarrow> List.map_filter call_pair cs | _ \<Rightarrow> [])"

definition answers :: "json \<Rightarrow> string option" where
  "answers item =
    (case (field (as_dict item) ''role'', field (as_dict item) ''call_id'') of
       (JStr r, JStr cid) \<Rightarrow> if r = ''tool'' then Some cid else None
     | _ \<Rightarrow> None)"

definition calls_made :: "json \<Rightarrow> (string \<times> string) list" where
  "calls_made item = (if field (as_dict item) ''role'' = JStr ''assistant'' then well_formed_calls item else [])"

definition find_unanswered :: "json list \<Rightarrow> (string \<times> string) list" where
  "find_unanswered items =
    (let answered = set (List.map_filter answers items)
     in filter (\<lambda>(cid, tool). cid \<notin> answered) (concat (map calls_made items)))"

definition is_denial :: "json \<Rightarrow> bool" where
  "is_denial item \<longleftrightarrow> \<not> truthy (field (as_dict item) ''ok'')
     \<and> (case field (as_dict item) ''output'' of JStr s \<Rightarrow> prefix DENIED_PREFIX s | _ \<Rightarrow> False)"

text \<open>\<open>_TOOL_NAME_RE.match\<close>: the \<open>$\<close> also accepts one line feed at the end.\<close>

definition plain_tool_name :: "string \<Rightarrow> bool" where
  "plain_tool_name s \<longleftrightarrow> s \<noteq> [] \<and> ascii_alpha (hd s) \<and> length s \<le> 128
     \<and> (\<forall>c \<in> set s. ascii_alpha c \<or> ascii_digit c \<or> c = CHR ''_'' \<or> c = CHR ''-'')"

definition safe_tool_name :: "string \<Rightarrow> string" where
  "safe_tool_name s =
    (if plain_tool_name s \<or> (suffix [NL] s \<and> plain_tool_name (butlast s)) then s else ''unknown_tool'')"

record row =
  r_item :: json
  r_kind :: "item_kind option"
  r_messages :: "message list"
  r_cost :: nat
  r_calls :: "(string \<times> string) list"
  r_call_id :: string

definition convert :: "json \<Rightarrow> message list" where
  "convert item = (case items_to_messages [item] of Some ms \<Rightarrow> ms | None \<Rightarrow> [])"

definition capped_item :: "nat option \<Rightarrow> json \<Rightarrow> json" where
  "capped_item cap item =
    (case (cap, field (as_dict item) ''output'') of
       (Some n, JStr s) \<Rightarrow> if n < length s then JObj (dict_set ''output'' (JStr (truncate_middle s n)) (as_dict item)) else item
     | _ \<Rightarrow> item)"

definition make_row :: "json \<Rightarrow> nat option \<Rightarrow> row" where
  "make_row item cap =
    (case item_kind item of
       None \<Rightarrow> \<lparr>r_item = item, r_kind = None, r_messages = [], r_cost = 0, r_calls = [], r_call_id = []\<rparr>
     | Some k \<Rightarrow>
         (let item' = (if k = Tool_item then capped_item cap item else item);
              ms = convert item'
          in \<lparr>r_item = item', r_kind = Some k, r_messages = ms, r_cost = sum_list (map estimate_message_tokens ms),
              r_calls = (if k = Assistant_item then well_formed_calls item else []),
              r_call_id = (if k = Tool_item then str_or [] (field (as_dict item) ''call_id'') else [])\<rparr>))"

definition stub_row :: "row \<Rightarrow> row" where
  "stub_row r =
    make_row (JObj (dict_set ''truncated'' (JBool False) (dict_set ''output'' (JStr STUB_TEXT) (as_dict (r_item r))))) None"

section \<open>The layout of a conversation\<close>

definition positions_of :: "(row \<Rightarrow> bool) \<Rightarrow> row list \<Rightarrow> nat list" where
  "positions_of P rows = filter (\<lambda>i. P (rows ! i)) [0..<length rows]"

definition makes_call :: "string \<Rightarrow> row \<Rightarrow> bool" where
  "makes_call cid r \<longleftrightarrow> r_kind r = Some Assistant_item \<and> cid \<in> fst ` set (r_calls r)"

definition answers_call :: "string \<Rightarrow> row \<Rightarrow> bool" where
  "answers_call cid r \<longleftrightarrow> r_kind r = Some Tool_item \<and> r_call_id r = cid"

text \<open>The keys of \<open>call_at\<close>, and the positions where a call id is made or answered.\<close>

definition call_ids :: "row list \<Rightarrow> string list" where
  "call_ids rows = remdups (concat (map (\<lambda>r. if r_kind r = Some Assistant_item then map fst (r_calls r) else []) rows))"

definition spread :: "row list \<Rightarrow> string \<Rightarrow> nat list" where
  "spread rows cid = positions_of (makes_call cid) rows @ positions_of (answers_call cid) rows"

definition unanswered :: "row list \<Rightarrow> string \<Rightarrow> bool" where
  "unanswered rows cid \<longleftrightarrow> cid \<in> set (call_ids rows) \<and> positions_of (answers_call cid) rows = []"

definition waits :: "row list \<Rightarrow> row \<Rightarrow> bool" where
  "waits rows r \<longleftrightarrow> r_kind r = Some Assistant_item \<and> (\<exists>cid \<in> fst ` set (r_calls r). unanswered rows cid)"

definition protected_first :: "row list \<Rightarrow> nat" where
  "protected_first rows = (case positions_of (waits rows) rows of [] \<Rightarrow> length rows | i # _ \<Rightarrow> i)"

definition protected_ids :: "row list \<Rightarrow> string list" where
  "protected_ids rows = concat (map (\<lambda>r. if waits rows r then map fst (r_calls r) else []) rows)"

text \<open>
  The difference array: each call id adds 1 after its first position and takes it away after its
  last one; \<open>blocked\<close> is where the running sum is positive.
\<close>

definition diff_of :: "nat list \<Rightarrow> nat \<Rightarrow> int" where
  "diff_of ps i =
    (let low = Min (set ps); high = Max (set ps) in
     if low < high then (if i = low + 1 then 1 else 0) - (if i = high + 1 then 1 else 0) else 0)"

definition diff_at :: "row list \<Rightarrow> nat \<Rightarrow> int" where
  "diff_at rows i = sum_list (map (\<lambda>cid. diff_of (spread rows cid) i) (call_ids rows))"

definition blocked :: "row list \<Rightarrow> nat \<Rightarrow> bool" where
  "blocked rows c \<longleftrightarrow> 0 < sum_list (map (diff_at rows) [0..<c + 1])"

definition starts_round :: "row \<Rightarrow> bool" where
  "starts_round r \<longleftrightarrow> r_kind r \<in> {Some User_item, Some Assistant_item}"

definition round_starts :: "row list \<Rightarrow> nat list" where
  "round_starts rows = positions_of starts_round rows"

definition boundary :: "nat \<Rightarrow> row list \<Rightarrow> nat" where
  "boundary keep rows =
    (let rs = round_starts rows in if keep \<le> length rs then rs ! (length rs - keep) else 0)"

definition cut_limit :: "nat \<Rightarrow> row list \<Rightarrow> nat" where
  "cut_limit keep rows = min (boundary keep rows) (protected_first rows)"

definition clearable :: "row list \<Rightarrow> row \<Rightarrow> bool" where
  "clearable rows r \<longleftrightarrow> r_kind r = Some Tool_item \<and> r_call_id r \<notin> set (protected_ids rows) \<and> \<not> is_denial (r_item r)"

definition eligible :: "nat \<Rightarrow> row list \<Rightarrow> nat list" where
  "eligible keep rows = filter (\<lambda>i. clearable rows (rows ! i)) [0..<boundary keep rows]"

definition valid_cut :: "nat \<Rightarrow> row list \<Rightarrow> nat \<Rightarrow> bool" where
  "valid_cut keep rows c \<longleftrightarrow> 0 < c \<and> c \<le> cut_limit keep rows \<and> c \<in> set (round_starts rows) \<and> \<not> blocked rows c"

section \<open>The summary\<close>

record aggregate =
  ag_messages :: nat
  ag_assistants :: nat
  ag_results :: nat
  ag_users :: "string list"
  ag_calls :: "(string \<times> nat) list"
  ag_denied :: "(string \<times> nat) list"
  ag_tool_of :: "(string \<times> string) list"

definition new_aggregate :: aggregate where
  "new_aggregate = \<lparr>ag_messages = 0, ag_assistants = 0, ag_results = 0, ag_users = [], ag_calls = [], ag_denied = [],
     ag_tool_of = []\<rparr>"

definition count_up :: "string \<Rightarrow> (string \<times> nat) list \<Rightarrow> (string \<times> nat) list" where
  "count_up name counts = dict_set name ((case map_of counts name of Some n \<Rightarrow> n | None \<Rightarrow> 0) + 1) counts"

definition add_call :: "string \<times> string \<Rightarrow> aggregate \<Rightarrow> aggregate" where
  "add_call c a =
    (let name = safe_tool_name (snd c)
     in a\<lparr>ag_tool_of := dict_set (fst c) name (ag_tool_of a), ag_calls := count_up name (ag_calls a)\<rparr>)"

definition add_row :: "row \<Rightarrow> aggregate \<Rightarrow> aggregate" where
  "add_row r a =
    (case r_kind r of
       None \<Rightarrow> a
     | Some User_item \<Rightarrow>
         a\<lparr>ag_messages := ag_messages a + 1, ag_users := ag_users a @ [str_or [] (field (as_dict (r_item r)) ''text'')]\<rparr>
     | Some Assistant_item \<Rightarrow>
         fold add_call (r_calls r) (a\<lparr>ag_messages := ag_messages a + 1, ag_assistants := ag_assistants a + 1\<rparr>)
     | Some Tool_item \<Rightarrow>
         (let b = a\<lparr>ag_messages := ag_messages a + 1, ag_results := ag_results a + 1\<rparr> in
          if is_denial (r_item r)
          then b\<lparr>ag_denied := count_up (case map_of (ag_tool_of b) (r_call_id r) of Some n \<Rightarrow> n | None \<Rightarrow> ''unknown_tool'') (ag_denied b)\<rparr>
          else b))"

definition count_list :: "(string \<times> nat) list \<Rightarrow> string" where
  "count_list counts =
    (let names = sort (map fst counts);
         entry = (\<lambda>name. name @ '' x'' @ digits_of (case map_of counts name of Some n \<Rightarrow> n | None \<Rightarrow> 0))
     in join '', '' (map entry (take MAX_NAMES_IN_SUMMARY names))
        @ (if MAX_NAMES_IN_SUMMARY < length names
           then '', and '' @ digits_of (length names - MAX_NAMES_IN_SUMMARY) @ '' more'' else []))"

text \<open>The person's messages that are repeated, newest first, while they fit the budget.\<close>

definition piece_of :: "string \<Rightarrow> string" where
  "piece_of t = (if length t \<le> USER_TEXT_CAP_CHARS then t else take USER_TEXT_CAP_CHARS t @ '' [cut]'')"

fun shown_pieces :: "nat \<Rightarrow> string list \<Rightarrow> string list" where
  "shown_pieces used [] = []"
| "shown_pieces used (t # ts) =
    (if USER_TEXT_BUDGET_CHARS < used + length (piece_of t) then []
     else piece_of t # shown_pieces (used + length (piece_of t)) ts)"

definition plural :: "nat \<Rightarrow> string" where
  "plural n = (if n \<noteq> 1 then ''s'' else [])"

definition user_lines :: "string list \<Rightarrow> string list" where
  "user_lines users =
    (let pieces = rev (shown_pieces 0 (rev users)); left = length users - length pieces in
     if users = [] then []
     else [''The person's messages in that part, oldest first:'']
          @ map (\<lambda>(n, p). digits_of n @ ''. '' @ p) (enumerate 1 pieces)
          @ (if length pieces < length users
             then [''('' @ digits_of left @ '' earlier message'' @ plural left @ '' from the person were too long to repeat here.)''] else []))"

definition count_lines :: "aggregate \<Rightarrow> string list" where
  "count_lines a =
    (let total = sum_list (map snd (ag_denied a)) in
     (if ag_calls a \<noteq> [] then [''Tool calls made in that part: '' @ count_list (ag_calls a) @ ''.''] else [])
     @ (if ag_denied a \<noteq> []
        then [''The person denied '' @ digits_of total @ '' call'' @ plural total @ '' in that part ('' @ count_list (ag_denied a)
              @ ''). Do not retry a denied action unless the person asks for it.''] else []))"

definition head_lines :: "aggregate \<Rightarrow> string list" where
  "head_lines a =
    (let users = length (ag_users a);
         turns = (if users \<noteq> 0 then '' (turns 1 to '' @ digits_of users @ '')'' else [])
     in [SUMMARY_HEADER, ''This note comes from the server, not from the person.'',
         ''The first '' @ digits_of (ag_messages a) @ '' messages of this conversation'' @ turns
         @ '' were replaced by this note to fit the model's context window: '' @ digits_of users @ '' from the person, ''
         @ digits_of (ag_assistants a) @ '' from you and '' @ digits_of (ag_results a)
         @ '' tool results. Your earlier replies and the tool outputs from that part are no longer shown; run a tool ''
         @ ''again if you need something from them.''])"

definition render :: "aggregate \<Rightarrow> string" where
  "render a = join [NL] (head_lines a @ count_lines a @ user_lines (ag_users a))"

definition summary_text :: "row list \<Rightarrow> nat \<Rightarrow> string" where
  "summary_text rows c = render (fold add_row (take c rows) new_aggregate)"


section \<open>What is remembered per run\<close>

record run_memory =
  mm_cleared :: nat
  mm_cut :: nat
  mm_streak :: nat
  mm_halted :: bool
  mm_length :: nat

type_synonym run_map = "(string \<times> run_memory) list"

definition new_memory :: run_memory where
  "new_memory = \<lparr>mm_cleared = 0, mm_cut = 0, mm_streak = 0, mm_halted = False, mm_length = 0\<rparr>"

definition mm_active :: "run_memory \<Rightarrow> bool" where
  "mm_active m \<longleftrightarrow> mm_cleared m \<noteq> 0 \<or> mm_cut m \<noteq> 0 \<or> mm_streak m \<noteq> 0 \<or> mm_halted m"

text \<open>What \<open>feed\<close> gives the digest: the text of a string, then a null character.\<close>

definition feed :: "json \<Rightarrow> string" where
  "feed v = str_or [] v @ [NUL]"

definition run_key :: "config \<Rightarrow> (string \<times> json) list \<Rightarrow> row list \<Rightarrow> string" where
  "run_key cf state rows =
    (let run_id = str_or [] (field state ''run_id'') in
     if 0 < length run_id \<and> length run_id \<le> MAX_RUN_KEY_CHARS then ''run:'' @ run_id
     else
       (let named = concat (map (\<lambda>n. feed (field state n)) [''profile'', ''cwd_label'', ''instructions'', ''memory_index'']);
            rules = (case field state ''rules'' of JList rs \<Rightarrow> rs | _ \<Rightarrow> []);
            ruled = concat (map (\<lambda>r. case r of JObj d \<Rightarrow> feed (field d ''name'') @ feed (field d ''text'') | _ \<Rightarrow> []) rules);
            first = (case find (\<lambda>r. r_kind r = Some User_item) rows of
                       Some r \<Rightarrow> feed (JStr (take 2000 (str_or [] (field (as_dict (r_item r)) ''text'')))) | None \<Rightarrow> [])
        in ''fp:'' @ cf_digest cf (named @ ruled @ first)))"

definition forget :: "string \<Rightarrow> run_map \<Rightarrow> run_map" where
  "forget key runs = filter (\<lambda>p. fst p \<noteq> key) runs"

text \<open>\<open>_recall\<close> moves a run that is found to the end.\<close>

definition recall :: "string \<Rightarrow> run_map \<Rightarrow> run_memory option \<times> run_map" where
  "recall key runs =
    (case map_of runs key of
       None \<Rightarrow> (None, runs)
     | Some m \<Rightarrow> (Some m, forget key runs @ [(key, m)]))"

definition remember :: "config \<Rightarrow> string \<Rightarrow> run_memory \<Rightarrow> run_map \<Rightarrow> run_map" where
  "remember cf key m runs =
    (if \<not> mm_active m then forget key runs
     else (let runs' = forget key runs @ [(key, m)] in drop (length runs' - cf_max_runs cf) runs'))"

section \<open>Compaction\<close>

text \<open>\<open>_clear\<close>: the row is replaced by its stub when that saves enough.\<close>

definition clear_saves :: "row \<Rightarrow> bool" where
  "clear_saves r \<longleftrightarrow> int MIN_CLEAR_SAVING_TOKENS \<le> int (r_cost r) - int (r_cost (stub_row r))"

definition clear_row :: "row list \<Rightarrow> nat \<Rightarrow> row list" where
  "clear_row rows i = (if clear_saves (rows ! i) then rows[i := stub_row (rows ! i)] else rows)"

definition reapply :: "nat \<Rightarrow> nat list \<Rightarrow> row list \<Rightarrow> row list" where
  "reapply c is rows = fold (\<lambda>i rows. if c \<le> i then clear_row rows i else rows) is rows"

record clearing =
  cl_rows :: "row list"
  cl_total :: int
  cl_ordinal :: nat
  cl_changed :: bool

text \<open>The loop that clears the oldest outputs, over the eligible indices from \<open>ordinal\<close> on.\<close>

fun clear_loop :: "nat \<Rightarrow> nat \<Rightarrow> nat list \<Rightarrow> clearing \<Rightarrow> clearing" where
  "clear_loop low c [] s = s"
| "clear_loop low c (i # is) s =
    (if cl_total s \<le> int low then s
     else
       (let s1 = s\<lparr>cl_ordinal := cl_ordinal s + 1\<rparr>; r = cl_rows s ! i in
        if i < c then clear_loop low c is s1
        else if clear_saves r
        then clear_loop low c is
               (s1\<lparr>cl_rows := clear_row (cl_rows s) i, cl_total := cl_total s - (int (r_cost r) - int (r_cost (stub_row r))),
                   cl_changed := True\<rparr>)
        else clear_loop low c is s1))"

definition rows_cost :: "row list \<Rightarrow> nat" where
  "rows_cost rows = sum_list (map r_cost rows)"

definition summary_cost :: "row list \<Rightarrow> nat \<Rightarrow> nat" where
  "summary_cost rows c = estimate_message_tokens (user_message (summary_text rows c))"

text \<open>
  The loop of \<open>_choose_cut\<close>: the rows absorbed by the aggregate so far, the best cut and its estimate.
\<close>

fun choose_loop :: "nat \<Rightarrow> nat \<Rightarrow> row list \<Rightarrow> nat list \<Rightarrow> aggregate \<Rightarrow> nat \<Rightarrow> nat \<Rightarrow> nat \<Rightarrow> nat" where
  "choose_loop low fixed rows [] agg absorbed best best_total = best"
| "choose_loop low fixed rows (c # cs) agg absorbed best best_total =
    (let agg' = fold add_row (drop absorbed (take c rows)) agg;
         estimate = fixed + estimate_message_tokens (user_message (render agg')) + rows_cost (drop c rows)
     in if estimate \<le> low then c
        else if estimate < best_total then choose_loop low fixed rows cs agg' c c estimate
        else choose_loop low fixed rows cs agg' c best best_total)"

definition cut_candidates :: "nat \<Rightarrow> row list \<Rightarrow> nat \<Rightarrow> nat list" where
  "cut_candidates keep base old =
    filter (\<lambda>c. old < c \<and> c \<le> cut_limit keep base \<and> \<not> blocked base c) (round_starts base)"

definition choose_cut :: "config \<Rightarrow> row list \<Rightarrow> row list \<Rightarrow> nat \<Rightarrow> nat \<Rightarrow> nat" where
  "choose_cut cf rows base old fixed =
    (let cands = cut_candidates (cf_keep cf) base old;
         current = fixed + rows_cost (drop old rows) + (if old \<noteq> 0 then summary_cost rows old else 0)
     in if cands = [] then old else choose_loop (cf_low cf) fixed rows cands new_aggregate 0 old current)"

section \<open>Assembling\<close>

text \<open>What an assemble decides: the rows with what was cleared, the cut, the summary and the notes.\<close>

record outcome =
  oc_rows :: "row list"
  oc_cut :: nat
  oc_summary :: string
  oc_notes :: "string list"

definition plain_outcome :: "row list \<Rightarrow> string list \<Rightarrow> outcome" where
  "plain_outcome base notes = \<lparr>oc_rows = base, oc_cut = 0, oc_summary = [], oc_notes = notes\<rparr>"

text \<open>
  The part of \<open>_assemble\<close> after the common case: re-apply the remembered decisions, then compact.
  \<open>fixed\<close> is the estimate of the system message and the tools.
\<close>

definition compact :: "config \<Rightarrow> nat \<Rightarrow> row list \<Rightarrow> run_memory \<Rightarrow> outcome \<times> run_memory" where
  "compact cf fixed base mem0 =
    (let n = length base;
         el = eligible (cf_keep cf) base;
         mem = (if mm_cut mem0 \<noteq> 0 \<and> \<not> valid_cut (cf_keep cf) base (mm_cut mem0) then new_memory else mem0);
         c = mm_cut mem;
         rows = reapply c (take (mm_cleared mem) el) base;
         summary = (if c \<noteq> 0 then summary_text rows c else []);
         total = fixed + (if c \<noteq> 0 then estimate_message_tokens (user_message summary) else 0) + rows_cost (drop c rows)
     in if total \<le> cf_high cf then
          (\<lparr>oc_rows = rows, oc_cut = c, oc_summary = summary, oc_notes = []\<rparr>, mem\<lparr>mm_streak := 0, mm_length := n\<rparr>)
        else if cf_thrash cf \<le> mm_streak mem then
          (plain_outcome base [NOTE_THRASH], new_memory\<lparr>mm_halted := True, mm_length := n\<rparr>)
        else
          (let s = clear_loop (cf_low cf) c (drop (mm_cleared mem) el)
                     \<lparr>cl_rows = rows, cl_total = int total, cl_ordinal = mm_cleared mem, cl_changed = False\<rparr>;
               chosen = (if int (cf_low cf) < cl_total s then choose_cut cf (cl_rows s) base c fixed else c);
               moved = c < chosen;
               c' = (if moved then chosen else c);
               changed = cl_changed s \<or> moved
           in (\<lparr>oc_rows = cl_rows s, oc_cut = c', oc_summary = (if moved then summary_text (cl_rows s) c' else summary),
                 oc_notes = (if changed then [NOTE_COMPACTED] else [])\<rparr>,
               mem\<lparr>mm_cleared := cl_ordinal s, mm_cut := c', mm_streak := mm_streak mem + (if changed then 1 else 0),
                   mm_length := n\<rparr>)))"

definition plan_rows :: "config \<Rightarrow> (string \<times> json) list \<Rightarrow> nat \<Rightarrow> row list \<Rightarrow> run_map \<Rightarrow> outcome \<times> run_map" where
  "plan_rows cf state fixed base runs =
    (let key = run_key cf state base;
         (found, runs1) = (if runs \<noteq> [] then recall key runs else (None, runs));
         mem0 = (case found of Some m \<Rightarrow> m | None \<Rightarrow> new_memory);
         mem = (if length base < mm_length mem0 then new_memory else mem0)
     in if mm_halted mem then (plain_outcome base [], runs1)
        else if \<not> mm_active mem \<and> fixed + rows_cost base \<le> cf_high cf then (plain_outcome base [], runs1)
        else (case compact cf fixed base mem of (oc, mem') \<Rightarrow> (oc, remember cf key mem' runs1)))"

definition build :: "message \<Rightarrow> offered_tool list \<Rightarrow> outcome \<Rightarrow> assembled" where
  "build system tools oc =
    \<lparr>as_messages = system # (if oc_cut oc \<noteq> 0 then [user_message (oc_summary oc)] else [])
                     @ concat (map r_messages (drop (oc_cut oc) (oc_rows oc))),
     as_tools = tools, as_notes = oc_notes oc\<rparr>"

text \<open>\<open>_system_message\<close>: the default assembler's own, from the parts of the state that have the right shape.\<close>

definition system_of :: "config \<Rightarrow> (string \<times> json) list \<Rightarrow> string \<Rightarrow> message" where
  "system_of cf state mode =
    (let text_of = (\<lambda>n. JStr (str_or [] (field state n)));
         rules = filter (\<lambda>r. case r of JObj _ \<Rightarrow> True | _ \<Rightarrow> False) (case field state ''rules'' of JList rs \<Rightarrow> rs | _ \<Rightarrow> []);
         safe = [(''instructions'', text_of ''instructions''), (''memory_index'', text_of ''memory_index''), (''rules'', JList rules)]
     in case default_assemble (cf_str cf) safe [] [] mode of
          Some ctx \<Rightarrow> hd (as_messages ctx)
        | None \<Rightarrow> system_message (system_prompt mode))"

definition base_rows :: "config \<Rightarrow> json list \<Rightarrow> row list" where
  "base_rows cf items = map (\<lambda>item. make_row item (Some (cf_cap cf))) items"

definition fixed_cost :: "config \<Rightarrow> (string \<times> json) list \<Rightarrow> offered_tool list \<Rightarrow> string \<Rightarrow> nat" where
  "fixed_cost cf state tools mode =
    estimate_message_tokens (system_of cf state mode) + sum_list (map estimate_tool_tokens tools)"

definition assemble ::
    "config \<Rightarrow> json \<Rightarrow> json list \<Rightarrow> offered_tool list \<Rightarrow> string \<Rightarrow> run_map \<Rightarrow> assembled \<times> run_map" where
  "assemble cf state items tools mode runs =
    (let st = as_dict state;
         sorted_tools = sort_key ot_name tools;
         (oc, runs') = plan_rows cf st (fixed_cost cf st sorted_tools mode) (base_rows cf items) runs
     in (build (system_of cf st mode) sorted_tools oc, runs'))"


section \<open>Where a cut may go\<close>

lemma positions_of_iff: "i \<in> set (positions_of P rows) \<longleftrightarrow> i < length rows \<and> P (rows ! i)"
  by (auto simp: positions_of_def)

lemma call_ids_iff: "cid \<in> set (call_ids rows) \<longleftrightarrow> (\<exists>i < length rows. makes_call cid (rows ! i))"
proof -
  have "cid \<in> set (call_ids rows) \<longleftrightarrow> (\<exists>r \<in> set rows. makes_call cid r)"
    by (force simp: call_ids_def makes_call_def split: if_splits)
  then show ?thesis by (metis in_set_conv_nth)
qed

lemma spread_nonempty: "cid \<in> set (call_ids rows) \<Longrightarrow> spread rows cid \<noteq> []"
  unfolding call_ids_iff spread_def using positions_of_iff [of _ "makes_call cid" rows] by fastforce

text \<open>The running sum of one call id's differences is 1 between its first and its last position.\<close>

lemma sum_indicator: "sum_list (map (\<lambda>i. if i = k then 1 else 0 :: int) [0..<c + 1]) = (if k \<le> c then 1 else 0)"
  by (induction c) auto

lemma diff_of_sum:
  "sum_list (map (diff_of ps) [0..<c + 1]) = (if Min (set ps) < c \<and> c \<le> Max (set ps) then 1 else 0)"
proof (cases "Min (set ps) < Max (set ps)")
  case True
  let ?l = "Min (set ps) + 1" let ?h = "Max (set ps) + 1"
  have d: "diff_of ps = (\<lambda>i. (if i = ?l then 1 else 0) - (if i = ?h then 1 else 0))"
    using True by (simp add: diff_of_def Let_def fun_eq_iff)
  have "sum_list (map (diff_of ps) [0..<c + 1]) = (if ?l \<le> c then 1 else 0) - (if ?h \<le> c then 1 else 0)"
    unfolding d sum_list_subtractf sum_indicator ..
  then show ?thesis using True by auto
next
  case False
  then have d: "diff_of ps = (\<lambda>i. 0)" by (simp add: diff_of_def Let_def fun_eq_iff)
  have "sum_list (map (diff_of ps) [0..<c + 1]) = 0" unfolding d by (induction c) simp_all
  then show ?thesis using False by auto
qed

lemma sum_list_swap:
  "sum_list (map (\<lambda>i. sum_list (map (\<lambda>x. f x i) xs)) is) = sum_list (map (\<lambda>x. sum_list (map (f x) is)) xs)"
  for f :: "'a \<Rightarrow> 'b \<Rightarrow> int"
  by (induction "is") (simp_all add: sum_list_addf)

lemma positive_sum: "(\<forall>x \<in> set xs. 0 \<le> f x) \<Longrightarrow> 0 < sum_list (map f xs) \<longleftrightarrow> (\<exists>x \<in> set xs. 0 < f x)"
  for f :: "'a \<Rightarrow> int"
proof (induction xs)
  case (Cons x xs)
  have "0 \<le> sum_list (map f xs)" using Cons.prems by (intro sum_list_nonneg) auto
  then show ?case using Cons by (auto simp: add_pos_nonneg)
qed simp

lemma blocked_iff:
  "blocked rows c \<longleftrightarrow> (\<exists>cid \<in> set (call_ids rows). Min (set (spread rows cid)) < c \<and> c \<le> Max (set (spread rows cid)))"
proof -
  let ?g = "\<lambda>cid. sum_list (map (diff_of (spread rows cid)) [0..<c + 1])"
  have g: "?g cid = (if Min (set (spread rows cid)) < c \<and> c \<le> Max (set (spread rows cid)) then 1 else 0)" for cid
    by (rule diff_of_sum)
  have "sum_list (map (diff_at rows) [0..<c + 1]) = sum_list (map ?g (call_ids rows))"
    using sum_list_swap [of "\<lambda>cid. diff_of (spread rows cid)" "call_ids rows" "[0..<c + 1]"]
    by (simp only: fun_eq_iff diff_at_def [abs_def])
  then have "blocked rows c \<longleftrightarrow> 0 < sum_list (map ?g (call_ids rows))"
    by (simp only: blocked_def)
  also have "\<dots> \<longleftrightarrow> (\<exists>cid \<in> set (call_ids rows). 0 < ?g cid)"
    by (rule positive_sum) (simp only: g, simp)
  finally show ?thesis by (simp only: g) simp
qed

text \<open>A cut that is not blocked has each call and its results on one side.\<close>

lemma unblocked_cut:
  assumes "\<not> blocked rows c" and "i < c" and "c \<le> j" and j: "j < length rows"
    and ends: "makes_call cid (rows ! i) \<and> answers_call cid (rows ! j) \<or> answers_call cid (rows ! i) \<and> makes_call cid (rows ! j)"
  shows False
proof -
  have i: "i < length rows" using assms by simp
  have id: "cid \<in> set (call_ids rows)" using ends i j by (auto simp: call_ids_iff)
  have mem: "i \<in> set (spread rows cid)" "j \<in> set (spread rows cid)"
    using ends i j by (auto simp: spread_def positions_of_iff)
  have "Min (set (spread rows cid)) < c" "c \<le> Max (set (spread rows cid))"
  proof -
    have "Min (set (spread rows cid)) \<le> i" using mem by (intro Min_le) simp_all
    then show "Min (set (spread rows cid)) < c" using assms(2) by simp
    have "j \<le> Max (set (spread rows cid))" using mem by (intro Max_ge) simp_all
    then show "c \<le> Max (set (spread rows cid))" using assms(3) by simp
  qed
  then show False using assms(1) id by (auto simp: blocked_iff)
qed

lemma sorted_filter_hd:
  assumes f: "filter P [0..<n] = i # is" and j: "j < i" shows "\<not> P j"
proof
  assume P: "P j"
  have s: "set (i # is) = {x. x < n \<and> P x}" unfolding f [symmetric] by auto
  then have "i < n" by (metis (mono_tags, lifting) list.set_intros(1) mem_Collect_eq)
  then have "j \<in> set (i # is)" unfolding s using P j by simp
  moreover have "sorted (i # is)" unfolding f [symmetric] by (simp add: sorted_wrt_filter)
  ultimately show False using j by auto
qed

text \<open>No message before a valid cut waits for a result.\<close>

lemma nothing_waits:
  assumes "i < cut_limit keep rows" and "i < length rows" shows "\<not> waits rows (rows ! i)"
proof (cases "positions_of (waits rows) rows")
  case Nil
  then show ?thesis using assms(2) by (metis list.set(1) empty_iff positions_of_iff)
next
  case (Cons p ps)
  then have "i < p" using assms by (simp add: cut_limit_def protected_first_def)
  then show ?thesis using sorted_filter_hd [of "\<lambda>i. waits rows (rows ! i)" "length rows" p ps i] Cons
    by (simp add: positions_of_def)
qed

lemma boundary_bound: "0 < keep \<Longrightarrow> boundary keep rows \<le> length rows"
proof (cases "keep \<le> length (round_starts rows)")
  case True
  assume "0 < keep"
  then have "round_starts rows ! (length (round_starts rows) - keep) \<in> set (round_starts rows)"
    using True by (intro nth_mem) simp
  then show ?thesis using True by (simp add: boundary_def Let_def round_starts_def positions_of_iff)
qed (simp add: boundary_def)


section \<open>What compaction touches\<close>

text \<open>Every row is as it was, or it is one of the rows \<open>S\<close>, cleared because that saves enough.\<close>

definition touched :: "row list \<Rightarrow> nat set \<Rightarrow> row list \<Rightarrow> bool" where
  "touched base S rows \<longleftrightarrow> length rows = length base
     \<and> (\<forall>i < length base. rows ! i = base ! i \<or> i \<in> S \<and> rows ! i = stub_row (base ! i) \<and> clear_saves (base ! i))"

lemma touched_refl: "touched base {} base"
  by (simp add: touched_def)

lemma touched_clear:
  assumes "touched base S rows" and "i \<notin> S" and "i < length base"
  shows "touched base (insert i S) (clear_row rows i)"
proof -
  have "rows ! i = base ! i" using assms by (auto simp: touched_def)
  then show ?thesis using assms by (auto simp: touched_def clear_row_def nth_list_update)
qed

lemma touched_mono: "touched base S rows \<Longrightarrow> S \<subseteq> T \<Longrightarrow> touched base T rows"
  by (auto simp: touched_def)

lemma clear_row_length [simp]: "length (clear_row rows i) = length rows"
  by (simp add: clear_row_def)

lemma reapply_touched:
  "touched base S rows \<Longrightarrow> distinct is \<Longrightarrow> set is \<inter> S = {} \<Longrightarrow> set is \<subseteq> {..<length base}
    \<Longrightarrow> touched base (S \<union> set is) (reapply c is rows)"
proof (induction "is" arbitrary: S rows)
  case (Cons i "is")
  let ?rows = "if c \<le> i then clear_row rows i else rows"
  have "touched base (insert i S) ?rows"
    using touched_clear [OF Cons.prems(1), of i] touched_mono [OF Cons.prems(1), of "insert i S"] Cons.prems by auto
  then have "touched base (insert i S \<union> set is) (reapply c is ?rows)"
    by (rule Cons.IH) (use Cons.prems in auto)
  then show ?case by (simp add: reapply_def)
qed (simp add: reapply_def)

lemma clear_loop_touched:
  "touched base S (cl_rows s) \<Longrightarrow> distinct is \<Longrightarrow> set is \<inter> S = {} \<Longrightarrow> set is \<subseteq> {..<length base}
    \<Longrightarrow> touched base (S \<union> set is) (cl_rows (clear_loop low c is s))"
proof (induction "is" arbitrary: S s)
  case (Cons i "is")
  let ?done = "clear_loop low c is"
  have skip: "touched base (S \<union> set (i # is)) (cl_rows (?done s'))" if "cl_rows s' = cl_rows s" for s'
  proof -
    have "touched base (S \<union> set is) (cl_rows (?done s'))"
      by (rule Cons.IH) (use Cons.prems that in auto)
    then show ?thesis by (rule touched_mono) auto
  qed
  have clear: "touched base (S \<union> set (i # is)) (cl_rows (?done s'))" if "cl_rows s' = clear_row (cl_rows s) i" for s'
  proof -
    have "touched base (insert i S) (cl_rows s')"
      unfolding that by (rule touched_clear) (use Cons.prems in auto)
    then have "touched base (insert i S \<union> set is) (cl_rows (?done s'))"
      by (rule Cons.IH) (use Cons.prems in auto)
    then show ?thesis by simp
  qed
  have stay: "touched base (S \<union> set (i # is)) (cl_rows s)"
    by (rule touched_mono [OF Cons.prems(1)]) auto
  show ?case
    using skip clear stay by (simp add: Let_def del: list.set(2))
qed simp

lemma clear_loop_length [simp]: "length (cl_rows (clear_loop low c is s)) = length (cl_rows s)"
  by (induction low c "is" s rule: clear_loop.induct) (simp_all add: Let_def)

lemma clear_loop_before: "take c (cl_rows (clear_loop low c is s)) = take c (cl_rows s)"
  by (induction low c "is" s rule: clear_loop.induct) (simp_all add: Let_def clear_row_def take_update_cancel)

lemma rows_cost_update:
  assumes "c \<le> i" and "i < length rows"
  shows "int (rows_cost (drop c (rows[i := x]))) = int (rows_cost (drop c rows)) - int (r_cost (rows ! i)) + int (r_cost x)"
proof -
  have eq: "map r_cost (drop c (rows[i := x])) = (map r_cost (drop c rows))[i - c := r_cost x]"
    using assms by (simp add: drop_update_swap map_update)
  have lt: "i - c < length (map r_cost (drop c rows))" using assms by simp
  have at: "map r_cost (drop c rows) ! (i - c) = r_cost (rows ! i)" using assms by simp
  have "r_cost (rows ! i) \<le> sum_list (map r_cost (drop c rows))"
    using elem_le_sum_list [OF lt] at by simp
  then show ?thesis
    unfolding rows_cost_def eq sum_list_update [OF lt] at by simp
qed

text \<open>The running total of the loop is the estimate of what would be sent.\<close>

lemma clear_loop_total:
  "set is \<subseteq> {..<length (cl_rows s)} \<Longrightarrow> cl_total s = k + int (rows_cost (drop c (cl_rows s)))
    \<Longrightarrow> cl_total (clear_loop low c is s) = k + int (rows_cost (drop c (cl_rows (clear_loop low c is s))))"
proof (induction low c "is" s rule: clear_loop.induct)
  case (2 low c i "is" s)
  let ?r = "cl_rows s ! i"
  have drop: "int (rows_cost (drop c (clear_row (cl_rows s) i)))
      = int (rows_cost (drop c (cl_rows s))) - (int (r_cost ?r) - int (r_cost (stub_row ?r)))"
    if "\<not> i < c" "clear_saves ?r"
    using rows_cost_update [of c i "cl_rows s" "stub_row ?r"] that "2.prems" by (simp add: clear_row_def)
  show ?case
    using "2.prems" "2.IH" drop by (simp add: Let_def)
qed simp

lemma clear_saves_pos: "clear_saves r \<Longrightarrow> 0 < int (r_cost r) - int (r_cost (stub_row r))"
  by (simp add: clear_saves_def MIN_CLEAR_SAVING_TOKENS_def)

lemma clear_loop_decreases: "cl_total (clear_loop low c is s) \<le> cl_total s"
proof (induction low c "is" s rule: clear_loop.induct)
  case (2 low c i "is" s)
  show ?case
  proof (cases "cl_total s \<le> int low \<or> i < c \<or> \<not> clear_saves (cl_rows s ! i)")
    case True
    then show ?thesis using "2.IH" by (auto simp: Let_def)
  next
    case False
    then show ?thesis
      using "2.IH"(2) clear_saves_pos [of "cl_rows s ! i"] by (fastforce simp: Let_def intro: order_trans)
  qed
qed simp

lemma clear_loop_shrinks:
  "cl_changed (clear_loop low c is s) \<Longrightarrow> \<not> cl_changed s \<Longrightarrow> cl_total (clear_loop low c is s) < cl_total s"
proof (induction low c "is" s rule: clear_loop.induct)
  case (2 low c i "is" s)
  let ?r = "cl_rows s ! i"
  let ?s1 = "s\<lparr>cl_ordinal := cl_ordinal s + 1\<rparr>"
  let ?s2 = "?s1\<lparr>cl_rows := clear_row (cl_rows s) i, cl_total := cl_total s - (int (r_cost ?r) - int (r_cost (stub_row ?r))),
                   cl_changed := True\<rparr>"
  consider (stop) "cl_total s \<le> int low" | (skip) "\<not> cl_total s \<le> int low" "i < c \<or> \<not> clear_saves ?r"
    | (clear) "\<not> cl_total s \<le> int low" "\<not> i < c" "clear_saves ?r" by blast
  then show ?case
  proof cases
    case stop
    then show ?thesis using "2.prems" by simp
  next
    case skip
    then have e: "clear_loop low c (i # is) s = clear_loop low c is ?s1" by (auto simp: Let_def)
    have "cl_total (clear_loop low c is ?s1) < cl_total ?s1"
      by (cases "i < c") (use "2.IH" skip "2.prems" e in \<open>auto simp: Let_def\<close>)
    then show ?thesis by (simp only: e) simp
  next
    case clear
    then have e: "clear_loop low c (i # is) s = clear_loop low c is ?s2" by (simp add: Let_def)
    have "cl_total ?s2 < cl_total s" using clear_saves_pos [OF clear(3)] by simp
    then show ?thesis unfolding e using clear_loop_decreases [of low c "is" ?s2] by linarith
  qed
qed simp

lemma clear_loop_stays: "cl_changed s \<Longrightarrow> cl_changed (clear_loop low c is s)"
  by (induction low c "is" s rule: clear_loop.induct) (simp_all add: Let_def)

lemma clear_loop_unchanged: "\<not> cl_changed (clear_loop low c is s) \<Longrightarrow> cl_rows (clear_loop low c is s) = cl_rows s"
proof (induction low c "is" s rule: clear_loop.induct)
  case (2 low c i "is" s)
  consider (stop) "cl_total s \<le> int low" | (skip) "\<not> cl_total s \<le> int low" "i < c"
    | (small) "\<not> cl_total s \<le> int low" "\<not> i < c" "\<not> clear_saves (cl_rows s ! i)"
    | (clear) "\<not> cl_total s \<le> int low" "\<not> i < c" "clear_saves (cl_rows s ! i)" by blast
  then show ?case
  proof cases
    case skip
    then show ?thesis using "2.IH"(1) [OF skip(1) refl refl skip(2)] "2.prems" by simp
  next
    case small
    then show ?thesis using "2.IH"(3) [OF small(1) refl refl small(2,3)] "2.prems" by simp
  next
    case clear
    then show ?thesis using "2.prems" clear_loop_stays by (simp add: Let_def)
  qed simp
qed simp

text \<open>When the loop stops above the low mark every index was visited.\<close>

lemma clear_loop_exhausts:
  "int low < cl_total (clear_loop low c is s) \<Longrightarrow> cl_ordinal (clear_loop low c is s) = cl_ordinal s + length is"
  by (induction low c "is" s rule: clear_loop.induct) (auto simp: Let_def split: if_splits)

section \<open>The chosen cut\<close>

definition estimate_at :: "nat \<Rightarrow> row list \<Rightarrow> nat \<Rightarrow> nat" where
  "estimate_at fixed rows c = fixed + (if c \<noteq> 0 then summary_cost rows c else 0) + rows_cost (drop c rows)"

lemma fold_absorb:
  "a \<le> c \<Longrightarrow> fold add_row (drop a (take c rows)) (fold add_row (take a rows) agg) = fold add_row (take c rows) agg"
proof -
  assume "a \<le> c"
  then have "take c rows = take a rows @ drop a (take c rows)"
    by (metis append_take_drop_id min.absorb2 min.commute take_take)
  then show ?thesis by (metis comp_apply fold_append)
qed

lemma choose_loop_result:
  "sorted_wrt (<) (absorbed # cs) \<Longrightarrow> agg = fold add_row (take absorbed rows) new_aggregate
    \<Longrightarrow> choose_loop low fixed rows cs agg absorbed best best_total = best
      \<or> (choose_loop low fixed rows cs agg absorbed best best_total \<in> set cs
         \<and> (estimate_at fixed rows (choose_loop low fixed rows cs agg absorbed best best_total) < best_total
            \<or> estimate_at fixed rows (choose_loop low fixed rows cs agg absorbed best best_total) \<le> low))"
proof (induction cs arbitrary: agg absorbed best best_total)
  case (Cons c cs)
  let ?agg = "fold add_row (drop absorbed (take c rows)) agg"
  have agg: "?agg = fold add_row (take c rows) new_aggregate"
    using fold_absorb [of absorbed c rows new_aggregate] Cons.prems by simp
  have est: "fixed + estimate_message_tokens (user_message (render ?agg)) + rows_cost (drop c rows) = estimate_at fixed rows c"
    using Cons.prems(1) by (simp add: agg estimate_at_def summary_cost_def summary_text_def)
  have sorted: "sorted_wrt (<) (c # cs)" using Cons.prems(1) by simp
  note IH = Cons.IH [OF sorted agg]
  show ?case
  proof (cases "estimate_at fixed rows c \<le> low")
    case True
    then show ?thesis by (simp add: Let_def est)
  next
    case False
    then show ?thesis
      using IH [of c "estimate_at fixed rows c"] IH [of best best_total] by (auto simp: Let_def est)
  qed
qed simp

lemma candidates_iff: "c \<in> set (cut_candidates keep base old) \<longleftrightarrow> old < c \<and> valid_cut keep base c"
  by (auto simp: cut_candidates_def valid_cut_def)

lemma candidates_sorted: "sorted_wrt (<) (0 # cut_candidates keep base old)"
  by (auto simp: cut_candidates_def round_starts_def positions_of_def intro!: sorted_wrt_filter)

text \<open>A later cut is allowed, and it makes the request smaller.\<close>

lemma choose_cut_result:
  assumes "choose_cut cf rows base old fixed = c" and "old < c" and "cf_low cf < estimate_at fixed rows old"
  shows "valid_cut (cf_keep cf) base c \<and> estimate_at fixed rows c < estimate_at fixed rows old"
proof -
  have cands: "cut_candidates (cf_keep cf) base old \<noteq> []"
    using assms(1,2) by (auto simp: choose_cut_def Let_def)
  have "fixed + rows_cost (drop old rows) + (if old \<noteq> 0 then summary_cost rows old else 0) = estimate_at fixed rows old"
    by (simp add: estimate_at_def)
  then have c: "c = choose_loop (cf_low cf) fixed rows (cut_candidates (cf_keep cf) base old) new_aggregate 0 old
      (estimate_at fixed rows old)"
    using assms(1) cands by (simp add: choose_cut_def Let_def)
  have "c \<in> set (cut_candidates (cf_keep cf) base old)
      \<and> (estimate_at fixed rows c < estimate_at fixed rows old \<or> estimate_at fixed rows c \<le> cf_low cf)"
    using choose_loop_result [OF candidates_sorted, of new_aggregate rows "cf_low cf" fixed "cf_keep cf" base old old "estimate_at fixed rows old"]
      assms(2) by (auto simp: c)
  then show ?thesis using assms(3) by (auto simp: candidates_iff)
qed


section \<open>The outcome of an assemble\<close>

lemma eligible_bound: "0 < keep \<Longrightarrow> set (eligible keep base) \<subseteq> {..<length base}"
  using boundary_bound [of keep base] by (auto simp: eligible_def)

lemma eligible_distinct: "distinct (eligible keep base)"
  by (simp add: eligible_def)

text \<open>The three ways \<open>compact\<close> ends, from the memory that is used.\<close>

definition used_memory :: "config \<Rightarrow> row list \<Rightarrow> run_memory \<Rightarrow> run_memory" where
  "used_memory cf base mem0 =
    (if mm_cut mem0 \<noteq> 0 \<and> \<not> valid_cut (cf_keep cf) base (mm_cut mem0) then new_memory else mem0)"

definition kept_rows :: "config \<Rightarrow> row list \<Rightarrow> run_memory \<Rightarrow> row list" where
  "kept_rows cf base mem = reapply (mm_cut mem) (take (mm_cleared mem) (eligible (cf_keep cf) base)) base"

definition cleared_state :: "config \<Rightarrow> nat \<Rightarrow> row list \<Rightarrow> run_memory \<Rightarrow> clearing" where
  "cleared_state cf fixed base mem =
    clear_loop (cf_low cf) (mm_cut mem) (drop (mm_cleared mem) (eligible (cf_keep cf) base))
      \<lparr>cl_rows = kept_rows cf base mem, cl_total = int (estimate_at fixed (kept_rows cf base mem) (mm_cut mem)),
       cl_ordinal = mm_cleared mem, cl_changed = False\<rparr>"

definition chosen_cut :: "config \<Rightarrow> nat \<Rightarrow> row list \<Rightarrow> run_memory \<Rightarrow> nat" where
  "chosen_cut cf fixed base mem =
    (let s = cleared_state cf fixed base mem in
     if int (cf_low cf) < cl_total s then max (mm_cut mem) (choose_cut cf (cl_rows s) base (mm_cut mem) fixed) else mm_cut mem)"

definition summary_of :: "row list \<Rightarrow> nat \<Rightarrow> string" where
  "summary_of rows c = (if c \<noteq> 0 then summary_text rows c else [])"

lemma compact_cases:
  assumes "compact cf fixed base mem0 = (oc, mem')"
  obtains (fits) mem where "mem = used_memory cf base mem0" and "estimate_at fixed (kept_rows cf base mem) (mm_cut mem) \<le> cf_high cf"
      and "oc = \<lparr>oc_rows = kept_rows cf base mem, oc_cut = mm_cut mem, oc_summary = summary_of (kept_rows cf base mem) (mm_cut mem), oc_notes = []\<rparr>"
      and "mem' = mem\<lparr>mm_streak := 0, mm_length := length base\<rparr>"
  | (thrash) mem where "mem = used_memory cf base mem0" and "cf_high cf < estimate_at fixed (kept_rows cf base mem) (mm_cut mem)"
      and "cf_thrash cf \<le> mm_streak mem" and "oc = plain_outcome base [NOTE_THRASH]" and "mem' = new_memory\<lparr>mm_halted := True, mm_length := length base\<rparr>"
  | (work) mem s c where "mem = used_memory cf base mem0" and "cf_high cf < estimate_at fixed (kept_rows cf base mem) (mm_cut mem)"
      and "mm_streak mem < cf_thrash cf" and "s = cleared_state cf fixed base mem" and "c = chosen_cut cf fixed base mem"
      and "oc = \<lparr>oc_rows = cl_rows s, oc_cut = c, oc_summary = summary_of (cl_rows s) c,
                  oc_notes = (if cl_changed s \<or> mm_cut mem < c then [NOTE_COMPACTED] else [])\<rparr>"
      and "mem' = mem\<lparr>mm_cleared := cl_ordinal s, mm_cut := c,
                      mm_streak := mm_streak mem + (if cl_changed s \<or> mm_cut mem < c then 1 else 0), mm_length := length base\<rparr>"
proof -
  define mem where "mem = used_memory cf base mem0"
  let ?c = "mm_cut mem"
  let ?rows = "kept_rows cf base mem"
  let ?s = "cleared_state cf fixed base mem"
  have total: "fixed + (if ?c \<noteq> 0 then estimate_message_tokens (user_message (if ?c \<noteq> 0 then summary_text ?rows ?c else [])) else 0)
      + rows_cost (drop ?c ?rows) = estimate_at fixed ?rows ?c"
    by (simp add: estimate_at_def summary_cost_def)
  have before: "take ?c (cl_rows ?s) = take ?c ?rows"
    unfolding cleared_state_def by (subst clear_loop_before) simp
  then have same: "summary_text (cl_rows ?s) ?c = summary_text ?rows ?c" by (simp add: summary_text_def)
  note comp = assms [unfolded compact_def Let_def, folded used_memory_def, folded mem_def, folded kept_rows_def, unfolded total]
  show ?thesis
  proof (cases "estimate_at fixed ?rows ?c \<le> cf_high cf")
    case True
    show ?thesis by (rule fits [OF mem_def True]) (use comp True in \<open>simp_all add: summary_of_def\<close>)
  next
    case over: False
    show ?thesis
    proof (cases "cf_thrash cf \<le> mm_streak mem")
      case True
      show ?thesis by (rule thrash [OF mem_def]) (use comp over True in simp_all)
    next
      case False
      show ?thesis
        by (rule work [OF mem_def _ _ refl refl])
          (use comp over False same in \<open>auto simp: chosen_cut_def cleared_state_def summary_of_def Let_def max_def\<close>)
    qed
  qed
qed


lemma used_memory_cut: "mm_cut (used_memory cf base mem0) = 0 \<or> valid_cut (cf_keep cf) base (mm_cut (used_memory cf base mem0))"
  by (simp add: used_memory_def new_memory_def)

lemma kept_rows_touched:
  assumes "0 < cf_keep cf"
  shows "touched base (set (take (mm_cleared mem) (eligible (cf_keep cf) base))) (kept_rows cf base mem)"
proof -
  have "set (take (mm_cleared mem) (eligible (cf_keep cf) base)) \<subseteq> {..<length base}"
    using eligible_bound [OF assms, of base] by (meson set_take_subset subset_trans)
  then show ?thesis
    using reapply_touched [OF touched_refl, of "take (mm_cleared mem) (eligible (cf_keep cf) base)" base "mm_cut mem"]
    by (simp add: kept_rows_def eligible_distinct)
qed

lemma cleared_rows_touched:
  assumes "0 < cf_keep cf"
  shows "touched base (set (eligible (cf_keep cf) base)) (cl_rows (cleared_state cf fixed base mem))"
proof -
  let ?el = "eligible (cf_keep cf) base"
  have "touched base (set (take (mm_cleared mem) ?el) \<union> set (drop (mm_cleared mem) ?el)) (cl_rows (cleared_state cf fixed base mem))"
    unfolding cleared_state_def
  proof (rule clear_loop_touched)
    show "set (drop (mm_cleared mem) ?el) \<inter> set (take (mm_cleared mem) ?el) = {}"
      using set_take_disj_set_drop_if_distinct [OF eligible_distinct, of "mm_cleared mem" "mm_cleared mem" "cf_keep cf" base] by blast
    show "set (drop (mm_cleared mem) ?el) \<subseteq> {..<length base}"
      using eligible_bound [OF assms, of base] by (meson set_drop_subset subset_trans)
  qed (simp_all add: kept_rows_touched [OF assms] eligible_distinct)
  then show ?thesis by (metis append_take_drop_id set_append)
qed

lemma cleared_total:
  assumes "0 < cf_keep cf"
  shows "cl_total (cleared_state cf fixed base mem)
    = int (estimate_at fixed (cl_rows (cleared_state cf fixed base mem)) (mm_cut mem))"
proof -
  let ?c = "mm_cut mem" let ?rows = "kept_rows cf base mem" let ?s = "cleared_state cf fixed base mem"
  let ?k = "int (fixed + (if ?c \<noteq> 0 then summary_cost ?rows ?c else 0))"
  have "set (drop (mm_cleared mem) (eligible (cf_keep cf) base)) \<subseteq> {..<length ?rows}"
    using eligible_bound [OF assms, of base] kept_rows_touched [OF assms, of base mem]
    by (auto simp: touched_def dest: in_set_dropD)
  then have "cl_total ?s = ?k + int (rows_cost (drop ?c (cl_rows ?s)))"
    unfolding cleared_state_def by (intro clear_loop_total) (simp_all add: estimate_at_def)
  moreover have "take ?c (cl_rows ?s) = take ?c ?rows"
    unfolding cleared_state_def by (subst clear_loop_before) simp
  then have "summary_cost (cl_rows ?s) ?c = summary_cost ?rows ?c"
    by (simp add: summary_cost_def summary_text_def)
  ultimately show ?thesis by (simp add: estimate_at_def)
qed

lemma chosen_cut_result:
  assumes keep: "0 < cf_keep cf"
  shows "chosen_cut cf fixed base mem = mm_cut mem
    \<or> (mm_cut mem < chosen_cut cf fixed base mem \<and> valid_cut (cf_keep cf) base (chosen_cut cf fixed base mem)
       \<and> estimate_at fixed (cl_rows (cleared_state cf fixed base mem)) (chosen_cut cf fixed base mem)
         < estimate_at fixed (cl_rows (cleared_state cf fixed base mem)) (mm_cut mem))"
proof -
  let ?s = "cleared_state cf fixed base mem"
  let ?ch = "choose_cut cf (cl_rows ?s) base (mm_cut mem) fixed"
  show ?thesis
  proof (cases "int (cf_low cf) < cl_total ?s \<and> mm_cut mem < ?ch")
    case True
    then have "chosen_cut cf fixed base mem = ?ch" by (simp add: chosen_cut_def Let_def)
    moreover have "cf_low cf < estimate_at fixed (cl_rows ?s) (mm_cut mem)" using True cleared_total [OF keep] by simp
    ultimately show ?thesis using choose_cut_result [OF refl, of "mm_cut mem" cf "cl_rows ?s" base fixed] True by simp
  qed (auto simp: chosen_cut_def Let_def max_def)
qed

lemma compact_outcome:
  assumes "compact cf fixed base mem0 = (oc, mem')" and keep: "0 < cf_keep cf"
  shows "touched base (set (eligible (cf_keep cf) base)) (oc_rows oc)
    \<and> (oc_cut oc = 0 \<or> valid_cut (cf_keep cf) base (oc_cut oc)) \<and> oc_summary oc = summary_of (oc_rows oc) (oc_cut oc)"
  using assms(1)
proof (cases rule: compact_cases)
  case (fits mem)
  have "touched base (set (eligible (cf_keep cf) base)) (kept_rows cf base mem)"
    by (rule touched_mono [OF kept_rows_touched [OF keep]]) (rule set_take_subset)
  then show ?thesis using fits used_memory_cut [of cf base mem0] by simp
next
  case (thrash mem)
  have "touched base (set (eligible (cf_keep cf) base)) base"
    by (rule touched_mono [OF touched_refl]) simp
  then show ?thesis using thrash by (simp add: plain_outcome_def summary_of_def)
next
  case (work mem s c)
  then show ?thesis
    using cleared_rows_touched [OF keep, of base fixed mem] chosen_cut_result [OF keep, of fixed base mem]
      used_memory_cut [of cf base mem0] by auto
qed

lemma plan_rows_outcome:
  assumes "plan_rows cf st fixed base runs = (oc, runs')" and keep: "0 < cf_keep cf"
  shows "touched base (set (eligible (cf_keep cf) base)) (oc_rows oc)
    \<and> (oc_cut oc = 0 \<or> valid_cut (cf_keep cf) base (oc_cut oc)) \<and> oc_summary oc = summary_of (oc_rows oc) (oc_cut oc)"
proof -
  have "(\<exists>fixed mem0 mem'. compact cf fixed base mem0 = (oc, mem')) \<or> (\<exists>notes. oc = plain_outcome base notes)"
    using assms(1) by (fastforce simp: plan_rows_def Let_def split: prod.splits if_splits)
  then show ?thesis
  proof
    assume "\<exists>fixed mem0 mem'. compact cf fixed base mem0 = (oc, mem')"
    then show ?thesis using compact_outcome [OF _ keep] by blast
  next
    assume "\<exists>notes. oc = plain_outcome base notes"
    moreover have "touched base (set (eligible (cf_keep cf) base)) base"
      by (rule touched_mono [OF touched_refl]) simp
    ultimately show ?thesis by (auto simp: plain_outcome_def summary_of_def)
  qed
qed

section \<open>What a message costs\<close>

definition cost_ok :: "row \<Rightarrow> bool" where
  "cost_ok r \<longleftrightarrow> r_cost r = sum_list (map estimate_message_tokens (r_messages r))"

lemma make_row_cost [simp]: "cost_ok (make_row item cap)"
  by (simp add: make_row_def cost_ok_def Let_def split: option.split)

lemma touched_cost: "touched base S rows \<Longrightarrow> \<forall>r \<in> set base. cost_ok r \<Longrightarrow> \<forall>r \<in> set rows. cost_ok r"
  by (force simp: touched_def in_set_conv_nth stub_row_def)

lemma rows_cost_messages:
  "\<forall>r \<in> set rows. cost_ok r \<Longrightarrow> rows_cost rows = sum_list (map estimate_message_tokens (concat (map r_messages rows)))"
  by (induction rows) (simp_all add: rows_cost_def cost_ok_def)

lemma build_estimate:
  assumes "\<forall>r \<in> set (oc_rows oc). cost_ok r" and "oc_summary oc = summary_of (oc_rows oc) (oc_cut oc)"
  shows "estimate_context_tokens (build system tools oc)
    = estimate_at (estimate_message_tokens system + sum_list (map estimate_tool_tokens tools)) (oc_rows oc) (oc_cut oc)"
proof -
  have "\<forall>r \<in> set (drop (oc_cut oc) (oc_rows oc)). cost_ok r" using assms(1) by (auto dest: in_set_dropD)
  then show ?thesis
    using assms(2) rows_cost_messages [of "drop (oc_cut oc) (oc_rows oc)"]
    by (simp add: estimate_context_tokens_def build_def estimate_at_def summary_cost_def summary_of_def)
qed

section \<open>The memory of the runs\<close>

definition memory_ok :: "config \<Rightarrow> run_memory \<Rightarrow> bool" where
  "memory_ok cf m \<longleftrightarrow> mm_streak m \<le> cf_thrash cf \<and> (mm_halted m \<longrightarrow> mm_cleared m = 0 \<and> mm_cut m = 0 \<and> mm_streak m = 0)"

definition runs_ok :: "config \<Rightarrow> run_map \<Rightarrow> bool" where
  "runs_ok cf runs \<longleftrightarrow> distinct (map fst runs) \<and> length runs \<le> cf_max_runs cf
     \<and> (\<forall>m \<in> snd ` set runs. memory_ok cf m \<and> mm_active m)"

lemma new_memory_ok [simp]: "memory_ok cf new_memory" "\<not> mm_halted new_memory"
  by (simp_all add: memory_ok_def new_memory_def)

lemma used_memory_ok: "memory_ok cf mem0 \<Longrightarrow> \<not> mm_halted mem0 \<Longrightarrow> memory_ok cf (used_memory cf base mem0) \<and> \<not> mm_halted (used_memory cf base mem0)"
  by (simp add: used_memory_def)

lemma compact_memory_ok:
  assumes "compact cf fixed base mem0 = (oc, mem')" and "memory_ok cf mem0" and "\<not> mm_halted mem0"
  shows "memory_ok cf mem'"
  using assms(1)
proof (cases rule: compact_cases)
  case (fits mem)
  then show ?thesis using used_memory_ok [OF assms(2,3), of base] by (simp add: memory_ok_def)
next
  case (thrash mem)
  then show ?thesis by (simp add: memory_ok_def new_memory_def)
next
  case (work mem s c)
  then show ?thesis using used_memory_ok [OF assms(2,3), of base] by (simp add: memory_ok_def)
qed

lemma forget_ok: "runs_ok cf runs \<Longrightarrow> runs_ok cf (forget key runs)"
  by (auto simp: runs_ok_def forget_def distinct_map_filter intro: le_trans [OF length_filter_le])

lemma forget_fresh: "key \<notin> fst ` set (forget key runs)"
  by (auto simp: forget_def)

lemma remember_ok:
  assumes "runs_ok cf runs" and "memory_ok cf m"
  shows "runs_ok cf (remember cf key m runs)"
proof (cases "mm_active m")
  case False
  then show ?thesis using forget_ok [OF assms(1)] by (simp add: remember_def)
next
  case True
  let ?r = "forget key runs @ [(key, m)]"
  let ?k = "length ?r - cf_max_runs cf"
  have d: "distinct (map fst ?r)" and m: "\<forall>x \<in> snd ` set ?r. memory_ok cf x \<and> mm_active x"
    using forget_ok [OF assms(1), of key] forget_fresh [of key runs] assms(2) True by (auto simp: runs_ok_def)
  have d': "distinct (map fst (drop ?k ?r))" unfolding drop_map [symmetric] by (rule distinct_drop [OF d])
  have m': "\<forall>x \<in> snd ` set (drop ?k ?r). memory_ok cf x \<and> mm_active x" using m set_drop_subset [of ?k ?r] by blast
  have l: "length (drop ?k ?r) \<le> cf_max_runs cf" unfolding length_drop by linarith
  have e: "remember cf key m runs = drop ?k ?r" using True by (simp only: remember_def Let_def if_False not_True_eq_False)
  show ?thesis unfolding e runs_ok_def using d' m' l by blast
qed

lemma recall_ok:
  assumes "runs_ok cf runs" and "recall key runs = (found, runs1)"
  shows "runs_ok cf runs1 \<and> (\<forall>m. found = Some m \<longrightarrow> memory_ok cf m)"
proof (cases "map_of runs key")
  case None
  then show ?thesis using assms by (auto simp: recall_def)
next
  case (Some m)
  then have r: "found = Some m" "runs1 = forget key runs @ [(key, m)]" using assms(2) by (simp_all add: recall_def)
  have mem: "(key, m) \<in> set runs" using Some by (rule map_of_SomeD)
  then have "memory_ok cf m \<and> mm_active m" using assms(1) by (force simp: runs_ok_def)
  moreover have "length runs1 \<le> length runs"
  proof -
    have "length (forget key runs) < length runs"
      unfolding forget_def using mem by (intro length_filter_less [of "(key, m)"]) auto
    then show ?thesis by (simp add: r)
  qed
  ultimately show ?thesis
    using forget_ok [OF assms(1), of key] forget_fresh [of key runs] assms(1) r by (auto simp: runs_ok_def)
qed

lemma plan_rows_ok:
  assumes "runs_ok cf runs" and "plan_rows cf st fixed base runs = (oc, runs')"
  shows "runs_ok cf runs'"
proof -
  let ?key = "run_key cf st base"
  obtain found runs1 where fr: "(if runs \<noteq> [] then recall ?key runs else (None, runs)) = (found, runs1)" by fastforce
  have ok1: "runs_ok cf runs1" and okf: "\<And>m. found = Some m \<Longrightarrow> memory_ok cf m"
    using fr assms(1) recall_ok [OF assms(1), of ?key found runs1] by (auto split: if_splits)
  define mem0 where "mem0 = (case found of Some m \<Rightarrow> m | None \<Rightarrow> new_memory)"
  define mem where "mem = (if length base < mm_length mem0 then new_memory else mem0)"
  have okm: "memory_ok cf mem" using okf by (auto simp: mem_def mem0_def split: option.split)
  note plan = assms(2) [unfolded plan_rows_def Let_def fr prod.case, folded mem0_def, folded mem_def]
  show ?thesis
  proof (cases "mm_halted mem \<or> \<not> mm_active mem \<and> fixed + rows_cost base \<le> cf_high cf")
    case True
    then show ?thesis using plan ok1 by (auto split: if_splits)
  next
    case False
    obtain oc' mem' where c: "compact cf fixed base mem = (oc', mem')" by fastforce
    have "memory_ok cf mem'" using compact_memory_ok [OF c okm] False by blast
    then show ?thesis using plan False c remember_ok [OF ok1] by auto
  qed
qed

end
