(* ===== verification/Compaction.thy ===== *)
theory Compaction
  imports Assembler "HOL-Library.Multiset"
begin

text \<open>
  What one call of the assembler sends: the rows it may touch, where the cut may be, how much smaller
  the request becomes, and that a small conversation is sent as the default assembler sends it.
\<close>

section \<open>One assemble\<close>

lemma assemble_parts:
  assumes "assemble cf state items tools mode runs = (ctx, runs')"
  obtains oc where "plan_rows cf (as_dict state) (fixed_cost cf (as_dict state) (sort_key ot_name tools) mode) (base_rows cf items) runs = (oc, runs')"
    and "ctx = build (system_of cf (as_dict state) mode) (sort_key ot_name tools) oc"
  using assms by (auto simp: assemble_def Let_def split: prod.splits)

lemma base_rows_cost: "\<forall>r \<in> set (base_rows cf items). cost_ok r"
  by (simp add: base_rows_def)

text \<open>What the eligible rows are.\<close>

lemma eligible_iff:
  "i \<in> set (eligible keep rows) \<longleftrightarrow> i < boundary keep rows \<and> r_kind (rows ! i) = Some Tool_item
     \<and> r_call_id (rows ! i) \<notin> set (protected_ids rows) \<and> \<not> is_denial (r_item (rows ! i))"
  by (auto simp: eligible_def clearable_def)

text \<open>
  What an item of the conversation may look like when it is sent. An item of no known kind is no message. A
  tool item whose output is longer than the cap is converted with the middle of the output left out, and
  how many characters are missing in its place; every other item is converted as it is.
\<close>

definition with_output :: "string \<Rightarrow> json \<Rightarrow> json" where
  "with_output t item = JObj (dict_set ''output'' (JStr t) (as_dict item))"

definition middle_out :: "nat \<Rightarrow> string \<Rightarrow> string \<Rightarrow> bool" where
  "middle_out cap t s \<longleftrightarrow> (\<exists>front gap back. t = front @ gap @ back \<and> s = front @ middle_marker (length gap) @ back
     \<and> length front = cap * 3 div 5 \<and> length front + length back = cap)"

definition sent_as :: "config \<Rightarrow> json \<Rightarrow> message list \<Rightarrow> bool" where
  "sent_as cf item ms \<longleftrightarrow>
    (case item_kind item of
       None \<Rightarrow> ms = []
     | Some k \<Rightarrow>
         (case field (as_dict item) ''output'' of
            JStr t \<Rightarrow>
              if k = Tool_item \<and> cf_cap cf < length t
              then \<exists>s. middle_out (cf_cap cf) t s \<and> ms = convert (with_output s item)
              else ms = convert item
          | _ \<Rightarrow> ms = convert item))"

definition cleared_item :: "json \<Rightarrow> json" where
  "cleared_item item = JObj (dict_set ''truncated'' (JBool False) (dict_set ''output'' (JStr STUB_TEXT) (as_dict item)))"

lemma truncate_middle_out:
  assumes "cap < length t"
  shows "middle_out cap t (truncate_middle t cap)"
proof -
  let ?h = "cap * 3 div 5" and ?n = "length t - cap"
  have h: "?h \<le> cap" by simp
  have parts: "t = take ?h t @ take ?n (drop ?h t) @ drop (?h + ?n) t"
    by (metis append_take_drop_id drop_drop add.commute)
  have same: "?h + ?n = length t - (cap - ?h)" and gap: "length (take ?n (drop ?h t)) = length t - ?h - (cap - ?h)" using h assms by simp_all
  have "truncate_middle t cap = take ?h t @ middle_marker (length (take ?n (drop ?h t))) @ drop (?h + ?n) t"
    using assms unfolding gap same by (simp add: truncate_middle_def Let_def)
  moreover have "length (take ?h t) = ?h" "length (take ?h t) + length (drop (?h + ?n) t) = cap" using h assms by simp_all
  ultimately show ?thesis using parts unfolding middle_out_def by blast
qed

lemma base_rows_nth: "i < length items \<Longrightarrow> base_rows cf items ! i = make_row (items ! i) (Some (cf_cap cf))"
  by (simp add: base_rows_def)

lemma make_row_sent: "sent_as cf item (r_messages (make_row item (Some (cf_cap cf))))"
proof (cases "item_kind item")
  case (Some k)
  show ?thesis
  proof (cases "\<exists>t. field (as_dict item) ''output'' = JStr t \<and> k = Tool_item \<and> cf_cap cf < length t")
    case True
    then obtain t where t: "field (as_dict item) ''output'' = JStr t" "k = Tool_item" "cf_cap cf < length t" by blast
    then have "r_messages (make_row item (Some (cf_cap cf))) = convert (with_output (truncate_middle t (cf_cap cf)) item)"
      using Some by (simp add: make_row_def Let_def capped_item_def with_output_def)
    then show ?thesis using Some t truncate_middle_out [OF t(3)] by (auto simp: sent_as_def)
  next
    case False
    then show ?thesis using Some
      by (auto simp: sent_as_def make_row_def Let_def capped_item_def split: json.split)
  qed
qed (simp add: sent_as_def make_row_def)

lemma item_kind_dict:
  assumes "item_kind item = Some k" "x \<noteq> ''role''" "x \<noteq> ''text''" "x \<noteq> ''call_id''"
  shows "item_kind (JObj (dict_set x v (as_dict item))) = Some k"
proof -
  obtain d where d: "item = JObj d" using assms(1) by (cases item) (simp_all add: item_kind_def)
  have "field (dict_set x v d) y = field d y" if "y \<noteq> x" for y using that by (simp add: field_def)
  then have "field (dict_set x v d) ''role'' = field d ''role''" "field (dict_set x v d) ''text'' = field d ''text''"
    "field (dict_set x v d) ''call_id'' = field d ''call_id''" using assms(2-4) by metis+
  then show ?thesis using assms(1) by (simp only: item_kind_def d as_dict_def json.case)
qed

lemma stub_row_cleared:
  assumes "item_kind item = Some Tool_item"
  shows "r_messages (stub_row (make_row item (Some cap))) = convert (cleared_item item)"
proof -
  obtain d where d: "item = JObj d" using assms by (auto simp: item_kind_def split: json.splits)
  have "dict_set ''output'' (JStr STUB_TEXT) (as_dict (r_item (make_row item (Some cap)))) = dict_set ''output'' (JStr STUB_TEXT) d"
    using assms by (auto simp: make_row_def Let_def capped_item_def as_dict_def d dict_set_twice split: json.split)
  then have stub: "stub_row (make_row item (Some cap)) = make_row (cleared_item item) None"
    by (simp add: stub_row_def cleared_item_def as_dict_def d)
  have "item_kind (JObj (dict_set ''output'' (JStr STUB_TEXT) (as_dict item))) = Some Tool_item"
    by (rule item_kind_dict [OF assms]) simp_all
  from item_kind_dict [OF this, of "''truncated''" "JBool False"] have "item_kind (cleared_item item) = Some Tool_item"
    by (simp add: cleared_item_def as_dict_def)
  then show ?thesis unfolding stub by (simp add: make_row_def Let_def capped_item_def split: json.split)
qed

lemma denial_survives_cap:
  assumes "is_denial item" "100 \<le> cap" "item_kind item = Some Tool_item"
  shows "is_denial (r_item (make_row item (Some cap)))"
proof -
  obtain t where t: "field (as_dict item) ''output'' = JStr t" "prefix DENIED_PREFIX t" "\<not> truthy (field (as_dict item) ''ok'')"
    using assms(1) by (auto simp: is_denial_def split: json.splits)
  have "prefix DENIED_PREFIX (truncate_middle t cap)"
  proof (cases "length t \<le> cap")
    case False
    have "length DENIED_PREFIX \<le> cap * 3 div 5" using assms(2) by (simp add: DENIED_PREFIX_def)
    moreover have "prefix (take (length DENIED_PREFIX) t) (take (cap * 3 div 5) t)" if "length DENIED_PREFIX \<le> cap * 3 div 5"
      using that by (metis min.absorb1 take_is_prefix take_take)
    ultimately have "prefix DENIED_PREFIX (take (cap * 3 div 5) t)" using t(2) by (metis append_eq_conv_conj prefix_def)
    then show ?thesis using False by (simp add: truncate_middle_def Let_def prefix_append)
  qed (use t in \<open>simp add: truncate_middle_def\<close>)
  then show ?thesis using t assms(1,3)
    by (auto simp: make_row_def Let_def capped_item_def is_denial_def as_dict_def field_def split: json.splits)
qed

text \<open>C31: What is sent is the system message, the summary when there is a cut, and for the items from the cut on their
  messages in order. Each item is sent as the default assembler converts it, except that an item of no known kind is no
  message, that of a tool output longer than the cap the middle is left out (the first three fifths and the last two of
  the cap's characters stay, the number of the others stands between them), and that the output may be replaced by the
  stub: but only when the item is the result of a call before the newest rounds, is no denial and belongs to no waiting
  message. Nothing before the cut waits for a result, and no call is separated from its result.\<close>

theorem assemble_protects:
  assumes run: "assemble cf state items tools mode runs = (ctx, runs')" and keep: "0 < cf_keep cf"
  shows "\<exists>rows c. let base = base_rows cf items in
      as_messages ctx = system_of cf (as_dict state) mode # (if c \<noteq> 0 then [user_message (summary_text rows c)] else [])
                          @ concat (map r_messages (drop c rows))
      \<and> length rows = length items \<and> length base = length items \<and> c \<le> boundary (cf_keep cf) base
      \<and> (\<forall>i < length items. rows ! i = base ! i \<and> sent_as cf (items ! i) (r_messages (rows ! i))
           \<or> (i < boundary (cf_keep cf) base \<and> item_kind (items ! i) = Some Tool_item \<and> \<not> is_denial (r_item (base ! i))
              \<and> (100 \<le> cf_cap cf \<longrightarrow> \<not> is_denial (items ! i))
              \<and> r_call_id (base ! i) \<notin> set (protected_ids base)
              \<and> rows ! i = stub_row (base ! i) \<and> r_messages (rows ! i) = convert (cleared_item (items ! i))))
      \<and> (\<forall>i < c. \<not> waits base (base ! i))
      \<and> (\<forall>cid. \<forall>i < c. \<forall>j < length base. c \<le> j \<longrightarrow>
           \<not> (makes_call cid (base ! i) \<and> answers_call cid (base ! j)) \<and> \<not> (answers_call cid (base ! i) \<and> makes_call cid (base ! j)))"
proof -
  let ?base = "base_rows cf items"
  obtain oc where plan: "plan_rows cf (as_dict state) (fixed_cost cf (as_dict state) (sort_key ot_name tools) mode) ?base runs = (oc, runs')"
    and ctx: "ctx = build (system_of cf (as_dict state) mode) (sort_key ot_name tools) oc"
    using assemble_parts [OF run] .
  let ?rows = "oc_rows oc" and ?c = "oc_cut oc"
  note out = plan_rows_outcome [OF plan keep]
  have valid: "?c = 0 \<or> valid_cut (cf_keep cf) ?base ?c" using out by blast
  have limit: "?c \<le> cut_limit (cf_keep cf) ?base" using valid by (auto simp: valid_cut_def)
  then have bound: "?c \<le> boundary (cf_keep cf) ?base" by (simp add: cut_limit_def)
  then have inside: "?c \<le> length ?base" using boundary_bound [OF keep] by (rule le_trans)
  have wait: "\<forall>i < ?c. \<not> waits ?base (?base ! i)"
    using nothing_waits [of _ "cf_keep cf" ?base] limit inside by (meson less_le_trans)
  have together: "\<not> (makes_call cid (?base ! i) \<and> answers_call cid (?base ! j)) \<and> \<not> (answers_call cid (?base ! i) \<and> makes_call cid (?base ! j))"
    if "i < ?c" "?c \<le> j" "j < length ?base" for cid i j
  proof -
    have "\<not> blocked ?base ?c" using valid that(1) by (auto simp: valid_cut_def)
    then show ?thesis using unblocked_cut that by blast
  qed
  have "touched ?base (set (eligible (cf_keep cf) ?base)) ?rows" using out by blast
  then have len: "length ?rows = length ?base" and
    rows: "\<forall>i < length ?base. ?rows ! i = ?base ! i
           \<or> (i < boundary (cf_keep cf) ?base \<and> r_kind (?base ! i) = Some Tool_item \<and> \<not> is_denial (r_item (?base ! i))
              \<and> r_call_id (?base ! i) \<notin> set (protected_ids ?base) \<and> ?rows ! i = stub_row (?base ! i))"
    by (auto simp: touched_def eligible_iff)
  have blen: "length ?base = length items" by (simp add: base_rows_def)
  have kind: "r_kind (?base ! i) = item_kind (items ! i)" if "i < length items" for i
    using that by (simp add: base_rows_nth make_row_def Let_def split: option.split)
  have items: "\<forall>i < length items. ?rows ! i = ?base ! i \<and> sent_as cf (items ! i) (r_messages (?rows ! i))
           \<or> (i < boundary (cf_keep cf) ?base \<and> item_kind (items ! i) = Some Tool_item \<and> \<not> is_denial (r_item (?base ! i))
              \<and> (100 \<le> cf_cap cf \<longrightarrow> \<not> is_denial (items ! i))
              \<and> r_call_id (?base ! i) \<notin> set (protected_ids ?base)
              \<and> ?rows ! i = stub_row (?base ! i) \<and> r_messages (?rows ! i) = convert (cleared_item (items ! i)))"
  proof (intro allI impI)
    fix i assume i: "i < length items"
    note row = rows [rule_format, of i, unfolded blen, OF i]
    show "?rows ! i = ?base ! i \<and> sent_as cf (items ! i) (r_messages (?rows ! i))
           \<or> (i < boundary (cf_keep cf) ?base \<and> item_kind (items ! i) = Some Tool_item \<and> \<not> is_denial (r_item (?base ! i))
              \<and> (100 \<le> cf_cap cf \<longrightarrow> \<not> is_denial (items ! i))
              \<and> r_call_id (?base ! i) \<notin> set (protected_ids ?base)
              \<and> ?rows ! i = stub_row (?base ! i) \<and> r_messages (?rows ! i) = convert (cleared_item (items ! i)))"
    proof (cases "?rows ! i = ?base ! i")
      case True
      then show ?thesis using make_row_sent [of cf "items ! i"] by (simp add: base_rows_nth [OF i])
    next
      case False
      then have k: "item_kind (items ! i) = Some Tool_item" using row kind [OF i] by simp
      then show ?thesis using False row stub_row_cleared [OF k] denial_survives_cap [of "items ! i" "cf_cap cf"]
        by (auto simp: base_rows_nth [OF i])
    qed
  qed
  have messages: "as_messages ctx = system_of cf (as_dict state) mode # (if ?c \<noteq> 0 then [user_message (summary_text ?rows ?c)] else [])
                          @ concat (map r_messages (drop ?c ?rows))"
    using out by (simp add: ctx build_def summary_of_def)
  show ?thesis
    unfolding Let_def
    by (rule exI [of _ ?rows], rule exI [of _ ?c]) (intro conjI messages len [unfolded blen] blen bound items wait allI impI; use together in blast)
qed

section \<open>What compaction achieves\<close>

lemma build_plain:
  "build system tools (plain_outcome base notes)
    = \<lparr>as_messages = system # concat (map r_messages base), as_tools = tools, as_notes = notes\<rparr>"
  by (simp add: build_def plain_outcome_def)





lemma reapply_length [simp]: "length (reapply c is rows) = length rows"
  by (induction "is" arbitrary: rows) (simp_all add: reapply_def)




lemma new_memory_fields [simp]: "mm_cut new_memory = 0" "mm_cleared new_memory = 0" "mm_streak new_memory = 0"
  "\<not> mm_active new_memory" "mm_length new_memory = 0"
  by (simp_all add: new_memory_def mm_active_def)

lemma used_new_memory [simp]: "used_memory cf base new_memory = new_memory"
  by (simp add: used_memory_def)


lemma estimate_at_0: "estimate_at fixed rows 0 = fixed + rows_cost rows"
  by (simp add: estimate_at_def)



lemma plan_fresh:
  assumes "plan_rows cf st fixed base runs = (oc, runs')" and fresh: "map_of runs (run_key cf st base) = None"
    and "fixed + rows_cost base \<le> cf_high cf"
  shows "oc = plain_outcome base [] \<and> runs' = runs"
proof -
  have r: "(if runs \<noteq> [] then recall (run_key cf st base) runs else (None, runs)) = (None, runs)"
    using fresh by (simp add: recall_def)
  show ?thesis using assms(1) [unfolded plan_rows_def Let_def r prod.case option.case] assms(3) by simp
qed



text \<open>The estimate of the request, when what was decided is sent.\<close>

lemma plain_estimate:
  "estimate_context_tokens (build (system_of cf st mode) tools (plain_outcome (base_rows cf items) notes))
    = fixed_cost cf st tools mode + rows_cost (base_rows cf items)"
  using build_estimate [of "plain_outcome (base_rows cf items) notes" "system_of cf st mode" tools] base_rows_cost [of cf items]
  by (simp add: plain_outcome_def summary_of_def estimate_at_0 fixed_cost_def)




section \<open>A small conversation\<close>

lemma convert_item: "item_messages item = Some ms \<Longrightarrow> convert item = ms"
  by (simp add: convert_def)

lemma skipped_item: "item_kind item = None \<Longrightarrow> item_messages item = Some ms \<Longrightarrow> ms = []"
  by (auto simp: item_kind_def item_messages_def split: json.splits if_splits)

definition within_cap :: "config \<Rightarrow> json \<Rightarrow> bool" where
  "within_cap cf item \<longleftrightarrow> length (str_or [] (field (as_dict item) ''output'')) \<le> cf_cap cf"

lemma capped_same: "within_cap cf item \<Longrightarrow> capped_item (Some (cf_cap cf)) item = item"
  by (auto simp: within_cap_def capped_item_def str_or_def split: json.splits)

lemma small_row_messages:
  "within_cap cf item \<Longrightarrow> item_messages item = Some ms \<Longrightarrow> r_messages (make_row item (Some (cf_cap cf))) = ms"
  using skipped_item convert_item by (auto simp: make_row_def Let_def capped_same split: option.split)

lemma small_messages:
  "\<forall>item \<in> set items. within_cap cf item \<Longrightarrow> items_to_messages items = Some ms
    \<Longrightarrow> concat (map r_messages (base_rows cf items)) = ms"
  by (induction items arbitrary: ms) (auto simp: base_rows_def small_row_messages split: option.splits)

lemma rule_blocks_filter:
  "concat (map (rule_block f) (filter (\<lambda>r. case r of JObj _ \<Rightarrow> True | _ \<Rightarrow> False) rs)) = concat (map (rule_block f) rs)"
  by (induction rs) (simp_all add: rule_block_def split: json.split)

lemma text_block_str_or: "text_block title (JStr (str_or [] v)) = text_block title v"
  by (simp add: text_block_def str_or_def strip_def lstrip_def rstrip_def split: json.split)

lemma system_of_default:
  assumes "rules_of st = Some rs"
  shows "system_of cf st mode
    = system_message (system_text (cf_str cf) (field st ''instructions'') rs (field st ''memory_index'') mode)"
proof -
  let ?L = "case field st ''rules'' of JList rs \<Rightarrow> rs | _ \<Rightarrow> []"
  let ?F = "filter (\<lambda>r. case r of JObj _ \<Rightarrow> True | _ \<Rightarrow> False) ?L"
  let ?safe = "[(''instructions'', JStr (str_or [] (field st ''instructions''))),
    (''memory_index'', JStr (str_or [] (field st ''memory_index''))), (''rules'', JList ?F)]"
  have rs: "rs = ?L" using assms by (auto simp: rules_of_def Let_def truthy_def split: json.splits if_splits)
  have safe: "rules_of ?safe = Some ?F" by (simp add: rules_of_def field_def truthy_def)
  have fields: "field ?safe ''instructions'' = JStr (str_or [] (field st ''instructions''))"
    "field ?safe ''memory_index'' = JStr (str_or [] (field st ''memory_index''))"
    by (simp_all add: field_def)
  have "default_assemble (cf_str cf) ?safe [] [] mode
      = Some \<lparr>as_messages = [system_message (system_text (cf_str cf) (field st ''instructions'') ?L (field st ''memory_index'') mode)],
          as_tools = [], as_notes = []\<rparr>"
    by (simp only: default_assemble_def safe fields system_text_def text_block_str_or rule_blocks_filter
          items_to_messages.simps prod.case option.case)
  then show ?thesis unfolding system_of_def Let_def rs by (simp only: option.case assembled.select_convs list.sel)
qed

text \<open>C36: A conversation within the marks, with no output over the cap, is sent exactly as the default
  assembler sends it, with the tools sorted, and takes no slot in the memory.\<close>

theorem small_conversation_as_default:
  assumes default: "default_assemble (cf_str cf) st items tools mode = Some ctx"
    and cap: "\<forall>item \<in> set items. within_cap cf item"
    and small: "estimate_context_tokens ctx \<le> cf_high cf"
    and fresh: "map_of runs (run_key cf st (base_rows cf items)) = None"
  shows "assemble cf (JObj st) items tools mode runs = (ctx\<lparr>as_tools := sort_key ot_name tools\<rparr>, runs)"
proof -
  obtain rs ms where rs: "rules_of st = Some rs" and ms: "items_to_messages items = Some ms"
    and ctx: "ctx = \<lparr>as_messages = system_of cf st mode # ms, as_tools = tools, as_notes = []\<rparr>"
    using default system_of_default by (fastforce simp: default_assemble_def split: option.splits)
  let ?ts = "sort_key ot_name tools"
  have plain: "build (system_of cf st mode) ?ts (plain_outcome (base_rows cf items) []) = ctx\<lparr>as_tools := ?ts\<rparr>"
    using small_messages [OF cap ms] by (simp add: build_plain ctx)
  have "sum_list (map estimate_tool_tokens ?ts) = sum_list (map estimate_tool_tokens tools)"
    by (metis mset_map mset_sort sum_mset_sum_list)
  then have "estimate_context_tokens (ctx\<lparr>as_tools := ?ts\<rparr>) \<le> cf_high cf"
    using small by (simp add: estimate_context_tokens_def ctx)
  then have fits: "fixed_cost cf st ?ts mode + rows_cost (base_rows cf items) \<le> cf_high cf"
    by (simp only: plain [symmetric] plain_estimate)
  obtain oc runs' where plan: "plan_rows cf st (fixed_cost cf st ?ts mode) (base_rows cf items) runs = (oc, runs')" by fastforce
  show ?thesis using plan_fresh [OF plan fresh fits] plan plain by (simp add: assemble_def as_dict_def)
qed

section \<open>A conversation that is compacted\<close>
definition demo_config :: config where
  "demo_config = \<lparr>cf_high = 300, cf_low = 280, cf_cap = 120, cf_thrash = 1, cf_keep = 1, cf_max_runs = 2,
     cf_digest = (\<lambda>s. take 8 s), cf_str = (\<lambda>v. ''None'')\<rparr>"

definition demo_user :: "string \<Rightarrow> json" where
  "demo_user t = JObj [(''role'', JStr ''user''), (''text'', JStr t)]"

definition demo_call :: "string \<Rightarrow> string \<Rightarrow> json" where
  "demo_call cid tool = JObj [(''role'', JStr ''assistant''), (''text'', JStr []),
     (''tool_calls'', JList [JObj [(''call_id'', JStr cid), (''tool'', JStr tool), (''input'', JObj [])]])]"

definition demo_result :: "string \<Rightarrow> string \<Rightarrow> json" where
  "demo_result cid output = JObj [(''role'', JStr ''tool''), (''call_id'', JStr cid), (''ok'', JBool True), (''output'', JStr output)]"

definition demo_state :: json where "demo_state = JObj [(''run_id'', JStr ''r1'')]"

definition demo_items :: "json list" where
  "demo_items = [demo_user ''fix the parser'', demo_call ''c1'' ''bash'', demo_result ''c1'' (replicate 110 CHR ''x''),
     demo_call ''c2'' ''grep'', demo_result ''c2'' (replicate 110 CHR ''y''), demo_user ''go on'']"

definition demo_memory :: "nat \<Rightarrow> nat \<Rightarrow> bool \<Rightarrow> nat \<Rightarrow> run_memory" where
  "demo_memory cleared streak halted n =
    \<lparr>mm_cleared = cleared, mm_cut = 0, mm_streak = streak, mm_halted = halted, mm_length = n\<rparr>"

lemma assemble_decides:
  "as_notes (fst (assemble cf state items tools mode runs))
     = oc_notes (fst (plan_rows cf (as_dict state) (fixed_cost cf (as_dict state) (sort_key ot_name tools) mode) (base_rows cf items) runs))"
  "snd (assemble cf state items tools mode runs)
     = snd (plan_rows cf (as_dict state) (fixed_cost cf (as_dict state) (sort_key ot_name tools) mode) (base_rows cf items) runs)"
  by (simp_all add: assemble_def build_def Let_def split: prod.split)

lemma demo_fixed: "fixed_cost demo_config (as_dict demo_state) (sort_key ot_name []) ''ask'' = 209" by code_simp

lemma demo_plan:
  "oc_notes (fst (plan_rows demo_config (as_dict demo_state) 209 (base_rows demo_config demo_items) [])) = [NOTE_COMPACTED]"
  "snd (plan_rows demo_config (as_dict demo_state) 209 (base_rows demo_config demo_items) []) = [(''run:r1'', demo_memory 2 1 False 6)]"
  by code_simp+

lemma demo_first:
  "as_notes (fst (assemble demo_config demo_state demo_items [] ''ask'' [])) = [NOTE_COMPACTED]"
  "snd (assemble demo_config demo_state demo_items [] ''ask'' []) = [(''run:r1'', demo_memory 2 1 False 6)]"
  using demo_plan by (simp_all only: assemble_decides demo_fixed)

lemma demo_later_plan:
  "oc_notes (fst (plan_rows demo_config (as_dict demo_state) 209 (base_rows demo_config (demo_items @ [demo_user (replicate 30 CHR ''x'')]))
     [(''run:r1'', demo_memory 2 1 False 6)])) = []"
  "oc_notes (fst (plan_rows demo_config (as_dict demo_state) 209 (base_rows demo_config (demo_items @ [demo_user (replicate 150 CHR ''x'')]))
     [(''run:r1'', demo_memory 2 1 False 6)])) = [NOTE_THRASH]"
  by code_simp+

lemma demo_over: "fixed_cost demo_config (as_dict demo_state) (sort_key ot_name []) ''ask'' + rows_cost (base_rows demo_config demo_items) = 307"
  by code_simp

text \<open>A conversation that is compacted, and one whose newest tool output is over the cap.\<close>

definition demo_long :: "json list" where
  "demo_long = [demo_user ''go'', demo_call ''c1'' ''bash'', demo_result ''c1'' (replicate 200 CHR ''x'')]"

theorem assemble_protects_witness:
  "(\<exists>ctx runs rows c. assemble demo_config demo_state demo_items [] ''ask'' [] = (ctx, runs) \<and> as_notes ctx = [NOTE_COMPACTED]
     \<and> length rows = 6 \<and> c \<le> boundary 1 (base_rows demo_config demo_items)
     \<and> as_messages ctx = system_of demo_config (as_dict demo_state) ''ask'' # (if c \<noteq> 0 then [user_message (summary_text rows c)] else [])
                          @ concat (map r_messages (drop c rows)))
   \<and> (\<exists>ctx runs front s. assemble demo_config demo_state demo_long [] ''ask'' [] = (ctx, runs)
     \<and> middle_out 120 (replicate 200 CHR ''x'') s \<and> as_messages ctx = front @ convert (with_output s (demo_long ! 2)))"
proof
  have cf: "0 < cf_keep demo_config" and keep: "cf_keep demo_config = 1" and cap: "cf_cap demo_config = 120" by (simp_all add: demo_config_def)
  obtain ctx runs where run: "assemble demo_config demo_state demo_items [] ''ask'' [] = (ctx, runs)" by fastforce
  note sent = assemble_protects [OF run cf]
  moreover have "length demo_items = 6" by (simp add: demo_items_def)
  moreover have "as_notes ctx = [NOTE_COMPACTED]" using demo_first(1) by (simp add: run)
  ultimately show "\<exists>ctx runs rows c. assemble demo_config demo_state demo_items [] ''ask'' [] = (ctx, runs) \<and> as_notes ctx = [NOTE_COMPACTED]
     \<and> length rows = 6 \<and> c \<le> boundary 1 (base_rows demo_config demo_items)
     \<and> as_messages ctx = system_of demo_config (as_dict demo_state) ''ask'' # (if c \<noteq> 0 then [user_message (summary_text rows c)] else [])
                          @ concat (map r_messages (drop c rows))"
    using run unfolding Let_def keep by metis
  obtain ctx' runs' where run': "assemble demo_config demo_state demo_long [] ''ask'' [] = (ctx', runs')" by fastforce
  have f: "boundary 1 (base_rows demo_config demo_long) = 1" "length demo_long = 3" "item_kind (demo_long ! 2) = Some Tool_item"
    "field (as_dict (demo_long ! 2)) ''output'' = JStr (replicate 200 CHR ''x'')" by code_simp+
  have "\<exists>rows c. as_messages ctx' = system_of demo_config (as_dict demo_state) ''ask'' # (if c \<noteq> 0 then [user_message (summary_text rows c)] else [])
      @ concat (map r_messages (drop c rows)) \<and> length rows = 3 \<and> c \<le> 1 \<and> sent_as demo_config (demo_long ! 2) (r_messages (rows ! 2))"
    using assemble_protects [OF run' cf, unfolded Let_def keep f(1,2)]
  proof (elim exE conjE, goal_cases)
    case (1 rows c)
    have "(2::nat) < 3" "\<not> (2::nat) < 1" by simp_all
    then have "sent_as demo_config (demo_long ! 2) (r_messages (rows ! 2))" using 1(5) by blast
    with 1(1,2,4) show ?case by blast
  qed
  then obtain rows c where r: "as_messages ctx' = system_of demo_config (as_dict demo_state) ''ask'' # (if c \<noteq> 0 then [user_message (summary_text rows c)] else [])
      @ concat (map r_messages (drop c rows))" "length rows = 3" "c \<le> 1" "sent_as demo_config (demo_long ! 2) (r_messages (rows ! 2))" by blast
  have "drop c rows = drop c (take 2 rows) @ [rows ! 2]"
  proof -
    have "rows = take 2 rows @ [rows ! 2]" using r(2) id_take_nth_drop [of 2 rows] by simp
    then have "drop c rows = drop c (take 2 rows @ [rows ! 2])" by simp
    also have "\<dots> = drop c (take 2 rows) @ [rows ! 2]" using r(2,3) by simp
    finally show ?thesis .
  qed
  then have "as_messages ctx' = (system_of demo_config (as_dict demo_state) ''ask'' # (if c \<noteq> 0 then [user_message (summary_text rows c)] else [])
      @ concat (map r_messages (drop c (take 2 rows)))) @ r_messages (rows ! 2)" using r(1) by simp
  moreover have "\<exists>s. middle_out 120 (replicate 200 CHR ''x'') s \<and> r_messages (rows ! 2) = convert (with_output s (demo_long ! 2))"
    using r(4) f(3,4) by (simp add: sent_as_def cap)
  ultimately show "\<exists>ctx runs front s. assemble demo_config demo_state demo_long [] ''ask'' [] = (ctx, runs)
     \<and> middle_out 120 (replicate 200 CHR ''x'') s \<and> as_messages ctx = front @ convert (with_output s (demo_long ! 2))"
    using run' by metis
qed






theorem small_conversation_as_default_witness:
  "\<exists>ctx. default_assemble (\<lambda>v. ''None'') (as_dict demo_state) [demo_user ''hello''] [] ''ask'' = Some ctx
     \<and> assemble demo_config demo_state [demo_user ''hello''] [] ''ask'' [] = (ctx, [])"
proof -
  have str: "cf_str demo_config = (\<lambda>v. ''None'')" by (simp add: demo_config_def)
  obtain ctx where d: "default_assemble (cf_str demo_config) (as_dict demo_state) [demo_user ''hello''] [] ''ask'' = Some ctx"
    and tools: "as_tools ctx = []"
    by (simp add: default_assemble_def rules_of_def demo_state_def as_dict_def field_def truthy_def demo_user_def item_messages_def)
  have small: "map_option estimate_context_tokens (default_assemble (\<lambda>v. ''None'') (as_dict demo_state) [demo_user ''hello''] [] ''ask'') = Some 215"
    by code_simp
  have cap: "within_cap demo_config (demo_user ''hello'')" by (simp add: within_cap_def demo_user_def field_def as_dict_def str_or_def)
  have st: "demo_state = JObj (as_dict demo_state)" by (simp add: demo_state_def as_dict_def)
  have le: "estimate_context_tokens ctx \<le> cf_high demo_config" using small d by (simp add: str) (simp add: demo_config_def)
  have "assemble demo_config (JObj (as_dict demo_state)) [demo_user ''hello''] [] ''ask'' [] = (ctx\<lparr>as_tools := sort_key ot_name []\<rparr>, [])"
    by (rule small_conversation_as_default [OF d _ le]) (simp_all add: cap)
  then show ?thesis using d tools by (simp add: str st [symmetric])
qed

end
