(* ===== verification/LongRuns.thy ===== *)
theory LongRuns
  imports Compaction
begin

text \<open>
  Sequences of assembles: re-applying what was decided keeps the prefix of the request, the memory of
  the runs stays bounded, the thrash guard stops a run, and what a summary says.
\<close>

section \<open>A growing conversation\<close>

lemma capped_none [simp]: "capped_item None item = item"
  by (simp add: capped_item_def)









































section \<open>Many assembles\<close>

type_synonym request = "json \<times> json list \<times> offered_tool list \<times> string"

fun assembles :: "config \<Rightarrow> request list \<Rightarrow> run_map \<Rightarrow> assembled list \<times> run_map" where
  "assembles cf [] runs = ([], runs)"
| "assembles cf ((state, items, tools, mode) # reqs) runs =
    (let (ctx, runs1) = assemble cf state items tools mode runs;
         (ctxs, runs2) = assembles cf reqs runs1
     in (ctx # ctxs, runs2))"

lemma assemble_ok: "runs_ok cf runs \<Longrightarrow> assemble cf state items tools mode runs = (ctx, runs') \<Longrightarrow> runs_ok cf runs'"
  using assemble_parts plan_rows_ok by metis

lemma assembles_ok: "runs_ok cf runs \<Longrightarrow> runs_ok cf (snd (assembles cf reqs runs))"
  by (induction cf reqs runs rule: assembles.induct) (auto simp: Let_def assemble_ok split: prod.splits)

text \<open>C34: After any sequence of assembles the memory has at most the configured number of runs, one entry per
  run, each of them active, with a streak within the limit; a stopped run remembers nothing else.\<close>

theorem assembles_keep_the_runs:
  assumes "assembles cf reqs [] = (ctxs, runs)"
  shows "length runs \<le> cf_max_runs cf \<and> distinct (map fst runs)
    \<and> (\<forall>m \<in> snd ` set runs. mm_active m \<and> mm_streak m \<le> cf_thrash cf
         \<and> (mm_halted m \<longrightarrow> mm_cleared m = 0 \<and> mm_cut m = 0 \<and> mm_streak m = 0))"
proof -
  have "runs_ok cf []" by (simp add: runs_ok_def)
  then have "runs_ok cf runs" using assembles_ok assms by (metis snd_conv)
  then show ?thesis by (auto simp: runs_ok_def memory_ok_def)
qed

section \<open>A run after its compaction\<close>





section \<open>The thrash guard\<close>

definition plain_request :: "config \<Rightarrow> request \<Rightarrow> assembled" where
  "plain_request cf = (\<lambda>(state, items, tools, mode).
    build (system_of cf (as_dict state) mode) (sort_key ot_name tools) (plain_outcome (base_rows cf items) []))"

definition request_key :: "config \<Rightarrow> request \<Rightarrow> string" where
  "request_key cf = (\<lambda>(state, items, tools, mode). run_key cf (as_dict state) (base_rows cf items))"

definition request_length :: "request \<Rightarrow> nat" where
  "request_length = (\<lambda>(state, items, tools, mode). length items)"

lemma recall_again: "map_of runs key = Some m \<Longrightarrow> map_of (forget key runs @ [(key, m)]) key = Some m"
proof -
  have "map_of (forget key runs) key = None" using forget_fresh [of key runs] by (simp add: map_of_eq_None_iff)
  then show ?thesis by (simp add: map_add_Some_iff)
qed

lemma thrash_compact:
  assumes "plan_rows cf st fixed base runs = (oc, runs')" and "oc_notes oc = [NOTE_THRASH]"
  obtains runs1 where "oc = plain_outcome base [NOTE_THRASH]"
    and "runs' = remember cf (run_key cf st base) (new_memory\<lparr>mm_halted := True, mm_length := length base\<rparr>) runs1"
proof -
  have nt: "[NOTE_COMPACTED] \<noteq> [NOTE_THRASH]" by (simp add: NOTE_THRASH_def NOTE_COMPACTED_def)
  obtain mem mem' runs1 where c: "compact cf fixed base mem = (oc, mem')" and r: "runs' = remember cf (run_key cf st base) mem' runs1"
    using assms by (fastforce simp: plan_rows_def Let_def plain_outcome_def split: prod.splits if_splits)
  show thesis
    using c
  proof (cases rule: compact_cases)
    case (thrash m)
    then show ?thesis using that r by simp
  qed (use assms(2) nt in \<open>auto split: if_splits\<close>)
qed

lemma thrash_plain: "plan_rows cf st fixed base runs = (oc, runs') \<Longrightarrow> oc_notes oc = [NOTE_THRASH] \<Longrightarrow> oc = plain_outcome base [NOTE_THRASH]"
  by (erule (1) thrash_compact)

text \<open>Requests of other runs in between: the run's entry stays while fewer other runs than the memory holds are used.\<close>

definition halted_entry :: "config \<Rightarrow> string \<Rightarrow> run_memory \<Rightarrow> string set \<Rightarrow> run_map \<Rightarrow> bool" where
  "halted_entry cf key m others runs \<longleftrightarrow>
     (\<exists>xs ys. runs = xs @ (key, m) # ys \<and> key \<notin> fst ` set xs \<and> key \<notin> fst ` set ys \<and> distinct (map fst ys) \<and> fst ` set ys \<subseteq> others)"

lemma halted_entry_found: "halted_entry cf key m others runs \<Longrightarrow> map_of runs key = Some m"
  by (auto simp: halted_entry_def map_add_Some_iff map_of_eq_None_iff)

lemma forget_parts:
  assumes "k \<noteq> key"
  shows "forget k (xs @ (key, m) # ys) = forget k xs @ (key, m) # forget k ys"
  using assms by (simp add: forget_def)

lemma halted_entry_moved:
  assumes h: "halted_entry cf key m others runs" and k: "k \<noteq> key" "k \<in> others"
  shows "halted_entry cf key m others (forget k runs @ [(k, m')])" and "halted_entry cf key m others (forget k runs)"
proof -
  obtain xs ys where runs: "runs = xs @ (key, m) # ys" and p: "key \<notin> fst ` set xs" "key \<notin> fst ` set ys" "distinct (map fst ys)" "fst ` set ys \<subseteq> others"
    using h unfolding halted_entry_def by blast
  have sub: "set (forget k zs) \<subseteq> set zs" for zs :: run_map by (auto simp: forget_def)
  have fx: "key \<notin> fst ` set (forget k xs)" "key \<notin> fst ` set (forget k ys)" "distinct (map fst (forget k ys))" "fst ` set (forget k ys) \<subseteq> others"
    using p sub [of xs] sub [of ys] by (auto simp: forget_def distinct_map_filter)
  have new: "k \<notin> fst ` set (forget k ys)" by (rule forget_fresh)
  show "halted_entry cf key m others (forget k runs)"
    unfolding halted_entry_def runs forget_parts [OF k(1)] using fx by blast
  show "halted_entry cf key m others (forget k runs @ [(k, m')])"
    unfolding halted_entry_def runs forget_parts [OF k(1)]
    by (rule exI [of _ "forget k xs"], rule exI [of _ "forget k ys @ [(k, m')]"]) (use fx new k in auto)
qed

lemma halted_entry_drop:
  assumes h: "halted_entry cf key m others runs" and few: "finite others" "card others < n"
  shows "halted_entry cf key m others (drop (length runs - n) runs)"
proof -
  obtain xs ys where runs: "runs = xs @ (key, m) # ys" and p: "key \<notin> fst ` set xs" "key \<notin> fst ` set ys" "distinct (map fst ys)" "fst ` set ys \<subseteq> others"
    using h unfolding halted_entry_def by blast
  have "length ys = card (fst ` set ys)" using p(3) by (metis distinct_card length_map set_map)
  then have "length ys < n" using card_mono [OF few(1) p(4)] few(2) by simp
  then have d: "drop (length runs - n) runs = drop (length runs - n) xs @ (key, m) # ys" by (simp add: runs)
  have "key \<notin> fst ` set (drop (length runs - n) xs)" using p(1) by (auto dest: in_set_dropD)
  then show ?thesis unfolding d halted_entry_def using p by blast
qed

lemma halted_entry_other:
  assumes h: "halted_entry cf key m others runs" and few: "finite others" "card others < cf_max_runs cf"
    and req: "req = (state, items, tools, mode)" and k: "request_key cf req \<noteq> key" "request_key cf req \<in> others"
  shows "halted_entry cf key m others (snd (assemble cf state items tools mode runs))"
proof -
  let ?k = "run_key cf (as_dict state) (base_rows cf items)"
  have k': "?k \<noteq> key" "?k \<in> others" using k by (simp_all add: req request_key_def)
  have recalled: "halted_entry cf key m others (snd (if runs \<noteq> [] then recall ?k runs else (None, runs)))"
    using h halted_entry_moved(1) [OF h k'] by (auto simp: recall_def split: option.split)
  have remembered: "halted_entry cf key m others (remember cf ?k mem r)" if "halted_entry cf key m others r" for mem r
    using halted_entry_moved [OF that k'] halted_entry_drop [OF halted_entry_moved(1) [OF that k'] few] by (simp add: remember_def Let_def)
  obtain ctx runs' where run: "assemble cf state items tools mode runs = (ctx, runs')" by fastforce
  obtain oc where plan: "plan_rows cf (as_dict state) (fixed_cost cf (as_dict state) (sort_key ot_name tools) mode) (base_rows cf items) runs = (oc, runs')"
    using assemble_parts [OF run] .
  obtain found runs1 where fr: "(if runs \<noteq> [] then recall ?k runs else (None, runs)) = (found, runs1)" by fastforce
  have "runs' = runs1 \<or> (\<exists>mem'. runs' = remember cf ?k mem' runs1)"
    using plan by (auto simp: plan_rows_def Let_def fr split: if_splits prod.splits)
  then show ?thesis using recalled remembered fr by (auto simp: run)
qed

lemma halted_entry_own:
  assumes h: "halted_entry cf key m others runs" and m: "mm_halted m" "mm_length m \<le> length items"
    and key: "run_key cf (as_dict state) (base_rows cf items) = key"
  shows "fst (assemble cf state items tools mode runs) = plain_request cf (state, items, tools, mode)
    \<and> halted_entry cf key m others (snd (assemble cf state items tools mode runs))"
proof -
  have found: "map_of runs key = Some m" by (rule halted_entry_found [OF h])
  then have ne: "runs \<noteq> []" by auto
  have len: "length (base_rows cf items) = length items" by (simp add: base_rows_def)
  have "recall key runs = (Some m, forget key runs @ [(key, m)])" using found by (simp add: recall_def)
  then have "plan_rows cf (as_dict state) fixed (base_rows cf items) runs = (plain_outcome (base_rows cf items) [], forget key runs @ [(key, m)])" for fixed
    using ne m len by (simp add: plan_rows_def Let_def key)
  moreover have "halted_entry cf key m others (forget key runs @ [(key, m)])"
    unfolding halted_entry_def using forget_fresh [of key runs] by (intro exI [of _ "forget key runs"] exI [of _ "[]"]) simp
  ultimately show ?thesis by (simp add: assemble_def Let_def plain_request_def)
qed

lemma halted_assembles:
  assumes "halted_entry cf key m others runs" and m: "mm_halted m" and few: "finite others" "card others < cf_max_runs cf"
    and "\<forall>req \<in> set reqs. if request_key cf req = key then mm_length m \<le> request_length req else request_key cf req \<in> others"
  shows "length (fst (assembles cf reqs runs)) = length reqs
    \<and> (\<forall>k < length reqs. request_key cf (reqs ! k) = key \<longrightarrow> fst (assembles cf reqs runs) ! k = plain_request cf (reqs ! k))"
  using assms(1,5)
proof (induction reqs arbitrary: runs)
  case (Cons req reqs)
  obtain state items tools mode where req: "req = (state, items, tools, mode)" by (cases req)
  obtain ctx runs1 where a: "assemble cf state items tools mode runs = (ctx, runs1)" by fastforce
  obtain ctxs runs2 where more: "assembles cf reqs runs1 = (ctxs, runs2)" by fastforce
  have "halted_entry cf key m others runs1 \<and> (request_key cf req = key \<longrightarrow> ctx = plain_request cf req)"
  proof (cases "request_key cf req = key")
    case True
    then show ?thesis using halted_entry_own [OF Cons.prems(1) m, of items state tools mode] Cons.prems(2) a
      by (simp add: req request_key_def request_length_def)
  next
    case False
    then show ?thesis using halted_entry_other [OF Cons.prems(1) few req False] Cons.prems(2) a by simp
  qed
  then show ?case using Cons.IH [of runs1] Cons.prems(2) more by (auto simp: req a nth_Cons' split: if_splits)
qed simp

text \<open>C35: When the thrash notice is given, that request is sent uncompacted, and so is every later request of the run, without
  a notice, whatever requests of other runs come between: as long as no more runs than the memory holds take part (else the
  run's entry may be evicted and the run starts over) and the conversation of the run does not become shorter than it was
  (then it was rebuilt, and starts over).\<close>

theorem thrash_stops_compaction:
  assumes run: "assemble cf state items tools mode runs = (ctx, runs1)" and noted: "as_notes ctx = [NOTE_THRASH]"
    and key: "key = request_key cf (state, items, tools, mode)"
    and few: "card (insert key (request_key cf ` set reqs)) \<le> cf_max_runs cf"
    and same: "\<forall>req \<in> set reqs. request_key cf req = key \<longrightarrow> length items \<le> request_length req"
  shows "as_messages ctx = as_messages (plain_request cf (state, items, tools, mode))
    \<and> length (fst (assembles cf reqs runs1)) = length reqs
    \<and> (\<forall>k < length reqs. request_key cf (reqs ! k) = key \<longrightarrow> fst (assembles cf reqs runs1) ! k = plain_request cf (reqs ! k))
    \<and> (\<forall>req. as_notes (plain_request cf req) = [])"
proof -
  let ?base = "base_rows cf items" and ?others = "request_key cf ` set reqs - {key}"
  let ?m = "new_memory\<lparr>mm_halted := True, mm_length := length ?base\<rparr>"
  obtain oc where plan: "plan_rows cf (as_dict state) (fixed_cost cf (as_dict state) (sort_key ot_name tools) mode) ?base runs = (oc, runs1)"
    and ctx: "ctx = build (system_of cf (as_dict state) mode) (sort_key ot_name tools) oc"
    using assemble_parts [OF run] .
  have n: "oc_notes oc = [NOTE_THRASH]" using noted by (simp add: ctx build_def)
  have card: "card ?others < cf_max_runs cf"
    using few card.insert_remove [of "request_key cf ` set reqs" key] by simp
  obtain runs0 where r1: "runs1 = remember cf key ?m runs0"
    using thrash_compact [OF plan n] by (auto simp: key request_key_def)
  define held where "held = forget key runs0 @ [(key, ?m)]"
  have "halted_entry cf key ?m ?others held"
    unfolding halted_entry_def held_def using forget_fresh [of key runs0]
    by (intro exI [of _ "forget key runs0"] exI [of _ "[]"]) simp
  moreover have "runs1 = drop (length held - cf_max_runs cf) held"
    unfolding r1 remember_def Let_def held_def [symmetric] by (simp add: mm_active_def)
  ultimately have "halted_entry cf key ?m ?others runs1"
    using halted_entry_drop [OF _ _ card, of cf key ?m held] by simp
  then have "length (fst (assembles cf reqs runs1)) = length reqs
    \<and> (\<forall>k < length reqs. request_key cf (reqs ! k) = key \<longrightarrow> fst (assembles cf reqs runs1) ! k = plain_request cf (reqs ! k))"
    by (rule halted_assembles) (use card same in \<open>auto simp: base_rows_def\<close>)
  moreover have "as_messages ctx = as_messages (plain_request cf (state, items, tools, mode))"
    using thrash_plain [OF plan n] by (simp add: ctx plain_request_def build_def plain_outcome_def)
  moreover have "as_notes (plain_request cf req) = []" for req by (cases req) (simp add: plain_request_def build_def plain_outcome_def)
  ultimately show ?thesis by blast
qed

text \<open>Starting over is not remembered: a halted run whose shorter conversation needs no compaction is sent as it is, but the
  entry stays, and when the conversation has its old length again the run is halted again.\<close>

lemma a_shorter_conversation_leaves_the_entry:
  assumes found: "map_of runs (run_key cf (as_dict state) (base_rows cf items)) = Some m" and shorter: "length items < mm_length m"
    and fits: "fixed_cost cf (as_dict state) (sort_key ot_name tools) mode + rows_cost (base_rows cf items) \<le> cf_high cf"
  shows "map_of (snd (assemble cf state items tools mode runs)) (run_key cf (as_dict state) (base_rows cf items)) = Some m"
proof -
  let ?key = "run_key cf (as_dict state) (base_rows cf items)"
  have ne: "runs \<noteq> []" using found by auto
  have "recall ?key runs = (Some m, forget ?key runs @ [(?key, m)])" using found by (simp add: recall_def)
  then have "snd (assemble cf state items tools mode runs) = forget ?key runs @ [(?key, m)]"
    using ne shorter fits by (simp add: assemble_def plan_rows_def Let_def base_rows_def [of cf items] split: prod.split)
  then show ?thesis using recall_again [OF found] by simp
qed

section \<open>What a summary says\<close>

definition person_texts :: "row list \<Rightarrow> string list" where
  "person_texts rows =
    concat (map (\<lambda>r. if r_kind r = Some User_item then [str_or [] (field (as_dict (r_item r)) ''text'')] else []) rows)"

definition denials :: "row list \<Rightarrow> nat" where
  "denials rows = length (filter (\<lambda>r. r_kind r = Some Tool_item \<and> is_denial (r_item r)) rows)"

lemma add_calls_same:
  "ag_users (fold add_call cs a) = ag_users a \<and> ag_denied (fold add_call cs a) = ag_denied a
   \<and> ag_messages (fold add_call cs a) = ag_messages a"
  by (induction cs arbitrary: a) (simp_all add: add_call_def Let_def)

lemma count_up_sum: "sum_list (map snd (count_up name counts)) = sum_list (map snd counts) + 1"
proof (induction counts)
  case (Cons p counts)
  then show ?case by (cases p) (auto simp: count_up_def)
qed (simp add: count_up_def)

lemma fold_rows:
  "ag_users (fold add_row rows a) = ag_users a @ person_texts rows
   \<and> sum_list (map snd (ag_denied (fold add_row rows a))) = sum_list (map snd (ag_denied a)) + denials rows"
proof (induction rows arbitrary: a)
  case (Cons r rows)
  have "ag_users (add_row r a) = ag_users a @ person_texts [r]
      \<and> sum_list (map snd (ag_denied (add_row r a))) = sum_list (map snd (ag_denied a)) + denials [r]"
    by (simp add: add_row_def person_texts_def denials_def add_calls_same count_up_sum Let_def split: option.split item_kind.split)
  then show ?case using Cons.IH [of "add_row r a"] by (simp add: person_texts_def denials_def)
qed (simp add: person_texts_def denials_def)

text \<open>The characters of the person's messages that are repeated.\<close>

definition repeated_size :: "string list \<Rightarrow> nat" where
  "repeated_size ts = sum_list (map (\<lambda>t. length (piece_of t)) ts)"

lemma repeated_size_simps [simp]:
  "repeated_size [] = 0" "repeated_size (t # ts) = length (piece_of t) + repeated_size ts"
  "repeated_size (rev ts) = repeated_size ts"
  by (simp_all add: repeated_size_def rev_map [symmetric])

lemma shown_pieces_spec:
  "\<exists>k \<le> length ts. shown_pieces used ts = map piece_of (take k ts)
     \<and> (used \<le> USER_TEXT_BUDGET_CHARS \<longrightarrow> used + repeated_size (take k ts) \<le> USER_TEXT_BUDGET_CHARS)
     \<and> (k < length ts \<longrightarrow> USER_TEXT_BUDGET_CHARS < used + repeated_size (take (k + 1) ts))"
proof (induction ts arbitrary: used)
  case (Cons t ts)
  show ?case
  proof (cases "USER_TEXT_BUDGET_CHARS < used + length (piece_of t)")
    case True
    then show ?thesis by (intro exI [of _ 0]) simp
  next
    case False
    obtain k where k: "k \<le> length ts" "shown_pieces (used + length (piece_of t)) ts = map piece_of (take k ts)"
      "used + length (piece_of t) + repeated_size (take k ts) \<le> USER_TEXT_BUDGET_CHARS"
      "k < length ts \<longrightarrow> USER_TEXT_BUDGET_CHARS < used + length (piece_of t) + repeated_size (take (k + 1) ts)"
      using Cons.IH [of "used + length (piece_of t)"] False by (metis not_less)
    then show ?thesis using False by (intro exI [of _ "Suc k"]) (simp add: add.assoc)
  qed
qed simp

text \<open>A summary repeats the newest messages of the person, in order, as many as fit the budget, says how
  many it leaves out, and counts every denied call.\<close>

theorem summary_repeats_the_person:
  assumes users: "users = person_texts (take c rows)" and some: "users \<noteq> []" and a: "a = fold add_row (take c rows) new_aggregate"
  shows "\<exists>k. k \<le> length users
      \<and> summary_text rows c = join [NL]
        (head_lines a @ count_lines a
         @ [''The person's messages in that part, oldest first:'']
         @ map (\<lambda>(n, p). digits_of n @ ''. '' @ p) (enumerate 1 (map piece_of (drop k users)))
         @ (if k \<noteq> 0 then [''('' @ digits_of k @ '' earlier message'' @ plural k @ '' from the person were too long to repeat here.)''] else []))
      \<and> repeated_size (drop k users) \<le> USER_TEXT_BUDGET_CHARS
      \<and> (k = 0 \<or> USER_TEXT_BUDGET_CHARS < repeated_size (drop (k - 1) users))
      \<and> sum_list (map snd (ag_denied a)) = denials (take c rows)"
proof -
  obtain m where m: "m \<le> length (rev users)" "shown_pieces 0 (rev users) = map piece_of (take m (rev users))"
    "repeated_size (take m (rev users)) \<le> USER_TEXT_BUDGET_CHARS"
    "m < length (rev users) \<longrightarrow> USER_TEXT_BUDGET_CHARS < repeated_size (take (m + 1) (rev users))"
    using shown_pieces_spec [of "rev users" 0] by auto
  define k where "k = length users - m"
  have au: "ag_users a = users" and denied: "sum_list (map snd (ag_denied a)) = denials (take c rows)"
    using fold_rows [of "take c rows" new_aggregate] by (simp_all add: a users new_aggregate_def)
  have sums: "repeated_size (take j (rev users)) = repeated_size (drop (length users - j) users)" for j
    by (simp add: take_rev)
  have pieces: "rev (shown_pieces 0 (rev users)) = map piece_of (drop k users)"
    using m(2) by (simp add: k_def take_rev rev_map)
  have "summary_text rows c = render a" by (simp add: summary_text_def a)
  also have "\<dots> = join [NL]
        (head_lines a @ count_lines a
         @ [''The person's messages in that part, oldest first:'']
         @ map (\<lambda>(n, p). digits_of n @ ''. '' @ p) (enumerate 1 (map piece_of (drop k users)))
         @ (if k \<noteq> 0 then [''('' @ digits_of k @ '' earlier message'' @ plural k @ '' from the person were too long to repeat here.)''] else []))"
    using some m(1) by (simp add: render_def au user_lines_def pieces Let_def k_def)
  finally have s: "summary_text rows c = \<dots>" .
  have over: "k = 0 \<or> USER_TEXT_BUDGET_CHARS < repeated_size (drop (k - 1) users)"
    using m(1,4) sums [of "m + 1"] by (auto simp: k_def)
  show ?thesis
    using m(1,3) sums [of m] s over denied by (intro exI [of _ k]) (simp add: k_def)
qed

section \<open>Concrete runs\<close>





lemma demo_key: "run_key demo_config (as_dict demo_state) rows = ''run:r1''"
  by (simp add: run_key_def demo_state_def as_dict_def field_def str_or_def MAX_RUN_KEY_CHARS_def)


theorem assembles_keep_the_runs_witness:
  "\<exists>ctxs runs. assembles demo_config [(demo_state, demo_items, [], ''ask''), (JNull, demo_items, [], ''ask''), (JNull, [], [], ''plan'')] [] = (ctxs, runs)
     \<and> length runs \<le> 2 \<and> distinct (map fst runs)"
proof -
  obtain ctxs runs where run: "assembles demo_config [(demo_state, demo_items, [], ''ask''), (JNull, demo_items, [], ''ask''), (JNull, [], [], ''plan'')] [] = (ctxs, runs)"
    by fastforce
  then show ?thesis using assembles_keep_the_runs [OF run] by (auto simp: demo_config_def)
qed

theorem thrash_stops_compaction_witness:
  "\<exists>ctx runs reqs. assemble demo_config demo_state (demo_items @ [demo_user (replicate 150 CHR ''x'')]) [] ''ask'' [(''run:r1'', demo_memory 2 1 False 6)] = (ctx, runs)
     \<and> as_notes ctx = [NOTE_THRASH] \<and> reqs = [(JObj [(''run_id'', JStr ''r2'')], demo_items, [], ''ask''), (demo_state, demo_items @ demo_items, [], ''ask'')]
     \<and> fst (assembles demo_config reqs runs) ! 1 = plain_request demo_config (demo_state, demo_items @ demo_items, [], ''ask'')"
proof -
  let ?later = "[demo_user (replicate 150 CHR ''x'')]"
  let ?reqs = "[(JObj [(''run_id'', JStr ''r2'')], demo_items, [], ''ask''), (demo_state, demo_items @ demo_items, [], ''ask'')] :: request list"
  obtain ctx runs where run: "assemble demo_config demo_state (demo_items @ ?later) [] ''ask'' [(''run:r1'', demo_memory 2 1 False 6)] = (ctx, runs)"
    by fastforce
  have n: "as_notes ctx = [NOTE_THRASH]"
    using demo_later_plan(2) assemble_decides(1) [of demo_config demo_state "demo_items @ ?later" "[]" "''ask''" "[(''run:r1'', demo_memory 2 1 False 6)]"]
    by (simp only: run demo_fixed fst_conv)
  have other: "run_key demo_config (as_dict (JObj [(''run_id'', JStr ''r2'')])) rows = ''run:r2''" for rows
    by (simp add: run_key_def as_dict_def field_def str_or_def MAX_RUN_KEY_CHARS_def)
  have key: "''run:r1'' = request_key demo_config (demo_state, demo_items @ ?later, [], ''ask'')" by (simp add: request_key_def demo_key)
  have "card (insert ''run:r1'' (request_key demo_config ` set ?reqs)) \<le> cf_max_runs demo_config"
  proof -
    have "cf_max_runs demo_config = 2" by (simp add: demo_config_def)
    then show ?thesis by (simp add: request_key_def demo_key other card_insert_if)
  qed
  moreover have "\<forall>req \<in> set ?reqs. request_key demo_config req = ''run:r1'' \<longrightarrow> length (demo_items @ ?later) \<le> request_length req"
    by (simp add: request_key_def request_length_def demo_key other demo_items_def)
  ultimately have later: "\<forall>k < length ?reqs. request_key demo_config (?reqs ! k) = ''run:r1'' \<longrightarrow>
      fst (assembles demo_config ?reqs runs) ! k = plain_request demo_config (?reqs ! k)"
    using thrash_stops_compaction [OF run n key, of ?reqs] by blast
  have "request_key demo_config (?reqs ! 1) = ''run:r1''" by (simp add: request_key_def demo_key)
  then have "fst (assembles demo_config ?reqs runs) ! 1 = plain_request demo_config (?reqs ! 1)" using later [rule_format, of 1] by simp
  then show ?thesis using run n by (intro exI [of _ ctx] exI [of _ runs] exI [of _ ?reqs]) simp
qed

theorem summary_repeats_the_person_witness:
  "\<exists>k. k \<le> 1 \<and> repeated_size (drop k [''fix the parser'']) \<le> USER_TEXT_BUDGET_CHARS
     \<and> sum_list (map snd (ag_denied (fold add_row (take 3 (base_rows demo_config demo_items)) new_aggregate))) = denials (take 3 (base_rows demo_config demo_items))"
proof -
  have "[''fix the parser''] = person_texts (take 3 (base_rows demo_config demo_items))" by code_simp
  from summary_repeats_the_person [OF this _ refl] show ?thesis by auto
qed

lemma late_answer_moves_the_eligible_outputs:
  "let items = [demo_user ''go'', JObj [(''role'', JStr ''assistant''), (''tool_calls'', JList
         [JObj [(''call_id'', JStr ''a''), (''tool'', JStr ''bash'')], JObj [(''call_id'', JStr ''b''), (''tool'', JStr ''bash'')]])],
       demo_result ''a'' (replicate 110 CHR ''x''), demo_call ''c'' ''grep'', demo_result ''c'' (replicate 110 CHR ''y''), demo_user ''next''];
     base = base_rows demo_config items; base' = base_rows demo_config (items @ [demo_result ''b'' ''late''])
   in eligible 1 base = [4] \<and> eligible 1 base' = [2, 4]
      \<and> r_item (kept_rows demo_config base (demo_memory 1 1 False 6) ! 4) \<noteq> r_item (kept_rows demo_config base' (demo_memory 1 1 False 6) ! 4)"
  by code_simp

end
