(* ===== verification/Codec.thy ===== *)
theory Codec
  imports Json "HOL-Library.Char_ord"
begin

text \<open>
  Bytes and their encodings: UTF-8 of the characters of the model, unpadded URL-safe base64 as
  \<open>backend/codeagent/buffer.py\<close> writes and reads it, and the frame in front of every record. A byte is a
  character; a text is a list of characters below 256, so UTF-8 gives one or two bytes for each.
\<close>

type_synonym bytes = "char list"

section \<open>UTF-8\<close>

definition utf8_char :: "char \<Rightarrow> bytes" where
  "utf8_char c = (let n = (of_char c :: nat) in
     if n < 128 then [c] else [char_of (192 + n div 64), char_of (128 + n mod 64)])"

definition utf8_encode :: "string \<Rightarrow> bytes" where
  "utf8_encode s = concat (map utf8_char s)"

text \<open>
  Strict decoding; \<open>None\<close> is \<open>UnicodeDecodeError\<close>, and also stands for a character above 255, which the
  model has no value for. The two-byte forms of the characters 128 to 255 begin with 194 or 195.
\<close>

fun utf8_decode :: "bytes \<Rightarrow> string option" where
  "utf8_decode [] = Some []"
| "utf8_decode (b # bs) =
    (let n = (of_char b :: nat) in
     if n < 128 then map_option (Cons b) (utf8_decode bs)
     else (case bs of
             [] \<Rightarrow> None
           | b' # bs' \<Rightarrow>
               (let m = (of_char b' :: nat) in
                if (n = 194 \<or> n = 195) \<and> 128 \<le> m \<and> m < 192
                then map_option (Cons (char_of ((n - 192) * 64 + (m - 128)))) (utf8_decode bs')
                else None)))"

lemma utf8_decode_char: "utf8_decode (utf8_char c @ s) = map_option (Cons c) (utf8_decode s)"
proof (cases "(of_char c :: nat) < 128")
  case True
  then show ?thesis by (simp add: utf8_char_def)
next
  case False
  define n where "n = (of_char c :: nat)"
  have n: "128 \<le> n" "n < 256" and c: "c = char_of n" using False by (simp_all add: n_def)
  have "n div 64 = 2 \<or> n div 64 = 3" using n by linarith
  then show ?thesis
    using n by (auto simp: utf8_char_def c mult.commute [of _ 64] Let_def)
qed

lemma utf8_round_trip: "utf8_decode (utf8_encode s) = Some s"
  by (induction s) (simp_all add: utf8_encode_def utf8_decode_char)

section \<open>Base64\<close>

definition b64_char :: "nat \<Rightarrow> char" where
  "b64_char n =
    (if n < 26 then char_of (65 + n) else if n < 52 then char_of (71 + n) else if n < 62 then char_of (n - 4)
     else if n = 62 then CHR ''-'' else CHR ''_'')"

definition b64_value :: "char \<Rightarrow> nat option" where
  "b64_value c = (let n = (of_char c :: nat) in
     if 65 \<le> n \<and> n \<le> 90 then Some (n - 65) else if 97 \<le> n \<and> n \<le> 122 then Some (n - 71)
     else if 48 \<le> n \<and> n \<le> 57 then Some (n + 4) else if n = 45 then Some 62 else if n = 95 then Some 63 else None)"

text \<open>\<open>_b64e\<close>: the padding is stripped.\<close>

fun b64e :: "bytes \<Rightarrow> string" where
  "b64e [] = []"
| "b64e [x] = (let a = of_char x in [b64_char (a div 4), b64_char (a mod 4 * 16)])"
| "b64e [x, y] = (let a = of_char x; b = of_char y in
     [b64_char (a div 4), b64_char (a mod 4 * 16 + b div 16), b64_char (b mod 16 * 4)])"
| "b64e (x # y # z # r) = (let a = of_char x; b = of_char y; c = of_char z in
     [b64_char (a div 4), b64_char (a mod 4 * 16 + b div 16), b64_char (b mod 16 * 4 + c div 64), b64_char (c mod 64)] @ b64e r)"

text \<open>\<open>urlsafe_b64decode\<close> of the padded text, for the values of its characters.\<close>

fun b64_bytes :: "nat list \<Rightarrow> bytes" where
  "b64_bytes [p, q] = [char_of (p * 4 + q div 16)]"
| "b64_bytes [p, q, r] = [char_of (p * 4 + q div 16), char_of (q mod 16 * 16 + r div 4)]"
| "b64_bytes (p # q # r # t # vs) =
     [char_of (p * 4 + q div 16), char_of (q mod 16 * 16 + r div 4), char_of (r mod 4 * 64 + t)] @ b64_bytes vs"
| "b64_bytes _ = []"

text \<open>\<open>_b64d\<close>: strict and canonical; \<open>None\<close> is \<open>BufferCorrupt\<close>.\<close>

definition b64d :: "string \<Rightarrow> bytes option" where
  "b64d t =
    (if length t mod 4 = 1 then None
     else (case those (map b64_value t) of
             None \<Rightarrow> None
           | Some vs \<Rightarrow> (let raw = b64_bytes vs in if b64e raw = t then Some raw else None)))"

lemma b64_value_char: "n < 64 \<Longrightarrow> b64_value (b64_char n) = Some n"
  by (auto simp: b64_value_def b64_char_def Let_def)

lemma digit_pair: "b < k \<Longrightarrow> (a * k + b) div k = a" "b < k \<Longrightarrow> (a * k + b) mod k = b" for a b k :: nat
  by simp_all

lemma byte_parts:
  "(of_char x :: nat) div 4 < 64" "(of_char x :: nat) div 16 < 16" "(of_char x :: nat) div 64 < 4"
  by (simp_all add: div_less_iff_less_mult)

lemma sextets:
  "(of_char x :: nat) div 4 < 64" "(of_char x :: nat) mod 4 * 16 < 64" "(of_char x :: nat) mod 4 * 16 + of_char y div 16 < 64"
  "(of_char x :: nat) mod 16 * 4 < 64" "(of_char x :: nat) mod 16 * 4 + of_char y div 64 < 64" "(of_char x :: nat) mod 64 < 64"
proof -
  have "(of_char x :: nat) mod 4 < 4" "(of_char x :: nat) mod 16 < 16" by simp_all
  then show "(of_char x :: nat) mod 4 * 16 < 64" "(of_char x :: nat) mod 4 * 16 + of_char y div 16 < 64"
    "(of_char x :: nat) mod 16 * 4 < 64" "(of_char x :: nat) mod 16 * 4 + of_char y div 64 < 64"
    using byte_parts [of y] by linarith+
qed (simp_all add: byte_parts)

text \<open>The bytes come back from their sextets.\<close>

lemma octets:
  "char_of ((of_char x :: nat) div 4 * 4 + of_char x mod 4 * 16 div 16) = x"
  "char_of ((of_char x :: nat) div 4 * 4 + (of_char x mod 4 * 16 + of_char y div 16) div 16) = x"
  "char_of (((of_char x :: nat) mod 4 * 16 + of_char y div 16) mod 16 * 16 + of_char y mod 16 * 4 div 4) = y"
  "char_of (((of_char x :: nat) mod 4 * 16 + of_char y div 16) mod 16 * 16 + (of_char y mod 16 * 4 + of_char z div 64) div 4) = y"
  "char_of (((of_char y :: nat) mod 16 * 4 + of_char z div 64) mod 4 * 64 + of_char z mod 64) = z"
proof -
  have m: "a * k div k = a" if "0 < k" for a k :: nat using that by simp
  show "char_of ((of_char x :: nat) div 4 * 4 + of_char x mod 4 * 16 div 16) = x"
    by (simp only: m zero_less_numeral div_mult_mod_eq char_of_char)
  show "char_of ((of_char x :: nat) div 4 * 4 + (of_char x mod 4 * 16 + of_char y div 16) div 16) = x"
    by (simp only: digit_pair byte_parts div_mult_mod_eq char_of_char)
  show "char_of (((of_char x :: nat) mod 4 * 16 + of_char y div 16) mod 16 * 16 + of_char y mod 16 * 4 div 4) = y"
    by (simp only: digit_pair byte_parts m zero_less_numeral div_mult_mod_eq char_of_char)
  show "char_of (((of_char x :: nat) mod 4 * 16 + of_char y div 16) mod 16 * 16 + (of_char y mod 16 * 4 + of_char z div 64) div 4) = y"
    by (simp only: digit_pair byte_parts div_mult_mod_eq char_of_char)
  show "char_of (((of_char y :: nat) mod 16 * 4 + of_char z div 64) mod 4 * 64 + of_char z mod 64) = z"
    by (simp only: digit_pair byte_parts div_mult_mod_eq char_of_char)
qed

definition b64_values :: "bytes \<Rightarrow> nat list" where
  "b64_values bs = map (\<lambda>c. the (b64_value c)) (b64e bs)"

lemma b64e_values: "those (map b64_value (b64e bs)) = Some (b64_values bs)"
  by (induction bs rule: b64e.induct)
    (simp_all only: b64_values_def Let_def b64_value_char sextets b64e.simps list.map append.simps option.sel those.simps
      option.case option.map)

lemma b64_bytes_values: "b64_bytes (b64_values bs) = bs"
  by (induction bs rule: b64e.induct)
    (simp_all only: b64_values_def Let_def b64_value_char sextets octets b64e.simps list.map append.simps option.sel b64_bytes.simps)

lemma b64e_length: "length (b64e bs) = (length bs * 4 + 2) div 3"
  by (induction bs rule: b64e.induct) (simp_all add: Let_def)

lemma b64_round_trip: "b64d (b64e bs) = Some bs"
proof -
  have "length (b64e bs) mod 4 \<noteq> 1" unfolding b64e_length by presburger
  then show ?thesis by (simp add: b64d_def b64e_values b64_bytes_values)
qed

lemma b64_canonical: "b64d t = Some bs \<Longrightarrow> t = b64e bs"
  by (auto simp: b64d_def Let_def split: if_splits option.splits)

section \<open>Frames\<close>

text \<open>\<open>struct.Struct(">c16sII")\<close>: the kind, the item id, the record index and the record count, big-endian.\<close>

definition be32 :: "nat \<Rightarrow> bytes" where
  "be32 n = map char_of [n div 256 div 256 div 256, n div 256 div 256 mod 256, n div 256 mod 256, n mod 256]"

definition be32_value :: "bytes \<Rightarrow> nat" where
  "be32_value bs = foldl (\<lambda>n c. n * 256 + of_char c) 0 bs"

definition FRAME_SIZE :: nat where "FRAME_SIZE = 25"

definition pack_frame :: "char \<Rightarrow> bytes \<Rightarrow> nat \<Rightarrow> nat \<Rightarrow> bytes" where
  "pack_frame kind item_id index count = kind # item_id @ be32 index @ be32 count"

definition unpack_frame :: "bytes \<Rightarrow> char \<times> bytes \<times> nat \<times> nat" where
  "unpack_frame bs = (hd bs, take 16 (drop 1 bs), be32_value (take 4 (drop 17 bs)), be32_value (take 4 (drop 21 bs)))"

lemma be32_round_trip: "n < 4294967296 \<Longrightarrow> be32_value (be32 n) = n"
proof -
  assume "n < 4294967296"
  then have top: "n div 256 div 256 div 256 < 256" by (simp add: div_mult2_eq [symmetric])
  have c: "(of_char (char_of m :: char) :: nat) = m" if "m < 256" for m using that by simp
  have "be32_value (be32 n) = ((n div 256 div 256 div 256 * 256 + n div 256 div 256 mod 256) * 256 + n div 256 mod 256) * 256 + n mod 256"
    unfolding be32_value_def be32_def using c [OF top] by (simp only: list.map foldl.simps c mod_less_divisor zero_less_numeral mult_0 add_0)
  also have "\<dots> = n" by (simp only: div_mult_mod_eq)
  finally show ?thesis .
qed

lemma be32_length [simp]: "length (be32 n) = 4"
  by (simp add: be32_def)

lemma frame_round_trip:
  "length item_id = 16 \<Longrightarrow> index < 4294967296 \<Longrightarrow> count < 4294967296
    \<Longrightarrow> unpack_frame (pack_frame kind item_id index count @ rest) = (kind, item_id, index, count)"
  by (simp add: unpack_frame_def pack_frame_def be32_round_trip)

lemma frame_length: "length item_id = 16 \<Longrightarrow> length (pack_frame kind item_id index count) = FRAME_SIZE"
  by (simp add: pack_frame_def FRAME_SIZE_def)

end
