(* ===== verification/JsonText.thy ===== *)
theory JsonText
  imports Json "HOL-Library.Char_ord"
begin

text \<open>
  JSON text as Python's \<open>json\<close> writes it (compact separators, no ASCII escapes, no NaN) and reads it.
  A floating-point number is its text. An escape for a character above 255 has no value in the model.
\<close>

section \<open>Writing\<close>

definition hex_digit_char :: "nat \<Rightarrow> char" where
  "hex_digit_char n = (if n < 10 then char_of (48 + n) else char_of (87 + n))"

definition escaped :: "char \<Rightarrow> string" where
  "escaped c = (let n = (of_char c :: nat) in
     if n = 34 \<or> n = 92 then [CHR 0x5C, c]
     else if n = 8 then [CHR 0x5C, CHR ''b''] else if n = 9 then [CHR 0x5C, CHR ''t'']
     else if n = 10 then [CHR 0x5C, CHR ''n''] else if n = 12 then [CHR 0x5C, CHR ''f'']
     else if n = 13 then [CHR 0x5C, CHR ''r'']
     else if n < 32 then [CHR 0x5C, CHR ''u'', CHR ''0'', CHR ''0'', hex_digit_char (n div 16), hex_digit_char (n mod 16)]
     else [c])"

definition quoted :: "string \<Rightarrow> string" where
  "quoted s = [CHR 0x22] @ concat (map escaped s) @ [CHR 0x22]"

fun print_json :: "json \<Rightarrow> string" where
  "print_json JNull = ''null''"
| "print_json (JBool b) = (if b then ''true'' else ''false'')"
| "print_json (JInt i) = int_text i"
| "print_json (JFloat r) = r"
| "print_json (JStr s) = quoted s"
| "print_json (JList vs) = ''['' @ join '','' (map print_json vs) @ '']''"
| "print_json (JObj kvs) = ''{'' @ join '','' (map (\<lambda>(k, v). quoted k @ '':'' @ print_json v) kvs) @ ''}''"

text \<open>\<open>ValueError\<close> for a float that is not finite (\<open>allow_nan=False\<close>), or an integer of over 4300 digits.\<close>

fun finite_json :: "json \<Rightarrow> bool" where
  "finite_json (JFloat r) = (r \<notin> {''nan'', ''inf'', ''-inf''})"
| "finite_json (JList vs) = (\<forall>v \<in> set vs. finite_json v)"
| "finite_json (JObj kvs) = (\<forall>p \<in> set kvs. finite_json (snd p))"
| "finite_json (JInt i) = (length (digits_of (nat \<bar>i\<bar>)) \<le> 4300)"
| "finite_json _ = True"

definition dumps :: "json \<Rightarrow> string option" where
  "dumps v = (if finite_json v then Some (print_json v) else None)"

section \<open>Reading\<close>

definition skip_ws :: "string \<Rightarrow> string" where
  "skip_ws s = dropWhile (\<lambda>c. c \<in> {CHR '' '', CHR 0x09, CHR 0x0A, CHR 0x0D}) s"

definition hex_digit_value :: "char \<Rightarrow> nat option" where
  "hex_digit_value c = (let n = (of_char c :: nat) in
     if 48 \<le> n \<and> n \<le> 57 then Some (n - 48) else if 97 \<le> n \<and> n \<le> 102 then Some (n - 87)
     else if 65 \<le> n \<and> n \<le> 70 then Some (n - 55) else None)"

text \<open>The four digits of an escape; \<open>None\<close> also for a character that the model does not have.\<close>

definition escape_value :: "char \<Rightarrow> char \<Rightarrow> char \<Rightarrow> char \<Rightarrow> char option" where
  "escape_value a b c d =
    (case (hex_digit_value a, hex_digit_value b, hex_digit_value c, hex_digit_value d) of
       (Some p, Some q, Some r, Some t) \<Rightarrow>
         (let n = ((p * 16 + q) * 16 + r) * 16 + t in if n < 256 then Some (char_of n) else None)
     | _ \<Rightarrow> None)"

definition short_escape :: "char \<Rightarrow> char option" where
  "short_escape c =
    (if c = CHR 0x22 \<or> c = CHR 0x5C \<or> c = CHR ''/'' then Some c
     else if c = CHR ''b'' then Some (CHR 0x08) else if c = CHR ''f'' then Some (CHR 0x0C)
     else if c = CHR ''n'' then Some (CHR 0x0A) else if c = CHR ''r'' then Some (CHR 0x0D)
     else if c = CHR ''t'' then Some (CHR 0x09) else None)"

text \<open>
  One character of a string (\<open>Some None\<close> at its closing quote) and what follows; then all of them up to
  the closing quote.
\<close>

definition next_char :: "string \<Rightarrow> (char option \<times> string) option" where
  "next_char s =
    (case s of
       [] \<Rightarrow> None
     | c # r \<Rightarrow>
         if c = CHR 0x22 then Some (None, r)
         else if c = CHR 0x5C then
           (case r of
              [] \<Rightarrow> None
            | e # r' \<Rightarrow>
                if e = CHR ''u'' then
                  (case r' of
                     p # q # x # y # r'' \<Rightarrow> map_option (\<lambda>c. (Some c, r'')) (escape_value p q x y)
                   | _ \<Rightarrow> None)
                else map_option (\<lambda>c. (Some c, r')) (short_escape e))
         else if (of_char c :: nat) < 32 then None
         else Some (Some c, r))"

lemma next_char_length: "next_char s = Some (x, r) \<Longrightarrow> length r < length s"
  by (auto simp: next_char_def split: list.splits if_splits)

function parse_chars :: "string \<Rightarrow> (string \<times> string) option" where
  "parse_chars s =
    (case next_char s of
       None \<Rightarrow> None
     | Some (None, r) \<Rightarrow> Some ([], r)
     | Some (Some c, r) \<Rightarrow> map_option (\<lambda>(cs, rest). (c # cs, rest)) (parse_chars r))"
  by pat_completeness auto
termination
  by (relation "measure length") (auto dest: next_char_length)

declare parse_chars.simps [simp del]

definition digits :: "string \<Rightarrow> string \<times> string" where
  "digits s = (takeWhile ascii_digit s, dropWhile ascii_digit s)"

definition decimal :: "string \<Rightarrow> nat" where
  "decimal s = foldl (\<lambda>n c. n * 10 + ((of_char c :: nat) - 48)) 0 s"

text \<open>The integer part: one zero, or digits that do not begin with one.\<close>

definition int_part :: "string \<Rightarrow> (string \<times> string) option" where
  "int_part s =
    (case s of
       [] \<Rightarrow> None
     | c # s' \<Rightarrow> if c = CHR ''0'' then Some ([c], s') else if ascii_digit c then Some (digits s) else None)"

definition frac_part :: "string \<Rightarrow> string \<times> string" where
  "frac_part s =
    (case s of
       c # r \<Rightarrow> if c = CHR ''.'' \<and> fst (digits r) \<noteq> [] then (c # fst (digits r), snd (digits r)) else ([], s)
     | [] \<Rightarrow> ([], s))"

definition sign_of :: "string \<Rightarrow> string" where
  "sign_of s = (case s of d # _ \<Rightarrow> if d = CHR ''-'' \<or> d = CHR ''+'' then [d] else [] | [] \<Rightarrow> [])"

definition exp_part :: "string \<Rightarrow> string \<times> string" where
  "exp_part s =
    (case s of
       c # r \<Rightarrow>
         (let r' = drop (length (sign_of r)) r in
          if (c = CHR ''e'' \<or> c = CHR ''E'') \<and> fst (digits r') \<noteq> []
          then (c # sign_of r @ fst (digits r'), snd (digits r')) else ([], s))
     | [] \<Rightarrow> ([], s))"

definition parse_number :: "string \<Rightarrow> (json \<times> string) option" where
  "parse_number s =
    (let neg = (case s of c # _ \<Rightarrow> c = CHR ''-'' | [] \<Rightarrow> False) in
     case int_part (if neg then tl s else s) of
       None \<Rightarrow> None
     | Some (ip, s1) \<Rightarrow>
         (case frac_part s1 of
            (fp, s2) \<Rightarrow>
              (case exp_part s2 of
                 (ep, s3) \<Rightarrow>
                   (if fp = [] \<and> ep = [] \<and> 4300 < length ip then None
                    else if fp = [] \<and> ep = [] then Some (JInt (if neg then - int (decimal ip) else int (decimal ip)), s3)
                    else Some (JFloat ((if neg then ''-'' else []) @ ip @ fp @ ep), s3)))))"

text \<open>A fixed word at the front.\<close>

definition after_word :: "string \<Rightarrow> json \<Rightarrow> string \<Rightarrow> (json \<times> string) option" where
  "after_word w v s = (if prefix w s then Some (v, drop (length w) s) else None)"

definition parse_atom :: "string \<Rightarrow> (json \<times> string) option" where
  "parse_atom s =
    (if prefix ''n'' s then after_word ''null'' JNull s
     else if prefix ''t'' s then after_word ''true'' (JBool True) s
     else if prefix ''f'' s then after_word ''false'' (JBool False) s
     else if prefix ''N'' s then after_word ''NaN'' (JFloat ''nan'') s
     else if prefix ''I'' s then after_word ''Infinity'' (JFloat ''inf'') s
     else if prefix ''-I'' s then after_word ''-Infinity'' (JFloat ''-inf'') s
     else parse_number s)"

fun parse_value :: "nat \<Rightarrow> string \<Rightarrow> (json \<times> string) option"
and parse_elements :: "nat \<Rightarrow> string \<Rightarrow> (json list \<times> string) option"
and parse_members :: "nat \<Rightarrow> string \<Rightarrow> ((string \<times> json) list \<times> string) option" where
  "parse_value 0 s = None"
| "parse_value (Suc n) s =
    (case s of
       [] \<Rightarrow> None
     | c # r \<Rightarrow>
         if c = CHR 0x22 then map_option (\<lambda>(cs, rest). (JStr cs, rest)) (parse_chars r)
         else if c = CHR ''{'' then
           (case skip_ws r of
              [] \<Rightarrow> None
            | d # r' \<Rightarrow> if d = CHR ''}'' then Some (JObj [], r')
                        else map_option (\<lambda>(kvs, rest). (JObj (fold (\<lambda>(k, v). dict_set k v) kvs []), rest)) (parse_members n (d # r')))
         else if c = CHR ''['' then
           (case skip_ws r of
              [] \<Rightarrow> None
            | d # r' \<Rightarrow> if d = CHR '']'' then Some (JList [], r')
                        else map_option (\<lambda>(vs, rest). (JList vs, rest)) (parse_elements n (d # r')))
         else parse_atom s)"
| "parse_elements 0 s = None"
| "parse_elements (Suc n) s =
    (case parse_value n s of
       None \<Rightarrow> None
     | Some (v, s1) \<Rightarrow>
         (case skip_ws s1 of
            [] \<Rightarrow> None
          | c # r \<Rightarrow>
              if c = CHR '']'' then Some ([v], r)
              else if c = CHR '','' then map_option (\<lambda>(vs, rest). (v # vs, rest)) (parse_elements n (skip_ws r))
              else None))"
| "parse_members 0 s = None"
| "parse_members (Suc n) s =
    (case s of
       [] \<Rightarrow> None
     | q # s0 \<Rightarrow>
         if q \<noteq> CHR 0x22 then None
         else (case parse_chars s0 of
                 None \<Rightarrow> None
               | Some (k, s1) \<Rightarrow>
                   (case skip_ws s1 of
                      [] \<Rightarrow> None
                    | d # r1 \<Rightarrow>
                        if d \<noteq> CHR '':'' then None
                        else (case parse_value n (skip_ws r1) of
                                None \<Rightarrow> None
                              | Some (v, s2) \<Rightarrow>
                                  (case skip_ws s2 of
                                     [] \<Rightarrow> None
                                   | c # r \<Rightarrow>
                                       if c = CHR ''}'' then Some ([(k, v)], r)
                                       else if c = CHR '','' then map_option (\<lambda>(kvs, rest). ((k, v) # kvs, rest)) (parse_members n (skip_ws r))
                                       else None)))))"

text \<open>\<open>json.loads\<close>: \<open>None\<close> is \<open>JSONDecodeError\<close>. Two levels of the parser consume a character.\<close>

definition loads :: "string \<Rightarrow> json option" where
  "loads s =
    (case parse_value (2 * length s + 2) (skip_ws s) of
       None \<Rightarrow> None
     | Some (v, rest) \<Rightarrow> if skip_ws rest = [] then Some v else None)"


section \<open>The parser consumes what it reads\<close>

lemma skip_ws_length: "length (skip_ws s) \<le> length s"
  by (simp add: skip_ws_def length_dropWhile_le)

lemma parse_chars_length: "parse_chars s = Some (cs, r) \<Longrightarrow> length r < length s"
proof (induction s arbitrary: cs r rule: parse_chars.induct)
  case (1 s)
  show ?case
  proof (cases "next_char s")
    case None
    then show ?thesis using "1.prems" by (simp add: parse_chars.simps)
  next
    case (Some p)
    obtain x r' where p: "p = (x, r')" by (cases p)
    have less: "length r' < length s" using Some p by (simp add: next_char_length)
    show ?thesis
    proof (cases x)
      case None
      then show ?thesis using "1.prems" Some p less by (simp add: parse_chars.simps)
    next
      case (Some c)
      then obtain cs' where "parse_chars r' = Some (cs', r)"
        using "1.prems" \<open>next_char s = Some p\<close> p by (auto simp: parse_chars.simps [of s])
      then have "length r < length r'" using "1.IH" \<open>next_char s = Some p\<close> p Some by blast
      then show ?thesis using less by simp
    qed
  qed
qed

lemma digits_length: "length (snd (digits s)) \<le> length s"
  by (simp add: digits_def length_dropWhile_le)

lemma int_part_length: "int_part s = Some (ip, r) \<Longrightarrow> length r < length s"
  using digits_length [of "tl s"] by (auto simp: int_part_def digits_def split: list.splits if_splits intro: le_less_trans [OF length_dropWhile_le])

lemma frac_part_length: "length (snd (frac_part s)) \<le> length s"
proof (cases s)
  case (Cons c r)
  then show ?thesis using digits_length [of r] by (simp add: frac_part_def)
qed (simp add: frac_part_def)

lemma exp_part_length: "length (snd (exp_part s)) \<le> length s"
proof (cases s)
  case (Cons c r)
  then show ?thesis using digits_length [of "drop (length (sign_of r)) r"] by (auto simp: exp_part_def Let_def)
qed (simp add: exp_part_def)

lemma parse_number_length: "parse_number s = Some (v, r) \<Longrightarrow> length r < length s"
proof -
  assume p: "parse_number s = Some (v, r)"
  define s0 where "s0 = (if case s of c # _ \<Rightarrow> c = CHR ''-'' | [] \<Rightarrow> False then tl s else s)"
  obtain ip s1 where ip: "int_part s0 = Some (ip, s1)"
    using p by (auto simp: parse_number_def Let_def s0_def split: option.splits)
  have "r = snd (exp_part (snd (frac_part s1)))"
    using p ip by (auto simp: parse_number_def Let_def s0_def split: prod.splits if_splits)
  then have "length r \<le> length s1" using exp_part_length frac_part_length le_trans by metis
  moreover have "length s1 < length s0" using ip by (rule int_part_length)
  moreover have "length s0 \<le> length s" by (simp add: s0_def)
  ultimately show ?thesis by linarith
qed

lemma after_word_length: "w \<noteq> [] \<Longrightarrow> after_word w v s = Some (x, r) \<Longrightarrow> length r < length s"
  by (auto simp: after_word_def prefix_def split: if_splits)

lemma parse_atom_length: "parse_atom s = Some (v, r) \<Longrightarrow> length r < length s"
  by (auto simp: parse_atom_def dest: after_word_length [rotated] parse_number_length split: if_splits)

text \<open>Each function answers with a shorter rest.\<close>

lemma skip_ws_le: "skip_ws s = c # r \<Longrightarrow> length r < length s"
  using skip_ws_length [of s] by simp

lemma parse_length:
  "parse_value n s = Some (v, r) \<Longrightarrow> length r < length s"
  "parse_elements n s = Some (vs, r) \<Longrightarrow> length r < length s"
  "parse_members n s = Some (kvs, r) \<Longrightarrow> length r < length s"
proof (induction n s and n s and n s arbitrary: v r and vs r and kvs r rule: parse_value_parse_elements_parse_members.induct)
  case (2 n s)
  obtain c t where s: "s = c # t" using "2.prems" by (cases s) auto
  consider (string) "c = CHR 0x22" | (object) "c = CHR ''{''" | (array) "c = CHR ''[''"
    | (other) "c \<noteq> CHR 0x22" "c \<noteq> CHR ''{''" "c \<noteq> CHR ''[''" by blast
  then show ?case
  proof cases
    case string
    then show ?thesis using "2.prems" parse_chars_length [of t] by (auto simp: s)
  next
    case object
    obtain d t' where d: "skip_ws t = d # t'" using "2.prems" object by (cases "skip_ws t") (auto simp: s)
    show ?thesis
    proof (cases "d = CHR ''}''")
      case True
      then show ?thesis using "2.prems" object d skip_ws_le [OF d] by (simp add: s)
    next
      case False
      then obtain kvs where "parse_members n (d # t') = Some (kvs, r)" using "2.prems" object d by (auto simp: s)
      then have "length r < length (d # t')" using "2.IH" s object d False by simp
      then show ?thesis using skip_ws_le [OF d] by (simp add: s)
    qed
  next
    case array
    obtain d t' where d: "skip_ws t = d # t'" using "2.prems" array by (cases "skip_ws t") (auto simp: s)
    show ?thesis
    proof (cases "d = CHR '']''")
      case True
      then show ?thesis using "2.prems" array d skip_ws_le [OF d] by (simp add: s)
    next
      case False
      then obtain vs where "parse_elements n (d # t') = Some (vs, r)" using "2.prems" array d by (auto simp: s)
      then have "length r < length (d # t')" using "2.IH" s array d False by simp
      then show ?thesis using skip_ws_le [OF d] by (simp add: s)
    qed
  next
    case other
    then show ?thesis
      using "2.prems" parse_atom_length [of s v r] by (simp add: s)
  qed
next
  case (4 n s)
  obtain v s1 where v: "parse_value n s = Some (v, s1)" using "4.prems" by (auto split: option.splits)
  then have s1: "length s1 < length s" by (rule "4.IH"(1))
  obtain c t where c: "skip_ws s1 = c # t" using "4.prems" v by (cases "skip_ws s1") auto
  show ?case
  proof (cases "c = CHR '']''")
    case True
    then show ?thesis using "4.prems" v c skip_ws_le [OF c] s1 by simp
  next
    case False
    then obtain vs' where "parse_elements n (skip_ws t) = Some (vs', r)" and comma: "c = CHR '',''"
      using "4.prems" v c by (auto split: if_splits)
    then have "length r < length (skip_ws t)" using "4.IH"(2) v c False by blast
    then show ?thesis using skip_ws_length [of t] skip_ws_le [OF c] s1 by simp
  qed
next
  case (6 n s)
  obtain s0 where s: "s = CHR 0x22 # s0" using "6.prems" by (auto split: list.splits if_splits)
  obtain k s1 where k: "parse_chars s0 = Some (k, s1)" using "6.prems" s by (auto split: option.splits)
  have s1: "length s1 < length s" using parse_chars_length [OF k] by (simp add: s)
  obtain r1 where r1: "skip_ws s1 = CHR '':'' # r1"
    using "6.prems" s k by (cases "skip_ws s1") (auto split: if_splits)
  obtain v s2 where v: "parse_value n (skip_ws r1) = Some (v, s2)" using "6.prems" s k r1 by (auto split: option.splits)
  have s2: "length s2 < length s"
    using "6.IH"(1) s k r1 v skip_ws_length [of r1] skip_ws_le [OF r1] s1 by fastforce
  obtain c t where c: "skip_ws s2 = c # t" using "6.prems" s k r1 v by (cases "skip_ws s2") auto
  show ?case
  proof (cases "c = CHR ''}''")
    case True
    then show ?thesis using "6.prems" s k r1 v c skip_ws_le [OF c] s2 by simp
  next
    case False
    then obtain kvs' where m: "parse_members n (skip_ws t) = Some (kvs', r)" and comma: "c = CHR '',''"
      using "6.prems" s k r1 v c by (auto split: if_splits)
    have "length r < length (skip_ws t)" using "6.IH"(2) s k r1 v c False comma m by simp
    then show ?thesis using skip_ws_length [of t] skip_ws_le [OF c] s2 by simp
  qed
qed simp_all


text \<open>More fuel than twice the length makes no difference.\<close>

lemma parse_fuel:
  "2 * length s < n \<Longrightarrow> 2 * length s < m \<Longrightarrow> parse_value n s = parse_value m s"
  "2 * length s + 1 < n \<Longrightarrow> 2 * length s + 1 < m \<Longrightarrow> parse_elements n s = parse_elements m s"
  "2 * length s + 1 < n \<Longrightarrow> 2 * length s + 1 < m \<Longrightarrow> parse_members n s = parse_members m s"
proof (induction n s and n s and n s arbitrary: m and m and m rule: parse_value_parse_elements_parse_members.induct)
  case (2 n s)
  obtain m' where m: "m = Suc m'" using "2.prems" by (cases m) auto
  show ?case
  proof (cases s)
    case s: (Cons c t)
    show ?thesis
    proof (cases "skip_ws t")
      case Nil
      then show ?thesis by (simp add: m s)
    next
      case d: (Cons d t')
      have l: "length (d # t') \<le> length t" using skip_ws_length [of t] d by simp
      then have f: "2 * length (d # t') + 1 < n" "2 * length (d # t') + 1 < m'" using "2.prems" by (simp_all add: m s)
      consider (object) "c = CHR ''{''" "d \<noteq> CHR ''}''" | (array) "c = CHR ''[''" "d \<noteq> CHR '']''"
        | (other) "\<not> (c = CHR ''{'' \<and> d \<noteq> CHR ''}'')" "\<not> (c = CHR ''['' \<and> d \<noteq> CHR '']'')" by blast
      then show ?thesis
      proof cases
        case object
        have "parse_members n (d # t') = parse_members m' (d # t')"
          by (rule "2.IH"(1) [OF s _ object(1) d object(2) f]) (simp add: object)
        then show ?thesis using object by (simp add: m s d)
      next
        case array
        have "parse_elements n (d # t') = parse_elements m' (d # t')"
          by (rule "2.IH"(2) [OF s _ _ array(1) d array(2) f]) (simp_all add: array)
        then show ?thesis using array by (simp add: m s d)
      next
        case other
        then show ?thesis by (auto simp: m s d)
      qed
    qed
  qed (simp add: m)
next
  case (4 n s)
  obtain m' where m: "m = Suc m'" using "4.prems" by (cases m) auto
  have v: "parse_value n s = parse_value m' s" by (rule "4.IH"(1)) (use "4.prems" in \<open>simp_all add: m\<close>)
  show ?case
  proof (cases "parse_value n s")
    case None
    then show ?thesis using v by (simp add: m)
  next
    case (Some p)
    obtain x s1 where p: "p = (x, s1)" by (cases p)
    have s1: "length s1 < length s" using parse_length(1) Some p by blast
    have both: "parse_value n s = Some (x, s1)" "parse_value m' s = Some (x, s1)" using v Some p by simp_all
    show ?thesis
    proof (cases "skip_ws s1")
      case Nil
      then show ?thesis using both by (simp add: m)
    next
      case c: (Cons c t)
      have l: "length (skip_ws t) \<le> length t" "length t < length s1" using skip_ws_length skip_ws_le [OF c] by auto
      have "parse_elements n (skip_ws t) = parse_elements m' (skip_ws t)" if "c \<noteq> CHR '']''" "c = CHR '',''"
        by (rule "4.IH"(2) [OF Some p [symmetric] c that]) (use "4.prems" l s1 in \<open>simp_all add: m\<close>)
      then show ?thesis using both c by (simp add: m)
    qed
  qed
next
  case (6 n s)
  obtain m' where m: "m = Suc m'" using "6.prems" by (cases m) auto
  show ?case
  proof (cases s)
    case s: (Cons q s0)
    show ?thesis
    proof (cases "q = CHR 0x22 \<and> parse_chars s0 \<noteq> None")
      case True
      then obtain k s1 where q: "q = CHR 0x22" and k: "parse_chars s0 = Some (k, s1)" by auto
      have s1: "length s1 < length s0" by (rule parse_chars_length [OF k])
      show ?thesis
      proof (cases "skip_ws s1")
        case Nil
        then show ?thesis using q k by (simp add: m s)
      next
        case d: (Cons d r1)
        show ?thesis
        proof (cases "d = CHR '':''")
          case colon: True
          have r1: "length (skip_ws r1) < length s1" using skip_ws_length [of r1] skip_ws_le [OF d] by simp
          have v: "parse_value n (skip_ws r1) = parse_value m' (skip_ws r1)"
            by (rule "6.IH"(1) [OF s _ k refl d]) (use "6.prems" q colon r1 s1 in \<open>simp_all add: m s\<close>)
          show ?thesis
          proof (cases "parse_value n (skip_ws r1)")
            case None
            then show ?thesis using v q k d colon by (simp add: m s)
          next
            case (Some p)
            obtain x s2 where p: "p = (x, s2)" by (cases p)
            have s2: "length s2 < length (skip_ws r1)" using parse_length(1) Some p by blast
            have both: "parse_value n (skip_ws r1) = Some (x, s2)" "parse_value m' (skip_ws r1) = Some (x, s2)"
              using v Some p by simp_all
            show ?thesis
            proof (cases "skip_ws s2")
              case Nil
              then show ?thesis using both q k d colon by (simp add: m s)
            next
              case c: (Cons c t)
              have l: "length (skip_ws t) \<le> length t" "length t < length s2" using skip_ws_length skip_ws_le [OF c] by auto
              have "parse_members n (skip_ws t) = parse_members m' (skip_ws t)" if "c \<noteq> CHR ''}''" "c = CHR '',''"
                by (rule "6.IH"(2) [OF s _ k refl d _ Some p [symmetric] c that]) (use "6.prems" q colon l s1 r1 s2 in \<open>simp_all add: m s\<close>)
              then show ?thesis using both q k d colon c by (simp add: m s)
            qed
          qed
        qed (use q k d in \<open>simp add: m s\<close>)
      qed
    next
      case False
      then have "q \<noteq> CHR 0x22 \<or> parse_chars s0 = None" by blast
      then show ?thesis by (elim disjE) (simp_all add: m s)
    qed
  qed (simp add: m)
qed simp_all

section \<open>What is written is read back\<close>

lemma hex_digit_round: "n < 16 \<Longrightarrow> hex_digit_value (hex_digit_char n) = Some n"
  by (auto simp: hex_digit_value_def hex_digit_char_def Let_def)

lemma next_char_escaped: "next_char (escaped c @ t) = Some (Some c, t)"
proof -
  define n where "n = (of_char c :: nat)"
  have n: "n < 256" and c: "c = char_of n" by (simp_all add: n_def)
  have q: "c = d" if "n = of_char d" for d using that by (simp add: n_def)
  consider (same) "n = 34 \<or> n = 92" | (short) "n \<in> {8, 9, 10, 12, 13}" | (control) "n < 32" "n \<notin> {8, 9, 10, 12, 13}"
    | (plain) "32 \<le> n" "n \<noteq> 34" "n \<noteq> 92" by fastforce
  then show ?thesis
  proof cases
    case same
    then have "c = CHR 0x22 \<or> c = CHR 0x5C" using q [of "CHR 0x22"] q [of "CHR 0x5C"] by auto
    then show ?thesis by (elim disjE) (simp_all add: escaped_def next_char_def short_escape_def)
  next
    case short
    then have "c = CHR 0x08 \<or> c = CHR 0x09 \<or> c = CHR 0x0A \<or> c = CHR 0x0C \<or> c = CHR 0x0D"
      using q [of "CHR 0x08"] q [of "CHR 0x09"] q [of "CHR 0x0A"] q [of "CHR 0x0C"] q [of "CHR 0x0D"] by auto
    then show ?thesis by (elim disjE) (simp_all add: escaped_def next_char_def short_escape_def)
  next
    case control
    have e: "escaped c = [CHR 0x5C, CHR ''u'', CHR ''0'', CHR ''0'', hex_digit_char (n div 16), hex_digit_char (n mod 16)]"
      using control by (auto simp: escaped_def n_def [symmetric] Let_def)
    have "escape_value (CHR ''0'') (CHR ''0'') (hex_digit_char (n div 16)) (hex_digit_char (n mod 16)) = Some c"
    proof -
      have "hex_digit_value (CHR ''0'') = Some 0" by (simp add: hex_digit_value_def Let_def)
      moreover have "n div 16 < 16" using control by simp
      ultimately show ?thesis using control by (simp add: escape_value_def hex_digit_round c Let_def)
    qed
    then show ?thesis by (simp add: e next_char_def)
  next
    case plain
    then have "escaped c = [c]" by (simp add: escaped_def n_def [symmetric] Let_def)
    moreover have "c \<noteq> CHR 0x22" "c \<noteq> CHR 0x5C" using plain by (auto simp: n_def)
    ultimately show ?thesis using plain by (simp add: next_char_def n_def)
  qed
qed

lemma parse_chars_escaped: "parse_chars (concat (map escaped s) @ CHR 0x22 # rest) = Some (s, rest)"
proof (induction s)
  case Nil
  then show ?case by (simp add: parse_chars.simps next_char_def)
next
  case (Cons c s)
  then show ?case by (subst parse_chars.simps) (simp add: next_char_escaped)
qed

lemma digits_of_Suc: "10 \<le> n \<Longrightarrow> digits_of n = digits_of (n div 10) @ [char_of (48 + n mod 10)]"
  by (subst digits_of.simps) simp

lemma digits_of_small: "n < 10 \<Longrightarrow> digits_of n = [char_of (48 + n)]"
  by (subst digits_of.simps) simp

lemma digits_of_digits: "digits_of n \<noteq> [] \<and> (\<forall>c \<in> set (digits_of n). ascii_digit c) \<and> decimal (digits_of n) = n
    \<and> (hd (digits_of n) = CHR ''0'' \<longrightarrow> n = 0)"
proof (induction n rule: digits_of.induct)
  case (1 n)
  show ?case
  proof (cases "n < 10")
    case True
    then show ?thesis by (auto simp: digits_of_small ascii_digit_def decimal_def char_of_eq_iff take_bit_eq_mod)
  next
    case False
    then have e: "digits_of n = digits_of (n div 10) @ [char_of (48 + n mod 10)]" by (simp add: digits_of_Suc)
    have IH: "digits_of (n div 10) \<noteq> []" "\<forall>c \<in> set (digits_of (n div 10)). ascii_digit c" "decimal (digits_of (n div 10)) = n div 10"
      "hd (digits_of (n div 10)) = CHR ''0'' \<longrightarrow> n div 10 = 0"
      using "1.IH" [OF False] by blast+
    have d: "(of_char (char_of (48 + n mod 10) :: char) :: nat) = 48 + n mod 10" by simp
    have "decimal (digits_of n) = decimal (digits_of (n div 10)) * 10 + n mod 10"
      unfolding e decimal_def foldl_append by (simp add: d)
    then have "decimal (digits_of n) = n" unfolding IH(3) by simp
    moreover have "ascii_digit (char_of (48 + n mod 10))" using d by (simp add: ascii_digit_def)
    ultimately show ?thesis using IH(1,2,4) False unfolding e by auto
  qed
qed

text \<open>What follows a value inside a text: nothing, a comma or a closing bracket.\<close>

definition ends_value :: "string \<Rightarrow> bool" where
  "ends_value s \<longleftrightarrow> s = [] \<or> hd s \<in> {CHR '','', CHR '']'', CHR ''}''}"

definition number_char :: "char \<Rightarrow> bool" where
  "number_char c \<longleftrightarrow> ascii_digit c \<or> c \<in> {CHR ''.'', CHR ''e'', CHR ''E''}"

lemma ends_value_cases: "ends_value s \<Longrightarrow> s = [] \<or> (\<exists>c t. s = c # t \<and> \<not> number_char c \<and> c \<notin> {CHR '' '', CHR 0x09, CHR 0x0A, CHR 0x0D})"
  by (cases s) (auto simp: ends_value_def number_char_def ascii_digit_def)

text \<open>The text of a float, as \<open>float.__repr__\<close> writes a finite one.\<close>

definition nat_text :: "string \<Rightarrow> bool" where
  "nat_text ip \<longleftrightarrow> ip \<noteq> [] \<and> (\<forall>c \<in> set ip. ascii_digit c) \<and> (hd ip = CHR ''0'' \<longrightarrow> ip = ''0'')"

definition float_text :: "string \<Rightarrow> bool" where
  "float_text r \<longleftrightarrow> (\<exists>sg ip fp ep. r = sg @ ip @ fp @ ep \<and> (sg = [] \<or> sg = ''-'') \<and> nat_text ip \<and> fp @ ep \<noteq> []
     \<and> (fp = [] \<or> (\<exists>ds. fp = CHR ''.'' # ds \<and> ds \<noteq> [] \<and> (\<forall>c \<in> set ds. ascii_digit c)))
     \<and> (ep = [] \<or> (\<exists>s ds. ep = CHR ''e'' # s @ ds \<and> (s = [] \<or> s = ''-'' \<or> s = ''+'') \<and> ds \<noteq> [] \<and> (\<forall>c \<in> set ds. ascii_digit c))))"

lemma nat_text_digits: "nat_text (digits_of n)"
proof (cases "n = 0")
  case True
  then show ?thesis by (simp add: nat_text_def digits_of_small ascii_digit_def)
next
  case False
  then show ?thesis using digits_of_digits [of n] unfolding nat_text_def by blast
qed

lemma digits_append:
  "\<forall>c \<in> set ds. ascii_digit c \<Longrightarrow> s = [] \<or> \<not> ascii_digit (hd s) \<Longrightarrow> digits (ds @ s) = (ds, s)"
  by (cases s) (auto simp: digits_def takeWhile_append dropWhile_append)

lemma int_part_append:
  assumes "nat_text ip" and "s = [] \<or> \<not> ascii_digit (hd s)"
  shows "int_part (ip @ s) = Some (ip, s)"
proof -
  obtain c t where ip: "ip = c # t" using assms(1) by (cases ip) (auto simp: nat_text_def)
  show ?thesis
  proof (cases "c = CHR ''0''")
    case True
    then show ?thesis using assms(1) by (auto simp: ip nat_text_def int_part_def)
  next
    case False
    then have "digits (ip @ s) = (ip, s)" using assms by (intro digits_append) (auto simp: nat_text_def)
    then show ?thesis using False assms(1) by (simp add: ip int_part_def nat_text_def)
  qed
qed

lemma minus_no_digit [simp]: "\<not> ascii_digit (CHR ''-'')" "\<not> ascii_digit (CHR ''.'')" "\<not> ascii_digit (CHR ''e'')" "\<not> ascii_digit (CHR ''+'')"
  by (simp_all add: ascii_digit_def)

lemma parse_int:
  assumes "ends_value rest" and "length (digits_of (nat \<bar>i\<bar>)) \<le> 4300"
  shows "parse_number (int_text i @ rest) = Some (JInt i, rest)"
proof -
  let ?d = "digits_of (nat \<bar>i\<bar>)"
  note d = digits_of_digits [of "nat \<bar>i\<bar>"]
  note nt = nat_text_digits [of "nat \<bar>i\<bar>"]
  have r: "rest = [] \<or> \<not> ascii_digit (hd rest)" using ends_value_cases [OF assms(1)] by (auto simp: number_char_def)
  have ip: "int_part (?d @ rest) = Some (?d, rest)" by (rule int_part_append [OF nt r])
  have "frac_part rest = ([], rest) \<and> exp_part rest = ([], rest)"
  proof (cases rest)
    case (Cons c t)
    then have "c \<noteq> CHR ''.''" "c \<noteq> CHR ''e''" "c \<noteq> CHR ''E''" using assms(1) by (auto simp: ends_value_def)
    then show ?thesis by (simp add: Cons frac_part_def exp_part_def)
  qed (simp add: frac_part_def exp_part_def)
  then have fe: "frac_part rest = ([], rest)" "exp_part rest = ([], rest)" by blast+
  show ?thesis
  proof (cases "i < 0")
    case True
    then show ?thesis using ip fe d assms(2) by (simp add: parse_number_def int_text_def)
  next
    case False
    then have "\<not> (case ?d @ rest of c # _ \<Rightarrow> c = CHR ''-'' | [] \<Rightarrow> False)"
      using d by (cases ?d) auto
    then show ?thesis using False ip fe d assms(2) by (simp add: parse_number_def int_text_def)
  qed
qed

lemma parse_float:
  assumes "ends_value rest" and "float_text r"
  shows "parse_number (r @ rest) = Some (JFloat r, rest)"
proof -
  obtain sg ip fp ep where r: "r = sg @ ip @ fp @ ep" and sg: "sg = [] \<or> sg = ''-''" and nt: "nat_text ip" and some: "fp @ ep \<noteq> []"
    and fp: "fp = [] \<or> (\<exists>ds. fp = CHR ''.'' # ds \<and> ds \<noteq> [] \<and> (\<forall>c \<in> set ds. ascii_digit c))"
    and ep: "ep = [] \<or> (\<exists>s ds. ep = CHR ''e'' # s @ ds \<and> (s = [] \<or> s = ''-'' \<or> s = ''+'') \<and> ds \<noteq> [] \<and> (\<forall>c \<in> set ds. ascii_digit c))"
    using assms(2) unfolding float_text_def by blast
  have rest: "rest = [] \<or> \<not> ascii_digit (hd rest) \<and> hd rest \<noteq> CHR ''.'' \<and> hd rest \<noteq> CHR ''e'' \<and> hd rest \<noteq> CHR ''E''"
    using ends_value_cases [OF assms(1)] by (auto simp: number_char_def)
  have e: "exp_part (ep @ rest) = (ep, rest)"
  proof (cases "ep = []")
    case True
    then show ?thesis using rest by (cases rest) (auto simp: exp_part_def)
  next
    case False
    then obtain s ds where ep': "ep = CHR ''e'' # s @ ds" "s = [] \<or> s = ''-'' \<or> s = ''+''" "ds \<noteq> []" "\<forall>c \<in> set ds. ascii_digit c"
      using ep by blast
    have "sign_of (s @ ds @ rest) = s"
      using ep'(2,3,4) by (cases ds) (auto simp: sign_of_def)
    moreover have "digits (ds @ rest) = (ds, rest)" using ep'(4) rest by (intro digits_append) auto
    ultimately show ?thesis using ep'(3) by (simp add: ep'(1) exp_part_def)
  qed
  have nd: "ep @ rest = [] \<or> \<not> ascii_digit (hd (ep @ rest)) \<and> hd (ep @ rest) \<noteq> CHR ''.''"
    using ep rest by (cases ep) auto
  have f: "frac_part (fp @ ep @ rest) = (fp, ep @ rest)"
  proof (cases "fp = []")
    case True
    then show ?thesis using nd by (cases "ep @ rest") (auto simp: frac_part_def)
  next
    case False
    then obtain ds where fp': "fp = CHR ''.'' # ds" "ds \<noteq> []" "\<forall>c \<in> set ds. ascii_digit c" using fp by blast
    have "digits (ds @ ep @ rest) = (ds, ep @ rest)" using fp'(3) nd by (intro digits_append) auto
    then show ?thesis using fp'(2) by (simp add: fp'(1) frac_part_def)
  qed
  have "fp @ ep @ rest = [] \<or> \<not> ascii_digit (hd (fp @ ep @ rest))" using fp nd by auto
  then have i: "int_part (ip @ fp @ ep @ rest) = Some (ip, fp @ ep @ rest)" by (rule int_part_append [OF nt])
  have neg: "\<not> (case ip @ x of c # _ \<Rightarrow> c = CHR ''-'' | [] \<Rightarrow> False)" for x
    using nt by (cases ip) (auto simp: nat_text_def)
  show ?thesis
    using sg
  proof
    assume "sg = []"
    then show ?thesis using neg i f e some by (auto simp: parse_number_def r)
  next
    assume "sg = ''-''"
    then show ?thesis using i f e some by (auto simp: parse_number_def r)
  qed
qed


text \<open>Values that Python can hold: distinct keys, floats with the text of a finite float, printable integers.\<close>

fun python_json :: "json \<Rightarrow> bool" where
  "python_json (JFloat r) = float_text r"
| "python_json (JInt i) = (length (digits_of (nat \<bar>i\<bar>)) \<le> 4300)"
| "python_json (JList vs) = (\<forall>v \<in> set vs. python_json v)"
| "python_json (JObj kvs) = (distinct (map fst kvs) \<and> (\<forall>p \<in> set kvs. python_json (snd p)))"
| "python_json _ = True"

definition value_char :: "char \<Rightarrow> bool" where
  "value_char c \<longleftrightarrow> ascii_digit c \<or> c \<in> set ''-ntf{['' \<or> c = CHR 0x22"

lemma value_char_no_ws: "value_char c \<Longrightarrow> c \<notin> {CHR '' '', CHR 0x09, CHR 0x0A, CHR 0x0D} \<and> c \<noteq> CHR '']'' \<and> c \<noteq> CHR ''}''"
  by (auto simp: value_char_def ascii_digit_def)

lemma nat_text_start: "nat_text ip \<Longrightarrow> \<exists>c t. ip = c # t \<and> ascii_digit c"
  by (cases ip) (auto simp: nat_text_def)

lemma number_start: "nat_text ip \<Longrightarrow> \<exists>c t. ip @ x = c # t \<and> (ascii_digit c \<or> c = CHR ''-'') \<and> \<not> prefix ''-I'' (c # t)"
  using nat_text_start [of ip] by (auto simp: ascii_digit_def)

lemma int_start: "\<exists>c t. int_text i @ x = c # t \<and> (ascii_digit c \<or> c = CHR ''-'') \<and> \<not> prefix ''-I'' (c # t)"
proof -
  obtain c t where d: "digits_of (nat \<bar>i\<bar>) = c # t" "ascii_digit c" using nat_text_start [OF nat_text_digits] by blast
  moreover have "c \<noteq> CHR ''I''" using d(2) by (auto simp: ascii_digit_def)
  ultimately show ?thesis by (auto simp: int_text_def)
qed

lemma float_start: "float_text r \<Longrightarrow> \<exists>c t. r @ x = c # t \<and> (ascii_digit c \<or> c = CHR ''-'') \<and> \<not> prefix ''-I'' (c # t)"
proof -
  assume "float_text r"
  then obtain sg ip y where r: "r = sg @ ip @ y" "sg = [] \<or> sg = ''-''" "nat_text ip" unfolding float_text_def by blast
  obtain c t where ip: "ip = c # t" "ascii_digit c" using nat_text_start [OF r(3)] by blast
  moreover have "c \<noteq> CHR ''I''" "c \<noteq> CHR ''-''" using ip(2) by (auto simp: ascii_digit_def)
  ultimately show ?thesis using r by auto
qed

lemma print_start: "python_json v \<Longrightarrow> \<exists>c t. print_json v = c # t \<and> value_char c"
proof (cases v)
  case (JInt i)
  then show ?thesis using int_start [of i "[]"] by (auto simp: value_char_def)
next
  case (JFloat r)
  assume "python_json v"
  then show ?thesis using float_start [of r "[]"] by (auto simp: value_char_def JFloat)
qed (auto simp: value_char_def quoted_def)

lemma skip_ws_print: "python_json v \<Longrightarrow> skip_ws (print_json v @ x) = print_json v @ x"
  using print_start [of v] value_char_no_ws by (fastforce simp: skip_ws_def)

lemma parse_number_value:
  assumes "s = c # t" and "ascii_digit c \<or> c = CHR ''-''" and "\<not> prefix ''-I'' s"
  shows "parse_value (Suc n) s = parse_number s"
proof -
  have "c \<noteq> CHR 0x22" "c \<noteq> CHR ''{''" "c \<noteq> CHR ''[''" "c \<notin> set ''ntfNI''" using assms(2) by (auto simp: ascii_digit_def)
  then have "\<not> prefix ''n'' s" "\<not> prefix ''t'' s" "\<not> prefix ''f'' s" "\<not> prefix ''N'' s" "\<not> prefix ''I'' s"
    by (auto simp: assms(1))
  then have "parse_atom s = parse_number s" using assms(3) by (simp only: parse_atom_def if_False)
  moreover note \<open>c \<noteq> CHR 0x22\<close> \<open>c \<noteq> CHR ''{''\<close> \<open>c \<noteq> CHR ''[''\<close>
  ultimately show ?thesis by (simp add: assms(1))
qed


lemma ends_value_simps [simp]: "ends_value (CHR '','' # s)" "ends_value (CHR '']'' # s)" "ends_value (CHR ''}'' # s)" "ends_value []"
  by (simp_all add: ends_value_def)

lemma skip_ws_simps [simp]: "skip_ws (CHR '','' # s) = CHR '','' # s" "skip_ws (CHR '']'' # s) = CHR '']'' # s"
  "skip_ws (CHR ''}'' # s) = CHR ''}'' # s" "skip_ws (CHR '':'' # s) = CHR '':'' # s" "skip_ws (CHR 0x22 # s) = CHR 0x22 # s" "skip_ws [] = []"
  by (simp_all add: skip_ws_def)

text \<open>The elements and the members, when each value is read back.\<close>

definition reads_back :: "json \<Rightarrow> bool" where
  "reads_back v \<longleftrightarrow> (\<forall>rest n. ends_value rest \<longrightarrow> 2 * length (print_json v @ rest) < n \<longrightarrow>
     parse_value n (print_json v @ rest) = Some (v, rest))"

lemma parse_elements_print:
  "vs \<noteq> [] \<Longrightarrow> \<forall>v \<in> set vs. reads_back v \<and> python_json v
    \<Longrightarrow> 2 * length (join '','' (map print_json vs) @ CHR '']'' # rest) + 1 < n
    \<Longrightarrow> parse_elements n (join '','' (map print_json vs) @ CHR '']'' # rest) = Some (vs, rest)"
proof (induction vs arbitrary: n)
  case (Cons v vs)
  obtain n' where n: "n = Suc n'" using Cons.prems by (cases n) auto
  show ?case
  proof (cases vs)
    case Nil
    have "parse_value n' (print_json v @ CHR '']'' # rest) = Some (v, CHR '']'' # rest)"
      using Cons.prems by (simp add: n Nil reads_back_def)
    then show ?thesis by (simp add: n Nil)
  next
    case vs: (Cons w ws)
    let ?more = "join '','' (map print_json vs) @ CHR '']'' # rest"
    have e: "join '','' (map print_json (v # vs)) @ CHR '']'' # rest = print_json v @ CHR '','' # ?more"
      by (simp add: vs)
    have "parse_value n' (print_json v @ CHR '','' # ?more) = Some (v, CHR '','' # ?more)"
      using Cons.prems unfolding e by (simp add: n reads_back_def)
    moreover have "skip_ws ?more = ?more"
    proof -
      have "python_json w" using Cons.prems by (simp add: vs)
      then show ?thesis using skip_ws_print [of w] by (cases ws) (simp_all add: vs)
    qed
    moreover have "parse_elements n' ?more = Some (vs, rest)"
      by (rule Cons.IH) (use Cons.prems e in \<open>simp_all add: vs n\<close>)
    ultimately show ?thesis unfolding e by (simp add: n)
  qed
qed simp

definition member_text :: "string \<times> json \<Rightarrow> string" where
  "member_text p = quoted (fst p) @ '':'' @ print_json (snd p)"

lemma parse_members_print:
  "kvs \<noteq> [] \<Longrightarrow> \<forall>p \<in> set kvs. reads_back (snd p) \<and> python_json (snd p)
    \<Longrightarrow> 2 * length (join '','' (map member_text kvs) @ CHR ''}'' # rest) + 1 < n
    \<Longrightarrow> parse_members n (join '','' (map member_text kvs) @ CHR ''}'' # rest) = Some (kvs, rest)"
proof (induction kvs arbitrary: n)
  case (Cons p kvs)
  obtain n' where n: "n = Suc n'" using Cons.prems by (cases n) auto
  obtain k v where p: "p = (k, v)" by (cases p)
  have one: "member_text p @ x = CHR 0x22 # (concat (map escaped k) @ CHR 0x22 # CHR '':'' # print_json v @ x)" for x
    by (simp add: member_text_def p quoted_def)
  have v: "reads_back v" "python_json v" using Cons.prems by (simp_all add: p)
  show ?case
  proof (cases kvs)
    case Nil
    have e: "join '','' (map member_text (p # kvs)) @ CHR ''}'' # rest = member_text p @ CHR ''}'' # rest" by (simp add: Nil)
    have "parse_value n' (print_json v @ CHR ''}'' # rest) = Some (v, CHR ''}'' # rest)"
      using Cons.prems(3) v unfolding e one by (simp add: n reads_back_def)
    then show ?thesis unfolding e one by (simp add: n parse_chars_escaped skip_ws_print [OF v(2)] Nil p)
  next
    case kvs: (Cons w ws)
    let ?more = "join '','' (map member_text kvs) @ CHR ''}'' # rest"
    have e: "join '','' (map member_text (p # kvs)) @ CHR ''}'' # rest = member_text p @ CHR '','' # ?more"
      by (simp add: kvs)
    have "parse_value n' (print_json v @ CHR '','' # ?more) = Some (v, CHR '','' # ?more)"
      using Cons.prems(3) v unfolding e one by (simp add: n reads_back_def)
    moreover have "skip_ws ?more = ?more"
      by (cases ws) (simp_all add: kvs member_text_def quoted_def)
    moreover have "parse_members n' ?more = Some (kvs, rest)"
      by (rule Cons.IH) (use Cons.prems e one in \<open>simp_all add: kvs n\<close>)
    ultimately show ?thesis unfolding e one by (simp add: n parse_chars_escaped skip_ws_print [OF v(2)] p)
  qed
qed simp


lemma dict_set_fresh: "k \<notin> fst ` set d \<Longrightarrow> dict_set k v d = d @ [(k, v)]"
  by (induction d) auto

lemma fold_dict_set: "distinct (map fst (d @ kvs)) \<Longrightarrow> fold (\<lambda>(k, v). dict_set k v) kvs d = d @ kvs"
proof (induction kvs arbitrary: d)
  case (Cons p kvs)
  obtain k v where p: "p = (k, v)" by (cases p)
  have "dict_set k v d = d @ [p]" using Cons.prems by (auto simp: p intro: dict_set_fresh)
  then show ?case using Cons.IH [of "d @ [p]"] Cons.prems by (simp add: p)
qed simp

lemma print_obj: "print_json (JObj kvs) = CHR ''{'' # join '','' (map member_text kvs) @ ''}''"
  by (simp add: member_text_def [abs_def] case_prod_beta')

lemma print_reads_back: "python_json v \<Longrightarrow> reads_back v"
proof (induction v)
  case (JInt i)
  show ?case
    unfolding reads_back_def
  proof (intro allI impI)
    fix rest n assume e: "ends_value rest" and n: "2 * length (print_json (JInt i) @ rest) < n"
    obtain m where m: "n = Suc m" using n by (cases n) auto
    have "parse_value n (int_text i @ rest) = parse_number (int_text i @ rest)"
      using int_start [of i rest] parse_number_value unfolding m by metis
    then show "parse_value n (print_json (JInt i) @ rest) = Some (JInt i, rest)"
      using parse_int [OF e] JInt by simp
  qed
next
  case (JFloat r)
  show ?case
    unfolding reads_back_def
  proof (intro allI impI)
    fix rest n assume e: "ends_value rest" and n: "2 * length (print_json (JFloat r) @ rest) < n"
    obtain m where m: "n = Suc m" using n by (cases n) auto
    have f: "float_text r" using JFloat by simp
    have "parse_value n (r @ rest) = parse_number (r @ rest)"
      using float_start [OF f, of rest] parse_number_value unfolding m by metis
    then show "parse_value n (print_json (JFloat r) @ rest) = Some (JFloat r, rest)"
      using parse_float [OF e f] by simp
  qed
next
  case (JStr t)
  show ?case
    unfolding reads_back_def
  proof (intro allI impI)
    fix rest n assume "2 * length (print_json (JStr t) @ rest) < n"
    then obtain m where m: "n = Suc m" by (cases n) auto
    show "parse_value n (print_json (JStr t) @ rest) = Some (JStr t, rest)"
      by (simp add: m quoted_def parse_chars_escaped)
  qed
next
  case (JList vs)
  show ?case
    unfolding reads_back_def
  proof (intro allI impI)
    fix rest n assume n: "2 * length (print_json (JList vs) @ rest) < n"
    then obtain m where m: "n = Suc m" by (cases n) auto
    show "parse_value n (print_json (JList vs) @ rest) = Some (JList vs, rest)"
    proof (cases "vs = []")
      case False
      let ?body = "join '','' (map print_json vs) @ CHR '']'' # rest"
      have all: "\<forall>v \<in> set vs. reads_back v \<and> python_json v" using JList by simp
      have "parse_elements m ?body = Some (vs, rest)"
        by (rule parse_elements_print [OF False all]) (use n in \<open>simp add: m\<close>)
      moreover obtain v ws where vs: "vs = v # ws" using False by (cases vs) auto
      have "python_json v" using all by (simp add: vs)
      then obtain c t where "print_json v = c # t" "value_char c" using print_start by blast
      then have "\<exists>t'. ?body = c # t' \<and> c \<noteq> CHR '']''" "skip_ws ?body = ?body"
        using value_char_no_ws [of c] by (cases ws; auto simp: vs skip_ws_def)+
      ultimately show ?thesis by (auto simp: m)
    qed (simp add: m)
  qed
next
  case (JObj kvs)
  show ?case
    unfolding reads_back_def
  proof (intro allI impI)
    fix rest n assume n: "2 * length (print_json (JObj kvs) @ rest) < n"
    then obtain m where m: "n = Suc m" by (cases n) auto
    show "parse_value n (print_json (JObj kvs) @ rest) = Some (JObj kvs, rest)"
    proof (cases "kvs = []")
      case False
      let ?body = "join '','' (map member_text kvs) @ CHR ''}'' # rest"
      have all: "\<forall>p \<in> set kvs. reads_back (snd p) \<and> python_json (snd p)"
        using JObj by (fastforce simp: snds.simps)
      have "parse_members m ?body = Some (kvs, rest)"
        by (rule parse_members_print [OF False all]) (use n print_obj [of kvs] in \<open>simp add: m del: print_json.simps\<close>)
      moreover obtain p ws where kvs: "kvs = p # ws" using False by (cases kvs) auto
      have "\<exists>t'. ?body = CHR 0x22 # t'" by (cases ws) (simp_all add: kvs member_text_def quoted_def)
      moreover have "fold (\<lambda>(k, v). dict_set k v) kvs [] = kvs" using fold_dict_set [of "[]" kvs] JObj by simp
      ultimately show ?thesis unfolding print_obj by (auto simp: m)
    qed (simp add: m)
  qed
qed (auto simp: reads_back_def parse_atom_def after_word_def gr0_conv_Suc dest!: gr_implies_not0 [THEN not0_implies_Suc])

lemma json_round_trip: "python_json v \<Longrightarrow> loads (print_json v) = Some v"
proof -
  assume v: "python_json v"
  have "parse_value (2 * length (print_json v) + 2) (print_json v @ []) = Some (v, [])"
    by (rule print_reads_back [OF v, unfolded reads_back_def, rule_format]) simp_all
  then show ?thesis using skip_ws_print [OF v, of "[]"] by (simp add: loads_def del: parse_value.simps)
qed

end
