(* ===== verification/RedisStore.thy ===== *)
theory RedisStore
  imports Json "HOL-Library.Char_ord"
begin

text \<open>
  The store the run buffer talks to, after \<open>FakeRunRedis\<close> of \<open>backend/tests/unit/buffer_testkit.py\<close>: the
  interpreter for the commands that \<open>buffer.py\<close> sends. Everything is stored as a string, in dictionaries; time is in
  milliseconds. A command that raises (a wrong type, a field that is no number) is \<open>None\<close>.
\<close>

datatype stored = SHash "(string \<times> string) list" | SList "string list"

record redis =
  rd_values :: "(string \<times> stored) list"
  rd_times :: "(string \<times> nat) list"
  rd_clock :: nat

definition rd_store :: "redis \<Rightarrow> string \<Rightarrow> stored option" where
  "rd_store r k = map_of (rd_values r) k"

definition rd_expires :: "redis \<Rightarrow> string \<Rightarrow> nat option" where
  "rd_expires r k = map_of (rd_times r) k"

datatype command =
    HMGET string "string list"
  | HSETNX string string string
  | HSET string "(string \<times> string) list"
  | HINCRBY string string int
  | RPUSH string "string list"
  | RPUSHX string "string list"
  | LRANGE string nat nat
  | EXPIRE string nat bool
  | DEL "string list"

datatype reply = RInt int | RFields "string option list" | RItems "string list"

definition empty_redis :: "nat \<Rightarrow> redis" where
  "empty_redis now = \<lparr>rd_values = [], rd_times = [], rd_clock = now\<rparr>"

text \<open>\<open>int(text)\<close>: spaces around it, a sign, digits with single underscores between them, at most 4300.\<close>

fun int_digits :: "bool \<Rightarrow> string \<Rightarrow> string option" where
  "int_digits after [] = (if after then Some [] else None)"
| "int_digits after (c # s) =
    (if ascii_digit c then map_option (Cons c) (int_digits True s)
     else if c = CHR ''_'' \<and> after \<and> s \<noteq> [] \<and> ascii_digit (hd s) then int_digits False s
     else None)"

definition py_int :: "string \<Rightarrow> int option" where
  "py_int t =
    (let s = strip t;
         neg = (case s of c # _ \<Rightarrow> c = CHR ''-'' | [] \<Rightarrow> False);
         signed = (case s of c # _ \<Rightarrow> c = CHR ''-'' \<or> c = CHR ''+'' | [] \<Rightarrow> False)
     in case int_digits False (if signed then tl s else s) of
          None \<Rightarrow> None
        | Some ds \<Rightarrow>
            if 4300 < length ds then None
            else (let n = int (foldl (\<lambda>n c. n * 10 + ((of_char c :: nat) - 48)) 0 ds) in Some (if neg then - n else n)))"

text \<open>\<open>_purge\<close>: an expired key is gone, and a time without a key too.\<close>

definition expired :: "redis \<Rightarrow> string \<Rightarrow> bool" where
  "expired r k \<longleftrightarrow> (case rd_expires r k of Some t \<Rightarrow> t \<le> rd_clock r | None \<Rightarrow> False)"

definition purge :: "redis \<Rightarrow> redis" where
  "purge r = r\<lparr>rd_values := filter (\<lambda>p. \<not> expired r (fst p)) (rd_values r),
               rd_times := filter (\<lambda>p. \<not> expired r (fst p) \<and> rd_store r (fst p) \<noteq> None) (rd_times r)\<rparr>"

definition hash_at :: "redis \<Rightarrow> string \<Rightarrow> (string \<times> string) list option" where
  "hash_at r k = (case rd_store r k of None \<Rightarrow> Some [] | Some (SHash h) \<Rightarrow> Some h | Some (SList _) \<Rightarrow> None)"

definition list_at :: "redis \<Rightarrow> string \<Rightarrow> string list option" where
  "list_at r k = (case rd_store r k of None \<Rightarrow> Some [] | Some (SList l) \<Rightarrow> Some l | Some (SHash _) \<Rightarrow> None)"

definition put :: "string \<Rightarrow> stored \<Rightarrow> redis \<Rightarrow> redis" where
  "put k v r = r\<lparr>rd_values := dict_set k v (rd_values r)\<rparr>"

definition set_expiry :: "string \<Rightarrow> nat \<Rightarrow> redis \<Rightarrow> redis" where
  "set_expiry k t r = r\<lparr>rd_times := dict_set k t (rd_times r)\<rparr>"

definition drop_key :: "string \<Rightarrow> redis \<Rightarrow> redis" where
  "drop_key k r = r\<lparr>rd_values := filter (\<lambda>p. fst p \<noteq> k) (rd_values r), rd_times := filter (\<lambda>p. fst p \<noteq> k) (rd_times r)\<rparr>"

fun delete_keys :: "string list \<Rightarrow> redis \<Rightarrow> int \<times> redis" where
  "delete_keys [] r = (0, r)"
| "delete_keys (k # ks) r =
    (if rd_store r k = None then delete_keys ks r
     else (case delete_keys ks (drop_key k r) of
             (n, r') \<Rightarrow> (n + 1, r')))"

fun do_command :: "command \<Rightarrow> redis \<Rightarrow> (reply \<times> redis) option" where
  "do_command (HMGET k fs) r = map_option (\<lambda>h. (RFields (map (map_of h) fs), r)) (hash_at r k)"
| "do_command (HSETNX k f v) r =
    map_option (\<lambda>h. if map_of h f \<noteq> None then (RInt 0, put k (SHash h) r) else (RInt 1, put k (SHash (dict_set f v h)) r)) (hash_at r k)"
| "do_command (HSET k fvs) r =
    map_option (\<lambda>h. (RInt (int (length (filter (\<lambda>f. map_of h f = None) (remdups (map fst fvs))))),
                     put k (SHash (fold (\<lambda>(f, v). dict_set f v) fvs h)) r)) (hash_at r k)"
| "do_command (HINCRBY k f n) r =
    (case hash_at r k of
       None \<Rightarrow> None
     | Some h \<Rightarrow>
         (case py_int (case map_of h f of Some v \<Rightarrow> v | None \<Rightarrow> ''0'') of
            None \<Rightarrow> None
          | Some old \<Rightarrow> Some (RInt (old + n), put k (SHash (dict_set f (int_text (old + n)) h)) r)))"
| "do_command (RPUSH k vs) r = map_option (\<lambda>l. (RInt (int (length (l @ vs))), put k (SList (l @ vs)) r)) (list_at r k)"
| "do_command (RPUSHX k vs) r =
    (if rd_store r k = None then Some (RInt 0, r)
     else map_option (\<lambda>l. (RInt (int (length (l @ vs))), put k (SList (l @ vs)) r)) (list_at r k))"
| "do_command (LRANGE k start stop) r = map_option (\<lambda>l. (RItems (take (stop + 1 - start) (drop start l)), r)) (list_at r k)"
| "do_command (EXPIRE k secs lt) r =
    Some (let new = rd_clock r + secs * 1000 in
          if rd_store r k = None then (RInt 0, r)
          else if lt \<and> (case rd_expires r k of Some cur \<Rightarrow> \<not> new < cur | None \<Rightarrow> False) then (RInt 0, r)
          else (RInt 1, set_expiry k new r))"
| "do_command (DEL ks) r = Some (let (n, r') = delete_keys ks r in (RInt n, r'))"

text \<open>The commands of one request, one after another: what a raise leaves behind stays.\<close>

fun do_commands :: "command list \<Rightarrow> redis \<Rightarrow> reply list option \<times> redis" where
  "do_commands [] r = (Some [], r)"
| "do_commands (c # cs) r =
    (case do_command c r of
       None \<Rightarrow> (None, r)
     | Some (x, r1) \<Rightarrow> (case do_commands cs r1 of (xs, r2) \<Rightarrow> (map_option (Cons x) xs, r2)))"

definition exec_request :: "command list \<Rightarrow> redis \<Rightarrow> reply list option \<times> redis" where
  "exec_request cs r = do_commands cs (purge r)"

section \<open>Lookups\<close>

lemma rd_store_simps [simp]:
  "rd_store (put k v r) = (rd_store r)(k \<mapsto> v)" "rd_store (set_expiry k t r) = rd_store r"
  "rd_store (drop_key k r) = (rd_store r)(k := None)" "rd_store (r\<lparr>rd_clock := c\<rparr>) = rd_store r"
  by (auto simp: rd_store_def put_def set_expiry_def drop_key_def map_of_filter_keys [where P = "\<lambda>a. a \<noteq> k"] fun_eq_iff)

lemma rd_expires_simps [simp]:
  "rd_expires (put k v r) = rd_expires r" "rd_expires (set_expiry k t r) = (rd_expires r)(k \<mapsto> t)"
  "rd_expires (drop_key k r) = (rd_expires r)(k := None)" "rd_expires (r\<lparr>rd_clock := c\<rparr>) = rd_expires r"
  by (auto simp: rd_expires_def put_def set_expiry_def drop_key_def map_of_filter_keys [where P = "\<lambda>a. a \<noteq> k"] fun_eq_iff)

lemma rd_clock_simps [simp]:
  "rd_clock (put k v r) = rd_clock r" "rd_clock (set_expiry k t r) = rd_clock r" "rd_clock (drop_key k r) = rd_clock r"
  "rd_clock (purge r) = rd_clock r"
  by (simp_all add: put_def set_expiry_def drop_key_def purge_def)

lemma purge_at:
  "rd_store (purge r) k = (if expired r k then None else rd_store r k)"
  "rd_expires (purge r) k = (if expired r k \<or> rd_store r k = None then None else rd_expires r k)"
  by (simp_all add: rd_store_def rd_expires_def purge_def map_of_filter_keys [where P = "\<lambda>a. \<not> expired r a"]
      map_of_filter_keys [where P = "\<lambda>a. \<not> expired r a \<and> (\<exists>y. map_of (rd_values r) a = Some y)"])

lemma expired_purge [simp]: "expired (purge r) k = False"
  by (auto simp: expired_def purge_at split: option.split)

lemma purge_purge [simp]: "purge (purge r) = purge r"
proof -
  have "rd_values (purge (purge r)) = rd_values (purge r)"
    unfolding purge_def [of "purge r"] by simp
  moreover have "rd_times (purge (purge r)) = rd_times (purge r)"
  proof -
    have "\<forall>p \<in> set (rd_times (purge r)). \<not> expired r (fst p) \<and> rd_store r (fst p) \<noteq> None" by (simp add: purge_def)
    then show ?thesis unfolding purge_def [of "purge r"] by (simp add: filter_id_conv purge_at)
  qed
  ultimately show ?thesis by (simp add: redis.equality)
qed

end
