(* ===== verification/RunBuffer.thy ===== *)
theory RunBuffer
  imports Codec JsonText RedisStore
begin

text \<open>
  \<open>backend/codeagent/buffer.py\<close>: the encrypted run buffer. Every operation is a function of the settings
  and of a world: the store, the requests of other callers and the faults of the connection that come
  between the requests of this one, and the random bytes drawn so far.
\<close>

section \<open>Settings\<close>

definition MAX_CONFIGURABLE_SECONDS :: nat where "MAX_CONFIGURABLE_SECONDS = 30 * 24 * 3600"
definition EXPIRED_MARKER_SECONDS :: nat where "EXPIRED_MARKER_SECONDS = 60"
definition CHUNK_BYTES :: nat where "CHUNK_BYTES = 48 * 1024"
definition TX_BUDGET_BYTES :: nat where "TX_BUDGET_BYTES = 256 * 1024"
definition REQUEST_GUARD_BYTES :: nat where "REQUEST_GUARD_BYTES = 512 * 1024"
definition MAX_ITEM_BYTES :: nat where "MAX_ITEM_BYTES = 8 * 1024 * 1024"
definition MAX_STREAM_BYTES :: nat where "MAX_STREAM_BYTES = 32 * 1024 * 1024"
definition READ_FIRST_PAGE :: nat where "READ_FIRST_PAGE = 16"
definition READ_PAGE_BYTES :: nat where "READ_PAGE_BYTES = 512 * 1024"
definition READ_MAX_PAGE :: nat where "READ_MAX_PAGE = 64"
definition MIN_SECRET_CHARS :: nat where "MIN_SECRET_CHARS = 32"
definition DEFAULT_KEY_ID :: string where "DEFAULT_KEY_ID = ''k1''"
definition REPLAYABLE_TYPES :: "string list" where
  "REPLAYABLE_TYPES = [''run_event'', ''tool_proposed'', ''budget_warning'']"
definition FORMAT_VERSION :: string where "FORMAT_VERSION = ''1''"
definition NONCE_BYTES :: nat where "NONCE_BYTES = 12"
definition TAG_BYTES :: nat where "TAG_BYTES = 16"
definition HKDF_SALT :: bytes where "HKDF_SALT = ''minime.codeagent.run-buffer.v1''"
definition AAD_PREFIX :: bytes where "AAD_PREFIX = ''minime.run-buffer.v1''"
definition MAX_RECORDS_PER_ITEM :: nat where "MAX_RECORDS_PER_ITEM = 65536"

datatype stream = Conv | Replay | Meta

definition stream_name :: "stream \<Rightarrow> string" where
  "stream_name s = (case s of Conv \<Rightarrow> ''conv'' | Replay \<Rightarrow> ''replay'' | Meta \<Rightarrow> ''meta'')"

definition KIND_STATE :: char where "KIND_STATE = CHR ''S''"
definition KIND_ITEM :: char where "KIND_ITEM = CHR ''I''"
definition KIND_EVENT :: char where "KIND_EVENT = CHR ''E''"
definition KIND_HEAD :: char where "KIND_HEAD = CHR ''H''"

definition ALLOWED_KINDS :: "stream \<Rightarrow> char list" where
  "ALLOWED_KINDS s = (case s of Conv \<Rightarrow> [KIND_STATE, KIND_ITEM] | Replay \<Rightarrow> [KIND_HEAD, KIND_EVENT] | Meta \<Rightarrow> [])"

text \<open>\<open>_env_seconds\<close>: \<open>None\<close> is the \<open>ValueError\<close> of \<open>int\<close> for more than 4300 digits.\<close>

definition env_seconds :: "string option \<Rightarrow> nat \<Rightarrow> nat option" where
  "env_seconds raw default_value =
    (case raw of
       None \<Rightarrow> Some default_value
     | Some r \<Rightarrow>
         (let s = strip r in
          if s = [] \<or> \<not> (\<forall>c \<in> set s. ascii_digit c) then Some default_value
          else if 4300 < length s then None
          else (let v = decimal s in
                Some (if v < 1 \<or> MAX_CONFIGURABLE_SECONDS < v then default_value else v))))"

text \<open>
  The environment variables, the two times read from it when the module is imported, and what comes
  from elsewhere: HKDF-SHA256 (salt, info and secret), AES-GCM (key, nonce, data and associated data;
  \<open>None\<close> is \<open>InvalidTag\<close>) and \<open>os.urandom\<close> for the n-th draw.
\<close>

record settings =
  se_secret :: "string option"
  se_key_id :: "string option"
  se_previous :: "string option"
  se_idle :: nat
  se_cap :: nat
  se_hkdf :: "bytes \<Rightarrow> bytes \<Rightarrow> bytes \<Rightarrow> bytes"
  se_encrypt :: "bytes \<Rightarrow> bytes \<Rightarrow> bytes \<Rightarrow> bytes \<Rightarrow> bytes"
  se_decrypt :: "bytes \<Rightarrow> bytes \<Rightarrow> bytes \<Rightarrow> bytes \<Rightarrow> bytes option"
  se_random :: "nat \<Rightarrow> nat \<Rightarrow> bytes"

section \<open>Errors and requests\<close>

datatype buffer_error =
    BufferNotConfigured
  | InvalidBufferInput
  | BufferMissing
  | BufferExpired
  | BufferExists
  | BufferCorrupt
  | BufferFull
  | BufferUnavailable
  | RequestGuard
  | Unhashable

text \<open>
  What may happen around one request: time passes, other callers send requests of their own, and the
  connection fails before the request arrives, loses the reply, or sends the request twice.
\<close>

datatype outage = Fine | Not_sent | Reply_lost | Sent_twice

record turn =
  tn_elapsed :: nat
  tn_others :: "command list list"
  tn_outage :: outage

record buffer_world =
  bw_redis :: redis
  bw_script :: "turn list"
  bw_draws :: nat

type_synonym 'a io = "buffer_world \<Rightarrow> (buffer_error + 'a) \<times> buffer_world"

definition bindB :: "'a io \<Rightarrow> ('a \<Rightarrow> 'b io) \<Rightarrow> 'b io" where
  "bindB m f w = (case m w of (Inl e, w') \<Rightarrow> (Inl e, w') | (Inr x, w') \<Rightarrow> f x w')"

definition returnB :: "'a \<Rightarrow> 'a io" where
  "returnB x w = (Inr x, w)"

definition raiseB :: "buffer_error \<Rightarrow> 'a io" where
  "raiseB e w = (Inl e, w)"

definition liftB :: "buffer_error + 'a \<Rightarrow> 'a io" where
  "liftB m w = (m, w)"

definition no_turn :: turn where
  "no_turn = \<lparr>tn_elapsed = 0, tn_others = [], tn_outage = Fine\<rparr>"

definition this_turn :: "buffer_world \<Rightarrow> turn" where
  "this_turn w = (case bw_script w of [] \<Rightarrow> no_turn | t # _ \<Rightarrow> t)"

text \<open>The store when the request is about to be sent.\<close>

definition before_request :: "turn \<Rightarrow> redis \<Rightarrow> redis" where
  "before_request t r = fold (\<lambda>cs r. snd (exec_request cs r)) (tn_others t) (r\<lparr>rd_clock := rd_clock r + tn_elapsed t\<rparr>)"

definition send :: "command list \<Rightarrow> reply list io" where
  "send cs w =
    (let t = this_turn w;
         r = before_request t (bw_redis w);
         w' = w\<lparr>bw_script := tl (bw_script w)\<rparr>
     in case tn_outage t of
          Not_sent \<Rightarrow> (Inl BufferUnavailable, w'\<lparr>bw_redis := r\<rparr>)
        | Reply_lost \<Rightarrow> (Inl BufferUnavailable, w'\<lparr>bw_redis := snd (exec_request cs r)\<rparr>)
        | Fine \<Rightarrow>
            (case exec_request cs r of
               (None, r1) \<Rightarrow> (Inl BufferUnavailable, w'\<lparr>bw_redis := r1\<rparr>)
             | (Some xs, r1) \<Rightarrow> (Inr xs, w'\<lparr>bw_redis := r1\<rparr>))
        | Sent_twice \<Rightarrow>
            (case exec_request cs (snd (exec_request cs r)) of
               (None, r1) \<Rightarrow> (Inl BufferUnavailable, w'\<lparr>bw_redis := r1\<rparr>)
             | (Some xs, r1) \<Rightarrow> (Inr xs, w'\<lparr>bw_redis := r1\<rparr>)))"

text \<open>\<open>_call\<close>, and \<open>_atomic\<close> with its guard on the length of all arguments.\<close>

definition call :: "command \<Rightarrow> reply io" where
  "call c = bindB (send [c]) (\<lambda>xs. returnB (hd xs))"

definition text_size :: "string list \<Rightarrow> nat" where
  "text_size ws = sum_list (map length ws)"

fun command_size :: "command \<Rightarrow> nat" where
  "command_size (HMGET k fs) = text_size (''HMGET'' # k # fs)"
| "command_size (HSETNX k f v) = text_size [''HSETNX'', k, f, v]"
| "command_size (HSET k fvs) = text_size (''HSET'' # k # concat (map (\<lambda>(f, v). [f, v]) fvs))"
| "command_size (HINCRBY k f n) = text_size [''HINCRBY'', k, f, int_text n]"
| "command_size (RPUSH k vs) = text_size (''RPUSH'' # k # vs)"
| "command_size (RPUSHX k vs) = text_size (''RPUSHX'' # k # vs)"
| "command_size (LRANGE k start stop) = text_size [''LRANGE'', k, digits_of start, digits_of stop]"
| "command_size (EXPIRE k secs lt) = text_size ([''EXPIRE'', k, digits_of secs] @ (if lt then [''LT''] else []))"
| "command_size (DEL ks) = text_size (''DEL'' # ks)"

definition request_size :: "command list \<Rightarrow> nat" where
  "request_size cs = sum_list (map command_size cs)"

definition atomic :: "command list \<Rightarrow> reply list io" where
  "atomic cs = (if REQUEST_GUARD_BYTES < request_size cs then raiseB RequestGuard else send cs)"

definition clock_now :: "nat io" where
  "clock_now w = (Inr (rd_clock (bw_redis w)), w)"

definition draw :: "settings \<Rightarrow> nat \<Rightarrow> bytes io" where
  "draw se n w = (Inr (se_random se (bw_draws w) n), w\<lparr>bw_draws := bw_draws w + 1\<rparr>)"

fun mapB :: "('a \<Rightarrow> 'b io) \<Rightarrow> 'a list \<Rightarrow> 'b list io" where
  "mapB f [] = returnB []"
| "mapB f (x # xs) = bindB (f x) (\<lambda>y. bindB (mapB f xs) (\<lambda>ys. returnB (y # ys)))"

section \<open>Keys and validation\<close>

definition id_letter :: "char \<Rightarrow> bool" where
  "id_letter c \<longleftrightarrow> ascii_alpha c \<or> ascii_digit c \<or> c = CHR ''_'' \<or> c = CHR ''-''"

definition valid_run_id :: "string \<Rightarrow> buffer_error + string" where
  "valid_run_id run_id =
    (if 8 \<le> length run_id \<and> length run_id \<le> 64 \<and> (\<forall>c \<in> set run_id. id_letter c) then Inr run_id else Inl InvalidBufferInput)"

definition conv_key :: "string \<Rightarrow> string" where "conv_key run_id = ''run_buffer:'' @ run_id @ '':conv''"
definition replay_key :: "string \<Rightarrow> string" where "replay_key run_id = ''run_buffer:'' @ run_id @ '':replay''"
definition meta_key :: "string \<Rightarrow> string" where "meta_key run_id = ''run_buffer:'' @ run_id @ '':meta''"

definition buffer_keys :: "string \<Rightarrow> string list" where
  "buffer_keys run_id = [conv_key run_id, replay_key run_id, meta_key run_id]"

definition valid_seq :: "int \<Rightarrow> buffer_error + int" where
  "valid_seq n = (if n < 0 then Inl InvalidBufferInput else Inr n)"

definition serialize :: "json \<Rightarrow> buffer_error + bytes" where
  "serialize v =
    (case v of
       JObj _ \<Rightarrow>
         (case dumps v of
            None \<Rightarrow> Inl InvalidBufferInput
          | Some t \<Rightarrow> (let data = utf8_encode t in if MAX_ITEM_BYTES < length data then Inl InvalidBufferInput else Inr data))
     | _ \<Rightarrow> Inl InvalidBufferInput)"

text \<open>\<open>_valid_message\<close>: an unhashable \<open>t\<close> makes \<open>in\<close> raise \<open>TypeError\<close>, before anything else is looked at.\<close>

definition valid_message :: "string \<Rightarrow> json \<Rightarrow> buffer_error + bytes" where
  "valid_message run_id message =
    (case message of
       JObj d \<Rightarrow>
         if \<not> hashable (field d ''t'') then Inl Unhashable
         else if field d ''t'' \<notin> JStr ` set REPLAYABLE_TYPES then Inl InvalidBufferInput
         else if \<not> (case field d ''id'' of JStr m \<Rightarrow> 1 \<le> length m \<and> length m \<le> 128 | _ \<Rightarrow> False) then Inl InvalidBufferInput
         else if field d ''run_id'' \<noteq> JStr run_id then Inl InvalidBufferInput
         else if \<not> (case field d ''seq'' of JInt n \<Rightarrow> 1 \<le> n | _ \<Rightarrow> False) then Inl InvalidBufferInput
         else if \<not> (case field d ''payload'' of JObj _ \<Rightarrow> True | _ \<Rightarrow> False) then Inl InvalidBufferInput
         else serialize message
     | _ \<Rightarrow> Inl InvalidBufferInput)"

section \<open>Configuration and sealing\<close>

record buffer_config =
  co_key_id :: string
  co_secrets :: "(string \<times> string) list"

definition strong :: "string option \<Rightarrow> string option" where
  "strong secret = (case secret of None \<Rightarrow> None | Some s \<Rightarrow> if MIN_SECRET_CHARS \<le> length (strip s) then Some (strip s) else None)"

definition key_id_ok :: "string \<Rightarrow> bool" where
  "key_id_ok k \<longleftrightarrow> 1 \<le> length k \<and> length k \<le> 16 \<and> (\<forall>c \<in> set k. id_letter c)"

definition str_of :: "json \<Rightarrow> string option" where
  "str_of v = (case v of JStr s \<Rightarrow> Some s | _ \<Rightarrow> None)"

fun add_previous :: "string \<Rightarrow> (string \<times> json) list \<Rightarrow> (string \<times> string) list \<Rightarrow> buffer_error + (string \<times> string) list" where
  "add_previous key_id [] secrets = Inr secrets"
| "add_previous key_id ((kid, old) # rest) secrets =
    (if \<not> key_id_ok kid \<or> kid = key_id then Inl BufferNotConfigured
     else (case strong (str_of old) of
             None \<Rightarrow> Inl BufferNotConfigured
           | Some s \<Rightarrow> add_previous key_id rest (dict_set kid s secrets)))"

definition read_config :: "settings \<Rightarrow> buffer_error + buffer_config" where
  "read_config se =
    (case strong (se_secret se) of
       None \<Rightarrow> Inl BufferNotConfigured
     | Some secret \<Rightarrow>
         (let key_id = (case se_key_id se of None \<Rightarrow> DEFAULT_KEY_ID | Some k \<Rightarrow> k) in
          if se_key_id se \<noteq> None \<and> \<not> key_id_ok key_id then Inl BufferNotConfigured
          else (case se_previous se of
                  None \<Rightarrow> Inr \<lparr>co_key_id = key_id, co_secrets = [(key_id, secret)]\<rparr>
                | Some raw \<Rightarrow>
                    if strip raw = [] then Inr \<lparr>co_key_id = key_id, co_secrets = [(key_id, secret)]\<rparr>
                    else (case loads raw of
                            Some (JObj d) \<Rightarrow>
                              bindE (add_previous key_id d [(key_id, secret)])
                                (\<lambda>secrets. Inr \<lparr>co_key_id = key_id, co_secrets = secrets\<rparr>)
                          | _ \<Rightarrow> Inl BufferNotConfigured))))"

definition derive_key :: "settings \<Rightarrow> string \<Rightarrow> string \<Rightarrow> bytes" where
  "derive_key se secret run_id =
    se_hkdf se HKDF_SALT (''run-buffer-key'' @ [NUL] @ utf8_encode run_id) (utf8_encode (strip secret))"

definition aad_of :: "string \<Rightarrow> stream \<Rightarrow> string \<Rightarrow> bytes" where
  "aad_of run_id s key_id = join [NUL] [AAD_PREFIX, utf8_encode run_id, stream_name s, key_id]"

text \<open>The box of a run: its id and the configuration.\<close>

record box =
  bx_run :: string
  bx_config :: buffer_config

definition open_box :: "settings \<Rightarrow> string \<Rightarrow> buffer_error + box" where
  "open_box se run_id = bindE (read_config se) (\<lambda>c. Inr \<lparr>bx_run = run_id, bx_config = c\<rparr>)"

definition secret_of :: "box \<Rightarrow> string \<Rightarrow> string option" where
  "secret_of b key_id = map_of (co_secrets (bx_config b)) key_id"

definition wire_text :: "string \<Rightarrow> bytes \<Rightarrow> string" where
  "wire_text key_id raw = FORMAT_VERSION @ ''.'' @ key_id @ ''.'' @ b64e raw"

definition seal_with :: "settings \<Rightarrow> box \<Rightarrow> stream \<Rightarrow> bytes \<Rightarrow> bytes \<Rightarrow> string" where
  "seal_with se b s nonce plaintext =
    (let key_id = co_key_id (bx_config b);
         key = derive_key se (case secret_of b key_id of Some x \<Rightarrow> x | None \<Rightarrow> []) (bx_run b)
     in wire_text key_id (nonce @ se_encrypt se key nonce plaintext (aad_of (bx_run b) s key_id)))"

text \<open>\<open>seal\<close>: the current secret is always there, and a new nonce is drawn.\<close>

definition seal :: "settings \<Rightarrow> box \<Rightarrow> stream \<Rightarrow> bytes \<Rightarrow> string io" where
  "seal se b s plaintext = bindB (draw se NONCE_BYTES) (\<lambda>nonce. returnB (seal_with se b s nonce plaintext))"

definition unseal :: "settings \<Rightarrow> box \<Rightarrow> stream \<Rightarrow> string \<Rightarrow> buffer_error + bytes" where
  "unseal se b s wire =
    (case split_on (CHR ''.'') wire of
       [version, key_id, body] \<Rightarrow>
         if version \<noteq> FORMAT_VERSION \<or> \<not> key_id_ok key_id then Inl BufferCorrupt
         else (case b64d body of
                 None \<Rightarrow> Inl BufferCorrupt
               | Some raw \<Rightarrow>
                   if length raw < NONCE_BYTES + TAG_BYTES then Inl BufferCorrupt
                   else (case secret_of b key_id of
                           None \<Rightarrow> Inl BufferCorrupt
                         | Some secret \<Rightarrow>
                             (case se_decrypt se (derive_key se secret (bx_run b)) (take NONCE_BYTES raw) (drop NONCE_BYTES raw)
                                     (aad_of (bx_run b) s key_id) of
                                None \<Rightarrow> Inl BufferCorrupt
                              | Some plain \<Rightarrow> Inr plain)))
     | _ \<Rightarrow> Inl BufferCorrupt)"

section \<open>Records\<close>

function byte_chunks :: "nat \<Rightarrow> bytes \<Rightarrow> bytes list" where
  "byte_chunks n bs = (if n = 0 \<or> bs = [] then [] else take n bs # byte_chunks n (drop n bs))"
  by pat_completeness auto
termination by (relation "measure (length \<circ> snd)") auto

declare byte_chunks.simps [simp del]

definition item_parts :: "bytes \<Rightarrow> bytes list" where
  "item_parts payload = (if byte_chunks CHUNK_BYTES payload = [] then [[]] else byte_chunks CHUNK_BYTES payload)"

text \<open>A record is its wire form and the number of plaintext bytes it carries.\<close>

type_synonym record_pair = "string \<times> nat"

definition seal_part :: "settings \<Rightarrow> box \<Rightarrow> stream \<Rightarrow> char \<Rightarrow> bytes \<Rightarrow> nat \<Rightarrow> nat \<times> bytes \<Rightarrow> record_pair io" where
  "seal_part se b s kind item_id count p =
    bindB (seal se b s (pack_frame kind item_id (fst p) count @ snd p)) (\<lambda>wire. returnB (wire, length (snd p)))"

definition seal_item :: "settings \<Rightarrow> box \<Rightarrow> stream \<Rightarrow> char \<times> bytes \<Rightarrow> record_pair list io" where
  "seal_item se b s item =
    bindB (draw se 16) (\<lambda>item_id.
      (let parts = item_parts (snd item)
       in mapB (seal_part se b s (fst item) item_id (length parts)) (enumerate 0 parts)))"

definition seal_items :: "settings \<Rightarrow> box \<Rightarrow> stream \<Rightarrow> (char \<times> bytes) list \<Rightarrow> record_pair list io" where
  "seal_items se b s items = bindB (mapB (seal_item se b s) items) (\<lambda>rss. returnB (concat rss))"

fun group_loop :: "record_pair list \<Rightarrow> nat \<Rightarrow> record_pair list \<Rightarrow> record_pair list list" where
  "group_loop current used [] = (if current = [] then [] else [current])"
| "group_loop current used (rec # recs) =
    (if current \<noteq> [] \<and> TX_BUDGET_BYTES < used + length (fst rec)
     then current # group_loop [rec] (length (fst rec)) recs
     else group_loop (current @ [rec]) (used + length (fst rec)) recs)"

definition groups_of :: "record_pair list \<Rightarrow> record_pair list list" where
  "groups_of recs = group_loop [] 0 recs"

section \<open>Times and the hard cap\<close>

definition ttls :: "settings \<Rightarrow> nat \<Rightarrow> nat \<Rightarrow> (nat \<times> nat) option" where
  "ttls se created now =
    (if created + se_cap se * 1000 \<le> now then None
     else
       (let remaining = (created + se_cap se * 1000 - now + 999) div 1000;
            content = max 1 (min (se_idle se) remaining);
            marker = max content (min EXPIRED_MARKER_SECONDS (se_idle se))
        in Some (content, marker)))"

definition int_of_reply :: "reply \<Rightarrow> int" where
  "int_of_reply x = (case x of RInt n \<Rightarrow> n | _ \<Rightarrow> 0)"

definition delete :: "string \<Rightarrow> int io" where
  "delete run_id = bindB (call (DEL (buffer_keys run_id))) (\<lambda>x. returnB (int_of_reply x))"

definition expire_commands :: "settings \<Rightarrow> string \<Rightarrow> nat \<Rightarrow> command list io" where
  "expire_commands se run_id created =
    bindB clock_now (\<lambda>now.
      case ttls se created now of
        None \<Rightarrow> bindB (delete run_id) (\<lambda>_. raiseB BufferExpired)
      | Some (content, marker) \<Rightarrow>
          returnB [EXPIRE (conv_key run_id) content False, EXPIRE (replay_key run_id) content False,
                   EXPIRE (meta_key run_id) marker False])"

definition gone :: "string \<Rightarrow> 'a io" where
  "gone run_id = bindB (delete run_id) (\<lambda>_. raiseB BufferMissing)"

record meta =
  mt_created :: nat
  mt_conv_bytes :: nat
  mt_replay_bytes :: nat

definition count_value :: "string option \<Rightarrow> buffer_error + nat" where
  "count_value v =
    (case v of
       None \<Rightarrow> Inr 0
     | Some t \<Rightarrow> (case py_int t of None \<Rightarrow> Inl BufferCorrupt | Some n \<Rightarrow> if n < 0 then Inl BufferCorrupt else Inr (nat n)))"

text \<open>\<open>_loads\<close>: a JSON object in UTF-8.\<close>

definition load_object :: "bytes \<Rightarrow> buffer_error + (string \<times> json) list" where
  "load_object payload =
    (case utf8_decode payload of
       None \<Rightarrow> Inl BufferCorrupt
     | Some t \<Rightarrow> (case loads t of Some (JObj d) \<Rightarrow> Inr d | _ \<Rightarrow> Inl BufferCorrupt))"

text \<open>\<open>value == 1\<close>, also for \<open>True\<close> and \<open>1.0\<close>.\<close>

definition equals_one :: "json \<Rightarrow> bool" where
  "equals_one v \<longleftrightarrow> v = JInt 1 \<or> v = JBool True \<or> v = JFloat ''1.0''"

definition created_of :: "(string \<times> json) list \<Rightarrow> buffer_error + nat" where
  "created_of body =
    (if \<not> equals_one (field body ''v'') then Inl BufferCorrupt
     else (case field body ''created'' of JInt n \<Rightarrow> if 0 < n then Inr (nat n) else Inl BufferCorrupt | _ \<Rightarrow> Inl BufferCorrupt))"

definition check :: "settings \<Rightarrow> string \<Rightarrow> box \<Rightarrow> meta io" where
  "check se run_id b =
    bindB (call (HMGET (meta_key run_id) [''meta'', ''conv_bytes'', ''replay_bytes''])) (\<lambda>x.
      case x of
        RFields [stamp, conv_bytes, replay_bytes] \<Rightarrow>
          (case stamp of
             None \<Rightarrow> raiseB BufferMissing
           | Some wire \<Rightarrow>
               bindB (liftB (bindE (unseal se b Meta wire) (\<lambda>p. bindE (load_object p) created_of))) (\<lambda>created.
               bindB clock_now (\<lambda>now.
                 if ttls se created now = None then bindB (delete run_id) (\<lambda>_. raiseB BufferExpired)
                 else liftB (bindE (count_value conv_bytes) (\<lambda>cb. bindE (count_value replay_bytes)
                        (\<lambda>rb. Inr \<lparr>mt_created = created, mt_conv_bytes = cb, mt_replay_bytes = rb\<rparr>))))))
      | _ \<Rightarrow> raiseB BufferUnavailable)"

definition refresh :: "settings \<Rightarrow> string \<Rightarrow> meta \<Rightarrow> unit io" where
  "refresh se run_id m =
    bindB (expire_commands se run_id (mt_created m)) (\<lambda>cs.
    bindB (atomic cs) (\<lambda>xs. if xs ! 0 \<noteq> RInt 1 \<or> xs ! 1 \<noteq> RInt 1 then gone run_id else returnB ()))"

section \<open>Writing\<close>

definition stream_key :: "string \<Rightarrow> stream \<Rightarrow> string" where
  "stream_key run_id s = (if s = Conv then conv_key run_id else replay_key run_id)"

definition bytes_field :: "stream \<Rightarrow> string" where
  "bytes_field s = (if s = Conv then ''conv_bytes'' else ''replay_bytes'')"

definition group_bytes :: "record_pair list \<Rightarrow> nat" where
  "group_bytes grp = sum_list (map snd grp)"

definition push :: "settings \<Rightarrow> string \<Rightarrow> nat \<Rightarrow> stream \<Rightarrow> record_pair list \<Rightarrow> unit io" where
  "push se run_id created s grp =
    bindB (expire_commands se run_id created) (\<lambda>cs.
    bindB (atomic ([RPUSHX (stream_key run_id s) (map fst grp)] @ cs
                   @ [HINCRBY (meta_key run_id) (bytes_field s) (int (group_bytes grp))])) (\<lambda>xs.
      if xs ! 0 = RInt 0 \<or> xs ! 1 \<noteq> RInt 1 \<or> xs ! 2 \<noteq> RInt 1 then gone run_id else returnB ()))"

fun push_all :: "settings \<Rightarrow> string \<Rightarrow> nat \<Rightarrow> stream \<Rightarrow> record_pair list list \<Rightarrow> unit io" where
  "push_all se run_id created s [] = returnB ()"
| "push_all se run_id created s (g # gs) = bindB (push se run_id created s g) (\<lambda>_. push_all se run_id created s gs)"

definition total_bytes :: "(char \<times> bytes) list \<Rightarrow> nat" where
  "total_bytes payloads = sum_list (map (\<lambda>p. length (snd p)) payloads)"

definition append_stream :: "settings \<Rightarrow> string \<Rightarrow> stream \<Rightarrow> (char \<times> bytes) list \<Rightarrow> unit io" where
  "append_stream se run_id s payloads =
    bindB (liftB (open_box se run_id)) (\<lambda>b.
    bindB (check se run_id b) (\<lambda>m.
      let used = (if s = Conv then mt_conv_bytes m else mt_replay_bytes m) in
      if MAX_STREAM_BYTES < used + total_bytes payloads then raiseB BufferFull
      else bindB (seal_items se b s payloads) (\<lambda>recs. push_all se run_id (mt_created m) s (groups_of recs))))"

section \<open>Reading\<close>

record reading =
  rg_pending :: "(bytes \<times> char \<times> nat \<times> (nat \<times> bytes) list) list"
  rg_finished :: "bytes list"
  rg_out :: "(char \<times> bytes) list"

definition no_reading :: reading where
  "no_reading = \<lparr>rg_pending = [], rg_finished = [], rg_out = []\<rparr>"

definition without_key :: "'k \<Rightarrow> ('k \<times> 'v) list \<Rightarrow> ('k \<times> 'v) list" where
  "without_key k d = filter (\<lambda>p. fst p \<noteq> k) d"

text \<open>One authenticated record: a finished item's is skipped, a duplicate is skipped, the last missing one completes its item.\<close>

definition take_record :: "stream \<Rightarrow> bytes \<Rightarrow> reading \<Rightarrow> buffer_error + reading" where
  "take_record s plain rg =
    (if length plain < FRAME_SIZE then Inl BufferCorrupt
     else
       (case unpack_frame plain of
          (kind, item_id, index, count) \<Rightarrow>
            if kind \<notin> set (ALLOWED_KINDS s) \<or> \<not> (1 \<le> count \<and> count \<le> MAX_RECORDS_PER_ITEM) \<or> count \<le> index then Inl BufferCorrupt
            else if item_id \<in> set (rg_finished rg) then Inr rg
            else
              (case (case map_of (rg_pending rg) item_id of None \<Rightarrow> (kind, count, []) | Some e \<Rightarrow> e) of
                 (kind', count', parts) \<Rightarrow>
                   if kind' \<noteq> kind \<or> count' \<noteq> count then Inl BufferCorrupt
                   else if map_of parts index \<noteq> None then Inr rg
                   else
                     (let parts' = dict_set index (drop FRAME_SIZE plain) parts in
                      if length parts' = count
                      then Inr \<lparr>rg_pending = without_key item_id (rg_pending rg), rg_finished = item_id # rg_finished rg,
                                rg_out = rg_out rg @ [(kind, concat (map (\<lambda>i. the (map_of parts' i)) [0..<count]))]\<rparr>
                      else Inr (rg\<lparr>rg_pending := dict_set item_id (kind, count, parts') (rg_pending rg)\<rparr>)))))"

fun take_records :: "settings \<Rightarrow> box \<Rightarrow> stream \<Rightarrow> string list \<Rightarrow> reading \<Rightarrow> buffer_error + reading" where
  "take_records se b s [] rg = Inr rg"
| "take_records se b s (wire # wires) rg =
    bindE (unseal se b s wire) (\<lambda>plain. bindE (take_record s plain rg) (take_records se b s wires))"

text \<open>The size of the next page less one; the mean of the last page is taken exactly.\<close>

definition next_page :: "string list \<Rightarrow> nat" where
  "next_page wires =
    (let total = text_size wires; n = length wires;
         fit = (if total \<le> n then READ_PAGE_BYTES else READ_PAGE_BYTES * n div total)
     in max 1 (min READ_MAX_PAGE fit) - 1)"

definition list_length :: "string \<Rightarrow> buffer_world \<Rightarrow> nat" where
  "list_length key w = (case list_at (bw_redis w) key of Some l \<Rightarrow> length l | None \<Rightarrow> 0)"

text \<open>A request to a store nobody else uses, on a connection without faults.\<close>

lemma no_turn_simps [simp]: "tn_outage no_turn = Fine" "before_request no_turn r = r"
  by (simp_all add: no_turn_def before_request_def)

lemma send_quiet:
  "bw_script w = [] \<Longrightarrow> send cs w =
    (case do_commands cs (purge (bw_redis w)) of
       (None, r) \<Rightarrow> (Inl BufferUnavailable, w\<lparr>bw_redis := r\<rparr>) | (Some xs, r) \<Rightarrow> (Inr xs, w\<lparr>bw_redis := r\<rparr>))"
  by (cases w) (auto simp: send_def this_turn_def exec_request_def Let_def split: prod.splits option.splits)

lemma call_quiet:
  "bw_script w = [] \<Longrightarrow> call c w =
    (case do_command c (purge (bw_redis w)) of
       None \<Rightarrow> (Inl BufferUnavailable, w\<lparr>bw_redis := purge (bw_redis w)\<rparr>) | Some (x, r) \<Rightarrow> (Inr x, w\<lparr>bw_redis := r\<rparr>))"
  by (simp add: call_def bindB_def returnB_def send_quiet split: option.splits prod.splits)

lemma call_script: "call c w = (x, w') \<Longrightarrow> bw_script w' = tl (bw_script w)"
  by (auto simp: call_def bindB_def returnB_def send_def Let_def split: outage.splits prod.splits sum.splits option.splits)

lemma call_range:
  assumes "call (LRANGE key start (start + p)) w = (Inr (RItems wires), w')" and "length wires = p + 1"
  shows "length (bw_script w') < length (bw_script w)
    \<or> length (bw_script w') = length (bw_script w) \<and> list_length key w' - (start + length wires) < list_length key w - start"
proof (cases "bw_script w")
  case (Cons t ts)
  then show ?thesis using call_script [OF assms(1)] by simp
next
  case Nil
  let ?r = "purge (bw_redis w)"
  obtain l where l: "list_at ?r key = Some l" and wires: "wires = take (p + 1) (drop start l)" and w': "w' = w\<lparr>bw_redis := ?r\<rparr>"
    using assms(1) by (auto simp: call_quiet [OF Nil] split: option.splits)
  have len: "start + (p + 1) \<le> length l" using assms(2) by (simp add: wires)
  have "list_length key w' = length l" by (simp add: list_length_def w' l)
  moreover have "list_length key w = length l"
  proof -
    have "rd_store ?r key = rd_store (bw_redis w) key"
      using len l by (auto simp: purge_at list_at_def split: if_splits)
    then show ?thesis using l by (simp add: list_length_def list_at_def)
  qed
  ultimately show ?thesis using len assms(2) by (simp add: Nil w')
qed

lemma call_range_less:
  assumes "(Inr (RItems wires), w') = call (LRANGE key start (start + p)) w" and "length wires = Suc p"
    and "\<not> length (bw_script w') < length (bw_script w)"
  shows "length (bw_script w') = length (bw_script w)" "list_length key w' - Suc (start + p) < list_length key w - start"
  using call_range [of key start p w wires w'] assms by simp_all

text \<open>The loop over the pages; \<open>p\<close> is the size of the page less one.\<close>

function read_pages :: "settings \<Rightarrow> string \<Rightarrow> box \<Rightarrow> stream \<Rightarrow> nat \<Rightarrow> nat \<Rightarrow> reading \<Rightarrow> (char \<times> bytes) list io" where
  "read_pages se run_id b s start p rg w =
    (case call (LRANGE (stream_key run_id s) start (start + p)) w of
       (Inl e, w1) \<Rightarrow> (Inl e, w1)
     | (Inr x, w1) \<Rightarrow>
         (case x of
            RItems wires \<Rightarrow>
              if start = 0 \<and> wires = [] then gone run_id w1
              else
                (case take_records se b s wires rg of
                   Inl e \<Rightarrow> (Inl e, w1)
                 | Inr rg' \<Rightarrow>
                     if length wires \<noteq> p + 1 then (Inr (rg_out rg'), w1)
                     else read_pages se run_id b s (start + length wires) (next_page wires) rg' w1)
          | _ \<Rightarrow> (Inl BufferUnavailable, w1)))"
  by pat_completeness auto
termination
  by (relation "measures [\<lambda>(se, run_id, b, s, start, p, rg, w). length (bw_script w),
                          \<lambda>(se, run_id, b, s, start, p, rg, w). list_length (stream_key run_id s) w - start]")
    (auto dest: call_range_less)

declare read_pages.simps [simp del]

definition read_stream :: "settings \<Rightarrow> string \<Rightarrow> box \<Rightarrow> stream \<Rightarrow> (char \<times> bytes) list io" where
  "read_stream se run_id b s = read_pages se run_id b s 0 (READ_FIRST_PAGE - 1) no_reading"

section \<open>The operations\<close>

definition conversation_payloads :: "(string \<times> json) list \<Rightarrow> json list \<Rightarrow> buffer_error + (char \<times> bytes) list" where
  "conversation_payloads state history =
    bindE (serialize (JObj state)) (\<lambda>p. bindE (mapE serialize history) (\<lambda>ps.
      Inr ((KIND_STATE, p) # map (Pair KIND_ITEM) ps)))"

text \<open>The creation stamp, with the separators of \<open>json.dumps\<close>.\<close>

definition stamp_text :: "nat \<Rightarrow> string" where
  "stamp_text created = ''{'' @ quoted ''v'' @ '': 1, '' @ quoted ''created'' @ '': '' @ digits_of created @ ''}''"

definition seq_fields :: "int \<Rightarrow> record_pair list \<Rightarrow> (string \<times> string) list" where
  "seq_fields last_seq grp =
    [(''seq'', int_text last_seq), (''conv_bytes'', digits_of (group_bytes grp)), (''replay_bytes'', ''0'')]"

text \<open>A creation that fails after the claim deletes what it wrote, and reports the failure.\<close>

definition cleanup :: "string \<Rightarrow> 'a io \<Rightarrow> 'a io" where
  "cleanup run_id m w = (case m w of (Inl e, w1) \<Rightarrow> (Inl e, snd (delete run_id w1)) | (Inr x, w1) \<Rightarrow> (Inr x, w1))"

definition create_buffer :: "settings \<Rightarrow> string \<Rightarrow> (string \<times> json) list \<Rightarrow> json list \<Rightarrow> int \<Rightarrow> unit io" where
  "create_buffer se run_id0 state history last_seq =
    bindB (liftB (valid_run_id run_id0)) (\<lambda>run_id.
    bindB (liftB (valid_seq last_seq)) (\<lambda>n.
    bindB (liftB (conversation_payloads state history)) (\<lambda>payloads.
    if MAX_STREAM_BYTES < total_bytes payloads then raiseB BufferFull
    else
    bindB (liftB (open_box se run_id)) (\<lambda>b.
    bindB clock_now (\<lambda>created.
    let (content, marker) = (case ttls se created created of Some t \<Rightarrow> t | None \<Rightarrow> (0, 0)) in
    bindB (seal se b Meta (utf8_encode (stamp_text created))) (\<lambda>stamp.
    bindB (seal_items se b Conv payloads) (\<lambda>recs.
    let groups = groups_of recs in
    bindB (draw se 16) (\<lambda>head_id.
    bindB (seal se b Replay (pack_frame KIND_HEAD head_id 0 1)) (\<lambda>head.
    bindB (atomic [HSETNX (meta_key run_id) ''meta'' stamp, EXPIRE (meta_key run_id) content True]) (\<lambda>claimed.
    if claimed ! 0 \<noteq> RInt 1 then raiseB BufferExists
    else cleanup run_id
      (bindB (atomic
        [DEL [conv_key run_id, replay_key run_id],
         RPUSH (conv_key run_id) (map fst (hd groups)),
         RPUSH (replay_key run_id) [head],
         HSET (meta_key run_id) (seq_fields n (hd groups)),
         EXPIRE (conv_key run_id) content False, EXPIRE (replay_key run_id) content False, EXPIRE (meta_key run_id) marker False])
       (\<lambda>_. push_all se run_id created Conv (tl groups)))))))))))))"

definition delete_buffer :: "string \<Rightarrow> bool io" where
  "delete_buffer run_id0 =
    bindB (liftB (valid_run_id run_id0)) (\<lambda>run_id. bindB (delete run_id) (\<lambda>n. returnB (0 < n)))"

text \<open>Run id, box and check: the first steps of every operation on a buffer.\<close>

definition opened :: "settings \<Rightarrow> string \<Rightarrow> (string \<Rightarrow> box \<Rightarrow> meta \<Rightarrow> 'a io) \<Rightarrow> 'a io" where
  "opened se run_id0 f =
    bindB (liftB (valid_run_id run_id0)) (\<lambda>run_id.
    bindB (liftB (open_box se run_id)) (\<lambda>b.
    bindB (check se run_id b) (f run_id b)))"

definition exists_buffer :: "settings \<Rightarrow> string \<Rightarrow> bool io" where
  "exists_buffer se run_id w =
    (case opened se run_id (\<lambda>_ _ _. returnB True) w of
       (Inl e, w1) \<Rightarrow> if e = BufferMissing \<or> e = BufferExpired then (Inr False, w1) else (Inl e, w1)
     | (Inr x, w1) \<Rightarrow> (Inr x, w1))"

definition touch :: "settings \<Rightarrow> string \<Rightarrow> unit io" where
  "touch se run_id0 = opened se run_id0 (\<lambda>run_id b m. refresh se run_id m)"

definition read_conversation :: "settings \<Rightarrow> string \<Rightarrow> ((string \<times> json) list \<times> (string \<times> json) list list) io" where
  "read_conversation se run_id0 =
    opened se run_id0 (\<lambda>run_id b m.
    bindB (refresh se run_id m) (\<lambda>_.
    bindB (read_stream se run_id b Conv) (\<lambda>entries.
    liftB (case filter (\<lambda>p. fst p = KIND_STATE) entries of
             [st] \<Rightarrow> bindE (load_object (snd st)) (\<lambda>state.
                     bindE (mapE (\<lambda>p. load_object (snd p)) (filter (\<lambda>p. fst p = KIND_ITEM) entries)) (\<lambda>items. Inr (state, items)))
           | _ \<Rightarrow> Inl BufferCorrupt))))"

definition append_conversation :: "settings \<Rightarrow> string \<Rightarrow> json list \<Rightarrow> unit io" where
  "append_conversation se run_id0 items =
    bindB (liftB (valid_run_id run_id0)) (\<lambda>run_id.
    if items = [] then raiseB InvalidBufferInput
    else bindB (liftB (mapE serialize items)) (\<lambda>ps. append_stream se run_id Conv (map (Pair KIND_ITEM) ps)))"

definition next_seq :: "settings \<Rightarrow> string \<Rightarrow> int io" where
  "next_seq se run_id0 =
    opened se run_id0 (\<lambda>run_id b m.
    bindB (expire_commands se run_id (mt_created m)) (\<lambda>cs.
    bindB (atomic (HINCRBY (meta_key run_id) ''seq'' 1 # cs)) (\<lambda>xs.
    if xs ! 1 \<noteq> RInt 1 \<or> xs ! 2 \<noteq> RInt 1 then gone run_id else returnB (int_of_reply (xs ! 0)))))"

definition append_replay_many :: "settings \<Rightarrow> string \<Rightarrow> json list \<Rightarrow> unit io" where
  "append_replay_many se run_id0 messages =
    bindB (liftB (valid_run_id run_id0)) (\<lambda>run_id.
    if messages = [] then raiseB InvalidBufferInput
    else bindB (liftB (mapE (valid_message run_id) messages)) (\<lambda>ps. append_stream se run_id Replay (map (Pair KIND_EVENT) ps)))"

definition append_replay :: "settings \<Rightarrow> string \<Rightarrow> json \<Rightarrow> unit io" where
  "append_replay se run_id message = append_replay_many se run_id [message]"

text \<open>The events by sequence number: the first of each is kept.\<close>

fun collect_events :: "int \<Rightarrow> (char \<times> bytes) list \<Rightarrow> (int \<times> (string \<times> json) list) list \<Rightarrow> buffer_error + (int \<times> (string \<times> json) list) list" where
  "collect_events last_seq [] events = Inr events"
| "collect_events last_seq ((kind, payload) # entries) events =
    (if kind \<noteq> KIND_EVENT then collect_events last_seq entries events
     else bindE (load_object payload) (\<lambda>message.
       (case field message ''seq'' of
          JInt seq \<Rightarrow> collect_events last_seq entries
                        (if last_seq < seq \<and> map_of events seq = None then events @ [(seq, message)] else events)
        | _ \<Rightarrow> Inl BufferCorrupt)))"

definition replay_after :: "settings \<Rightarrow> string \<Rightarrow> int \<Rightarrow> (string \<times> json) list list io" where
  "replay_after se run_id0 last_seq =
    bindB (liftB (valid_run_id run_id0)) (\<lambda>_.
    bindB (liftB (valid_seq last_seq)) (\<lambda>n.
    opened se run_id0 (\<lambda>run_id b m.
    bindB (refresh se run_id m) (\<lambda>_.
    bindB (read_stream se run_id b Replay) (\<lambda>entries.
    liftB (bindE (collect_events n entries []) (\<lambda>events. Inr (map snd (sort_key fst events)))))))))"

end
