(* ===== verification/BufferReads.thy ===== *)
theory BufferReads
  imports RunBuffer
begin

text \<open>
  Reading the records of a stream: a record that comes again changes nothing, what was sealed opens, the
  records of an item give the item back, a prefix of the records of some items gives a prefix of the
  items, and the pages a list is read in do not matter.
\<close>

section \<open>Records that come again\<close>

lemma bindE_Inr: "bindE m f = Inr y \<longleftrightarrow> (\<exists>x. m = Inr x \<and> f x = Inr y)"
  by (cases m) (auto simp: bindE_def)

lemma bindE_assoc: "bindE (bindE m f) g = bindE m (\<lambda>x. bindE (f x) g)"
  by (cases m) (simp_all add: bindE_def)

lemma take_records_append:
  "take_records se b s (xs @ ys) rg = bindE (take_records se b s xs rg) (take_records se b s ys)"
  by (induction xs arbitrary: rg) (simp_all add: bindE_def split: sum.split)

text \<open>A frame a record of the stream may carry, and a record whose item is finished or has its part.\<close>

definition frame_ok :: "stream \<Rightarrow> bytes \<Rightarrow> bool" where
  "frame_ok s plain \<longleftrightarrow> FRAME_SIZE \<le> length plain \<and>
    (case unpack_frame plain of (kind, item_id, index, count) \<Rightarrow>
       kind \<in> set (ALLOWED_KINDS s) \<and> 1 \<le> count \<and> count \<le> MAX_RECORDS_PER_ITEM \<and> index < count)"

definition known :: "bytes \<Rightarrow> reading \<Rightarrow> bool" where
  "known plain rg \<longleftrightarrow>
    (case unpack_frame plain of (kind, item_id, index, count) \<Rightarrow>
       item_id \<in> set (rg_finished rg)
       \<or> (\<exists>parts. map_of (rg_pending rg) item_id = Some (kind, count, parts) \<and> map_of parts index \<noteq> None))"

lemma dict_set_at: "map_of (dict_set k v d) x = (if x = k then Some v else map_of d x)"
  by (induction d) auto

lemma map_of_without_key: "map_of (without_key k d) x = (if x = k then None else map_of d x)"
  by (induction d) (auto simp: without_key_def)

lemma take_record_frame: "take_record s plain rg = Inr rg' \<Longrightarrow> frame_ok s plain"
  by (auto simp: take_record_def frame_ok_def split: if_splits prod.splits)

lemma take_record_known: "take_record s plain rg = Inr rg' \<Longrightarrow> known plain rg'"
  by (auto simp: take_record_def known_def Let_def dict_set_at split: if_splits prod.splits option.splits)

lemma known_stays: "known plain rg \<Longrightarrow> take_record s other rg = Inr rg' \<Longrightarrow> known plain rg'"
  by (auto simp: take_record_def known_def Let_def dict_set_at map_of_without_key split: if_splits prod.splits option.splits)

lemma known_absorbed: "known plain rg \<Longrightarrow> frame_ok s plain \<Longrightarrow> take_record s plain rg = Inr rg"
  by (auto simp: take_record_def known_def frame_ok_def Let_def split: if_splits prod.splits option.splits)

lemma take_records_known: "known plain rg \<Longrightarrow> take_records se b s wires rg = Inr rg' \<Longrightarrow> known plain rg'"
  by (induction wires arbitrary: rg) (auto simp: bindE_Inr intro: known_stays)

lemma taken_absorbed:
  "take_records se b s wires rg = Inr rg' \<Longrightarrow> wire \<in> set wires
    \<Longrightarrow> \<exists>plain. unseal se b s wire = Inr plain \<and> frame_ok s plain \<and> known plain rg'"
proof (induction wires arbitrary: rg)
  case (Cons w ws)
  obtain plain rg1 where u: "unseal se b s w = Inr plain" and t: "take_record s plain rg = Inr rg1"
    and r: "take_records se b s ws rg1 = Inr rg'"
    using Cons.prems(1) by (auto simp: bindE_Inr)
  show ?case
  proof (cases "wire = w")
    case True
    then show ?thesis using u take_record_frame [OF t] take_records_known [OF take_record_known [OF t] r] by blast
  next
    case False
    then show ?thesis using Cons.IH [OF r] Cons.prems(2) by simp
  qed
qed simp

lemma known_absorbed_all:
  "\<forall>wire \<in> set wires. \<exists>plain. unseal se b s wire = Inr plain \<and> frame_ok s plain \<and> known plain rg
    \<Longrightarrow> take_records se b s wires rg = Inr rg"
  by (induction wires) (auto simp: bindE_def known_absorbed)

lemma read_again:
  "take_records se b s wires rg = Inr rg' \<Longrightarrow> set again \<subseteq> set wires \<Longrightarrow> take_records se b s again rg' = Inr rg'"
  by (rule known_absorbed_all) (blast dest: taken_absorbed)

lemma a_repeated_push_reads_once:
  "set again \<subseteq> set (xs @ grp)
    \<Longrightarrow> take_records se b s (xs @ grp @ again @ ys) rg = take_records se b s (xs @ grp @ ys) rg"
proof (cases "take_records se b s (xs @ grp) rg")
  case (Inl e)
  then show ?thesis by (simp add: take_records_append [of _ _ _ "xs @ grp" for xs grp, simplified append_assoc] bindE_def)
next
  case (Inr rg')
  assume "set again \<subseteq> set (xs @ grp)"
  with Inr have "take_records se b s again rg' = Inr rg'" by (rule read_again)
  with Inr show ?thesis
    by (simp add: take_records_append [of _ _ _ "xs @ grp" for xs grp, simplified append_assoc]
        take_records_append [of _ _ _ again] bindE_def)
qed

section \<open>Sealed and opened\<close>

text \<open>
  What the buffer relies on of AES-GCM and of the random source: a sealed text opens to what was sealed, is
  the tag longer than it, and as many bytes are drawn as asked for.
\<close>

definition crypto_ok :: "settings \<Rightarrow> bool" where
  "crypto_ok se \<longleftrightarrow>
    (\<forall>k n p a. se_decrypt se k n (se_encrypt se k n p a) a = Some p \<and> length (se_encrypt se k n p a) = length p + TAG_BYTES)
    \<and> (\<forall>i n. length (se_random se i n) = n)"

definition box_ok :: "box \<Rightarrow> bool" where
  "box_ok b \<longleftrightarrow> key_id_ok (co_key_id (bx_config b)) \<and> secret_of b (co_key_id (bx_config b)) \<noteq> None"

lemma add_previous_keeps: "add_previous key_id d secrets = Inr secrets' \<Longrightarrow> map_of secrets' key_id = map_of secrets key_id"
  by (induction d arbitrary: secrets) (auto split: if_splits option.splits)

lemma key_id_default: "key_id_ok DEFAULT_KEY_ID"
  by code_simp

lemma open_box_ok: "open_box se run_id = Inr b \<Longrightarrow> box_ok b \<and> bx_run b = run_id"
  by (auto simp: open_box_def read_config_def box_ok_def secret_of_def Let_def key_id_default result_iff add_previous_keeps
      split: option.splits if_splits json.splits)

lemma b64_char_no_dot: "b64_char n \<noteq> CHR ''.''"
proof
  assume dot: "b64_char n = CHR ''.''"
  have "(of_char (b64_char n) :: nat) \<noteq> 46" by (auto simp: b64_char_def)
  then show False unfolding dot by simp
qed

lemma b64e_no_dot: "CHR ''.'' \<notin> set (b64e bs)"
  by (induction bs rule: b64e.induct) (auto simp: Let_def dest: b64_char_no_dot [symmetric, THEN notE])

lemma key_id_no_dot: "key_id_ok k \<Longrightarrow> CHR ''.'' \<notin> set k"
  by (auto simp: key_id_ok_def id_letter_def ascii_alpha_def ascii_lower_def ascii_upper_def ascii_digit_def)

lemma wire_parts: "key_id_ok k \<Longrightarrow> split_on (CHR ''.'') (wire_text k raw) = [FORMAT_VERSION, k, b64e raw]"
  using split_on_append_sep [of "CHR ''.''" FORMAT_VERSION "k @ ''.'' @ b64e raw"]
    split_on_append_sep [OF key_id_no_dot, of k "b64e raw"] split_on_no_sep [OF b64e_no_dot, of raw]
  by (simp add: wire_text_def FORMAT_VERSION_def)

lemma unseal_sealed:
  assumes "crypto_ok se" "box_ok b" "length nonce = NONCE_BYTES"
  shows "unseal se b s (seal_with se b s nonce plain) = Inr plain"
  using assms
  by (auto simp: unseal_def seal_with_def Let_def wire_parts box_ok_def b64_round_trip crypto_ok_def split: option.splits)

section \<open>The pieces of an item\<close>

lemma concat_chunks: "0 < n \<Longrightarrow> concat (byte_chunks n bs) = bs"
  by (induction n bs rule: byte_chunks.induct) (subst byte_chunks.simps, simp)

lemma chunks_count: "0 < n \<Longrightarrow> length (byte_chunks n bs) * n < length bs + n"
proof (induction n bs rule: byte_chunks.induct)
  case (1 n bs)
  show ?case
  proof (cases "length bs \<le> n")
    case True
    then show ?thesis using 1 by (subst byte_chunks.simps) (simp add: byte_chunks.simps [of n "[]"])
  next
    case False
    then show ?thesis using 1 by (subst byte_chunks.simps) auto
  qed
qed

lemma chunks_length: "part \<in> set (byte_chunks n bs) \<Longrightarrow> length part \<le> n"
proof (induction n bs rule: byte_chunks.induct)
  case (1 n bs)
  then show ?case by (subst (asm) byte_chunks.simps) (auto split: if_splits)
qed

lemma concat_item_parts: "concat (item_parts payload) = payload"
  using concat_chunks [of CHUNK_BYTES payload] by (auto simp: item_parts_def CHUNK_BYTES_def split: if_splits)

lemma item_parts_length: "part \<in> set (item_parts payload) \<Longrightarrow> length part \<le> CHUNK_BYTES"
  by (auto simp: item_parts_def split: if_splits dest: chunks_length)

lemma item_parts_count: "length payload \<le> MAX_ITEM_BYTES \<Longrightarrow> length (item_parts payload) \<le> MAX_RECORDS_PER_ITEM"
  using chunks_count [of CHUNK_BYTES payload]
  by (auto simp: item_parts_def CHUNK_BYTES_def MAX_ITEM_BYTES_def MAX_RECORDS_PER_ITEM_def)

lemma item_parts_nonempty [simp]: "item_parts payload \<noteq> []"
  by (simp add: item_parts_def)

text \<open>The plain records of an item, and of a sequence of items with their ids.\<close>

definition frame_of :: "char \<Rightarrow> bytes \<Rightarrow> nat \<Rightarrow> nat \<times> bytes \<Rightarrow> bytes" where
  "frame_of kind item_id count p = pack_frame kind item_id (fst p) count @ snd p"

definition item_frames :: "bytes \<times> char \<times> bytes \<Rightarrow> bytes list" where
  "item_frames it =
    (case it of (item_id, kind, payload) \<Rightarrow>
       let parts = item_parts payload in map (frame_of kind item_id (length parts)) (enumerate 0 parts))"

definition item_fits :: "stream \<Rightarrow> char \<times> bytes \<Rightarrow> bool" where
  "item_fits s item \<longleftrightarrow> fst item \<in> set (ALLOWED_KINDS s) \<and> length (snd item) \<le> MAX_ITEM_BYTES"

text \<open>Reading plain records.\<close>

fun take_plains :: "stream \<Rightarrow> bytes list \<Rightarrow> reading \<Rightarrow> buffer_error + reading" where
  "take_plains s [] rg = Inr rg"
| "take_plains s (p # ps) rg = bindE (take_record s p rg) (take_plains s ps)"

lemma take_plains_append: "take_plains s (ps @ qs) rg = bindE (take_plains s ps rg) (take_plains s qs)"
  by (induction ps arbitrary: rg) (simp_all add: bindE_def split: sum.split)

lemma take_records_plains:
  "map (unseal se b s) wires = map Inr plains \<Longrightarrow> take_records se b s wires rg = take_plains s plains rg"
proof (induction wires arbitrary: plains rg)
  case (Cons w ws)
  then obtain p ps where "plains = p # ps" by (cases plains) auto
  with Cons show ?case by (simp add: bindE_def split: sum.split)
qed simp

definition used_ids :: "reading \<Rightarrow> bytes set" where
  "used_ids rg = set (rg_finished rg) \<union> fst ` set (rg_pending rg)"

lemma enumerate_snoc: "enumerate n (xs @ [x]) = enumerate n xs @ [(n + length xs, x)]"
  by (simp add: enumerate_append_eq)

lemma map_of_enumerate: "map_of (enumerate 0 xs) i = (if i < length xs then Some (xs ! i) else None)"
  by (induction xs rule: rev_induct) (auto simp: enumerate_snoc nth_append map_add_def map_of_append fun_eq_iff split: option.split)

lemma without_key_set: "without_key k (dict_set k v d) = without_key k d"
  by (induction d) (auto simp: without_key_def)

lemma without_key_fresh: "k \<notin> fst ` set d \<Longrightarrow> without_key k d = d"
  by (auto simp: without_key_def filter_id_conv)

text \<open>After the first \<open>m\<close> records of an item with a new id.\<close>

definition with_part :: "char \<Rightarrow> bytes \<Rightarrow> bytes list \<Rightarrow> nat \<Rightarrow> reading \<Rightarrow> reading" where
  "with_part kind item_id parts m rg =
    (if m = 0 then rg
     else if m < length parts
     then rg\<lparr>rg_pending := dict_set item_id (kind, length parts, enumerate 0 (take m parts)) (rg_pending rg)\<rparr>
     else rg\<lparr>rg_finished := item_id # rg_finished rg, rg_out := rg_out rg @ [(kind, concat parts)]\<rparr>)"

lemma take_next_part:
  assumes "m < length parts" "length parts \<le> MAX_RECORDS_PER_ITEM" "length item_id = 16" "kind \<in> set (ALLOWED_KINDS s)"
    and "item_id \<notin> used_ids rg"
  shows "take_record s (frame_of kind item_id (length parts) (m, parts ! m)) (with_part kind item_id parts m rg)
    = Inr (with_part kind item_id parts (Suc m) rg)"
proof -
  have small: "m < 4294967296" "length parts < 4294967296" using assms by (simp_all add: MAX_RECORDS_PER_ITEM_def)
  have un: "unpack_frame (frame_of kind item_id (length parts) (m, parts ! m)) = (kind, item_id, m, length parts)"
    "\<not> length (frame_of kind item_id (length parts) (m, parts ! m)) < FRAME_SIZE"
    "drop FRAME_SIZE (frame_of kind item_id (length parts) (m, parts ! m)) = parts ! m"
    using frame_round_trip [OF assms(3) small] frame_length [OF assms(3), of kind m "length parts"] by (simp_all add: frame_of_def)
  have fresh: "item_id \<notin> set (rg_finished rg)" "map_of (rg_pending rg) item_id = None" "item_id \<notin> fst ` set (rg_pending rg)"
    using assms(5) by (auto simp: used_ids_def map_of_eq_None_iff)
  have ext: "dict_set m (parts ! m) (enumerate 0 (take m parts)) = enumerate 0 (take (Suc m) parts)"
    using assms(1) by (subst dict_set_fresh) (auto simp: take_Suc_conv_app_nth enumerate_snoc in_set_enumerate_eq image_iff)
  have all: "map (\<lambda>i. the (map_of (enumerate 0 parts) i)) [0..<length parts] = parts"
    by (rule nth_equalityI) (simp_all add: map_of_enumerate)
  have new: "map_of (enumerate 0 (take m parts)) m = None" by (simp add: map_of_enumerate)
  show ?thesis
  proof (cases "m = 0")
    case True
    obtain x xs where parts: "parts = x # xs" using assms(1) by (cases parts) auto
    then show ?thesis using True assms(2-4) fresh un
      by (cases xs) (auto simp: take_record_def with_part_def Let_def without_key_fresh)
  next
    case False
    then show ?thesis using assms(1-4) fresh ext all un new
      by (auto simp: take_record_def with_part_def Let_def without_key_fresh without_key_set dict_set_twice Suc_le_eq)
  qed
qed

lemma item_frames_length: "length (item_frames (item_id, kind, payload)) = length (item_parts payload)"
  by (simp add: item_frames_def Let_def)

lemma item_frames_nth:
  "m < length (item_parts payload) \<Longrightarrow>
    item_frames (item_id, kind, payload) ! m = frame_of kind item_id (length (item_parts payload)) (m, item_parts payload ! m)"
  by (simp add: item_frames_def Let_def nth_enumerate_eq)

lemma take_item_prefix:
  assumes "item_fits s (kind, payload)" "length item_id = 16" "item_id \<notin> used_ids rg" "m \<le> length (item_parts payload)"
  shows "take_plains s (take m (item_frames (item_id, kind, payload))) rg = Inr (with_part kind item_id (item_parts payload) m rg)"
  using assms(4)
proof (induction m)
  case 0
  then show ?case by (simp add: with_part_def)
next
  case (Suc m)
  then have "take (Suc m) (item_frames (item_id, kind, payload))
    = take m (item_frames (item_id, kind, payload)) @ [frame_of kind item_id (length (item_parts payload)) (m, item_parts payload ! m)]"
    by (simp add: take_Suc_conv_app_nth item_frames_length item_frames_nth)
  moreover have "take_record s (frame_of kind item_id (length (item_parts payload)) (m, item_parts payload ! m))
      (with_part kind item_id (item_parts payload) m rg) = Inr (with_part kind item_id (item_parts payload) (Suc m) rg)"
    by (rule take_next_part) (use Suc.prems assms in \<open>auto simp: item_fits_def intro: item_parts_count\<close>)
  ultimately show ?case using Suc by (simp add: take_plains_append)
qed

lemma used_ids_with_part: "used_ids (with_part kind item_id parts m rg) \<subseteq> insert item_id (used_ids rg)"
  by (auto simp: used_ids_def with_part_def)

lemma take_item:
  assumes "item_fits s (kind, payload)" "length item_id = 16" "item_id \<notin> used_ids rg"
  shows "take_plains s (item_frames (item_id, kind, payload)) rg
    = Inr (rg\<lparr>rg_finished := item_id # rg_finished rg, rg_out := rg_out rg @ [(kind, payload)]\<rparr>)"
  using take_item_prefix [OF assms, of "length (item_parts payload)"]
  by (simp add: item_frames_length with_part_def concat_item_parts)

text \<open>Items with ids of their own: a prefix of their records reads as a prefix of the items.\<close>

definition new_items :: "stream \<Rightarrow> (bytes \<times> char \<times> bytes) list \<Rightarrow> reading \<Rightarrow> bool" where
  "new_items s its rg \<longleftrightarrow> distinct (map fst its) \<and> set (map fst its) \<inter> used_ids rg = {}
    \<and> (\<forall>it \<in> set its. length (fst it) = 16 \<and> item_fits s (snd it))"

lemma new_items_Cons:
  assumes "new_items s ((item_id, kind, payload) # its) rg"
  shows "item_fits s (kind, payload)" "length item_id = 16" "item_id \<notin> used_ids rg"
    and "new_items s its (rg\<lparr>rg_finished := item_id # rg_finished rg, rg_out := out\<rparr>)"
  using assms by (auto simp: new_items_def used_ids_def)

lemma take_some_records:
  assumes "new_items s its rg"
  shows "\<exists>k \<le> length its. \<exists>rg'. take_plains s (take m (concat (map item_frames its))) rg = Inr rg'
    \<and> rg_out rg' = rg_out rg @ map snd (take k its) \<and> used_ids rg' \<subseteq> used_ids rg \<union> set (map fst its)
    \<and> (length (concat (map item_frames its)) \<le> m \<longrightarrow> k = length its)"
  using assms
proof (induction its arbitrary: rg m)
  case Nil
  then show ?case by simp
next
  case (Cons it its)
  obtain item_id kind payload where it: "it = (item_id, kind, payload)" by (cases it)
  let ?fs = "item_frames (item_id, kind, payload)"
  note new = new_items_Cons [OF Cons.prems [unfolded it]]
  show ?case
  proof (cases "m < length ?fs")
    case True
    have "take_plains s (take m ?fs) rg = Inr (with_part kind item_id (item_parts payload) m rg)"
      using True by (intro take_item_prefix new) (simp add: item_frames_length)
    moreover have "rg_out (with_part kind item_id (item_parts payload) m rg) = rg_out rg"
      using True by (simp add: with_part_def item_frames_length)
    ultimately show ?thesis
      using True used_ids_with_part [of kind item_id "item_parts payload" m rg]
      by (intro exI [of _ 0]) (auto simp: it)
  next
    case False
    let ?rg = "rg\<lparr>rg_finished := item_id # rg_finished rg, rg_out := rg_out rg @ [(kind, payload)]\<rparr>"
    obtain k rg' where k: "k \<le> length its"
      and t: "take_plains s (take (m - length ?fs) (concat (map item_frames its))) ?rg = Inr rg'"
      and o: "rg_out rg' = rg_out ?rg @ map snd (take k its)" and u: "used_ids rg' \<subseteq> used_ids ?rg \<union> set (map fst its)"
      and all: "length (concat (map item_frames its)) \<le> m - length ?fs \<longrightarrow> k = length its"
      using Cons.IH [OF new(4) [of "rg_out rg @ [(kind, payload)]"], of "m - length ?fs"] by blast
    have "take_plains s (take m (concat (map item_frames (it # its)))) rg = Inr rg'"
      using False t by (simp add: it take_plains_append take_item [OF new(1-3)])
    moreover have "rg_out rg' = rg_out rg @ map snd (take (Suc k) (it # its))" using o by (simp add: it)
    moreover have "used_ids rg' \<subseteq> used_ids rg \<union> set (map fst (it # its))" using u by (auto simp: it used_ids_def)
    moreover have "length (concat (map item_frames (it # its))) \<le> m \<longrightarrow> Suc k = length (it # its)"
      using all by (auto simp: it)
    ultimately show ?thesis using k by (intro exI [of _ "Suc k"]) auto
  qed
qed

section \<open>Requests that landed\<close>

text \<open>The records pushed by a write: some of its groups, in order, each once or twice; all of them when it returned.\<close>

inductive landed :: "bool \<Rightarrow> 'a list list \<Rightarrow> 'a list \<Rightarrow> bool" where
  landed_all: "landed full [] []"
| landed_stop: "landed False gs []"
| landed_once: "landed full gs l \<Longrightarrow> landed full (g # gs) (g @ l)"
| landed_twice: "landed full gs l \<Longrightarrow> landed full (g # gs) (g @ g @ l)"

lemma take_records_twice: "take_records se b s (g @ g @ l) rg = take_records se b s (g @ l) rg"
  using a_repeated_push_reads_once [of g "[]" g se b s l rg] by simp

lemma landed_reads:
  "landed full gs l \<Longrightarrow>
    \<exists>k \<le> length gs. (full \<longrightarrow> k = length gs) \<and> (\<forall>rg. take_records se b s l rg = take_records se b s (concat (take k gs)) rg)"
proof (induction rule: landed.induct)
  case (landed_all full)
  then show ?case by simp
next
  case (landed_stop gs)
  then show ?case by (intro exI [of _ 0]) simp
next
  case (landed_once full gs l g)
  then obtain k where "k \<le> length gs" "full \<longrightarrow> k = length gs"
    "\<forall>rg. take_records se b s l rg = take_records se b s (concat (take k gs)) rg" by blast
  then show ?case by (intro exI [of _ "Suc k"]) (simp add: take_records_append bindE_def split: sum.split)
next
  case (landed_twice full gs l g)
  then obtain k where "k \<le> length gs" "full \<longrightarrow> k = length gs"
    "\<forall>rg. take_records se b s l rg = take_records se b s (concat (take k gs)) rg" by blast
  then show ?case by (intro exI [of _ "Suc k"]) (simp add: take_records_twice, simp add: take_records_append bindE_def split: sum.split)
qed

lemma concat_take_prefix: "\<exists>m. concat (take k gs) = take m (concat gs) \<and> (length gs \<le> k \<longrightarrow> length (concat gs) \<le> m)"
proof -
  have "concat gs = concat (take k gs) @ concat (drop k gs)" by (simp flip: concat_append)
  then have "concat (take k gs) = take (length (concat (take k gs))) (concat gs)" by simp
  then show ?thesis by (intro exI [of _ "length (concat (take k gs))"]) simp
qed

section \<open>Pages\<close>

text \<open>Whatever the pages, the records of a list are read in its order, and once.\<close>

lemma read_pages_quiet:
  assumes "bw_script w = []" "rd_store (purge (bw_redis w)) (stream_key run_id s) = Some (SList l)" "l \<noteq> []"
  shows "read_pages se run_id b s start p rg w =
    ((case take_records se b s (drop start l) rg of Inl e \<Rightarrow> Inl e | Inr rg' \<Rightarrow> Inr (rg_out rg')),
     w\<lparr>bw_redis := purge (bw_redis w)\<rparr>)"
  using assms
proof (induction se run_id b s start p rg w rule: read_pages.induct)
  case (1 se run_id b s start p rg w)
  let ?w = "w\<lparr>bw_redis := purge (bw_redis w)\<rparr>"
  let ?wires = "take (p + 1) (drop start l)"
  have c: "call (LRANGE (stream_key run_id s) start (start + p)) w = (Inr (RItems ?wires), ?w)"
    using "1.prems" by (simp add: call_quiet list_at_def)
  have first: "\<not> (start = 0 \<and> ?wires = [])" using "1.prems"(3) by auto
  have body: "read_pages se run_id b s start p rg w =
    (case take_records se b s ?wires rg of
       Inl e \<Rightarrow> (Inl e, ?w)
     | Inr rg' \<Rightarrow>
         if length ?wires \<noteq> p + 1 then (Inr (rg_out rg'), ?w)
         else read_pages se run_id b s (start + length ?wires) (next_page ?wires) rg' ?w)"
    by (subst read_pages.simps) (simp only: c first prod.case sum.case reply.case if_False)
  have split: "take_records se b s (drop start l) rg
    = bindE (take_records se b s ?wires rg) (take_records se b s (drop (start + (p + 1)) l))"
    by (subst append_take_drop_id [of "p + 1" "drop start l", symmetric], subst take_records_append) (simp add: add.commute)
  show ?case
  proof (cases "take_records se b s ?wires rg")
    case (Inl e)
    then show ?thesis using split Inl by (simp add: body)
  next
    case (Inr rg')
    show ?thesis
    proof (cases "length ?wires = p + 1")
      case True
      have "read_pages se run_id b s (start + length ?wires) (next_page ?wires) rg' ?w =
        ((case take_records se b s (drop (start + length ?wires) l) rg' of Inl e \<Rightarrow> Inl e | Inr rg' \<Rightarrow> Inr (rg_out rg')),
         ?w\<lparr>bw_redis := purge (bw_redis ?w)\<rparr>)"
        by (rule "1.IH" [OF c [symmetric] refl refl first Inr]) (use True "1.prems" in simp_all)
      then show ?thesis using True split Inr by (simp add: body)
    next
      case False
      then have "drop (start + (p + 1)) l = []" by auto
      then show ?thesis using False split Inr by (simp add: body)
    qed
  qed
qed

end
