(* ===== verification/BufferInvariants.thy ===== *)
theory BufferInvariants
  imports BufferReads
begin

text \<open>
  Invariants of the operations: a predicate of the world that every request of this module and every draw
  keeps is kept by every operation that does not push. One such predicate is the content of a list, which
  stays as it is or is lost, whatever other callers, time and the connection do.
\<close>

section \<open>Invariants of the operations\<close>

definition preserves :: "(buffer_world \<Rightarrow> bool) \<Rightarrow> 'a io \<Rightarrow> bool" where
  "preserves I m \<longleftrightarrow> (\<forall>w. I w \<longrightarrow> I (snd (m w)))"

named_theorems preserving "how a computation is built from ones that preserve an invariant"

lemma preservesD: "preserves I m \<Longrightarrow> m w = (x, w') \<Longrightarrow> I w \<Longrightarrow> I w'"
  unfolding preserves_def by (metis snd_conv)

lemma preserves_bind [preserving]: "preserves I m \<Longrightarrow> (\<And>x. preserves I (f x)) \<Longrightarrow> preserves I (bindB m f)"
  by (auto simp: preserves_def bindB_def split: prod.splits sum.splits)

lemma preserves_return [preserving]: "preserves I (returnB x)"
  by (simp add: preserves_def returnB_def)

lemma preserves_raise [preserving]: "preserves I (raiseB e)"
  by (simp add: preserves_def raiseB_def)

lemma preserves_lift [preserving]: "preserves I (liftB m)"
  by (simp add: preserves_def liftB_def)

lemma preserves_bind_lift: "(\<And>x. m = Inr x \<Longrightarrow> preserves I (f x)) \<Longrightarrow> preserves I (bindB (liftB m) f)"
  by (cases m) (simp_all add: preserves_def bindB_def liftB_def)

lemma preserves_valid: "preserves I (f run_id) \<Longrightarrow> preserves I (bindB (liftB (valid_run_id run_id)) f)"
  by (rule preserves_bind_lift) (simp add: valid_run_id_def split: if_splits)

lemma preserves_clock [preserving]: "preserves I clock_now"
  by (simp add: preserves_def clock_now_def)

lemma preserves_if [preserving]: "(c \<Longrightarrow> preserves I m) \<Longrightarrow> (\<not> c \<Longrightarrow> preserves I m') \<Longrightarrow> preserves I (if c then m else m')"
  by simp

lemma preserves_option [preserving]:
  "preserves I m \<Longrightarrow> (\<And>x. preserves I (f x)) \<Longrightarrow> preserves I (case v of None \<Rightarrow> m | Some x \<Rightarrow> f x)"
  by (simp split: option.split)

lemma preserves_pair [preserving]: "(\<And>x y. preserves I (f x y)) \<Longrightarrow> preserves I (case p of (x, y) \<Rightarrow> f x y)"
  by (simp split: prod.split)

text \<open>The requests this module makes on a buffer that exists, but for the pushes.\<close>

definition expires :: "string \<Rightarrow> nat \<Rightarrow> nat \<Rightarrow> command list" where
  "expires run_id content marker =
    [EXPIRE (conv_key run_id) content False, EXPIRE (replay_key run_id) content False, EXPIRE (meta_key run_id) marker False]"

inductive own_request :: "string \<Rightarrow> command list \<Rightarrow> bool" where
  read_meta: "own_request run_id [HMGET (meta_key run_id) fs]"
| remove: "own_request run_id [DEL (buffer_keys run_id)]"
| page: "own_request run_id [LRANGE (stream_key run_id s) start stop]"
| expire: "1 \<le> content \<Longrightarrow> content \<le> marker \<Longrightarrow> own_request run_id (expires run_id content marker)"
| count: "1 \<le> content \<Longrightarrow> content \<le> marker
    \<Longrightarrow> own_request run_id (HINCRBY (meta_key run_id) ''seq'' 1 # expires run_id content marker)"

lemma ttls_result: "ttls se created now = Some (content, marker) \<Longrightarrow> 1 \<le> content \<and> content \<le> marker"
  by (auto simp: ttls_def Let_def split: if_splits)

lemma expire_commands_result:
  "expire_commands se run_id created w = (Inr cs, w') \<Longrightarrow>
    w' = w \<and> (\<exists>content marker. ttls se created (rd_clock (bw_redis w)) = Some (content, marker) \<and> cs = expires run_id content marker)"
  by (auto simp: expire_commands_def bindB_def returnB_def raiseB_def clock_now_def expires_def
      split: option.splits prod.splits sum.splits)

locale buffer_invariant =
  fixes se :: settings and run_id :: string and I :: "buffer_world \<Rightarrow> bool"
  assumes send_keeps: "own_request run_id cs \<Longrightarrow> preserves I (send cs)"
    and draw_keeps: "preserves I (draw se n)"
begin

lemma call_keeps: "own_request run_id [c] \<Longrightarrow> preserves I (call c)"
  unfolding call_def by (intro preserving send_keeps)

lemma atomic_keeps: "own_request run_id cs \<Longrightarrow> preserves I (atomic cs)"
  unfolding atomic_def by (intro preserving send_keeps)

lemma delete_keeps: "preserves I (delete run_id)"
  unfolding delete_def by (intro preserving call_keeps own_request.remove)

lemma gone_keeps: "preserves I (gone run_id)"
  unfolding gone_def by (intro preserving delete_keeps)

lemma expire_commands_keeps: "preserves I (expire_commands se run_id created)"
  unfolding expire_commands_def by (intro preserving delete_keeps)

lemma check_keeps: "preserves I (check se run_id b)"
  unfolding check_def
  by (intro preserving call_keeps own_request.read_meta) (auto intro!: preserving delete_keeps split: reply.split list.split)

lemma after_expire_commands:
  assumes "\<And>content marker. 1 \<le> content \<Longrightarrow> content \<le> marker \<Longrightarrow> preserves I (f (expires run_id content marker))"
  shows "preserves I (bindB (expire_commands se run_id created) f)"
  unfolding preserves_def
proof (intro allI impI)
  fix w assume w: "I w"
  obtain x w1 where e: "expire_commands se run_id created w = (x, w1)" by fastforce
  have w1: "I w1" by (rule preservesD [OF expire_commands_keeps e w])
  show "I (snd (bindB (expire_commands se run_id created) f w))"
  proof (cases x)
    case (Inr cs)
    then obtain content marker where "cs = expires run_id content marker" "1 \<le> content" "content \<le> marker"
      using expire_commands_result [of se run_id created w cs w1] ttls_result e by blast
    then show ?thesis using assms w1 by (simp add: bindB_def e Inr preserves_def)
  qed (simp add: bindB_def e w1)
qed

lemma refresh_keeps: "preserves I (refresh se run_id m)"
  unfolding refresh_def by (intro after_expire_commands preserving atomic_keeps gone_keeps own_request.expire)

lemma read_pages_keeps: "se' = se \<Longrightarrow> r = run_id \<Longrightarrow> I w \<Longrightarrow> I (snd (read_pages se' r b s start p rg w))"
proof (induction se' r b s start p rg w rule: read_pages.induct)
  case (1 se' r b s start p rg w)
  obtain x w1 where c: "call (LRANGE (stream_key run_id s) start (start + p)) w = (x, w1)"
    by (cases "call (LRANGE (stream_key run_id s) start (start + p)) w")
  have w1: "I w1" by (rule preservesD [OF call_keeps [OF own_request.page] c "1.prems"(3)])
  have g: "I (snd ((gone run_id :: (char \<times> bytes) list io) w1))" using gone_keeps w1 unfolding preserves_def by blast
  have r: "I (snd (read_pages se run_id b s (start + length wires) (next_page wires) rg' w1))"
    if "x = Inr (RItems wires)" "\<not> (start = 0 \<and> wires = [])" "take_records se b s wires rg = Inr rg'" "\<not> length wires \<noteq> p + 1" for wires rg'
    using "1.IH" [OF c [symmetric, folded "1.prems"(2)] that(1) refl that(2) that(3) [folded "1.prems"(1)] that(4) "1.prems"(1,2) w1]
      "1.prems"(1,2) by simp
  show ?case
    unfolding "1.prems"(1,2) by (subst read_pages.simps) (use w1 g r in \<open>auto simp: c split: sum.splits reply.splits\<close>)
qed

lemma read_stream_keeps: "preserves I (read_stream se run_id b s)"
  unfolding read_stream_def preserves_def using read_pages_keeps by blast

text \<open>The operations that only read, refresh, count or delete.\<close>

lemma opened_keeps: "(\<And>r b m. r = run_id \<Longrightarrow> preserves I (f r b m)) \<Longrightarrow> preserves I (opened se run_id f)"
  unfolding opened_def by (intro preserves_bind_lift preserving check_keeps) (auto simp: valid_run_id_def check_keeps split: if_splits)

lemma touch_keeps: "preserves I (touch se run_id)"
  unfolding touch_def by (intro opened_keeps) (simp add: refresh_keeps)

lemma read_conversation_keeps: "preserves I (read_conversation se run_id)"
  unfolding read_conversation_def by (intro opened_keeps) (auto intro!: preserving refresh_keeps read_stream_keeps)

lemma replay_after_keeps: "preserves I (replay_after se run_id n)"
  unfolding replay_after_def
  by (intro preserving opened_keeps) (auto intro!: preserving refresh_keeps read_stream_keeps)

lemma next_seq_keeps: "preserves I (next_seq se run_id)"
  unfolding next_seq_def
  by (intro opened_keeps) (auto intro!: after_expire_commands preserving atomic_keeps gone_keeps own_request.count)

lemma mapB_keeps: "(\<And>x. preserves I (f x)) \<Longrightarrow> preserves I (mapB f xs)"
  by (induction xs) (auto intro!: preserving)

lemma seal_keeps: "preserves I (seal se b s plain)"
  unfolding seal_def by (intro preserving draw_keeps)

lemma seal_items_keeps: "preserves I (seal_items se b s items)"
  unfolding seal_items_def seal_item_def seal_part_def Let_def by (intro preserving mapB_keeps draw_keeps seal_keeps)

end

section \<open>A list of the store under faults and other callers\<close>

fun command_keys :: "command \<Rightarrow> string list" where
  "command_keys (HMGET k fs) = [k]"
| "command_keys (HSETNX k f v) = [k]"
| "command_keys (HSET k fvs) = [k]"
| "command_keys (HINCRBY k f n) = [k]"
| "command_keys (RPUSH k vs) = [k]"
| "command_keys (RPUSHX k vs) = [k]"
| "command_keys (LRANGE k start stop) = [k]"
| "command_keys (EXPIRE k secs lt) = [k]"
| "command_keys (DEL ks) = ks"

text \<open>The other callers leave the keys of the run alone.\<close>

definition foreign :: "string \<Rightarrow> command list \<Rightarrow> bool" where
  "foreign run_id cs \<longleftrightarrow> (\<forall>c \<in> set cs. set (command_keys c) \<inter> set (buffer_keys run_id) = {})"

definition undisturbed :: "string \<Rightarrow> buffer_world \<Rightarrow> bool" where
  "undisturbed run_id w \<longleftrightarrow> (\<forall>t \<in> set (bw_script w). \<forall>cs \<in> set (tn_others t). foreign run_id cs)"

text \<open>What the store holds under a key now, and when that expires.\<close>

definition cell :: "redis \<Rightarrow> string \<Rightarrow> stored option \<times> nat option" where
  "cell r k = (rd_store (purge r) k, rd_expires (purge r) k)"

definition raw_cell :: "redis \<Rightarrow> string \<Rightarrow> stored option \<times> nat option" where
  "raw_cell r k = (rd_store r k, rd_expires r k)"

lemma delete_keys_snd:
  "snd (delete_keys (k # ks) r) =
    (if rd_store r k = None then snd (delete_keys ks r)
     else snd (delete_keys ks (drop_key k r)))"
  by (simp add: case_prod_beta)

lemma do_commands_snd:
  "snd (do_commands (c # cs) r) = (case do_command c r of None \<Rightarrow> r | Some (x, r1) \<Rightarrow> snd (do_commands cs r1))"
  by (simp add: case_prod_beta split: option.split)

lemma delete_keys_frame: "k \<notin> set ks \<Longrightarrow> raw_cell (snd (delete_keys ks r)) k = raw_cell r k"
  by (induction ks arbitrary: r) (auto simp: raw_cell_def delete_keys_snd simp del: delete_keys.simps(2))

lemma delete_keys_clock: "rd_clock (snd (delete_keys ks r)) = rd_clock r"
  by (induction ks arbitrary: r) (auto simp: delete_keys_snd simp del: delete_keys.simps(2))

lemma do_command_clock: "do_command c r = Some (x, r') \<Longrightarrow> rd_clock r' = rd_clock r"
proof (cases c)
  case (DEL ks)
  assume "do_command c r = Some (x, r')"
  then show ?thesis using DEL delete_keys_clock [of ks r] by (auto simp: case_prod_beta)
qed (auto simp: Let_def split: if_splits option.splits)

lemma do_command_frame: "do_command c r = Some (x, r') \<Longrightarrow> k \<notin> set (command_keys c) \<Longrightarrow> raw_cell r' k = raw_cell r k"
proof (cases c)
  case (DEL ks)
  assume "do_command c r = Some (x, r')" "k \<notin> set (command_keys c)"
  then show ?thesis using DEL delete_keys_frame [of k ks r] by (auto split: prod.splits)
qed (auto simp: Let_def raw_cell_def split: if_splits option.splits)

lemma do_commands_clock: "rd_clock (snd (do_commands cs r)) = rd_clock r"
  by (induction cs arbitrary: r) (auto simp: do_commands_snd simp del: do_commands.simps(2) dest: do_command_clock split: option.split)

lemma do_commands_frame: "\<forall>c \<in> set cs. k \<notin> set (command_keys c) \<Longrightarrow> raw_cell (snd (do_commands cs r)) k = raw_cell r k"
proof (induction cs arbitrary: r)
  case (Cons c cs)
  show ?case
  proof (cases "do_command c r")
    case (Some p)
    then obtain x r1 where p: "do_command c r = Some (x, r1)" by (cases p) auto
    have "raw_cell (snd (do_commands cs r1)) k = raw_cell r1 k" using Cons by simp
    also have "\<dots> = raw_cell r k" using do_command_frame [OF p] Cons.prems by simp
    finally show ?thesis by (simp add: p do_commands_snd del: do_commands.simps(2))
  qed simp
qed simp

lemma request_clock: "rd_clock (snd (exec_request cs r)) = rd_clock r"
  by (simp add: exec_request_def do_commands_clock)

lemma raw_cell_purge: "raw_cell (purge r) k = cell r k"
  by (simp add: raw_cell_def cell_def)

lemma cell_of_raw: "raw_cell r k = raw_cell r' k \<Longrightarrow> rd_clock r = rd_clock r' \<Longrightarrow> cell r k = cell r' k"
  by (cases "rd_expires r' k") (simp_all add: cell_def raw_cell_def purge_at expired_def)

lemma request_frame:
  assumes "\<forall>c \<in> set cs. k \<notin> set (command_keys c)"
  shows "cell (snd (exec_request cs r)) k = cell r k"
proof -
  have "cell (snd (exec_request cs r)) k = cell (purge r) k"
    by (rule cell_of_raw) (simp_all add: exec_request_def do_commands_frame assms do_commands_clock)
  then show ?thesis by (simp add: cell_def)
qed

lemma foreign_requests:
  assumes "\<forall>cs \<in> set css. foreign run_id cs" "k \<in> set (buffer_keys run_id)"
  shows "cell (fold (\<lambda>cs r. snd (exec_request cs r)) css r) k = cell r k \<and> rd_clock (fold (\<lambda>cs r. snd (exec_request cs r)) css r) = rd_clock r"
  using assms(1)
proof (induction css arbitrary: r)
  case (Cons cs css)
  have "\<forall>c \<in> set cs. k \<notin> set (command_keys c)" using Cons.prems assms(2) by (auto simp: foreign_def)
  then show ?case using Cons by (simp add: request_frame request_clock)
qed simp

text \<open>Before a request time passes: a key is as it was, or it is gone.\<close>

lemma cell_later:
  "cell (r\<lparr>rd_clock := rd_clock r + d\<rparr>) k = cell r k \<or> fst (cell (r\<lparr>rd_clock := rd_clock r + d\<rparr>) k) = None"
  by (auto simp: cell_def purge_at expired_def split: option.splits)

lemma before_request_cell:
  assumes "\<forall>cs \<in> set (tn_others t). foreign run_id cs" "k \<in> set (buffer_keys run_id)"
  shows "cell (before_request t r) k = cell r k \<or> fst (cell (before_request t r) k) = None"
  unfolding before_request_def
  using foreign_requests [OF assms, of "r\<lparr>rd_clock := rd_clock r + tn_elapsed t\<rparr>"] cell_later [of r "tn_elapsed t" k] by simp

lemma before_request_clock:
  assumes "\<forall>cs \<in> set (tn_others t). foreign run_id cs"
  shows "rd_clock (before_request t r) = rd_clock r + tn_elapsed t"
  unfolding before_request_def
  using foreign_requests [OF assms, of "meta_key run_id" "r\<lparr>rd_clock := rd_clock r + tn_elapsed t\<rparr>"] by (simp add: buffer_keys_def)

lemma this_turn_foreign: "undisturbed run_id w \<Longrightarrow> \<forall>cs \<in> set (tn_others (this_turn w)). foreign run_id cs"
  by (auto simp: undisturbed_def this_turn_def no_turn_def split: list.split)

lemma undisturbed_tl: "undisturbed run_id w \<Longrightarrow> bw_script w' = tl (bw_script w) \<Longrightarrow> undisturbed run_id w'"
  by (auto simp: undisturbed_def dest: list.set_sel(2) [rotated]) (metis list.set_sel(2) list.sel(2))

text \<open>A request reaches the store never, once or twice, and a reply is the reply of the last time.\<close>

definition reached :: "command list \<Rightarrow> (buffer_error + reply list) \<Rightarrow> redis \<Rightarrow> redis \<Rightarrow> bool" where
  "reached cs res r r' \<longleftrightarrow>
    r' = r \<and> res = Inl BufferUnavailable
    \<or> r' = snd (exec_request cs r) \<and> (res = Inl BufferUnavailable \<or> (\<exists>xs. res = Inr xs \<and> fst (exec_request cs r) = Some xs))
    \<or> r' = snd (exec_request cs (snd (exec_request cs r)))
      \<and> (res = Inl BufferUnavailable \<or> (\<exists>xs. res = Inr xs \<and> fst (exec_request cs (snd (exec_request cs r))) = Some xs))"

lemma send_reached:
  assumes "send cs w = (res, w')"
  shows "bw_script w' = tl (bw_script w)" "bw_draws w' = bw_draws w"
    and "reached cs res (before_request (this_turn w) (bw_redis w)) (bw_redis w')"
proof -
  show "bw_script w' = tl (bw_script w)" "bw_draws w' = bw_draws w"
    using assms by (auto simp: send_def Let_def split: outage.splits prod.splits option.splits)
  show "reached cs res (before_request (this_turn w) (bw_redis w)) (bw_redis w')"
    using assms unfolding send_def Let_def reached_def
    by (cases "tn_outage (this_turn w)"; simp; cases "exec_request cs (before_request (this_turn w) (bw_redis w))";
        cases "exec_request cs (snd (exec_request cs (before_request (this_turn w) (bw_redis w))))") (auto split: option.splits)
qed

text \<open>The list under a key is \<open>l\<close>, or gone.\<close>

definition lost_or :: "string \<Rightarrow> string list \<Rightarrow> redis \<Rightarrow> bool" where
  "lost_or k l r \<longleftrightarrow> fst (cell r k) = None \<or> fst (cell r k) = Some (SList l)"

lemma lost_or_raw: "rd_store r k = None \<or> rd_store r k = Some (SList l) \<Longrightarrow> lost_or k l r"
  by (auto simp: lost_or_def cell_def purge_at)

lemma lost_or_before:
  assumes "lost_or k l (bw_redis w)" "undisturbed run_id w" "k \<in> set (buffer_keys run_id)"
  shows "lost_or k l (before_request (this_turn w) (bw_redis w))"
  using before_request_cell [OF this_turn_foreign [OF assms(2)] assms(3), of "bw_redis w"] assms(1) by (auto simp: lost_or_def)

lemma key_facts [simp]:
  "conv_key run_id \<noteq> replay_key run_id" "conv_key run_id \<noteq> meta_key run_id" "replay_key run_id \<noteq> meta_key run_id"
  "replay_key run_id \<noteq> conv_key run_id" "meta_key run_id \<noteq> conv_key run_id" "meta_key run_id \<noteq> replay_key run_id"
  "stream_key run_id s \<noteq> meta_key run_id" "meta_key run_id \<noteq> stream_key run_id s" "stream_key run_id s \<in> set (buffer_keys run_id)"
  by (auto simp: conv_key_def replay_key_def meta_key_def stream_key_def buffer_keys_def)

lemma delete_keys_store: "rd_store (snd (delete_keys ks r)) k = (if k \<in> set ks then None else rd_store r k)"
  by (induction ks arbitrary: r) (auto simp: delete_keys_snd simp del: delete_keys.simps(2))

text \<open>Commands that leave the records of both lists as they are, or remove them.\<close>

fun harmless :: "string \<Rightarrow> command \<Rightarrow> bool" where
  "harmless run_id (HSETNX k f v) = (k = meta_key run_id)"
| "harmless run_id (HSET k fvs) = (k = meta_key run_id)"
| "harmless run_id (HINCRBY k f n) = (k = meta_key run_id)"
| "harmless run_id (RPUSH k vs) = False"
| "harmless run_id (RPUSHX k vs) = False"
| "harmless run_id c = True"

lemma own_harmless: "own_request run_id cs \<Longrightarrow> \<forall>c \<in> set cs. harmless run_id c"
  by (induction rule: own_request.induct) (simp_all add: expires_def)

lemma harmless_keeps_list:
  assumes "harmless run_id c" "do_command c r = Some (x, r')"
  shows "rd_store r' (stream_key run_id s) = None \<or> rd_store r' (stream_key run_id s) = rd_store r (stream_key run_id s)"
proof (cases c)
  case (DEL ks)
  then show ?thesis using assms delete_keys_store [of ks r "stream_key run_id s"] by (auto split: prod.splits if_splits)
qed (use assms in \<open>auto simp: Let_def split: if_splits option.splits\<close>)

lemma harmless_keep_list:
  assumes "\<forall>c \<in> set cs. harmless run_id c"
    and "rd_store r (stream_key run_id s) = None \<or> rd_store r (stream_key run_id s) = Some (SList l)"
  shows "rd_store (snd (do_commands cs r)) (stream_key run_id s) = None
    \<or> rd_store (snd (do_commands cs r)) (stream_key run_id s) = Some (SList l)"
  using assms
proof (induction cs arbitrary: r)
  case (Cons c cs)
  show ?case
  proof (cases "do_command c r")
    case (Some p)
    then obtain x r1 where p: "do_command c r = Some (x, r1)" by (cases p) auto
    have "rd_store r1 (stream_key run_id s) = None \<or> rd_store r1 (stream_key run_id s) = Some (SList l)"
      using harmless_keeps_list [OF _ p, of run_id s] Cons.prems by auto
    then show ?thesis using Cons.IH [of r1] Cons.prems(1) by (simp add: p do_commands_snd del: do_commands.simps(2))
  qed (use Cons.prems in simp)
qed simp

lemma harmless_request:
  assumes "\<forall>c \<in> set cs. harmless run_id c" "lost_or (stream_key run_id s) l r"
  shows "lost_or (stream_key run_id s) l (snd (exec_request cs r))"
  unfolding exec_request_def using assms(2)
  by (intro lost_or_raw harmless_keep_list assms(1)) (simp add: lost_or_def cell_def)

lemma reached_keeps: "reached cs res r r' \<Longrightarrow> P r \<Longrightarrow> (\<And>r. P r \<Longrightarrow> P (snd (exec_request cs r))) \<Longrightarrow> P r'"
  by (auto simp: reached_def)

definition list_inv :: "string \<Rightarrow> stream \<Rightarrow> string list \<Rightarrow> buffer_world \<Rightarrow> bool" where
  "list_inv run_id s l w \<longleftrightarrow> undisturbed run_id w \<and> lost_or (stream_key run_id s) l (bw_redis w)"

interpretation a_list: buffer_invariant se run_id "list_inv run_id s l"
proof
  fix cs assume "own_request run_id cs"
  then have h: "\<forall>c \<in> set cs. harmless run_id c" by (rule own_harmless)
  show "preserves (list_inv run_id s l) (send cs)"
    unfolding preserves_def
  proof (intro allI impI)
    fix w assume w: "list_inv run_id s l w"
    obtain res w' where s: "send cs w = (res, w')" by (cases "send cs w")
    have "lost_or (stream_key run_id s) l (bw_redis w')"
      by (rule reached_keeps [OF send_reached(3) [OF s]]) (use w harmless_request [OF h] in \<open>auto simp: list_inv_def intro: lost_or_before\<close>)
    then show "list_inv run_id s l (snd (send cs w))"
      using undisturbed_tl [OF _ send_reached(1) [OF s]] w by (simp add: s list_inv_def)
  qed
qed (simp add: preserves_def draw_def list_inv_def undisturbed_def)

end
