(* ===== verification/BufferWrites.thy ===== *)
theory BufferWrites
  imports BufferInvariants
begin

text \<open>
  Writes: what is sealed, what of it landed when a request was lost, answered or sent twice, and what the
  buffer holds then.
\<close>

section \<open>Sealing the items of a write\<close>

lemma bindB_cases:
  assumes "bindB m f w = (res, w')"
  obtains (error) e where "m w = (Inl e, w')" "res = Inl e" | (step) x w1 where "m w = (Inr x, w1)" "f x w1 = (res, w')"
  using assms by (cases "m w"; cases "fst (m w)") (auto simp: bindB_def)

lemma bindB_return:
  "bindB m f w = (Inr y, w') \<longleftrightarrow> (\<exists>x w1. m w = (Inr x, w1) \<and> f x w1 = (Inr y, w'))"
  by (cases "m w"; cases "fst (m w)") (auto simp: bindB_def)

text \<open>Random bytes are drawn, and nothing else happens; the draws of a number of bytes so far.\<close>

definition only_draws :: "buffer_world \<Rightarrow> buffer_world \<Rightarrow> bool" where
  "only_draws w w' \<longleftrightarrow> bw_redis w' = bw_redis w \<and> bw_script w' = bw_script w \<and> bw_draws w \<le> bw_draws w'"

lemma only_draws_trans: "only_draws w w' \<Longrightarrow> only_draws w' w'' \<Longrightarrow> only_draws w w''"
  by (simp add: only_draws_def)

definition id_draws :: "settings \<Rightarrow> nat \<Rightarrow> nat \<Rightarrow> bytes set" where
  "id_draws se m n = (\<lambda>i. se_random se i 16) ` {m..<n}"

definition fresh_ids :: "settings \<Rightarrow> nat \<Rightarrow> bool" where
  "fresh_ids se n \<longleftrightarrow> distinct (map (\<lambda>i. se_random se i 16) [0..<n])"

lemma fresh_ids_inj: "fresh_ids se n \<Longrightarrow> inj_on (\<lambda>i. se_random se i 16) {..<n}"
  by (simp add: fresh_ids_def distinct_map lessThan_atLeast0)

lemma fresh_ids_mono: "fresh_ids se n \<Longrightarrow> m \<le> n \<Longrightarrow> fresh_ids se m"
  by (auto simp: fresh_ids_def distinct_map intro: inj_on_subset)

lemma fresh_disjoint: "fresh_ids se n \<Longrightarrow> m \<le> k \<Longrightarrow> k' \<le> n \<Longrightarrow> id_draws se l m \<inter> id_draws se k k' = {}"
proof (rule equals0I)
  fix y assume f: "fresh_ids se n" "m \<le> k" "k' \<le> n" and "y \<in> id_draws se l m \<inter> id_draws se k k'"
  then obtain i j where "i < m" "k \<le> j" "j < k'" "y = se_random se i 16" "y = se_random se j 16"
    by (auto simp: id_draws_def)
  then show False using inj_onD [OF fresh_ids_inj [OF f(1)], of i j] f(2,3) by simp
qed

lemma seal_result:
  assumes "crypto_ok se" "box_ok b" "seal se b s plain w = (res, w')"
  shows "\<exists>wire. res = Inr wire \<and> unseal se b s wire = Inr plain \<and> only_draws w w'"
  using assms by (auto simp: seal_def bindB_def draw_def returnB_def only_draws_def intro!: unseal_sealed) (simp add: crypto_ok_def)

lemma seal_parts_result:
  assumes "crypto_ok se" "box_ok b" "mapB (seal_part se b s kind item_id count) ps w = (res, w')"
  shows "\<exists>recs. res = Inr recs \<and> map (unseal se b s) (map fst recs) = map Inr (map (frame_of kind item_id count) ps) \<and> only_draws w w'"
  using assms(3)
proof (induction ps arbitrary: w res w')
  case Nil
  then show ?case by (simp add: returnB_def only_draws_def)
next
  case (Cons p ps)
  obtain x w1 where s: "seal se b s (pack_frame kind item_id (fst p) count @ snd p) w = (x, w1)" by fastforce
  then obtain wire where wire: "x = Inr wire" "unseal se b s wire = Inr (frame_of kind item_id count p)" "only_draws w w1"
    using seal_result [OF assms(1,2)] unfolding frame_of_def by blast
  have sp: "seal_part se b s kind item_id count p w = (Inr (wire, length (snd p)), w1)"
    by (simp add: seal_part_def bindB_def returnB_def s wire(1))
  obtain y w2 where m: "mapB (seal_part se b s kind item_id count) ps w1 = (y, w2)" by fastforce
  then obtain recs where recs: "y = Inr recs" "map (unseal se b s) (map fst recs) = map Inr (map (frame_of kind item_id count) ps)"
    "only_draws w1 w2" using Cons.IH by blast
  have "res = Inr ((wire, length (snd p)) # recs) \<and> w' = w2"
    using Cons.prems by (auto simp: bindB_def returnB_def sp m recs)
  then show ?case using wire recs only_draws_trans by auto
qed

lemma seal_item_result:
  assumes "crypto_ok se" "box_ok b" "seal_item se b s item w = (res, w')"
  shows "\<exists>recs. res = Inr recs \<and> map (unseal se b s) (map fst recs) = map Inr (item_frames (se_random se (bw_draws w) 16, item))
    \<and> only_draws w w' \<and> bw_draws w < bw_draws w'"
proof -
  let ?id = "se_random se (bw_draws w) 16"
  let ?w = "w\<lparr>bw_draws := bw_draws w + 1\<rparr>"
  let ?parts = "item_parts (snd item)"
  have m: "mapB (seal_part se b s (fst item) ?id (length ?parts)) (enumerate 0 ?parts) ?w = (res, w')"
    using assms(3) by (simp add: seal_item_def bindB_def draw_def Let_def)
  obtain recs where r: "res = Inr recs" "only_draws ?w w'"
    "map (unseal se b s) (map fst recs) = map Inr (map (frame_of (fst item) ?id (length ?parts)) (enumerate 0 ?parts))"
    using seal_parts_result [OF assms(1,2) m] by blast
  then have "map (unseal se b s) (map fst recs) = map Inr (item_frames (?id, item))"
    by (cases item) (simp add: item_frames_def Let_def)
  moreover have "only_draws w w'" "bw_draws w < bw_draws w'" using r(2) by (simp_all add: only_draws_def)
  ultimately show ?thesis using r(1) by blast
qed

lemma seal_items_loop:
  assumes "crypto_ok se" "box_ok b" "mapB (seal_item se b s) items w = (res, w')"
  shows "\<exists>rss its. res = Inr rss \<and> map snd its = items \<and> only_draws w w'
    \<and> map (unseal se b s) (map fst (concat rss)) = map Inr (concat (map item_frames its))
    \<and> set (map fst its) \<subseteq> id_draws se (bw_draws w) (bw_draws w')
    \<and> (fresh_ids se (bw_draws w') \<longrightarrow> distinct (map fst its))"
  using assms(3)
proof (induction items arbitrary: w res w')
  case Nil
  then show ?case by (auto simp: returnB_def only_draws_def)
next
  case (Cons item items)
  let ?it = "(se_random se (bw_draws w) 16, item)"
  obtain x w1 where s: "seal_item se b s item w = (x, w1)" by fastforce
  then obtain recs where recs: "x = Inr recs" "map (unseal se b s) (map fst recs) = map Inr (item_frames ?it)"
    "only_draws w w1" "bw_draws w < bw_draws w1"
    using seal_item_result [OF assms(1,2)] by blast
  obtain y w2 where m: "mapB (seal_item se b s) items w1 = (y, w2)" by fastforce
  obtain rss its where r: "y = Inr rss" "map snd its = items" "only_draws w1 w2"
    "map (unseal se b s) (map fst (concat rss)) = map Inr (concat (map item_frames its))"
    "set (map fst its) \<subseteq> id_draws se (bw_draws w1) (bw_draws w2)"
    "fresh_ids se (bw_draws w2) \<longrightarrow> distinct (map fst its)"
    using Cons.IH [OF m] by blast
  have res: "res = Inr (recs # rss)" "w' = w2"
    using Cons.prems by (auto simp: bindB_def returnB_def s recs m r(1))
  have d: "only_draws w w2" by (rule only_draws_trans [OF recs(3) r(3)])
  have first: "se_random se (bw_draws w) 16 \<in> id_draws se (bw_draws w) (bw_draws w1)" using recs(4) by (auto simp: id_draws_def)
  have le: "bw_draws w1 \<le> bw_draws w2" using r(3) by (simp add: only_draws_def)
  have "distinct (map fst (?it # its))" if "fresh_ids se (bw_draws w2)"
    using fresh_disjoint [OF that order_refl order_refl, of "bw_draws w" "bw_draws w1"] first r(5,6) that by auto
  moreover have "set (map fst (?it # its)) \<subseteq> id_draws se (bw_draws w) (bw_draws w2)"
    using r(5) recs(4) le by (auto simp: id_draws_def)
  ultimately show ?case using res d recs(2) r(2,4) by (intro exI [of _ "recs # rss"] exI [of _ "?it # its"]) simp
qed

lemma seal_items_result:
  assumes "crypto_ok se" "box_ok b" "seal_items se b s items w = (res, w')"
  shows "\<exists>recs its. res = Inr recs \<and> map snd its = items \<and> only_draws w w'
    \<and> map (unseal se b s) (map fst recs) = map Inr (concat (map item_frames its))
    \<and> set (map fst its) \<subseteq> id_draws se (bw_draws w) (bw_draws w')
    \<and> (fresh_ids se (bw_draws w') \<longrightarrow> distinct (map fst its))"
proof -
  obtain x w1 where m: "mapB (seal_item se b s) items w = (x, w1)" by fastforce
  obtain rss its where r: "x = Inr rss" "map snd its = items" "only_draws w w1"
    "map (unseal se b s) (map fst (concat rss)) = map Inr (concat (map item_frames its))"
    "set (map fst its) \<subseteq> id_draws se (bw_draws w) (bw_draws w1)"
    "fresh_ids se (bw_draws w1) \<longrightarrow> distinct (map fst its)"
    using seal_items_loop [OF assms(1,2) m] by blast
  have "res = Inr (concat rss)" "w' = w1" using assms(3) by (auto simp: seal_items_def bindB_def returnB_def m r(1))
  then show ?thesis using r by blast
qed

lemma concat_group_loop: "concat (group_loop current used recs) = current @ recs"
  by (induction current used recs rule: group_loop.induct) auto

lemma concat_groups_of: "concat (groups_of recs) = recs"
  by (simp add: groups_of_def concat_group_loop)

section \<open>Pushing the groups\<close>

lemma gone_raises: "gone run_id w = (res, w') \<Longrightarrow> \<exists>e. res = Inl e"
  by (auto simp: gone_def bindB_def raiseB_def split: prod.splits sum.splits)

lemma pushed_request:
  assumes "lost_or (stream_key run_id s) l r" "\<forall>c \<in> set cs. harmless run_id c"
  shows "lost_or (stream_key run_id s) (l @ g) (snd (exec_request (RPUSHX (stream_key run_id s) g # cs) r))"
proof (cases "rd_store (purge r) (stream_key run_id s)")
  case None
  have "rd_store (snd (do_commands cs (purge r))) (stream_key run_id s) = None
    \<or> rd_store (snd (do_commands cs (purge r))) (stream_key run_id s) = Some (SList (l @ g))"
    by (rule harmless_keep_list [OF assms(2)]) (simp add: None)
  then show ?thesis by (intro lost_or_raw) (simp add: exec_request_def do_commands_snd None del: do_commands.simps(2))
next
  case (Some v)
  then have v: "v = SList l" using assms(1) by (simp add: lost_or_def cell_def)
  let ?r = "put (stream_key run_id s) (SList (l @ g)) (purge r)"
  have "rd_store (snd (do_commands cs ?r)) (stream_key run_id s) = None
    \<or> rd_store (snd (do_commands cs ?r)) (stream_key run_id s) = Some (SList (l @ g))"
    by (rule harmless_keep_list [OF assms(2)]) simp
  then show ?thesis by (intro lost_or_raw) (simp add: exec_request_def do_commands_snd Some v list_at_def del: do_commands.simps(2))
qed

lemma other_request:
  assumes "lost_or (stream_key run_id s') l r" "\<forall>c \<in> set cs. harmless run_id c" "stream_key run_id s' \<noteq> stream_key run_id s"
  shows "lost_or (stream_key run_id s') l (snd (exec_request (RPUSHX (stream_key run_id s) g # cs) r))"
proof (cases "do_command (RPUSHX (stream_key run_id s) g) (purge r)")
  case None
  then show ?thesis using assms(1)
    by (intro lost_or_raw) (simp add: exec_request_def do_commands_snd lost_or_def cell_def del: do_commands.simps(2))
next
  case (Some p)
  then obtain x r1 where p: "do_command (RPUSHX (stream_key run_id s) g) (purge r) = Some (x, r1)" by (cases p) auto
  have "rd_store r1 (stream_key run_id s') = rd_store (purge r) (stream_key run_id s')"
    using do_command_frame [OF p, of "stream_key run_id s'"] assms(3) by (simp add: raw_cell_def)
  then have "rd_store (snd (do_commands cs r1)) (stream_key run_id s') = None
    \<or> rd_store (snd (do_commands cs r1)) (stream_key run_id s') = Some (SList l)"
    using assms(1) by (intro harmless_keep_list [OF assms(2)]) (simp add: lost_or_def cell_def)
  moreover have "snd (exec_request (RPUSHX (stream_key run_id s) g # cs) r) = snd (do_commands cs r1)"
    unfolding exec_request_def do_commands_snd p by simp
  ultimately show ?thesis by (intro lost_or_raw) simp
qed

lemma landed_single:
  "landed full [g] l \<longleftrightarrow> (\<not> full \<and> l = []) \<or> l = g \<or> l = g @ g"
proof
  assume "landed full [g] l"
  then show "(\<not> full \<and> l = []) \<or> l = g \<or> l = g @ g"
    by (cases rule: landed.cases) (auto elim: landed.cases)
next
  assume "(\<not> full \<and> l = []) \<or> l = g \<or> l = g @ g"
  then show "landed full [g] l"
    using landed_once [OF landed_all, of full g] landed_twice [OF landed_all, of full g] landed_stop [of "[g]"]
    by (cases full) auto
qed

text \<open>One request that pushes: it is there once, twice or, unless it was answered, not at all.\<close>

lemma pushing_send:
  assumes "send (RPUSHX (stream_key run_id s) g # cs) w = (res, w')" "\<forall>c \<in> set cs. harmless run_id c" "list_inv run_id s l w"
  shows "\<exists>l'. landed (\<exists>xs. res = Inr xs) [g] l' \<and> list_inv run_id s (l @ l') w'"
proof -
  let ?k = "stream_key run_id s" and ?cs = "RPUSHX (stream_key run_id s) g # cs"
  let ?r = "before_request (this_turn w) (bw_redis w)"
  note s = send_reached [OF assms(1)]
  have u: "undisturbed run_id w'" using assms(3) s(1) undisturbed_tl by (auto simp: list_inv_def)
  have r: "lost_or ?k l ?r" using assms(3) by (intro lost_or_before [where run_id = run_id]) (simp_all add: list_inv_def)
  have r1: "lost_or ?k (l @ g) (snd (exec_request ?cs ?r))" by (rule pushed_request [OF r assms(2)])
  have r2: "lost_or ?k ((l @ g) @ g) (snd (exec_request ?cs (snd (exec_request ?cs ?r))))" by (rule pushed_request [OF r1 assms(2)])
  consider "bw_redis w' = ?r" "\<not> (\<exists>xs. res = Inr xs)" | "bw_redis w' = snd (exec_request ?cs ?r)"
    | "bw_redis w' = snd (exec_request ?cs (snd (exec_request ?cs ?r)))"
    using s(3) unfolding reached_def by auto
  then show ?thesis
  proof cases
    case 1
    then show ?thesis using r u by (intro exI [of _ "[]"]) (simp add: landed_single list_inv_def)
  next
    case 2
    then show ?thesis using r1 u by (intro exI [of _ g]) (simp add: landed_single list_inv_def)
  next
    case 3
    then show ?thesis using r2 u by (intro exI [of _ "g @ g"]) (simp add: landed_single list_inv_def)
  qed
qed

lemma landed_less: "landed full gs l \<Longrightarrow> landed False gs l"
  by (induction rule: landed.induct) (auto intro: landed.intros)

lemma atomic_push:
  assumes "atomic (RPUSHX (stream_key run_id s) g # cs) w = (res, w')" "\<forall>c \<in> set cs. harmless run_id c" "list_inv run_id s l w"
  shows "\<exists>l'. landed (\<exists>xs. res = Inr xs) [g] l' \<and> list_inv run_id s (l @ l') w'"
proof (cases "REQUEST_GUARD_BYTES < request_size (RPUSHX (stream_key run_id s) g # cs)")
  case True
  then have "res = Inl RequestGuard" "w' = w" using assms(1) by (auto simp: atomic_def raiseB_def)
  then show ?thesis using assms(3) by (intro exI [of _ "[]"]) (simp add: landed_single)
next
  case False
  then show ?thesis using pushing_send [OF _ assms(2,3)] assms(1) by (simp add: atomic_def)
qed

lemma push_result:
  assumes "push se run_id created s grp w = (res, w')" "list_inv run_id s l w"
  shows "\<exists>l'. landed (res = Inr ()) [map fst grp] l' \<and> list_inv run_id s (l @ l') w'"
  using assms(1) unfolding push_def
proof (cases rule: bindB_cases)
  case (error e)
  have "list_inv run_id s l w'" by (rule preservesD [OF a_list.expire_commands_keeps error(1) assms(2)])
  then show ?thesis using error(2) by (intro exI [of _ "[]"]) (simp add: landed_single)
next
  case (step cs w1)
  have w1: "list_inv run_id s l w1" by (rule preservesD [OF a_list.expire_commands_keeps step(1) assms(2)])
  have h: "\<forall>c \<in> set (cs @ [HINCRBY (meta_key run_id) (bytes_field s) (int (group_bytes grp))]). harmless run_id c"
    using expire_commands_result [OF step(1)] by (auto simp: expires_def)
  from step(2) show ?thesis
  proof (cases rule: bindB_cases)
    case (error e)
    then show ?thesis using atomic_push [OF _ h w1, of "map fst grp"] by simp
  next
    case (step xs w2)
    obtain l' where l': "landed True [map fst grp] l'" "list_inv run_id s (l @ l') w2"
      using atomic_push [OF _ h w1, of "map fst grp"] step(1) by auto
    show ?thesis
    proof (cases "xs ! 0 = RInt 0 \<or> xs ! 1 \<noteq> RInt 1 \<or> xs ! 2 \<noteq> RInt 1")
      case True
      then have g: "gone run_id w2 = (res, w')" using step(2) by simp
      have "list_inv run_id s (l @ l') w'" by (rule preservesD [OF a_list.gone_keeps g l'(2)])
      then show ?thesis using gone_raises [OF g] landed_less [OF l'(1)] by auto
    next
      case False
      then show ?thesis using step(2) l' by (auto simp: returnB_def)
    qed
  qed
qed

lemma landed_then:
  assumes "landed True [g] a" "landed full gs l"
  shows "landed full (g # gs) (a @ l)"
  using assms(1) landed_once [OF assms(2), of g] landed_twice [OF assms(2), of g] by (auto simp: landed_single)

lemma landed_only:
  assumes "landed False [g] a"
  shows "landed False (g # gs) a"
  using assms landed_once [OF landed_stop, of g gs] landed_twice [OF landed_stop, of g gs] landed_stop [of "g # gs"]
  by (auto simp: landed_single)

lemma push_all_result:
  assumes "push_all se run_id created s gs w = (res, w')" "list_inv run_id s l w"
  shows "\<exists>l'. landed (res = Inr ()) (map (map fst) gs) l' \<and> list_inv run_id s (l @ l') w'"
  using assms
proof (induction gs arbitrary: l w)
  case Nil
  then show ?case by (intro exI [of _ "[]"]) (auto simp: returnB_def intro: landed_all)
next
  case (Cons g gs)
  from Cons.prems(1) show ?case unfolding push_all.simps
  proof (cases rule: bindB_cases)
    case (error e)
    then obtain l' where "landed False [map fst g] l'" "list_inv run_id s (l @ l') w'"
      using push_result [OF error(1) Cons.prems(2)] by auto
    then show ?thesis using error(2) landed_only by auto
  next
    case (step x w1)
    then obtain a where a: "landed True [map fst g] a" "list_inv run_id s (l @ a) w1"
      using push_result [OF step(1) Cons.prems(2)] by auto
    obtain l' where "landed (res = Inr ()) (map (map fst) gs) l'" "list_inv run_id s ((l @ a) @ l') w'"
      using Cons.IH [OF step(2) a(2)] by blast
    then show ?thesis using landed_then [OF a(1)] by (intro exI [of _ "a @ l'"]) simp
  qed
qed

text \<open>The other list.\<close>

lemma push_other:
  assumes "stream_key run_id s' \<noteq> stream_key run_id s"
  shows "preserves (list_inv run_id s' l) (push se run_id created s grp)"
  unfolding push_def
proof (intro a_list.after_expire_commands preserving a_list.gone_keeps)
  fix content marker :: nat
  let ?e = "expires run_id content marker"
  have h': "\<forall>c \<in> set (?e @ [HINCRBY (meta_key run_id) (bytes_field s) (int (group_bytes grp))]). harmless run_id c"
    by (simp add: expires_def)
  show "preserves (list_inv run_id s' l) (atomic ([RPUSHX (stream_key run_id s) (map fst grp)] @ ?e @
      [HINCRBY (meta_key run_id) (bytes_field s) (int (group_bytes grp))]))"
    unfolding atomic_def
  proof (intro preserving)
    show "preserves (list_inv run_id s' l) (send ([RPUSHX (stream_key run_id s) (map fst grp)] @ ?e @
        [HINCRBY (meta_key run_id) (bytes_field s) (int (group_bytes grp))]))" (is "preserves _ (send ?cs)")
      unfolding preserves_def
    proof (intro allI impI)
      fix w assume w: "list_inv run_id s' l w"
      obtain res w' where sd: "send ?cs w = (res, w')" by fastforce
      have "lost_or (stream_key run_id s') l (bw_redis w')"
        by (rule reached_keeps [OF send_reached(3) [OF sd]])
          (use w other_request [OF _ h' assms, where g = "map fst grp"] in \<open>auto simp: list_inv_def intro: lost_or_before [where run_id = run_id]\<close>)
      moreover have "undisturbed run_id w'"
        by (rule undisturbed_tl [OF _ send_reached(1) [OF sd]]) (use w in \<open>simp add: list_inv_def\<close>)
      ultimately show "list_inv run_id s' l (snd (send ?cs w))" unfolding sd list_inv_def by simp
    qed
  qed
qed

lemma push_all_other:
  "stream_key run_id s' \<noteq> stream_key run_id s \<Longrightarrow> preserves (list_inv run_id s' l) (push_all se run_id created s gs)"
  by (induction gs) (simp_all add: preserving push_other)

section \<open>What a buffer holds\<close>

text \<open>Invariants that the pushes keep too.\<close>

inductive push_request :: "string \<Rightarrow> command list \<Rightarrow> bool" where
  "1 \<le> content \<Longrightarrow> content \<le> marker
    \<Longrightarrow> push_request run_id ([RPUSHX (stream_key run_id s) ws] @ expires run_id content marker @ [HINCRBY (meta_key run_id) (bytes_field s) n])"

locale write_invariant = buffer_invariant +
  assumes push_send: "push_request run_id cs \<Longrightarrow> preserves I (send cs)"
begin

lemma atomic_push_keeps: "push_request run_id cs \<Longrightarrow> preserves I (atomic cs)"
  unfolding atomic_def by (intro preserving push_send)

lemma push_keeps: "preserves I (push se run_id created s grp)"
  unfolding push_def by (intro after_expire_commands preserving atomic_push_keeps gone_keeps push_request.intros)

lemma push_all_keeps: "preserves I (push_all se run_id created s gs)"
  by (induction gs) (simp_all add: preserving push_keeps)

lemma append_stream_keeps: "preserves I (append_stream se run_id s payloads)"
  unfolding append_stream_def Let_def by (intro preserving check_keeps seal_items_keeps push_all_keeps)

lemma append_conversation_keeps: "preserves I (append_conversation se run_id items)"
  unfolding append_conversation_def by (rule preserves_valid) (intro preserving append_stream_keeps)

lemma append_replay_many_keeps: "preserves I (append_replay_many se run_id messages)"
  unfolding append_replay_many_def by (rule preserves_valid) (intro preserving append_stream_keeps)

end

lemma send_draws: "bw_draws (snd (send cs w)) = bw_draws w"
  using send_reached(2) [of cs w] by (metis prod.collapse)

lemma send_script: "bw_script (snd (send cs w)) = tl (bw_script w)"
  using send_reached(1) [of cs w] by (metis prod.collapse)

interpretation draws: write_invariant se run_id "\<lambda>w. n \<le> bw_draws w"
  by unfold_locales (simp_all add: preserves_def draw_def send_draws)

interpretation calm: write_invariant se run_id "\<lambda>w. bw_script w = []"
  by unfold_locales (simp_all add: preserves_def draw_def send_script)

definition keeps :: "settings \<Rightarrow> box \<Rightarrow> string \<Rightarrow> stream \<Rightarrow> (char \<times> bytes) list \<Rightarrow> buffer_world \<Rightarrow> bool" where
  "keeps se b run_id s entries w \<longleftrightarrow>
    (\<exists>l rg. list_inv run_id s l w \<and> take_records se b s l no_reading = Inr rg \<and> rg_out rg = entries
      \<and> used_ids rg \<subseteq> id_draws se 0 (bw_draws w))"

lemma id_draws_mono: "m' \<le> m \<Longrightarrow> n \<le> n' \<Longrightarrow> id_draws se m n \<subseteq> id_draws se m' n'"
  by (auto simp: id_draws_def)

lemma preserves_keeps:
  assumes "\<And>l. preserves (list_inv run_id s l) m" "\<And>n. preserves (\<lambda>w. n \<le> bw_draws w) m"
  shows "preserves (keeps se b run_id s entries) m"
  unfolding preserves_def
proof (intro allI impI)
  fix w assume "keeps se b run_id s entries w"
  then obtain l rg where l: "list_inv run_id s l w" "take_records se b s l no_reading = Inr rg" "rg_out rg = entries"
    "used_ids rg \<subseteq> id_draws se 0 (bw_draws w)" unfolding keeps_def by blast
  have "list_inv run_id s l (snd (m w))" using assms(1) l(1) by (simp add: preserves_def)
  moreover have "bw_draws w \<le> bw_draws (snd (m w))" using assms(2) [of "bw_draws w"] by (simp add: preserves_def)
  ultimately show "keeps se b run_id s entries (snd (m w))" unfolding keeps_def using l id_draws_mono [OF order_refl] by blast
qed

text \<open>A write adds a prefix of its items, and all of them when it returns.\<close>

lemma sealed_push_all:
  assumes "crypto_ok se" "box_ok b" "\<forall>p \<in> set payloads. item_fits s p"
    and "seal_items se b s payloads w0 = (Inr recs, w1)" "bw_draws w1 \<le> bw_draws w'"
    and "fresh_ids se (bw_draws w1)"
    and "take_records se b s l no_reading = Inr rg" "used_ids rg \<subseteq> id_draws se 0 (bw_draws w0)"
    and "landed full (map (map fst) (groups_of recs)) l'" "list_inv run_id s (l @ l') w'"
  shows "\<exists>k \<le> length payloads. (full \<longrightarrow> k = length payloads) \<and> keeps se b run_id s (rg_out rg @ take k payloads) w'"
proof -
  obtain its where its: "map snd its = payloads" "only_draws w0 w1"
    "map (unseal se b s) (map fst recs) = map Inr (concat (map item_frames its))"
    "set (map fst its) \<subseteq> id_draws se (bw_draws w0) (bw_draws w1)" "distinct (map fst its)"
    using seal_items_result [OF assms(1,2,4)] assms(6) by auto
  have le: "bw_draws w0 \<le> bw_draws w1" using its(2) by (simp add: only_draws_def)
  have new: "new_items s its rg"
    unfolding new_items_def
  proof (intro conjI ballI)
    show "distinct (map fst its)" by (rule its(5))
    show "set (map fst its) \<inter> used_ids rg = {}"
      using fresh_disjoint [OF assms(6) order_refl order_refl, of 0 "bw_draws w0"] its(4) assms(8) by blast
    fix it assume it: "it \<in> set its"
    then have "fst it \<in> id_draws se (bw_draws w0) (bw_draws w1)" using its(4) by auto
    then show "length (fst it) = 16" using assms(1) by (auto simp: id_draws_def crypto_ok_def)
    show "item_fits s (snd it)" using it its(1) assms(3) by (metis image_eqI list.set_map)
  qed
  obtain k0 where k0: "k0 \<le> length (map (map fst) (groups_of recs))" "full \<longrightarrow> k0 = length (map (map fst) (groups_of recs))"
    "\<And>rg. take_records se b s l' rg = take_records se b s (concat (take k0 (map (map fst) (groups_of recs)))) rg"
    using landed_reads [OF assms(9), of se b s] by blast
  obtain m where m: "concat (take k0 (map (map fst) (groups_of recs))) = take m (map fst recs)"
    "length (map (map fst) (groups_of recs)) \<le> k0 \<longrightarrow> length (map fst recs) \<le> m"
    using concat_take_prefix [of k0 "map (map fst) (groups_of recs)"] by (auto simp: concat_groups_of simp flip: map_concat)
  have plains: "map (unseal se b s) (take m (map fst recs)) = map Inr (take m (concat (map item_frames its)))"
    using its(3) by (metis take_map)
  obtain k rg' where k: "k \<le> length its" "take_plains s (take m (concat (map item_frames its))) rg = Inr rg'"
    "rg_out rg' = rg_out rg @ map snd (take k its)" "used_ids rg' \<subseteq> used_ids rg \<union> set (map fst its)"
    "length (concat (map item_frames its)) \<le> m \<longrightarrow> k = length its"
    using take_some_records [OF new, of m] by blast
  have r: "take_records se b s l' rg = Inr rg'" using k0(3) [of rg] m(1) take_records_plains [OF plains] k(2) by simp
  have "used_ids rg' \<subseteq> id_draws se 0 (bw_draws w')"
    using k(4) its(4) assms(8) id_draws_mono [of 0 "bw_draws w0" "bw_draws w1" "bw_draws w'" se]
      id_draws_mono [of 0 0 "bw_draws w0" "bw_draws w'" se] assms(5) le by simp blast
  then have "keeps se b run_id s (rg_out rg @ take k payloads) w'"
    unfolding keeps_def using assms(7,10) r k(3) its(1)
    by (intro exI [of _ "l @ l'"] exI [of _ rg']) (simp add: take_records_append flip: take_map)
  moreover have "k = length payloads" if full
  proof -
    have "length (map fst recs) \<le> m" using m(2) k0(2) that by simp
    moreover have "length (map fst recs) = length (concat (map item_frames its))" using its(3) by (metis length_map)
    ultimately show ?thesis using k(5) its(1) by auto
  qed
  moreover have "k \<le> length payloads" using k(1) its(1) by auto
  ultimately show ?thesis by blast
qed

lemma append_stream_result:
  assumes "crypto_ok se" "open_box se run_id = Inr b" "\<forall>p \<in> set payloads. item_fits s p"
    and "append_stream se run_id s payloads w = (res, w')" "keeps se b run_id s entries w" "fresh_ids se (bw_draws w')"
  shows "\<exists>k \<le> length payloads. (res = Inr () \<longrightarrow> k = length payloads) \<and> keeps se b run_id s (entries @ take k payloads) w'"
proof -
  have unchanged: "\<exists>k \<le> length payloads. (res = Inr () \<longrightarrow> k = length payloads) \<and> keeps se b run_id s (entries @ take k payloads) w'"
    if "keeps se b run_id s entries w'" "res = Inl e" for e
    using that by (intro exI [of _ 0]) simp
  have ck: "preserves (keeps se b run_id s entries) (check se run_id b)"
    by (intro preserves_keeps a_list.check_keeps draws.check_keeps)
  have a: "bindB (check se run_id b) (\<lambda>m.
      if MAX_STREAM_BYTES < (if s = Conv then mt_conv_bytes m else mt_replay_bytes m) + total_bytes payloads then raiseB BufferFull
      else bindB (seal_items se b s payloads) (\<lambda>recs. push_all se run_id (mt_created m) s (groups_of recs))) w = (res, w')"
    using assms(4) by (simp add: append_stream_def bindB_def liftB_def assms(2) Let_def)
  then show ?thesis
  proof (cases rule: bindB_cases)
    case (error e)
    then show ?thesis using unchanged preservesD [OF ck error(1) assms(5)] by blast
  next
    case (step m w1)
    have k1: "keeps se b run_id s entries w1" by (rule preservesD [OF ck step(1) assms(5)])
    show ?thesis
    proof (cases "MAX_STREAM_BYTES < (if s = Conv then mt_conv_bytes m else mt_replay_bytes m) + total_bytes payloads")
      case True
      then have "res = Inl BufferFull" "w' = w1" using step(2) by (auto simp: raiseB_def)
      then show ?thesis using unchanged k1 by blast
    next
      case False
      then have f: "bindB (seal_items se b s payloads) (\<lambda>recs. push_all se run_id (mt_created m) s (groups_of recs)) w1 = (res, w')"
        using step(2) by simp
      have bx: "box_ok b" using open_box_ok [OF assms(2)] by blast
      obtain y w2 where si: "seal_items se b s payloads w1 = (y, w2)" by fastforce
      obtain recs where y: "y = Inr recs" and od: "only_draws w1 w2" using seal_items_result [OF assms(1) bx si] by blast
      have pa: "push_all se run_id (mt_created m) s (groups_of recs) w2 = (res, w')" using f by (simp add: bindB_def si y)
      obtain l rg where l: "list_inv run_id s l w1" "take_records se b s l no_reading = Inr rg" "rg_out rg = entries"
        "used_ids rg \<subseteq> id_draws se 0 (bw_draws w1)" using k1 unfolding keeps_def by blast
      have l2: "list_inv run_id s l w2" using l(1) od by (simp add: list_inv_def only_draws_def undisturbed_def)
      obtain l' where l': "landed (res = Inr ()) (map (map fst) (groups_of recs)) l'" "list_inv run_id s (l @ l') w'"
        using push_all_result [OF pa l2] by blast
      have d: "bw_draws w2 \<le> bw_draws w'" by (rule preservesD [OF draws.push_all_keeps pa]) simp
      have fr: "fresh_ids se (bw_draws w2)" by (rule fresh_ids_mono [OF assms(6) d])
      show ?thesis
        using sealed_push_all [OF assms(1) bx assms(3) si [unfolded y] d fr l(2,4) l'] l(3) by simp
    qed
  qed
qed

end
