(* ===== verification/BufferSurvival.thy ===== *)
theory BufferSurvival
  imports BufferWrites
begin

text \<open>
  What a run's buffer gives back after any sequence of operations under any faults: the state and the
  history it was created with, of every later write a prefix, and all of the writes that returned.
\<close>

section \<open>What is written and what is read\<close>

text \<open>The entry of a JSON object that can be stored.\<close>

definition storable :: "json \<Rightarrow> bool" where
  "storable v \<longleftrightarrow> python_json v \<and> (\<exists>p. serialize v = Inr p)"

definition entry :: "char \<Rightarrow> json \<Rightarrow> char \<times> bytes" where
  "entry kind v = (kind, case serialize v of Inr p \<Rightarrow> p | Inl _ \<Rightarrow> [])"

lemma entry_serialized: "serialize v = Inr p \<Longrightarrow> entry kind v = (kind, p)"
  by (simp add: entry_def)

lemma load_serialized:
  assumes "python_json v" "serialize v = Inr p"
  shows "load_object p = Inr (as_dict v)"
proof -
  obtain d where v: "v = JObj d" using assms(2) by (cases v) (auto simp: serialize_def)
  have p: "p = utf8_encode (print_json v)" and "\<not> MAX_ITEM_BYTES < length p"
    using assms(2) by (auto simp: serialize_def v dumps_def Let_def split: if_splits)
  show ?thesis unfolding load_object_def p utf8_round_trip using json_round_trip [OF assms(1)] by (simp add: v as_dict_def)
qed

lemma serialize_size: "serialize v = Inr p \<Longrightarrow> length p \<le> MAX_ITEM_BYTES"
  by (auto simp: serialize_def Let_def split: json.splits option.splits if_splits)

lemma item_fits_entry: "serialize v = Inr p \<Longrightarrow> kind \<in> set (ALLOWED_KINDS s) \<Longrightarrow> item_fits s (entry kind v)"
  by (simp add: item_fits_def entry_serialized serialize_size)

lemma serialized_entries:
  "list_all2 (\<lambda>v p. serialize v = Inr p) vs ps \<Longrightarrow> map (Pair kind) ps = map (entry kind) vs"
  by (induction vs ps rule: list_all2_induct) (simp_all add: entry_serialized)

lemma list_all2_serializes: "list_all2 (\<lambda>v p. serialize v = Inr p) vs ps \<Longrightarrow> \<forall>v \<in> set vs. \<exists>p. serialize v = Inr p"
  by (induction vs ps rule: list_all2_induct) auto

lemma valid_message_cases:
  "valid_message run_id v = serialize v \<or> valid_message run_id v = Inl InvalidBufferInput \<or> valid_message run_id v = Inl Unhashable"
  by (cases v) (simp_all add: valid_message_def)

lemma valid_message_serialized: "valid_message run_id v = Inr p \<Longrightarrow> serialize v = Inr p"
  using valid_message_cases [of run_id v] by auto

section \<open>A sequence of operations\<close>

text \<open>What a worker may call on a run's buffer, one call after another, whether a call returns or raises.\<close>

datatype buffer_op =
    Add_items "json list"
  | Add_events "json list"
  | Take_seq
  | Touch
  | Read_items
  | Read_events int

fun run_op :: "settings \<Rightarrow> string \<Rightarrow> buffer_op \<Rightarrow> unit io" where
  "run_op se run_id (Add_items items) = append_conversation se run_id items"
| "run_op se run_id (Add_events messages) = append_replay_many se run_id messages"
| "run_op se run_id Take_seq = bindB (next_seq se run_id) (\<lambda>_. returnB ())"
| "run_op se run_id Touch = touch se run_id"
| "run_op se run_id Read_items = bindB (read_conversation se run_id) (\<lambda>_. returnB ())"
| "run_op se run_id (Read_events n) = bindB (replay_after se run_id n) (\<lambda>_. returnB ())"

fun run_ops :: "settings \<Rightarrow> string \<Rightarrow> buffer_op list \<Rightarrow> buffer_world \<Rightarrow> bool list \<times> buffer_world" where
  "run_ops se run_id [] w = ([], w)"
| "run_ops se run_id (op # ops) w =
    (case run_op se run_id op w of (res, w1) \<Rightarrow>
       (case run_ops se run_id ops w1 of (oks, w2) \<Rightarrow> ((res = Inr ()) # oks, w2)))"

fun op_items :: "stream \<Rightarrow> buffer_op \<Rightarrow> json list" where
  "op_items Conv (Add_items items) = items"
| "op_items Replay (Add_events messages) = messages"
| "op_items _ _ = []"

context write_invariant
begin

lemma run_op_keeps: "preserves I (run_op se run_id op)"
  by (cases op) (simp_all add: preserving append_conversation_keeps append_replay_many_keeps next_seq_keeps touch_keeps
      read_conversation_keeps replay_after_keeps)

lemma run_ops_keeps: "I w \<Longrightarrow> I (snd (run_ops se run_id ops w))"
proof (induction ops arbitrary: w)
  case (Cons op ops)
  have "I (snd (run_op se run_id op w))" using run_op_keeps Cons.prems by (simp add: preserves_def)
  from Cons.IH [OF this] show ?case by (simp add: case_prod_beta)
qed simp

end

definition op_kind :: "stream \<Rightarrow> char" where
  "op_kind s = (if s = Conv then KIND_ITEM else KIND_EVENT)"

lemma bindB_liftB: "bindB (liftB m) f w = (case m of Inl e \<Rightarrow> (Inl e, w) | Inr x \<Rightarrow> f x w)"
  by (simp add: bindB_def liftB_def split: sum.split)

lemma append_stream_other:
  assumes "stream_key run_id s' \<noteq> stream_key run_id s"
  shows "preserves (keeps se b run_id s' entries) (append_stream se run_id s payloads)"
proof (rule preserves_keeps)
  show "preserves (list_inv run_id s' l) (append_stream se run_id s payloads)" for l
    unfolding append_stream_def Let_def
    by (intro preserving a_list.check_keeps a_list.seal_items_keeps push_all_other assms)
qed (rule draws.append_stream_keeps)

lemma append_stream_values:
  assumes "crypto_ok se" "open_box se run_id = Inr b" "list_all2 (\<lambda>v p. serialize v = Inr p) vs ps"
    and "op_kind s \<in> set (ALLOWED_KINDS s)"
    and "append_stream se run_id s (map (Pair (op_kind s)) ps) w = (res, w')" "keeps se b run_id s entries w"
    and "fresh_ids se (bw_draws w')"
  shows "\<exists>k \<le> length vs. (res = Inr () \<longrightarrow> k = length vs) \<and> (\<forall>v \<in> set (take k vs). \<exists>p. serialize v = Inr p)
    \<and> keeps se b run_id s (entries @ map (entry (op_kind s)) (take k vs)) w'"
proof -
  have e: "map (Pair (op_kind s)) ps = map (entry (op_kind s)) vs" by (rule serialized_entries [OF assms(3)])
  have ok: "\<forall>v \<in> set vs. \<exists>p. serialize v = Inr p" by (rule list_all2_serializes [OF assms(3)])
  have f: "\<forall>p \<in> set (map (entry (op_kind s)) vs). item_fits s p" using ok item_fits_entry [OF _ assms(4)] by auto
  obtain k where "k \<le> length vs" "res = Inr () \<longrightarrow> k = length vs"
    "keeps se b run_id s (entries @ take k (map (entry (op_kind s)) vs)) w'"
    using append_stream_result [OF assms(1,2) f assms(5) [unfolded e] assms(6,7)] by auto
  then show ?thesis using ok by (intro exI [of _ k]) (auto simp: take_map dest!: in_set_takeD)
qed

lemma op_result:
  assumes "crypto_ok se" "open_box se run_id = Inr b" "run_op se run_id op w = (res, w')" "keeps se b run_id s entries w"
    and "fresh_ids se (bw_draws w')" "s \<noteq> Meta"
  shows "\<exists>k \<le> length (op_items s op). (res = Inr () \<longrightarrow> k = length (op_items s op))
    \<and> (\<forall>v \<in> set (take k (op_items s op)). \<exists>p. serialize v = Inr p)
    \<and> keeps se b run_id s (entries @ map (entry (op_kind s)) (take k (op_items s op))) w'"
proof -
  have none: ?thesis if "keeps se b run_id s entries w'" "(\<exists>e. res = Inl e) \<or> op_items s op = []"
    using that by (intro exI [of _ 0]) auto
  have same: ?thesis if "preserves (keeps se b run_id s entries) (run_op se run_id op)" "op_items s op = []"
    using none preservesD [OF that(1) assms(3,4)] that(2) by blast
  have allowed: "op_kind s \<in> set (ALLOWED_KINDS s)" using assms(6) by (cases s) (auto simp: op_kind_def ALLOWED_KINDS_def)
  have valid: "valid_run_id run_id = Inr run_id \<or> valid_run_id run_id = Inl InvalidBufferInput" by (simp add: valid_run_id_def)
  show ?thesis
  proof (cases op)
    case (Add_items items)
    show ?thesis
    proof (cases "s = Conv")
      case True
      consider "w' = w" "\<exists>e. res = Inl e" | ps where "mapE serialize items = Inr ps"
          "append_stream se run_id Conv (map (Pair KIND_ITEM) ps) w = (res, w')"
        using assms(3) valid by (auto simp: Add_items append_conversation_def bindB_liftB raiseB_def split: if_splits sum.splits)
      then show ?thesis
        using none assms(4) append_stream_values [OF assms(1,2) _ allowed _ assms(4,5), where vs = items] True
        by cases (auto simp: Add_items op_kind_def result_iff)
    next
      case False
      have "preserves (keeps se b run_id s entries) (run_op se run_id op)"
        unfolding Add_items run_op.simps append_conversation_def
        by (rule preserves_valid, intro preserving append_stream_other) (use False assms(6) in \<open>simp_all add: stream_key_def\<close>)
      then show ?thesis using same False assms(6) by (cases s) (simp_all add: Add_items)
    qed
  next
    case (Add_events messages)
    show ?thesis
    proof (cases "s = Replay")
      case True
      have v: "mapE (valid_message run_id) messages = Inr ps \<Longrightarrow> list_all2 (\<lambda>v p. serialize v = Inr p) messages ps" for ps
        unfolding mapE_return by (erule list_all2_mono) (rule valid_message_serialized)
      consider "w' = w" "\<exists>e. res = Inl e" | ps where "mapE (valid_message run_id) messages = Inr ps"
          "append_stream se run_id Replay (map (Pair KIND_EVENT) ps) w = (res, w')"
        using assms(3) valid by (auto simp: Add_events append_replay_many_def bindB_liftB raiseB_def split: if_splits sum.splits)
      then show ?thesis
        using none assms(4) append_stream_values [OF assms(1,2) v allowed _ assms(4,5)] True
        by cases (auto simp: Add_events op_kind_def)
    next
      case False
      have "preserves (keeps se b run_id s entries) (run_op se run_id op)"
        unfolding Add_events run_op.simps append_replay_many_def
        by (rule preserves_valid, intro preserving append_stream_other) (use False assms(6) in \<open>cases s; simp add: stream_key_def\<close>)
      then show ?thesis using same False assms(6) by (cases s) (simp_all add: Add_events)
    qed
  next
    case Take_seq
    show ?thesis
      by (rule same) (cases s; simp add: Take_seq; intro preserving preserves_keeps a_list.next_seq_keeps draws.next_seq_keeps)+
  next
    case Touch
    show ?thesis
      by (rule same) (cases s; simp add: Touch; intro preserves_keeps a_list.touch_keeps draws.touch_keeps)+
  next
    case Read_items
    show ?thesis
      by (rule same) (cases s; simp add: Read_items; intro preserving preserves_keeps a_list.read_conversation_keeps draws.read_conversation_keeps)+
  next
    case (Read_events n)
    show ?thesis
      by (rule same) (cases s; simp add: Read_events; intro preserving preserves_keeps a_list.replay_after_keeps draws.replay_after_keeps)+
  qed
qed

lemma ops_draws: "bw_draws w \<le> bw_draws (snd (run_ops se run_id ops w))"
  by (rule draws.run_ops_keeps) simp

lemma opened_return:
  "opened se run_id f w = (Inr x, w') \<Longrightarrow> \<exists>b m w1. open_box se run_id = Inr b \<and> check se run_id b w = (Inr m, w1) \<and> f run_id b m w1 = (Inr x, w')"
  by (auto simp: opened_def bindB_liftB bindB_return valid_run_id_def split: sum.splits if_splits)

text \<open>A number of items of each write, and all of those that returned.\<close>

definition survivors :: "bool list \<Rightarrow> json list list \<Rightarrow> json list \<Rightarrow> bool" where
  "survivors oks batches kept \<longleftrightarrow>
    (\<exists>ks. length ks = length batches \<and> kept = concat (map2 take ks batches)
      \<and> (\<forall>i < length batches. oks ! i \<longrightarrow> ks ! i = length (batches ! i)))"

lemma survivors_Cons:
  assumes "ok \<longrightarrow> k = length b" "survivors oks bs kept"
  shows "survivors (ok # oks) (b # bs) (take k b @ kept)"
proof -
  obtain ks where ks: "length ks = length bs" "kept = concat (map2 take ks bs)"
    "\<forall>i < length bs. oks ! i \<longrightarrow> ks ! i = length (bs ! i)" using assms(2) unfolding survivors_def by blast
  then show ?thesis unfolding survivors_def using assms(1)
    by (intro exI [of _ "k # ks"]) (auto simp: nth_Cons split: nat.split)
qed

lemma survivors_subset: "survivors oks batches kept \<Longrightarrow> set kept \<subseteq> set (concat batches)"
  unfolding survivors_def by (auto simp: in_set_zip dest!: in_set_takeD) (metis nth_mem)

lemma ops_result:
  assumes "crypto_ok se" "open_box se run_id = Inr b" "run_ops se run_id ops w = (oks, w')" "keeps se b run_id s entries w"
    and "fresh_ids se (bw_draws w')" "s \<noteq> Meta"
  shows "\<exists>kept. survivors oks (map (op_items s) ops) kept \<and> (\<forall>v \<in> set kept. \<exists>p. serialize v = Inr p)
    \<and> keeps se b run_id s (entries @ map (entry (op_kind s)) kept) w'"
  using assms(3,4)
proof (induction ops arbitrary: oks w entries)
  case Nil
  then show ?case by (intro exI [of _ "[]"]) (simp add: survivors_def)
next
  case (Cons op ops)
  obtain res w1 where o: "run_op se run_id op w = (res, w1)" by fastforce
  obtain oks1 w2 where os: "run_ops se run_id ops w1 = (oks1, w2)" by fastforce
  have r: "oks = (res = Inr ()) # oks1" "w' = w2" using Cons.prems(1) by (auto simp: o os)
  have f: "fresh_ids se (bw_draws w1)" using ops_draws [of w1 se run_id ops] fresh_ids_mono [OF assms(5)] by (simp add: os r(2))
  obtain k where k: "k \<le> length (op_items s op)" "res = Inr () \<longrightarrow> k = length (op_items s op)"
    "\<forall>v \<in> set (take k (op_items s op)). \<exists>p. serialize v = Inr p"
    "keeps se b run_id s (entries @ map (entry (op_kind s)) (take k (op_items s op))) w1"
    using op_result [OF assms(1,2) o Cons.prems(2) f assms(6)] by blast
  obtain kept where kept: "survivors oks1 (map (op_items s) ops) kept" "\<forall>v \<in> set kept. \<exists>p. serialize v = Inr p"
    "keeps se b run_id s ((entries @ map (entry (op_kind s)) (take k (op_items s op))) @ map (entry (op_kind s)) kept) w2"
    using Cons.IH [OF os [folded r(2)] k(4)] unfolding r(2) by blast
  show ?case
    using survivors_Cons [OF k(2) kept(1)] kept(2,3) k(3) unfolding r
    by (intro exI [of _ "take k (op_items s op) @ kept"]) auto
qed

section \<open>Creation\<close>

lemma fill_request:
  assumes "fst (exec_request (DEL [conv_key run_id, replay_key run_id] # RPUSH (conv_key run_id) g # RPUSH (replay_key run_id) h
      # HSET (meta_key run_id) fs # cs) r) = Some xs" (is "fst (exec_request ?cs r) = _") and "\<forall>c \<in> set cs. harmless run_id c"
  shows "lost_or (conv_key run_id) g (snd (exec_request ?cs r))" "lost_or (replay_key run_id) h (snd (exec_request ?cs r))"
proof -
  let ?r = "snd (delete_keys [conv_key run_id, replay_key run_id] (purge r))"
  have d: "rd_store ?r (conv_key run_id) = None" "rd_store ?r (replay_key run_id) = None" by (simp_all add: delete_keys_store)
  let ?r2 = "put (replay_key run_id) (SList h) (put (conv_key run_id) (SList g) ?r)"
  obtain h0 where h0: "hash_at ?r2 (meta_key run_id) = Some h0"
    using assms(1) d
    by (auto simp: exec_request_def Let_def list_at_def case_prod_beta split: option.splits)
  let ?r3 = "put (meta_key run_id) (SHash (fold (\<lambda>(f, v). dict_set f v) fs h0)) ?r2"
  have e: "snd (exec_request ?cs r) = snd (do_commands cs ?r3)"
    using h0 d by (simp add: exec_request_def Let_def list_at_def case_prod_beta do_commands_snd del: do_commands.simps(2) delete_keys.simps)
  show "lost_or (conv_key run_id) g (snd (exec_request ?cs r))"
    using harmless_keep_list [OF assms(2), of ?r3 Conv g] unfolding e
    by (intro lost_or_raw) (simp add: stream_key_def)
  show "lost_or (replay_key run_id) h (snd (exec_request ?cs r))"
    using harmless_keep_list [OF assms(2), of ?r3 Replay h] unfolding e
    by (intro lost_or_raw) (simp add: stream_key_def)
qed

lemma group_loop_nonempty: "current \<noteq> [] \<or> recs \<noteq> [] \<Longrightarrow> group_loop current used recs \<noteq> []"
  by (induction current used recs rule: group_loop.induct) auto

lemma answered_send:
  assumes "send cs w = (Inr xs, w')"
  shows "\<exists>r. bw_redis w' = snd (exec_request cs r) \<and> fst (exec_request cs r) = Some xs"
  using send_reached(3) [OF assms] by (auto simp: reached_def)

lemma cleanup_return: "cleanup run_id m w = (Inr x, w') \<longleftrightarrow> m w = (Inr x, w')"
  by (auto simp: cleanup_def split: prod.splits sum.splits)

lemma atomic_return: "atomic cs w = (Inr xs, w') \<Longrightarrow> send cs w = (Inr xs, w')"
  by (auto simp: atomic_def raiseB_def split: if_splits)

lemma create_steps:
  assumes "create_buffer se run_id state history n w = (Inr (), w')"
  shows "\<exists>payloads b content marker stamp w1 recs w2 head w4 claimed w5 xs w6.
    conversation_payloads state history = Inr payloads \<and> open_box se run_id = Inr b \<and> content \<le> marker
    \<and> seal se b Meta (utf8_encode (stamp_text (rd_clock (bw_redis w)))) w = (Inr stamp, w1)
    \<and> seal_items se b Conv payloads w1 = (Inr recs, w2)
    \<and> seal se b Replay (pack_frame KIND_HEAD (se_random se (bw_draws w2) 16) 0 1) (w2\<lparr>bw_draws := bw_draws w2 + 1\<rparr>) = (Inr head, w4)
    \<and> send [HSETNX (meta_key run_id) ''meta'' stamp, EXPIRE (meta_key run_id) content True] w4 = (Inr claimed, w5)
    \<and> send [DEL [conv_key run_id, replay_key run_id], RPUSH (conv_key run_id) (map fst (hd (groups_of recs))),
         RPUSH (replay_key run_id) [head], HSET (meta_key run_id) (seq_fields n (hd (groups_of recs))),
         EXPIRE (conv_key run_id) content False, EXPIRE (replay_key run_id) content False, EXPIRE (meta_key run_id) marker False] w5
       = (Inr xs, w6)
    \<and> push_all se run_id (rd_clock (bw_redis w)) Conv (tl (groups_of recs)) w6 = (Inr (), w')"
proof -
  obtain content marker where t: "(case ttls se (rd_clock (bw_redis w)) (rd_clock (bw_redis w)) of Some t \<Rightarrow> t | None \<Rightarrow> (0, 0)) = (content, marker)"
    by fastforce
  have le: "content \<le> marker" using t ttls_result by (auto split: option.splits)
  obtain payloads b where p: "conversation_payloads state history = Inr payloads" "open_box se run_id = Inr b"
    using assms by (auto simp: create_buffer_def bindB_liftB bindB_return raiseB_def valid_run_id_def split: if_splits sum.splits)
  have "\<exists>stamp w1. seal se b Meta (utf8_encode (stamp_text (rd_clock (bw_redis w)))) w = (Inr stamp, w1)
    \<and> (\<exists>recs w2. seal_items se b Conv payloads w1 = (Inr recs, w2)
    \<and> (\<exists>head w4. seal se b Replay (pack_frame KIND_HEAD (se_random se (bw_draws w2) 16) 0 1) (w2\<lparr>bw_draws := bw_draws w2 + 1\<rparr>) = (Inr head, w4)
    \<and> (\<exists>claimed w5. send [HSETNX (meta_key run_id) ''meta'' stamp, EXPIRE (meta_key run_id) content True] w4 = (Inr claimed, w5)
    \<and> (\<exists>xs w6. send [DEL [conv_key run_id, replay_key run_id], RPUSH (conv_key run_id) (map fst (hd (groups_of recs))),
         RPUSH (replay_key run_id) [head], HSET (meta_key run_id) (seq_fields n (hd (groups_of recs))),
         EXPIRE (conv_key run_id) content False, EXPIRE (replay_key run_id) content False, EXPIRE (meta_key run_id) marker False] w5
       = (Inr xs, w6)
    \<and> push_all se run_id (rd_clock (bw_redis w)) Conv (tl (groups_of recs)) w6 = (Inr (), w')))))"
    using assms p t
    by (auto simp: create_buffer_def bindB_liftB bindB_return raiseB_def valid_run_id_def valid_seq_def clock_now_def draw_def
        cleanup_return Let_def dest!: atomic_return split: if_splits sum.splits)
  with p le show ?thesis by blast
qed

lemma undisturbed_draws: "only_draws w w' \<Longrightarrow> undisturbed run_id w \<Longrightarrow> undisturbed run_id w'"
  by (simp add: only_draws_def undisturbed_def)

lemma head_reads:
  assumes "unseal se b Replay head = Inr (pack_frame KIND_HEAD head_id 0 1)" "length head_id = 16"
  shows "take_records se b Replay [head] no_reading
    = Inr \<lparr>rg_pending = [], rg_finished = [head_id], rg_out = [(KIND_HEAD, [])]\<rparr>"
  using assms(1) frame_round_trip [OF assms(2), of 0 1 KIND_HEAD "[]"] frame_length [OF assms(2), of KIND_HEAD 0 1]
  by (simp add: take_record_def no_reading_def ALLOWED_KINDS_def MAX_RECORDS_PER_ITEM_def without_key_def)

lemma create_result:
  assumes "crypto_ok se" "undisturbed run_id w" "create_buffer se run_id state history n w = (Inr (), w')"
    and "fresh_ids se (bw_draws w')"
  shows "\<exists>b. open_box se run_id = Inr b \<and> (\<forall>v \<in> set (JObj state # history). \<exists>p. serialize v = Inr p)
    \<and> keeps se b run_id Conv (entry KIND_STATE (JObj state) # map (entry KIND_ITEM) history) w'
    \<and> keeps se b run_id Replay [(KIND_HEAD, [])] w'"
proof -
  obtain payloads b content marker stamp w1 recs w2 head w4 claimed w5 xs w6
    where p: "conversation_payloads state history = Inr payloads" and b: "open_box se run_id = Inr b"
      and le0: "content \<le> marker" and stamp: "seal se b Meta (utf8_encode (stamp_text (rd_clock (bw_redis w)))) w = (Inr stamp, w1)"
      and recs: "seal_items se b Conv payloads w1 = (Inr recs, w2)"
      and head: "seal se b Replay (pack_frame KIND_HEAD (se_random se (bw_draws w2) 16) 0 1) (w2\<lparr>bw_draws := bw_draws w2 + 1\<rparr>) = (Inr head, w4)"
      and claim: "send [HSETNX (meta_key run_id) ''meta'' stamp, EXPIRE (meta_key run_id) content True] w4 = (Inr claimed, w5)"
      and fill: "send [DEL [conv_key run_id, replay_key run_id], RPUSH (conv_key run_id) (map fst (hd (groups_of recs))),
         RPUSH (replay_key run_id) [head], HSET (meta_key run_id) (seq_fields n (hd (groups_of recs))),
         EXPIRE (conv_key run_id) content False, EXPIRE (replay_key run_id) content False, EXPIRE (meta_key run_id) marker False] w5
       = (Inr xs, w6)"
      and rest: "push_all se run_id (rd_clock (bw_redis w)) Conv (tl (groups_of recs)) w6 = (Inr (), w')"
    using create_steps [OF assms(3)] by blast
  note bx = open_box_ok [OF b, THEN conjunct1]
  obtain p0 ps where p0: "serialize (JObj state) = Inr p0" "list_all2 (\<lambda>v p. serialize v = Inr p) history ps"
    "payloads = (KIND_STATE, p0) # map (Pair KIND_ITEM) ps"
    using p by (auto simp: conversation_payloads_def result_iff)
  have entries: "payloads = entry KIND_STATE (JObj state) # map (entry KIND_ITEM) history"
    using p0 serialized_entries [OF p0(2)] by (simp add: entry_serialized)
  have ser: "\<forall>v \<in> set (JObj state # history). \<exists>p. serialize v = Inr p" using p0(1) list_all2_serializes [OF p0(2)] by auto
  then have fits: "\<forall>p \<in> set payloads. item_fits Conv p"
    unfolding entries using item_fits_entry [where s = Conv] by (fastforce simp: ALLOWED_KINDS_def)
  have d1: "only_draws w w1" using seal_result [OF assms(1) bx stamp] by blast
  obtain its where its: "map snd its = payloads" "only_draws w1 w2"
      "map (unseal se b Conv) (map fst recs) = map Inr (concat (map item_frames its))"
    using seal_items_result [OF assms(1) bx recs] by blast
  have d4: "only_draws (w2\<lparr>bw_draws := bw_draws w2 + 1\<rparr>) w4" and hd4: "unseal se b Replay head = Inr (pack_frame KIND_HEAD (se_random se (bw_draws w2) 16) 0 1)"
    using seal_result [OF assms(1) bx head] by auto
  have le: "bw_draws w2 < bw_draws w4" using d4 by (simp add: only_draws_def)
  have le6: "bw_draws w6 = bw_draws w4" using send_reached(2) [OF claim] send_reached(2) [OF fill] by simp
  have le': "bw_draws w6 \<le> bw_draws w'" by (rule preservesD [OF draws.push_all_keeps rest]) simp
  have u4: "undisturbed run_id w4"
    using undisturbed_draws [OF only_draws_trans [OF d1 its(2)] assms(2)] d4 by (simp add: only_draws_def undisturbed_def)
  have u6: "undisturbed run_id w6"
    by (rule undisturbed_tl [OF undisturbed_tl [OF u4 send_reached(1) [OF claim]] send_reached(1) [OF fill]])
  obtain r where r: "bw_redis w6 = snd (exec_request [DEL [conv_key run_id, replay_key run_id], RPUSH (conv_key run_id) (map fst (hd (groups_of recs))),
         RPUSH (replay_key run_id) [head], HSET (meta_key run_id) (seq_fields n (hd (groups_of recs))),
         EXPIRE (conv_key run_id) content False, EXPIRE (replay_key run_id) content False, EXPIRE (meta_key run_id) marker False] r)"
      "fst (exec_request [DEL [conv_key run_id, replay_key run_id], RPUSH (conv_key run_id) (map fst (hd (groups_of recs))),
         RPUSH (replay_key run_id) [head], HSET (meta_key run_id) (seq_fields n (hd (groups_of recs))),
         EXPIRE (conv_key run_id) content False, EXPIRE (replay_key run_id) content False, EXPIRE (meta_key run_id) marker False] r) = Some xs"
    using answered_send [OF fill] by blast
  have filled: "list_inv run_id Conv (map fst (hd (groups_of recs))) w6" "list_inv run_id Replay [head] w6"
    using fill_request [OF r(2)] u6 unfolding r(1) [symmetric] by (simp_all add: list_inv_def stream_key_def)
  obtain l' where l': "landed True (map (map fst) (tl (groups_of recs))) l'" "list_inv run_id Conv (map fst (hd (groups_of recs)) @ l') w'"
    using push_all_result [OF rest filled(1)] by auto
  have "recs \<noteq> []"
  proof
    assume "recs = []"
    then have "concat (map item_frames its) = []" using its(3) by simp
    moreover obtain it its' where "its = it # its'" using its(1) p0(3) by (cases its) auto
    moreover have "item_frames it \<noteq> []" using item_frames_length by (metis item_parts_nonempty length_0_conv prod_cases3)
    ultimately show False by simp
  qed
  then have g: "groups_of recs = hd (groups_of recs) # tl (groups_of recs)" by (simp add: groups_of_def group_loop_nonempty)
  have all: "landed True (map (map fst) (groups_of recs)) (map fst (hd (groups_of recs)) @ l')"
    by (subst g) (simp add: landed_once l'(1))
  have le2: "bw_draws w2 \<le> bw_draws w'" using le le6 le' by simp
  have "keeps se b run_id Conv payloads w'"
    using sealed_push_all [where l = "[]" and rg = no_reading and run_id = run_id, OF assms(1) bx fits recs le2 fresh_ids_mono [OF assms(4) le2] _ _ all] l'(2)
    by (auto simp: no_reading_def used_ids_def)
  moreover have "keeps se b run_id Replay [(KIND_HEAD, [])] w'"
  proof -
    have "list_inv run_id Replay [head] w'"
      by (rule preservesD [OF push_all_other rest filled(2)]) (simp add: stream_key_def)
    moreover have "length (se_random se (bw_draws w2) 16) = 16" using assms(1) by (simp add: crypto_ok_def)
    moreover have "se_random se (bw_draws w2) 16 \<in> id_draws se 0 (bw_draws w')" using le le6 le' by (auto simp: id_draws_def)
    ultimately show ?thesis unfolding keeps_def using head_reads [OF hd4] by (auto simp: used_ids_def)
  qed
  ultimately show ?thesis using b ser entries by blast
qed

section \<open>Reading back\<close>

lemma read_stream_calm:
  assumes "bw_script w = []" "lost_or (stream_key run_id s) l (bw_redis w)" "read_stream se run_id b s w = (Inr entries, w')"
  shows "\<exists>rg. take_records se b s l no_reading = Inr rg \<and> entries = rg_out rg"
proof (cases "rd_store (purge (bw_redis w)) (stream_key run_id s) = Some (SList l) \<and> l \<noteq> []")
  case True
  then show ?thesis using assms(3) read_pages_quiet [OF assms(1), of run_id s l se b 0 "READ_FIRST_PAGE - 1" no_reading]
    by (auto simp: read_stream_def split: sum.splits)
next
  case False
  have "call (LRANGE (stream_key run_id s) 0 (0 + (READ_FIRST_PAGE - 1))) w = (Inr (RItems []), w\<lparr>bw_redis := purge (bw_redis w)\<rparr>)"
    using False assms(2) by (auto simp: call_quiet [OF assms(1)] list_at_def lost_or_def cell_def)
  then have "read_stream se run_id b s w = gone run_id (w\<lparr>bw_redis := purge (bw_redis w)\<rparr>)"
    unfolding read_stream_def by (subst read_pages.simps) simp
  then have "gone run_id (w\<lparr>bw_redis := purge (bw_redis w)\<rparr>) = (Inr entries, w')" using assms(3) by simp
  from gone_raises [OF this] show ?thesis by simp
qed

lemma keeps_calm: "keeps se b run_id s entries w \<Longrightarrow> keeps se b run_id s entries (w\<lparr>bw_script := []\<rparr>)"
  unfolding keeps_def list_inv_def undisturbed_def by simp

text \<open>Nobody interferes: what a refresh and a read of a stream give after the check.\<close>

lemma calm_read:
  assumes "bw_script w = []" "keeps se b run_id s entries w" "check se run_id b w = (Inr m, w1)"
    and "refresh se run_id m w1 = (Inr u, w2)" "read_stream se run_id b s w2 = (Inr entries', w3)"
  shows "entries' = entries"
proof -
  obtain l rg where l: "list_inv run_id s l w" "take_records se b s l no_reading = Inr rg" "rg_out rg = entries"
    using assms(2) unfolding keeps_def by blast
  have s2: "bw_script w2 = []"
    by (rule preservesD [OF calm.refresh_keeps assms(4) preservesD [OF calm.check_keeps assms(3,1)]])
  have "list_inv run_id s l w2"
    by (rule preservesD [OF a_list.refresh_keeps assms(4) preservesD [OF a_list.check_keeps assms(3) l(1)]])
  then have "lost_or (stream_key run_id s) l (bw_redis w2)" by (simp add: list_inv_def)
  from read_stream_calm [OF s2 this assms(5)] show ?thesis using l(2,3) by auto
qed

lemma read_conversation_return:
  assumes "read_conversation se run_id w = (Inr (st, items), w')" "open_box se run_id = Inr b"
    and "bw_script w = []" "keeps se b run_id Conv entries w"
  shows "\<exists>p. filter (\<lambda>p. fst p = KIND_STATE) entries = [p] \<and> load_object (snd p) = Inr st
    \<and> mapE (\<lambda>p. load_object (snd p)) (filter (\<lambda>p. fst p = KIND_ITEM) entries) = Inr items"
proof -
  obtain m w1 w2 entries' w3 where c: "check se run_id b w = (Inr m, w1)" "refresh se run_id m w1 = (Inr (), w2)"
    "read_stream se run_id b Conv w2 = (Inr entries', w3)"
    and r: "(case filter (\<lambda>p. fst p = KIND_STATE) entries' of
             [st] \<Rightarrow> bindE (load_object (snd st)) (\<lambda>state.
                     bindE (mapE (\<lambda>p. load_object (snd p)) (filter (\<lambda>p. fst p = KIND_ITEM) entries')) (\<lambda>items. Inr (state, items)))
           | _ \<Rightarrow> Inl BufferCorrupt) = Inr (st, items)"
    using assms(1,2) unfolding read_conversation_def
    by (auto dest!: opened_return simp: bindB_return liftB_def)
  have "entries' = entries" by (rule calm_read [OF assms(3,4) c])
  then show ?thesis using r by (auto simp: bindE_return split: list.splits)
qed

lemma loads_entries:
  "\<forall>v \<in> set vs. python_json v \<and> (\<exists>p. serialize v = Inr p) \<Longrightarrow> mapE (\<lambda>p. load_object (snd p)) (map (entry kind) vs) = Inr (map as_dict vs)"
  by (induction vs) (auto simp: entry_serialized load_serialized)

text \<open>C22: Create a buffer and call any operations on it, in any order, while requests are lost, answered to nobody or
  sent twice, time passes and other runs write: what is read then is the state, the history and of each write
  a prefix of its items, all of them when it returned. The random ids must not repeat.
\<close>

theorem the_conversation_survives:
  assumes "crypto_ok se" "undisturbed run_id w0" "create_buffer se run_id state history n w0 = (Inr (), w1)"
    and "run_ops se run_id ops w1 = (oks, w2)" "fresh_ids se (bw_draws w2)"
    and "\<forall>v \<in> set (JObj state # history @ concat (map (op_items Conv) ops)). python_json v"
    and "read_conversation se run_id (w2\<lparr>bw_script := []\<rparr>) = (Inr (st, items), w3)"
  shows "st = state \<and> (\<exists>kept. survivors oks (map (op_items Conv) ops) kept \<and> items = map as_dict (history @ kept))"
proof -
  have le: "bw_draws w1 \<le> bw_draws w2" using ops_draws [of w1 se run_id ops] by (simp add: assms(4))
  obtain b where b: "open_box se run_id = Inr b" and ser: "\<forall>v \<in> set (JObj state # history). \<exists>p. serialize v = Inr p"
    and k1: "keeps se b run_id Conv (entry KIND_STATE (JObj state) # map (entry KIND_ITEM) history) w1"
    using create_result [OF assms(1-3) fresh_ids_mono [OF assms(5) le]] by blast
  obtain kept where kept: "survivors oks (map (op_items Conv) ops) kept" "\<forall>v \<in> set kept. \<exists>p. serialize v = Inr p"
    "keeps se b run_id Conv ((entry KIND_STATE (JObj state) # map (entry KIND_ITEM) history) @ map (entry (op_kind Conv)) kept) w2"
    using ops_result [OF assms(1) b assms(4) k1 assms(5)] by blast
  have sub: "set kept \<subseteq> set (concat (map (op_items Conv) ops))" by (rule survivors_subset [OF kept(1)])
  have kinds: "filter (\<lambda>p. fst p = KIND_STATE) (map (entry KIND_ITEM) vs) = []"
    "filter (\<lambda>p. fst p = KIND_ITEM) (map (entry KIND_ITEM) vs) = map (entry KIND_ITEM) vs"
    "fst (entry KIND_STATE v) = KIND_STATE" "KIND_STATE \<noteq> KIND_ITEM" for vs v
    by (auto simp: entry_def KIND_STATE_def KIND_ITEM_def filter_empty_conv)
  have r: "load_object (snd (entry KIND_STATE (JObj state))) = Inr st"
    "mapE (\<lambda>p. load_object (snd p)) (map (entry KIND_ITEM) (history @ kept)) = Inr items"
    using read_conversation_return [OF assms(7) b _ keeps_calm [OF kept(3)]] kinds
    by (simp_all add: op_kind_def)
  have "load_object (snd (entry KIND_STATE (JObj state))) = Inr state"
    using ser assms(6) load_serialized [of "JObj state"] by (auto simp: entry_serialized as_dict_def)
  moreover have "mapE (\<lambda>p. load_object (snd p)) (map (entry KIND_ITEM) (history @ kept)) = Inr (map as_dict (history @ kept))"
    by (rule loads_entries) (use ser kept(2) sub assms(6) in auto)
  ultimately show ?thesis using r kept(1) by auto
qed

section \<open>The events\<close>

definition seq_of :: "(string \<times> json) list \<Rightarrow> int" where
  "seq_of m = (case field m ''seq'' of JInt n \<Rightarrow> n | _ \<Rightarrow> 0)"

text \<open>The events after a number: in the order of their numbers, the first of each.\<close>

definition events_after :: "int \<Rightarrow> (string \<times> json) list list \<Rightarrow> (string \<times> json) list list \<Rightarrow> bool" where
  "events_after n ms es \<longleftrightarrow> sorted_wrt (<) (map seq_of es)
    \<and> set (map seq_of es) = {seq_of m | m. m \<in> set ms \<and> n < seq_of m}
    \<and> (\<forall>e \<in> set es. find (\<lambda>m. seq_of m = seq_of e) ms = Some e)"

lemma collect_events_result:
  assumes "collect_events n (map (entry KIND_EVENT) vs) evs = Inr evs'" "\<forall>v \<in> set vs. python_json v \<and> (\<exists>p. serialize v = Inr p)"
    and "distinct (map fst evs)"
  shows "distinct (map fst evs') \<and> (\<forall>k. map_of evs' k = (case map_of evs k of Some m \<Rightarrow> Some m
    | None \<Rightarrow> if n < k then find (\<lambda>m. seq_of m = k) (map as_dict vs) else None))"
  using assms
proof (induction vs arbitrary: evs)
  case Nil
  then show ?case by (auto split: option.split)
next
  case (Cons v vs)
  obtain p where p: "serialize v = Inr p" "load_object p = Inr (as_dict v)" using Cons.prems(2) load_serialized by fastforce
  obtain k where k: "field (as_dict v) ''seq'' = JInt k"
    using Cons.prems(1) by (auto simp: entry_serialized [OF p(1)] p(2) split: json.splits)
  let ?evs = "if n < k \<and> map_of evs k = None then evs @ [(k, as_dict v)] else evs"
  have s: "seq_of (as_dict v) = k" by (simp add: seq_of_def k)
  have c: "collect_events n (map (entry KIND_EVENT) vs) ?evs = Inr evs'"
    using Cons.prems(1) by (simp add: entry_serialized [OF p(1)] p(2) k)
  have "distinct (map fst ?evs)" using Cons.prems(3) by (auto simp: map_of_eq_None_iff)
  from Cons.IH [OF c _ this] show ?case using Cons.prems(2)
    by (auto simp: s map_add_def split: option.splits if_splits)
qed

lemma events_after_collected:
  assumes "distinct (map fst evs)" "\<forall>k. map_of evs k = (if n < k then find (\<lambda>m. seq_of m = k) ms else None)"
  shows "events_after n ms (map snd (sort_key fst evs))"
proof -
  have found: "find (\<lambda>m. seq_of m = fst p) ms = Some (snd p) \<and> n < fst p" if "p \<in> set evs" for p
  proof -
    have "map_of evs (fst p) = Some (snd p)" using assms(1) that by simp
    then show ?thesis using assms(2) by (metis option.distinct(1))
  qed
  have key: "seq_of (snd p) = fst p" if "p \<in> set evs" for p using found [OF that] by (auto simp: find_Some_iff)
  have seqs: "map seq_of (map snd (sort_key fst evs)) = map fst (sort_key fst evs)" using key by simp
  have "sorted (map fst (sort_key fst evs))" by simp
  moreover have "distinct (map fst (sort_key fst evs))" using assms(1) by (simp add: distinct_map)
  ultimately have sorted: "sorted_wrt (<) (map fst (sort_key fst evs))" by (simp add: strict_sorted_iff)
  have "set (map fst evs) = {seq_of m | m. m \<in> set ms \<and> n < seq_of m}"
  proof (intro equalityI subsetI)
    fix k assume "k \<in> set (map fst evs)"
    then show "k \<in> {seq_of m | m. m \<in> set ms \<and> n < seq_of m}" using found by (fastforce simp: find_Some_iff)
  next
    fix k assume "k \<in> {seq_of m | m. m \<in> set ms \<and> n < seq_of m}"
    then have "find (\<lambda>m. seq_of m = k) ms \<noteq> None" "n < k" by (auto simp: find_None_iff)
    then have "map_of evs k \<noteq> None" using assms(2) by simp
    then show "k \<in> set (map fst evs)" by (simp add: map_of_eq_None_iff)
  qed
  then show ?thesis unfolding events_after_def seqs using sorted found key by auto
qed

lemma replay_after_return:
  assumes "replay_after se run_id n w = (Inr es, w')" "open_box se run_id = Inr b"
    and "bw_script w = []" "keeps se b run_id Replay entries w"
  shows "\<exists>evs. collect_events n entries [] = Inr evs \<and> es = map snd (sort_key fst evs)"
proof -
  obtain m w1 w2 entries' w3 evs where c: "check se run_id b w = (Inr m, w1)" "refresh se run_id m w1 = (Inr (), w2)"
    "read_stream se run_id b Replay w2 = (Inr entries', w3)" "collect_events n entries' [] = Inr evs" "es = map snd (sort_key fst evs)"
    using assms(1,2) unfolding replay_after_def
    by (auto dest!: opened_return simp: bindB_liftB bindB_return liftB_def valid_seq_def result_iff split: sum.splits if_splits)
  have "entries' = entries" by (rule calm_read [OF assms(3,4) c(1-3)])
  then show ?thesis using c by blast
qed

text \<open>C23: The same for the events: after any operations under any faults, what is replayed are the events of the writes, a
  prefix of each and all of those that returned, above the given number, in the order of their numbers, each
  number once and its first event verbatim.
\<close>

theorem the_events_survive:
  assumes "crypto_ok se" "undisturbed run_id w0" "create_buffer se run_id state history n w0 = (Inr (), w1)"
    and "run_ops se run_id ops w1 = (oks, w2)" "fresh_ids se (bw_draws w2)"
    and "\<forall>v \<in> set (concat (map (op_items Replay) ops)). python_json v"
    and "replay_after se run_id last_seq (w2\<lparr>bw_script := []\<rparr>) = (Inr es, w3)"
  shows "\<exists>kept. survivors oks (map (op_items Replay) ops) kept \<and> events_after last_seq (map as_dict kept) es"
proof -
  have le: "bw_draws w1 \<le> bw_draws w2" using ops_draws [of w1 se run_id ops] by (simp add: assms(4))
  obtain b where b: "open_box se run_id = Inr b" and k1: "keeps se b run_id Replay [(KIND_HEAD, [])] w1"
    using create_result [OF assms(1-3) fresh_ids_mono [OF assms(5) le]] by blast
  obtain kept where kept: "survivors oks (map (op_items Replay) ops) kept" "\<forall>v \<in> set kept. \<exists>p. serialize v = Inr p"
    "keeps se b run_id Replay ([(KIND_HEAD, [])] @ map (entry (op_kind Replay)) kept) w2"
    using ops_result [OF assms(1) b assms(4) k1 assms(5)] by blast
  have ok: "\<forall>v \<in> set kept. python_json v \<and> (\<exists>p. serialize v = Inr p)"
    using kept(2) survivors_subset [OF kept(1)] assms(6) by blast
  obtain evs where "collect_events last_seq ([(KIND_HEAD, [])] @ map (entry (op_kind Replay)) kept) [] = Inr evs"
    and es: "es = map snd (sort_key fst evs)"
    using replay_after_return [OF assms(7) b _ keeps_calm [OF kept(3)]] by auto
  then have "collect_events last_seq (map (entry KIND_EVENT) kept) [] = Inr evs"
    by (simp add: op_kind_def KIND_HEAD_def KIND_EVENT_def)
  from collect_events_result [OF this ok] have "events_after last_seq (map as_dict kept) es"
    unfolding es by (intro events_after_collected) auto
  then show ?thesis using kept(1) by blast
qed

section \<open>Properties\<close>

text \<open>Records that come again, in any number and order, do not change what is read after them.\<close>

theorem records_that_come_again_change_nothing:
  assumes "set again \<subseteq> set (xs @ grp)"
  shows "take_records se b s (xs @ grp @ again @ ys) rg = take_records se b s (xs @ grp @ ys) rg"
  using assms by (rule a_repeated_push_reads_once)

text \<open>A stream is read page by page as if it were read at once.\<close>

theorem pages_do_not_matter:
  assumes "bw_script w = []" "rd_store (purge (bw_redis w)) (stream_key run_id s) = Some (SList l)" "l \<noteq> []"
  shows "read_stream se run_id b s w =
    ((case take_records se b s l no_reading of Inl e \<Rightarrow> Inl e | Inr rg \<Rightarrow> Inr (rg_out rg)), w\<lparr>bw_redis := purge (bw_redis w)\<rparr>)"
  using read_pages_quiet [OF assms, of se b 0 "READ_FIRST_PAGE - 1" no_reading] by (simp add: read_stream_def)

text \<open>C28: A JSON object that is stored, in as many records as it takes, is read back as it was.\<close>

theorem a_stored_object_comes_back:
  assumes "crypto_ok se" "box_ok b" "python_json v" "serialize v = Inr p" "kind \<in> set (ALLOWED_KINDS s)"
    and "seal_item se b s (kind, p) w = (res, w')"
  shows "\<exists>recs rg. res = Inr recs \<and> take_records se b s (map fst recs) no_reading = Inr rg
    \<and> rg_out rg = [(kind, p)] \<and> load_object p = Inr (as_dict v)"
proof -
  obtain recs where recs: "res = Inr recs"
    "map (unseal se b s) (map fst recs) = map Inr (item_frames (se_random se (bw_draws w) 16, kind, p))"
    using seal_item_result [OF assms(1,2,6)] by blast
  have "item_fits s (kind, p)" using assms(5) serialize_size [OF assms(4)] by (simp add: item_fits_def)
  then have "take_plains s (item_frames (se_random se (bw_draws w) 16, kind, p)) no_reading
    = Inr (no_reading\<lparr>rg_finished := se_random se (bw_draws w) 16 # rg_finished no_reading, rg_out := rg_out no_reading @ [(kind, p)]\<rparr>)"
    using assms(1) by (intro take_item) (simp_all add: crypto_ok_def used_ids_def no_reading_def)
  then show ?thesis
    using recs take_records_plains [OF recs(2)] load_serialized [OF assms(3,4)] by (simp add: no_reading_def)
qed

end
