(* ===== verification/BufferCounter.thy ===== *)
theory BufferCounter
  imports BufferSurvival
begin

text \<open>
  The sequence numbers of a run increase, because the counter does not expire before the conversation.
\<close>

section \<open>The text of an integer\<close>

lemma strip_word: "s \<noteq> [] \<Longrightarrow> \<forall>c \<in> set s. \<not> py_space c \<Longrightarrow> strip s = s"
proof -
  assume s: "s \<noteq> []" "\<forall>c \<in> set s. \<not> py_space c"
  then have "dropWhile py_space s = s" "dropWhile py_space (rev s) = rev s" by (simp_all add: dropWhile_eq_self_iff hd_rev)
  then show ?thesis by (simp add: strip_def)
qed

lemma int_digits_word: "\<forall>c \<in> set s. ascii_digit c \<Longrightarrow> s \<noteq> [] \<or> after \<Longrightarrow> int_digits after s = Some s"
  by (induction s arbitrary: after) auto

lemma digit_no_space: "ascii_digit c \<Longrightarrow> \<not> py_space c"
  by (auto simp: ascii_digit_def py_space_def Let_def)

lemma py_int_text: "py_int (int_text n) = Some m \<Longrightarrow> m = n"
proof -
  assume p: "py_int (int_text n) = Some m"
  define ds where "ds = digits_of (nat \<bar>n\<bar>)"
  have t: "int_text n = (if n < 0 then ''-'' else []) @ ds" by (simp add: int_text_def ds_def)
  have ds: "ds \<noteq> []" "\<forall>c \<in> set ds. ascii_digit c" "decimal ds = nat \<bar>n\<bar>" using digits_of_digits unfolding ds_def by blast+
  have sp: "strip (int_text n) = int_text n"
    by (rule strip_word) (use ds digit_no_space in \<open>auto simp: t py_space_def Let_def\<close>)
  obtain d ds' where d: "ds = d # ds'" using ds(1) by (cases ds) auto
  have "d \<noteq> CHR ''-''" "d \<noteq> CHR ''+''" using ds(2) by (auto simp: d ascii_digit_def)
  then show ?thesis
    using p ds int_digits_word [OF ds(2), of False] unfolding py_int_def sp Let_def decimal_def [symmetric]
    by (cases "n < 0") (auto simp: t d split: if_splits option.splits)
qed

section \<open>Sequence numbers\<close>

text \<open>Exactly when a key is lost before a request.\<close>

lemma cell_later_exact:
  "cell (r\<lparr>rd_clock := rd_clock r + d\<rparr>) k =
    (case snd (cell r k) of Some e \<Rightarrow> if e \<le> rd_clock r + d then (None, None) else cell r k | None \<Rightarrow> cell r k)"
  by (cases "rd_expires r k") (auto simp: cell_def purge_at expired_def)

lemma before_request_exact:
  assumes "\<forall>cs \<in> set (tn_others t). foreign run_id cs" "k \<in> set (buffer_keys run_id)"
  shows "cell (before_request t r) k =
    (case snd (cell r k) of Some e \<Rightarrow> if e \<le> rd_clock r + tn_elapsed t then (None, None) else cell r k | None \<Rightarrow> cell r k)"
  unfolding before_request_def
  using foreign_requests [OF assms, of "r\<lparr>rd_clock := rd_clock r + tn_elapsed t\<rparr>"] by (simp add: cell_later_exact)

text \<open>
  While the conversation is there, the counter is, at no less than a number, and does not expire before it.
\<close>

definition counted :: "string \<Rightarrow> int \<Rightarrow> (string \<Rightarrow> stored option \<times> nat option) \<Rightarrow> bool" where
  "counted run_id a cells \<longleftrightarrow>
    (case cells (conv_key run_id) of
       (None, _) \<Rightarrow> True
     | (Some _, tc) \<Rightarrow>
         (\<exists>h tm t e. cells (meta_key run_id) = (Some (SHash h), Some tm) \<and> tc = Some e \<and> e \<le> tm \<and> map_of h ''seq'' = Some t
           \<and> (\<forall>k. py_int t = Some k \<longrightarrow> a \<le> k)))"

definition count_inv :: "string \<Rightarrow> int \<Rightarrow> buffer_world \<Rightarrow> bool" where
  "count_inv run_id a w \<longleftrightarrow> undisturbed run_id w \<and> counted run_id a (cell (bw_redis w))"

lemma conv_meta_keys: "conv_key run_id \<in> set (buffer_keys run_id)" "meta_key run_id \<in> set (buffer_keys run_id)"
  by (simp_all add: buffer_keys_def)

lemma counted_before:
  assumes "\<forall>cs \<in> set (tn_others t). foreign run_id cs" "counted run_id a (cell r)"
  shows "counted run_id a (cell (before_request t r))"
  using assms(2) before_request_exact [OF assms(1) conv_meta_keys(1), of r] before_request_exact [OF assms(1) conv_meta_keys(2), of r]
  by (fastforce simp: counted_def split: prod.splits option.splits if_splits)

lemma counted_cell: "counted run_id a (raw_cell r) \<Longrightarrow> counted run_id a (cell r)"
  by (fastforce simp: counted_def raw_cell_def cell_def purge_at expired_def split: prod.splits option.splits if_splits)

lemma counted_request:
  assumes "counted run_id a (cell r)" "\<And>r. counted run_id a (raw_cell r) \<Longrightarrow> counted run_id a' (raw_cell (snd (do_commands cs r)))"
  shows "counted run_id a' (cell (snd (exec_request cs r)))"
proof -
  have "counted run_id a (raw_cell (purge r))" using assms(1) by (simp add: raw_cell_purge [abs_def] fun_eq_iff)
  from assms(2) [OF this] show ?thesis unfolding exec_request_def by (rule counted_cell)
qed

text \<open>The three refreshes, and what comes after them.\<close>

definition refreshed :: "string \<Rightarrow> nat \<Rightarrow> redis \<Rightarrow> redis" where
  "refreshed k secs r = (if rd_store r k = None then r else set_expiry k (rd_clock r + secs * 1000) r)"

definition expired_at :: "string \<Rightarrow> nat \<Rightarrow> nat \<Rightarrow> redis \<Rightarrow> redis" where
  "expired_at run_id content marker r =
    refreshed (meta_key run_id) marker (refreshed (replay_key run_id) content (refreshed (conv_key run_id) content r))"

lemma do_expire: "snd (do_commands (EXPIRE k secs False # cs) r) = snd (do_commands cs (refreshed k secs r))"
  by (simp add: do_commands_snd refreshed_def Let_def del: do_commands.simps(2))

lemma do_expires: "snd (do_commands (expires run_id content marker @ cs) r) = snd (do_commands cs (expired_at run_id content marker r))"
  by (simp add: expires_def do_expire expired_at_def del: do_commands.simps(2))

lemma counted_expires:
  "content \<le> marker \<Longrightarrow> counted run_id a (raw_cell r) \<Longrightarrow> counted run_id a (raw_cell (expired_at run_id content marker r))"
  by (fastforce simp: counted_def raw_cell_def expired_at_def refreshed_def split: option.splits)

lemma counted_incr:
  assumes "counted run_id a (raw_cell r)" "do_command (HINCRBY (meta_key run_id) f n) r = Some (x, r')" "f = ''seq'' \<Longrightarrow> 0 \<le> n"
  shows "counted run_id a (raw_cell r')"
proof -
  obtain h old where h: "hash_at r (meta_key run_id) = Some h"
    "py_int (case map_of h f of Some v \<Rightarrow> v | None \<Rightarrow> ''0'') = Some old"
    and r': "r' = put (meta_key run_id) (SHash (dict_set f (int_text (old + n)) h)) r"
    using assms(2) by (auto split: option.splits)
  have "k = old + n" if "py_int (int_text (old + n)) = Some k" for k using py_int_text [OF that] .
  then show ?thesis using assms(1,3) h
    by (fastforce simp: counted_def raw_cell_def r' hash_at_def split: option.splits stored.splits if_splits)
qed

lemma counted_pushx:
  "counted run_id a (raw_cell r) \<Longrightarrow> do_command (RPUSHX (stream_key run_id s) ws) r = Some (x, r') \<Longrightarrow> counted run_id a (raw_cell r')"
  by (auto simp: counted_def raw_cell_def split: if_splits option.splits prod.splits)

lemma counted_own:
  "own_request run_id cs \<Longrightarrow> counted run_id a (raw_cell r) \<Longrightarrow> counted run_id a (raw_cell (snd (do_commands cs r)))"
proof (induction rule: own_request.induct)
  case (remove run_id)
  have "rd_store (snd (do_commands [DEL (buffer_keys run_id)] r)) (conv_key run_id) = None"
    by (simp add: do_commands_snd Let_def case_prod_beta delete_keys_store buffer_keys_def del: do_commands.simps(2) delete_keys.simps)
  then show ?case by (simp add: counted_def raw_cell_def)
next
  case (expire content marker run_id)
  show ?case using do_expires [of run_id content marker "[]" r] counted_expires [OF expire(2,3)] by simp
next
  case (count content marker run_id)
  show ?case
  proof (cases "do_command (HINCRBY (meta_key run_id) ''seq'' 1) r")
    case (Some p)
    then obtain x r1 where p: "do_command (HINCRBY (meta_key run_id) ''seq'' 1) r = Some (x, r1)" by (cases p) blast
    have "counted run_id a (raw_cell r1)" by (rule counted_incr [OF count(3) p]) simp
    from counted_expires [OF count(2) this] show ?thesis
      using do_expires [of run_id content marker "[]" r1] by (simp add: do_commands_snd p del: do_commands.simps(2) do_command.simps)
  qed (use count(3) in \<open>simp add: do_commands_snd del: do_commands.simps(2) do_command.simps\<close>)
qed (auto simp: do_commands_snd simp del: do_commands.simps(2) split: option.split)

lemma counted_push:
  "push_request run_id cs \<Longrightarrow> counted run_id a (raw_cell r) \<Longrightarrow> counted run_id a (raw_cell (snd (do_commands cs r)))"
proof (induction rule: push_request.induct)
  case (1 content marker run_id s ws n)
  let ?rest = "expires run_id content marker @ [HINCRBY (meta_key run_id) (bytes_field s) n]"
  have rest: "counted run_id a (raw_cell (snd (do_commands ?rest r1)))" if "counted run_id a (raw_cell r1)" for r1
  proof -
    let ?r2 = "expired_at run_id content marker r1"
    have c: "counted run_id a (raw_cell ?r2)" by (rule counted_expires [OF 1(2) that])
    show ?thesis
    proof (cases "do_command (HINCRBY (meta_key run_id) (bytes_field s) n) ?r2")
      case (Some p)
      then obtain x r3 where p: "do_command (HINCRBY (meta_key run_id) (bytes_field s) n) ?r2 = Some (x, r3)" by (cases p) blast
      have "counted run_id a (raw_cell r3)" by (rule counted_incr [OF c p]) (simp add: bytes_field_def split: if_splits)
      then show ?thesis by (simp add: do_expires do_commands_snd p del: do_commands.simps(2) do_command.simps)
    qed (use c in \<open>simp add: do_expires do_commands_snd del: do_commands.simps(2) do_command.simps\<close>)
  qed
  show ?case
  proof (cases "do_command (RPUSHX (stream_key run_id s) ws) r")
    case (Some p)
    then obtain x r1 where p: "do_command (RPUSHX (stream_key run_id s) ws) r = Some (x, r1)" by (cases p) blast
    from rest [OF counted_pushx [OF 1(3) p]] show ?thesis by (simp add: do_commands_snd p del: do_commands.simps(2) do_command.simps)
  qed (use 1(3) in \<open>simp add: do_commands_snd del: do_commands.simps(2) do_command.simps\<close>)
qed

lemma counted_send:
  assumes "\<And>r. counted run_id a (raw_cell r) \<Longrightarrow> counted run_id a (raw_cell (snd (do_commands cs r)))"
  shows "preserves (count_inv run_id a) (send cs)"
  unfolding preserves_def
proof (intro allI impI)
  fix w assume w: "count_inv run_id a w"
  obtain res w' where s: "send cs w = (res, w')" by fastforce
  have "counted run_id a (cell (bw_redis w'))"
    by (rule reached_keeps [OF send_reached(3) [OF s]])
      (use w in \<open>auto simp: count_inv_def intro: counted_before [OF this_turn_foreign] counted_request assms\<close>)
  moreover have "undisturbed run_id w'"
    by (rule undisturbed_tl [OF _ send_reached(1) [OF s]]) (use w in \<open>simp add: count_inv_def\<close>)
  ultimately show "count_inv run_id a (snd (send cs w))" by (simp add: s count_inv_def)
qed

interpretation counter: write_invariant se run_id "count_inv run_id a"
proof
  show "preserves (count_inv run_id a) (send cs)" if "own_request run_id cs" for cs by (rule counted_send) (rule counted_own [OF that])
  show "preserves (count_inv run_id a) (send cs)" if "push_request run_id cs" for cs by (rule counted_send) (rule counted_push [OF that])
qed (simp add: preserves_def draw_def count_inv_def undisturbed_def)

text \<open>A number that is handed out is above the count before, and the count is no less from then on.\<close>

lemma answered_from:
  assumes "send cs w = (Inr xs, w')" "P (before_request (this_turn w) (bw_redis w))" "\<And>r. P r \<Longrightarrow> P (snd (exec_request cs r))"
  shows "\<exists>r. P r \<and> bw_redis w' = snd (exec_request cs r) \<and> fst (exec_request cs r) = Some xs"
  using send_reached(3) [OF assms(1)] assms(2,3) by (auto simp: reached_def)

lemma count_replies:
  assumes "fst (do_commands (HINCRBY (meta_key run_id) ''seq'' 1 # expires run_id content marker) p) = Some xs"
  shows "\<exists>h old. hash_at p (meta_key run_id) = Some h
    \<and> py_int (case map_of h ''seq'' of Some v \<Rightarrow> v | None \<Rightarrow> ''0'') = Some old
    \<and> xs ! 0 = RInt (old + 1) \<and> xs ! 1 = RInt (if rd_store p (conv_key run_id) = None then 0 else 1)"
  using assms by (auto simp: expires_def Let_def split: option.splits prod.splits)

lemma next_seq_result:
  assumes "next_seq se run_id w = (Inr c, w')" "count_inv run_id a w"
  shows "a < c" "count_inv run_id c w'"
proof -
  obtain b m w1 cs w2 xs where op: "check se run_id b w = (Inr m, w1)" and e: "expire_commands se run_id (mt_created m) w1 = (Inr cs, w2)"
    and at: "atomic (HINCRBY (meta_key run_id) ''seq'' 1 # cs) w2 = (Inr xs, w')"
    and ok: "xs ! 1 = RInt 1" "c = int_of_reply (xs ! 0)"
    using assms(1) unfolding next_seq_def
    by (auto dest!: opened_return simp: bindB_return returnB_def dest: gone_raises split: if_splits)
  have w1: "count_inv run_id a w1" by (rule preservesD [OF counter.check_keeps op assms(2)])
  obtain content marker where cs: "cs = expires run_id content marker" "1 \<le> content" "content \<le> marker"
    and w2: "w2 = w1" using expire_commands_result [OF e] ttls_result by blast
  let ?cs = "HINCRBY (meta_key run_id) ''seq'' 1 # expires run_id content marker"
  have sd: "send ?cs w1 = (Inr xs, w')" using atomic_return [OF at] by (simp add: cs w2)
  have own: "own_request run_id ?cs" using cs(2,3) by (intro own_request.count)
  obtain r where r: "counted run_id a (cell r)" "bw_redis w' = snd (exec_request ?cs r)" "fst (exec_request ?cs r) = Some xs"
    using answered_from [OF sd, of "\<lambda>r. counted run_id a (cell r)"] w1 counted_before [OF this_turn_foreign]
      counted_request counted_own [OF own] by (auto simp: count_inv_def)
  have u: "undisturbed run_id w'" using undisturbed_tl [OF _ send_reached(1) [OF sd]] w1 by (simp add: count_inv_def)
  let ?p = "purge r"
  obtain h old where h: "hash_at ?p (meta_key run_id) = Some h"
    "py_int (case map_of h ''seq'' of Some v \<Rightarrow> v | None \<Rightarrow> ''0'') = Some old"
    and x0: "xs ! 0 = RInt (old + 1)" and conv: "rd_store ?p (conv_key run_id) \<noteq> None"
    using count_replies [of run_id content marker ?p xs] r(3) ok(1) by (auto simp: exec_request_def split: if_splits)
  have c: "c = old + 1" using ok(2) x0 by (simp add: int_of_reply_def)
  obtain h' tm t e where alive: "cell r (meta_key run_id) = (Some (SHash h'), Some tm)" "snd (cell r (conv_key run_id)) = Some e" "e \<le> tm"
    "map_of h' ''seq'' = Some t" "\<forall>k. py_int t = Some k \<longrightarrow> a \<le> k"
    using r(1) conv by (fastforce simp: counted_def cell_def split: prod.splits option.splits)
  have "h' = h" using alive(1) h(1) by (simp add: cell_def hash_at_def)
  then show "a < c" using alive(4,5) h(2) c by auto
  let ?r1 = "put (meta_key run_id) (SHash (dict_set ''seq'' (int_text (old + 1)) h)) ?p"
  have "counted run_id c (raw_cell ?r1)"
    using conv alive(1-3) py_int_text [of "old + 1"] c
    by (auto simp: counted_def raw_cell_def cell_def split: option.splits)
  from counted_cell [OF counted_expires [OF cs(3) this]] have "counted run_id c (cell (snd (exec_request ?cs r)))"
    using do_expires [of run_id content marker "[]" ?r1] h by (simp add: exec_request_def do_commands_snd del: do_commands.simps(2))
  then show "count_inv run_id c w'" using u r(2) by (simp add: count_inv_def)
qed

lemma counted_fresh:
  "rd_store r (conv_key run_id) \<noteq> None \<Longrightarrow> rd_store r (meta_key run_id) = Some (SHash h) \<Longrightarrow> map_of h ''seq'' = Some (int_text n)
    \<Longrightarrow> content \<le> marker \<Longrightarrow> counted run_id n (raw_cell (expired_at run_id content marker r))"
  by (auto simp: counted_def raw_cell_def expired_at_def refreshed_def dest: py_int_text)

lemma fill_counts:
  assumes "fst (exec_request (DEL [conv_key run_id, replay_key run_id] # RPUSH (conv_key run_id) g # RPUSH (replay_key run_id) h
      # HSET (meta_key run_id) (seq_fields n grp) # expires run_id content marker) r) = Some xs" (is "fst (exec_request ?cs r) = _")
    and "content \<le> marker"
  shows "counted run_id n (cell (snd (exec_request ?cs r)))"
proof -
  let ?r = "snd (delete_keys [conv_key run_id, replay_key run_id] (purge r))"
  have d: "rd_store ?r (conv_key run_id) = None" "rd_store ?r (replay_key run_id) = None" by (simp_all add: delete_keys_store)
  let ?r2 = "put (replay_key run_id) (SList h) (put (conv_key run_id) (SList g) ?r)"
  obtain h0 where h0: "hash_at ?r2 (meta_key run_id) = Some h0"
    using assms(1) d
    by (auto simp: exec_request_def Let_def list_at_def case_prod_beta split: option.splits)
  let ?h = "fold (\<lambda>(f, v). dict_set f v) (seq_fields n grp) h0"
  let ?r3 = "put (meta_key run_id) (SHash ?h) ?r2"
  have "snd (exec_request ?cs r) = snd (do_commands (expires run_id content marker @ []) ?r3)"
    using h0 d by (simp add: exec_request_def Let_def list_at_def case_prod_beta do_commands_snd del: do_commands.simps(2) delete_keys.simps)
  then have e: "snd (exec_request ?cs r) = expired_at run_id content marker ?r3" unfolding do_expires by simp
  show ?thesis unfolding e
    by (rule counted_cell, rule counted_fresh [where h = ?h]) (simp_all add: seq_fields_def assms(2))
qed

lemma create_counts:
  assumes "crypto_ok se" "undisturbed run_id w" "create_buffer se run_id state history n w = (Inr (), w')"
  shows "count_inv run_id n w'"
proof -
  obtain payloads b content marker stamp w1 recs w2 head w4 claimed w5 xs w6
    where p: "open_box se run_id = Inr b" and le: "content \<le> marker"
      and stamp: "seal se b Meta (utf8_encode (stamp_text (rd_clock (bw_redis w)))) w = (Inr stamp, w1)"
      and recs: "seal_items se b Conv payloads w1 = (Inr recs, w2)"
      and head: "seal se b Replay (pack_frame KIND_HEAD (se_random se (bw_draws w2) 16) 0 1) (w2\<lparr>bw_draws := bw_draws w2 + 1\<rparr>) = (Inr head, w4)"
      and claim: "send [HSETNX (meta_key run_id) ''meta'' stamp, EXPIRE (meta_key run_id) content True] w4 = (Inr claimed, w5)"
      and fill: "send (DEL [conv_key run_id, replay_key run_id] # RPUSH (conv_key run_id) (map fst (hd (groups_of recs)))
         # RPUSH (replay_key run_id) [head] # HSET (meta_key run_id) (seq_fields n (hd (groups_of recs)))
         # expires run_id content marker) w5 = (Inr xs, w6)"
      and rest: "push_all se run_id (rd_clock (bw_redis w)) Conv (tl (groups_of recs)) w6 = (Inr (), w')"
    using create_steps [OF assms(3)] unfolding expires_def by blast
  note bx = open_box_ok [OF p, THEN conjunct1]
  have u4: "undisturbed run_id w4"
    using seal_result [OF assms(1) bx stamp] seal_items_result [OF assms(1) bx recs] seal_result [OF assms(1) bx head] assms(2)
    by (auto simp: only_draws_def undisturbed_def)
  have u6: "undisturbed run_id w6"
    by (rule undisturbed_tl [OF undisturbed_tl [OF u4 send_reached(1) [OF claim]] send_reached(1) [OF fill]])
  have "counted run_id n (cell (bw_redis w6))" using answered_send [OF fill] fill_counts [OF _ le] by metis
  then have "count_inv run_id n w6" using u6 by (simp add: count_inv_def)
  then show ?thesis using preservesD [OF counter.push_all_keeps rest] by blast
qed

text \<open>C24: The sequence numbers of a run increase from the one it was created with, whatever operations and faults come
  between, also when a request is sent twice.
\<close>

theorem sequence_numbers_increase:
  assumes "crypto_ok se" "undisturbed run_id w0" "create_buffer se run_id state history n w0 = (Inr (), w1)"
    and "run_ops se run_id ops w1 = (oks, w2)" "next_seq se run_id w2 = (Inr c, w3)"
    and "run_ops se run_id ops' w3 = (oks', w4)" "next_seq se run_id w4 = (Inr c', w5)"
  shows "n < c \<and> c < c'"
proof -
  have "count_inv run_id n w2"
    using counter.run_ops_keeps [OF create_counts [OF assms(1-3)], of se ops] by (simp add: assms(4))
  note r = next_seq_result [OF assms(5) this]
  have "count_inv run_id c w4" using counter.run_ops_keeps [OF r(2), of se ops'] by (simp add: assms(6))
  from next_seq_result(1) [OF assms(7) this] r(1) show ?thesis by blast
qed

end
