(* ===== verification/BufferLimits.thy ===== *)
theory BufferLimits
  imports BufferCounter
begin

text \<open>
  Limits: the hard cap, the size of a request, what a record is bound to, and the times to live.
\<close>

section \<open>The hard cap\<close>

lemma hmget_request: "fst (exec_request [HMGET k fs] r) = map_option (\<lambda>h. [RFields (map (map_of h) fs)]) (hash_at (purge r) k)"
  "snd (exec_request [HMGET k fs] r) = purge r"
  by (cases "hash_at (purge r) k"; simp add: exec_request_def)+

lemma cell_purge [simp]: "cell (purge r) k = cell r k"
  by (simp add: cell_def)

text \<open>A stamp past the cap: the check raises, whatever happens around it, and then so does every operation.\<close>

definition past_cap :: "settings \<Rightarrow> string \<Rightarrow> box \<Rightarrow> buffer_world \<Rightarrow> bool" where
  "past_cap se run_id b w \<longleftrightarrow>
    (case fst (cell (bw_redis w) (meta_key run_id)) of
       Some (SHash h) \<Rightarrow>
         (case map_of h ''meta'' of
            Some wire \<Rightarrow>
              (case bindE (unseal se b Meta wire) (\<lambda>p. bindE (load_object p) created_of) of
                 Inr created \<Rightarrow> created + se_cap se * 1000 \<le> rd_clock (bw_redis w)
               | Inl _ \<Rightarrow> False)
          | None \<Rightarrow> False)
     | _ \<Rightarrow> False)"

lemma past_cap_stamp:
  assumes "past_cap se run_id b w"
  obtains h t wire created where "cell (bw_redis w) (meta_key run_id) = (Some (SHash h), t)" "map_of h ''meta'' = Some wire"
    "bindE (unseal se b Meta wire) (\<lambda>p. bindE (load_object p) created_of) = Inr created"
    "created + se_cap se * 1000 \<le> rd_clock (bw_redis w)"
proof -
  obtain h where h: "fst (cell (bw_redis w) (meta_key run_id)) = Some (SHash h)"
    using assms by (auto simp: past_cap_def split: option.splits stored.splits)
  obtain wire where wire: "map_of h ''meta'' = Some wire" using assms h by (auto simp: past_cap_def split: option.splits)
  obtain created where "bindE (unseal se b Meta wire) (\<lambda>p. bindE (load_object p) created_of) = Inr created"
    "created + se_cap se * 1000 \<le> rd_clock (bw_redis w)"
    using assms h wire by (auto simp: past_cap_def split: sum.splits)
  then show ?thesis using that [of h "snd (cell (bw_redis w) (meta_key run_id))" wire created] h wire by (simp add: prod_eq_iff)
qed

lemma check_past_cap:
  assumes "undisturbed run_id w" "past_cap se run_id b w"
  shows "\<exists>e. fst (check se run_id b w) = Inl e"
proof -
  obtain h t wire created where p: "cell (bw_redis w) (meta_key run_id) = (Some (SHash h), t)" "map_of h ''meta'' = Some wire"
    "bindE (unseal se b Meta wire) (\<lambda>p. bindE (load_object p) created_of) = Inr created"
    "created + se_cap se * 1000 \<le> rd_clock (bw_redis w)" using past_cap_stamp [OF assms(2)] .
  let ?fs = "[''meta'', ''conv_bytes'', ''replay_bytes'']"
  let ?P = "\<lambda>r. (cell r (meta_key run_id) = (Some (SHash h), t) \<or> fst (cell r (meta_key run_id)) = None) \<and> rd_clock (bw_redis w) \<le> rd_clock r"
  obtain x w1 where c: "call (HMGET (meta_key run_id) ?fs) w = (x, w1)" by fastforce
  show ?thesis
  proof (cases x)
    case (Inl e)
    then show ?thesis by (simp add: check_def bindB_def c)
  next
    case (Inr y)
    then obtain xs where s: "send [HMGET (meta_key run_id) ?fs] w = (Inr xs, w1)" "y = hd xs"
      using c by (auto simp: call_def bindB_def returnB_def split: prod.splits sum.splits)
    have P: "?P (before_request (this_turn w) (bw_redis w))"
      using before_request_cell [OF this_turn_foreign [OF assms(1)] conv_meta_keys(2), of "bw_redis w"]
        before_request_clock [OF this_turn_foreign [OF assms(1)], of "bw_redis w"] p(1) by auto
    have step: "?P r \<Longrightarrow> ?P (snd (exec_request [HMGET (meta_key run_id) ?fs] r))" for r by (simp add: hmget_request(2))
    obtain r where r: "?P r" "bw_redis w1 = snd (exec_request [HMGET (meta_key run_id) ?fs] r)"
        "fst (exec_request [HMGET (meta_key run_id) ?fs] r) = Some xs"
      using answered_from [OF s(1) P step] by blast
    have clock: "rd_clock (bw_redis w) \<le> rd_clock (bw_redis w1)" using r(1,2) by (simp add: hmget_request(2))
    have "y = RFields [None, None, None] \<or> (\<exists>cb rb. y = RFields [Some wire, cb, rb])"
      using r(1,3) s(2) p(2) by (auto simp: hmget_request(1) cell_def hash_at_def)
    then show ?thesis
    proof
      assume "y = RFields [None, None, None]"
      then show ?thesis by (simp add: check_def bindB_def c Inr raiseB_def)
    next
      assume "\<exists>cb rb. y = RFields [Some wire, cb, rb]"
      then obtain cb rb where y: "y = RFields [Some wire, cb, rb]" by blast
      have "ttls se created (rd_clock (bw_redis w1)) = None" using p(4) clock by (simp add: ttls_def)
      then show ?thesis
        using p(3) by (simp add: check_def bindB_def c Inr y liftB_def clock_now_def raiseB_def split: prod.split sum.split)
    qed
  qed
qed

lemma bindB_Inl: "m w = (Inl e, w') \<Longrightarrow> bindB m f w = (Inl e, w')"
  by (simp add: bindB_def)

lemma opened_check: "open_box se run_id = Inr b \<Longrightarrow> check se run_id b w = (Inl e, w')
    \<Longrightarrow> opened se run_id f w = (Inl e, w') \<or> fst (opened se run_id f w) = Inl InvalidBufferInput"
  by (auto simp: opened_def bindB_liftB valid_run_id_def bindB_Inl)

definition input_error :: "buffer_error \<Rightarrow> bool" where
  "input_error e \<longleftrightarrow> e = InvalidBufferInput \<or> e = Unhashable"

lemma serialize_error: "serialize v = Inl e \<Longrightarrow> input_error e"
  by (auto simp: serialize_def input_error_def Let_def split: json.splits option.splits if_splits)

lemma valid_message_error: "valid_message run_id v = Inl e \<Longrightarrow> input_error e"
  using valid_message_cases [of run_id v] serialize_error [of v e] by (auto simp: input_error_def)

lemma mapE_error: "mapE f xs = Inl e \<Longrightarrow> \<exists>x \<in> set xs. f x = Inl e"
  by (induction xs) (auto simp: bindE_def split: sum.splits)

text \<open>Every operation begins with the check, or refuses its arguments.\<close>

lemma op_check:
  assumes "open_box se run_id = Inr b" "check se run_id b w = (Inl e, w')"
  shows "run_op se run_id op w = (Inl e, w') \<or> (\<exists>e'. fst (run_op se run_id op w) = Inl e' \<and> input_error e')"
proof -
  have a: "append_stream se run_id s ps w = (Inl e, w')" for s ps
    by (simp add: append_stream_def bindB_liftB assms bindB_Inl)
  have bind: "bindB m g w = (Inl e, w') \<or> fst (bindB m g w) = Inl InvalidBufferInput"
    if "m w = (Inl e, w') \<or> fst (m w) = Inl InvalidBufferInput" for m g
    using that by (cases "m w") (auto simp: bindB_def)
  have i: "input_error InvalidBufferInput" by (simp add: input_error_def)
  show ?thesis
  proof (cases op)
    case (Add_items items)
    have "append_conversation se run_id items w = (Inl e, w') \<or> fst (append_conversation se run_id items w) = Inl InvalidBufferInput
      \<or> (\<exists>e'. mapE serialize items = Inl e' \<and> fst (append_conversation se run_id items w) = Inl e')"
      unfolding append_conversation_def bindB_liftB valid_run_id_def by (cases "mapE serialize items") (simp_all add: bindB_liftB a raiseB_def)
    then show ?thesis using i mapE_error [of serialize items] serialize_error by (auto simp: Add_items)
  next
    case (Add_events messages)
    have "append_replay_many se run_id messages w = (Inl e, w') \<or> fst (append_replay_many se run_id messages w) = Inl InvalidBufferInput
      \<or> (\<exists>e'. mapE (valid_message run_id) messages = Inl e' \<and> fst (append_replay_many se run_id messages w) = Inl e')"
      unfolding append_replay_many_def bindB_liftB valid_run_id_def
      by (cases "mapE (valid_message run_id) messages") (simp_all add: bindB_liftB a raiseB_def)
    then show ?thesis using i mapE_error [of "valid_message run_id" messages] valid_message_error by (auto simp: Add_events)
  next
    case Take_seq
    have "next_seq se run_id w = (Inl e, w') \<or> fst (next_seq se run_id w) = Inl InvalidBufferInput"
      unfolding next_seq_def by (rule opened_check [OF assms])
    then show ?thesis using bind [of "next_seq se run_id"] i Take_seq by auto
  next
    case Touch
    have "touch se run_id w = (Inl e, w') \<or> fst (touch se run_id w) = Inl InvalidBufferInput"
      unfolding touch_def by (rule opened_check [OF assms])
    then show ?thesis using i Touch by auto
  next
    case Read_items
    have "read_conversation se run_id w = (Inl e, w') \<or> fst (read_conversation se run_id w) = Inl InvalidBufferInput"
      unfolding read_conversation_def by (rule opened_check [OF assms])
    then show ?thesis using bind [of "read_conversation se run_id"] i Read_items by auto
  next
    case (Read_events n)
    have "replay_after se run_id n w = (Inl e, w') \<or> fst (replay_after se run_id n w) = Inl InvalidBufferInput"
      unfolding replay_after_def by (simp add: bindB_liftB valid_run_id_def valid_seq_def) (intro impI opened_check [OF assms])
    then show ?thesis using bind [of "replay_after se run_id n"] i Read_events by auto
  qed
qed

lemma delete_calm:
  assumes "bw_script w = []"
  shows "\<exists>n w'. delete run_id w = (Inr n, w') \<and> (\<forall>k \<in> set (buffer_keys run_id). rd_store (bw_redis w') k = None)"
  using assms delete_keys_store [of "buffer_keys run_id" "purge (bw_redis w)"]
  by (auto simp: delete_def bindB_def returnB_def call_quiet case_prod_beta)

lemma check_past_cap_calm:
  assumes "bw_script w = []" "past_cap se run_id b w"
  shows "\<exists>w'. check se run_id b w = (Inl BufferExpired, w') \<and> (\<forall>k \<in> set (buffer_keys run_id). rd_store (bw_redis w') k = None)"
proof -
  obtain h t wire created where p: "cell (bw_redis w) (meta_key run_id) = (Some (SHash h), t)" "map_of h ''meta'' = Some wire"
    "bindE (unseal se b Meta wire) (\<lambda>p. bindE (load_object p) created_of) = Inr created"
    "created + se_cap se * 1000 \<le> rd_clock (bw_redis w)" using past_cap_stamp [OF assms(2)] .
  let ?w = "w\<lparr>bw_redis := purge (bw_redis w)\<rparr>"
  have h: "hash_at (purge (bw_redis w)) (meta_key run_id) = Some h" using p(1) by (simp add: cell_def hash_at_def)
  obtain n w' where d: "delete run_id ?w = (Inr n, w')" "\<forall>k \<in> set (buffer_keys run_id). rd_store (bw_redis w') k = None"
    using delete_calm [of ?w run_id] assms(1) by auto
  have "ttls se created (rd_clock (bw_redis w)) = None" using p(4) by (simp add: ttls_def)
  then show ?thesis
    using p(2,3) d by (simp add: check_def bindB_def call_quiet [OF assms(1)] h liftB_def clock_now_def raiseB_def)
qed

text \<open>The operations that do not return content: the test whether a buffer exists, and deletion.\<close>

lemma exists_check:
  assumes "open_box se run_id = Inr b" "check se run_id b w = (Inl e, w')" "valid_run_id run_id = Inr run_id"
  shows "exists_buffer se run_id w = (if e = BufferMissing \<or> e = BufferExpired then Inr False else Inl e, w')"
  using assms by (simp add: exists_buffer_def opened_def bindB_liftB bindB_Inl)

lemma exists_invalid: "valid_run_id run_id = Inl e \<Longrightarrow> fst (exists_buffer se run_id w) = Inl InvalidBufferInput"
  by (auto simp: exists_buffer_def opened_def bindB_def liftB_def valid_run_id_def split: if_splits)

lemma valid_run_id_cases: "valid_run_id run_id = Inr run_id \<or> valid_run_id run_id = Inl InvalidBufferInput"
  by (simp add: valid_run_id_def)

lemma delete_keys_nonneg: "0 \<le> fst (delete_keys ks r)"
proof (induction ks arbitrary: r)
  case (Cons x xs)
  show ?case using Cons [of r] Cons [of "drop_key x r"] by (simp add: case_prod_beta)
qed simp

lemma delete_keys_count: "k \<in> set ks \<Longrightarrow> rd_store r k \<noteq> None \<Longrightarrow> 0 < fst (delete_keys ks r)"
proof (induction ks arbitrary: r)
  case (Cons x xs)
  show ?case
  proof (cases "rd_store r x = None")
    case True
    then show ?thesis using Cons by auto
  next
    case False
    have "0 < fst (delete_keys xs (drop_key x r)) + 1" using delete_keys_nonneg [of xs "drop_key x r"] by linarith
    then show ?thesis using False by (simp add: case_prod_beta del: not_None_eq)
  qed
qed simp

lemma delete_buffer_calm:
  assumes "bw_script w = []" "valid_run_id run_id = Inr run_id" "fst (cell (bw_redis w) (meta_key run_id)) \<noteq> None"
  shows "fst (delete_buffer run_id w) = Inr True \<and> (\<forall>k \<in> set (buffer_keys run_id). rd_store (bw_redis (snd (delete_buffer run_id w))) k = None)"
proof -
  let ?d = "delete_keys (buffer_keys run_id) (purge (bw_redis w))"
  have "0 < fst ?d" by (rule delete_keys_count [of "meta_key run_id"]) (use assms(3) in \<open>simp_all add: buffer_keys_def cell_def\<close>)
  moreover have "delete run_id w = (Inr (fst ?d), w\<lparr>bw_redis := snd ?d\<rparr>)"
    by (simp add: delete_def bindB_def returnB_def call_quiet [OF assms(1)] case_prod_beta int_of_reply_def)
  ultimately show ?thesis
    using assms(2) delete_keys_store [of "buffer_keys run_id" "purge (bw_redis w)"]
    by (simp add: delete_buffer_def bindB_def liftB_def returnB_def)
qed

text \<open>C25: Once the hard cap of a buffer has passed, nothing on it can be read, written, numbered or touched: whatever the
  expiry times of its keys say and whatever else happens, each such operation raises, and the test whether the buffer exists
  never answers yes. When nothing else happens, the operation raises that the buffer expired (or refuses its arguments), the
  test answers no, deletion answers that there was something to delete, and after each of them the keys are gone.
\<close>

theorem nothing_after_the_cap:
  assumes "open_box se run_id = Inr b" "undisturbed run_id w" "past_cap se run_id b w"
  shows "(\<exists>e. fst (run_op se run_id op w) = Inl e) \<and> fst (exists_buffer se run_id w) \<noteq> Inr True
    \<and> (bw_script w = [] \<longrightarrow>
        ((\<exists>e. fst (run_op se run_id op w) = Inl e \<and> input_error e)
         \<or> fst (run_op se run_id op w) = Inl BufferExpired
           \<and> (\<forall>k \<in> set (buffer_keys run_id). rd_store (bw_redis (snd (run_op se run_id op w))) k = None))
        \<and> (valid_run_id run_id = Inr run_id \<longrightarrow>
            fst (exists_buffer se run_id w) = Inr False
            \<and> (\<forall>k \<in> set (buffer_keys run_id). rd_store (bw_redis (snd (exists_buffer se run_id w))) k = None)
            \<and> fst (delete_buffer run_id w) = Inr True
            \<and> (\<forall>k \<in> set (buffer_keys run_id). rd_store (bw_redis (snd (delete_buffer run_id w))) k = None)))"
proof -
  obtain e w' where c: "check se run_id b w = (Inl e, w')" using check_past_cap [OF assms(2,3)] by (metis prod.collapse)
  have "\<exists>e. fst (run_op se run_id op w) = Inl e" using op_check [OF assms(1) c, of op] by auto
  moreover have "fst (exists_buffer se run_id w) \<noteq> Inr True"
    using valid_run_id_cases [of run_id] exists_check [OF assms(1) c] exists_invalid [of run_id _ se w] by (auto split: if_splits)
  moreover have "((\<exists>e. fst (run_op se run_id op w) = Inl e \<and> input_error e)
         \<or> fst (run_op se run_id op w) = Inl BufferExpired
           \<and> (\<forall>k \<in> set (buffer_keys run_id). rd_store (bw_redis (snd (run_op se run_id op w))) k = None))
      \<and> (valid_run_id run_id = Inr run_id \<longrightarrow>
            fst (exists_buffer se run_id w) = Inr False
            \<and> (\<forall>k \<in> set (buffer_keys run_id). rd_store (bw_redis (snd (exists_buffer se run_id w))) k = None)
            \<and> fst (delete_buffer run_id w) = Inr True
            \<and> (\<forall>k \<in> set (buffer_keys run_id). rd_store (bw_redis (snd (delete_buffer run_id w))) k = None))"
    if calm: "bw_script w = []"
  proof -
    obtain w'' where d: "check se run_id b w = (Inl BufferExpired, w'')" "\<forall>k \<in> set (buffer_keys run_id). rd_store (bw_redis w'') k = None"
      using check_past_cap_calm [OF calm assms(3)] by blast
    have m: "fst (cell (bw_redis w) (meta_key run_id)) \<noteq> None" using past_cap_stamp [OF assms(3)] by (metis fst_conv option.distinct(1))
    have "(\<exists>e. fst (run_op se run_id op w) = Inl e \<and> input_error e) \<or> run_op se run_id op w = (Inl BufferExpired, w'')"
      using op_check [OF assms(1) d(1), of op] by auto
    then show ?thesis using exists_check [OF assms(1) d(1)] delete_buffer_calm [OF calm _ m] d(2) by auto
  qed
  ultimately show ?thesis by blast
qed

section \<open>No request is too large\<close>

definition guarded :: "'a io \<Rightarrow> bool" where
  "guarded m \<longleftrightarrow> (\<forall>w. fst (m w) \<noteq> Inl RequestGuard)"

named_theorems guarding "how a computation is built from ones that never meet the request guard"

lemma guarded_bind: "guarded m \<Longrightarrow> (\<And>x w w'. m w = (Inr x, w') \<Longrightarrow> guarded (f x)) \<Longrightarrow> guarded (bindB m f)"
  unfolding guarded_def
proof
  fix w assume m: "\<forall>w. fst (m w) \<noteq> Inl RequestGuard" and f: "\<And>x w w'. m w = (Inr x, w') \<Longrightarrow> \<forall>w. fst (f x w) \<noteq> Inl RequestGuard"
  obtain x w1 where w1: "m w = (x, w1)" by fastforce
  show "fst (bindB m f w) \<noteq> Inl RequestGuard"
  proof (cases x)
    case (Inl e)
    then show ?thesis using m [rule_format, of w] w1 by (simp add: bindB_def)
  next
    case (Inr y)
    then show ?thesis using f [OF w1 [unfolded Inr]] w1 by (simp add: bindB_def)
  qed
qed

lemma guarded_then [guarding]: "guarded m \<Longrightarrow> (\<And>x. guarded (f x)) \<Longrightarrow> guarded (bindB m f)"
  by (rule guarded_bind)

lemma guarded_basic [guarding]: "guarded (returnB x)" "guarded clock_now" "guarded (draw se n)" "guarded (send cs)"
  and guarded_raise: "e \<noteq> RequestGuard \<Longrightarrow> guarded (raiseB e)"
  by (auto simp: guarded_def returnB_def clock_now_def draw_def raiseB_def send_def Let_def split: outage.split prod.split option.split)

lemma guarded_raises [guarding]: "guarded (raiseB BufferMissing)" "guarded (raiseB BufferExpired)" "guarded (raiseB BufferUnavailable)"
  "guarded (raiseB BufferFull)" "guarded (raiseB InvalidBufferInput)"
  by (simp_all add: guarded_raise)

lemma guarded_lift: "(\<And>e. m = Inl e \<Longrightarrow> e \<noteq> RequestGuard) \<Longrightarrow> guarded (liftB m)"
  by (cases m) (auto simp: guarded_def liftB_def)

lemma guarded_if [guarding]: "(c \<Longrightarrow> guarded m) \<Longrightarrow> (\<not> c \<Longrightarrow> guarded m') \<Longrightarrow> guarded (if c then m else m')"
  by simp

lemma guarded_option [guarding]: "guarded m \<Longrightarrow> (\<And>x. guarded (f x)) \<Longrightarrow> guarded (case v of None \<Rightarrow> m | Some x \<Rightarrow> f x)"
  by (simp split: option.split)

lemma guarded_pair [guarding]: "(\<And>x y. guarded (f x y)) \<Longrightarrow> guarded (case p of (x, y) \<Rightarrow> f x y)"
  by (simp split: prod.split)

lemma guarded_mapB [guarding]: "(\<And>x. guarded (f x)) \<Longrightarrow> guarded (mapB f xs)"
  by (induction xs) (auto intro!: guarding)

lemma guarded_seal [guarding]: "guarded (seal se b s plain)"
  unfolding seal_def by (intro guarding)

lemma guarded_seal_items [guarding]: "guarded (seal_items se b s items)"
  unfolding seal_items_def seal_item_def seal_part_def Let_def by (intro guarding)

lemma guarded_call [guarding]: "guarded (call c)"
  unfolding call_def by (intro guarding)

lemma guarded_delete [guarding]: "guarded (delete run_id)" "guarded (gone run_id)" "guarded (expire_commands se run_id created)"
  unfolding gone_def expire_commands_def delete_def by (intro guarding)+

text \<open>The errors of the pure steps.\<close>

definition no_guard :: "(buffer_error + 'a) \<Rightarrow> bool" where
  "no_guard m \<longleftrightarrow> m \<noteq> Inl RequestGuard"

lemma bindE_error: "bindE m f = Inl e \<longleftrightarrow> m = Inl e \<or> (\<exists>x. m = Inr x \<and> f x = Inl e)"
  by (cases m) auto

lemma no_guard_bind: "no_guard m \<Longrightarrow> (\<And>x. no_guard (f x)) \<Longrightarrow> no_guard (bindE m f)"
  by (cases m) (auto simp: no_guard_def)

lemma no_guard_map: "(\<And>x. no_guard (f x)) \<Longrightarrow> no_guard (mapE f xs)"
  by (induction xs) (auto simp: no_guard_def bindE_error)

lemma no_guard_valid: "no_guard (valid_run_id r)" "no_guard (valid_seq n)" "no_guard (serialize v)" "no_guard (valid_message r v)"
proof -
  show s: "no_guard (serialize v)" by (auto simp: no_guard_def serialize_def Let_def split: json.splits option.splits if_splits)
  show "no_guard (valid_message r v)" using valid_message_cases [of r v] s by (auto simp: no_guard_def)
qed (simp_all add: no_guard_def valid_run_id_def valid_seq_def)

lemma no_guard_reads: "no_guard (unseal se b s wire)" "no_guard (load_object p)" "no_guard (created_of body)" "no_guard (count_value c)"
  by (auto simp: no_guard_def unseal_def load_object_def created_of_def
      count_value_def Let_def split: json.splits option.splits list.splits if_splits)

lemmas no_guard_steps = no_guard_valid no_guard_reads

lemma no_guard_previous: "no_guard (add_previous key_id d secrets)"
  by (induction key_id d secrets rule: add_previous.induct) (auto simp: no_guard_def split: option.splits)

lemma no_guard_box: "no_guard (open_box se run_id)"
  unfolding open_box_def by (rule no_guard_bind)
    (auto simp: read_config_def no_guard_def Let_def bindE_error no_guard_previous [unfolded no_guard_def] split: option.splits json.splits)

lemma no_guard_lift [guarding]: "no_guard m \<Longrightarrow> guarded (liftB m)"
  by (rule guarded_lift) (simp add: no_guard_def)

lemma no_guard_take_record: "no_guard (take_record s plain rg)"
  by (auto simp: no_guard_def take_record_def Let_def split: prod.split option.split)

lemma no_guard_take_records: "no_guard (take_records se b s wires rg)"
  by (induction wires arbitrary: rg) (auto intro!: no_guard_bind no_guard_steps no_guard_take_record simp: no_guard_def [of "Inr _"])

lemma no_guard_collect: "no_guard (collect_events n entries evs)"
  by (induction n entries evs rule: collect_events.induct)
    (auto intro!: no_guard_bind no_guard_steps simp: no_guard_def [of "Inr _"] no_guard_def [of "Inl _"] split: json.split)

lemma guarded_check [guarding]: "guarded (check se run_id b)"
  unfolding check_def
  by (intro guarding) (auto intro!: guarding no_guard_bind no_guard_steps simp: no_guard_def [of "Inr _"] split: reply.split list.split option.split)

lemma guarded_read_pages: "fst (read_pages se run_id b s start p rg w) \<noteq> Inl RequestGuard"
proof (induction se run_id b s start p rg w rule: read_pages.induct)
  case (1 se run_id b s start p rg w)
  obtain x w1 where c: "call (LRANGE (stream_key run_id s) start (start + p)) w = (x, w1)" by fastforce
  have x: "x \<noteq> Inl RequestGuard" using guarded_call c unfolding guarded_def by (metis fst_conv)
  have g: "fst ((gone run_id :: (char \<times> bytes) list io) w1) \<noteq> Inl RequestGuard" using guarded_delete(2) unfolding guarded_def by blast
  have t: "take_records se b s wires rg \<noteq> Inl RequestGuard" for wires using no_guard_take_records unfolding no_guard_def by blast
  show ?case
    by (subst read_pages.simps) (use x g t "1.IH" c in \<open>auto split: sum.split reply.split\<close>)
qed

lemma guarded_read_stream [guarding]: "guarded (read_stream se run_id b s)"
  unfolding guarded_def read_stream_def using guarded_read_pages by blast

section \<open>The sizes\<close>

lemma digits_length_le: "n < 10 ^ k \<Longrightarrow> 0 < k \<Longrightarrow> length (digits_of n) \<le> k"
proof (induction k arbitrary: n)
  case (Suc k)
  show ?case
  proof (cases "n < 10")
    case False
    then have "n div 10 < 10 ^ k" "0 < k" using Suc.prems by (auto intro!: Suc_leI gr0I simp: less_mult_imp_div_less)
    then show ?thesis using Suc.IH [of "n div 10"] False by (simp add: digits_of_Suc)
  qed (simp add: digits_of_small)
qed simp

lemma valid_id_length: "valid_run_id r = Inr run_id \<Longrightarrow> length run_id \<le> 64 \<and> r = run_id"
  by (auto simp: valid_run_id_def split: if_splits)

lemma key_lengths:
  assumes "length run_id \<le> 64"
  shows "length (conv_key run_id) \<le> 82" "length (replay_key run_id) \<le> 82" "length (meta_key run_id) \<le> 82" "length (stream_key run_id s) \<le> 82"
  using assms by (simp_all add: conv_key_def replay_key_def meta_key_def stream_key_def)

lemma ttls_at_most:
  assumes "ttls se created now = Some (content, marker)"
  shows "content \<le> max 1 (se_idle se)" "marker \<le> max 1 (se_idle se)"
proof -
  obtain remaining where c: "content = max 1 (min (se_idle se) remaining)" and m: "marker = max content (min EXPIRED_MARKER_SECONDS (se_idle se))"
    using assms by (auto simp: ttls_def Let_def split: if_splits)
  show "content \<le> max 1 (se_idle se)" unfolding c by (intro max.mono) simp_all
  then show "marker \<le> max 1 (se_idle se)" unfolding m by (simp add: max.coboundedI2)
qed

lemma ttls_small:
  assumes "ttls se created now = Some (content, marker)" "se_idle se \<le> MAX_CONFIGURABLE_SECONDS"
  shows "content < 10 ^ 7 \<and> marker < 10 ^ 7"
proof -
  have "max 1 (se_idle se) \<le> 2592000" using assms(2) by (simp add: MAX_CONFIGURABLE_SECONDS_def)
  then have "content \<le> 2592000" "marker \<le> 2592000" using ttls_at_most [OF assms(1)] by linarith+
  then show ?thesis by simp
qed

lemma expires_size:
  assumes "length run_id \<le> 64" "content < 10 ^ 7" "marker < 10 ^ 7"
  shows "request_size (expires run_id content marker) \<le> 300"
  using key_lengths [OF assms(1)] digits_length_le [OF assms(2)] digits_length_le [OF assms(3)]
  by (simp add: expires_def request_size_def text_size_def)

lemma guarded_atomic: "request_size cs \<le> REQUEST_GUARD_BYTES \<Longrightarrow> guarded (atomic cs)"
  unfolding atomic_def by (intro guarding) simp

lemma guarded_after_expire:
  assumes "\<And>content marker. content < 10 ^ 7 \<Longrightarrow> marker < 10 ^ 7 \<Longrightarrow> guarded (f (expires run_id content marker))"
    and "se_idle se \<le> MAX_CONFIGURABLE_SECONDS"
  shows "guarded (bindB (expire_commands se run_id created) f)"
proof (rule guarded_bind [OF guarded_delete(3)])
  fix cs w w' assume "expire_commands se run_id created w = (Inr cs, w')"
  then show "guarded (f cs)" using expire_commands_result ttls_small [OF _ assms(2)] assms(1) by blast
qed

lemma guarded_refresh: "length run_id \<le> 64 \<Longrightarrow> se_idle se \<le> MAX_CONFIGURABLE_SECONDS \<Longrightarrow> guarded (refresh se run_id m)"
  unfolding refresh_def
  by (rule guarded_after_expire) (auto intro!: guarding guarded_atomic intro: order_trans [OF expires_size] simp: REQUEST_GUARD_BYTES_def)

text \<open>A sealed record is small, carries no more than its length, and a group fits the budget.\<close>

definition small_record :: "record_pair \<Rightarrow> bool" where
  "small_record rec \<longleftrightarrow> length (fst rec) \<le> 65626 \<and> snd rec \<le> length (fst rec)"

lemma seal_part_small:
  assumes "crypto_ok se" "box_ok b" "length item_id = 16" "length (snd p) \<le> CHUNK_BYTES"
    and "seal_part se b s kind item_id count p w = (Inr rec, w')"
  shows "small_record rec"
proof -
  let ?plain = "pack_frame kind item_id (fst p) count @ snd p"
  let ?nonce = "se_random se (bw_draws w) NONCE_BYTES"
  have rec: "rec = (seal_with se b s ?nonce ?plain, length (snd p))"
    using assms(5) by (simp add: seal_part_def seal_def bindB_def draw_def returnB_def)
  obtain raw where w: "seal_with se b s ?nonce ?plain = wire_text (co_key_id (bx_config b)) raw" and raw: "length raw = length (snd p) + 53"
    using assms(1,3) frame_length [OF assms(3), of kind "fst p" count]
    by (auto simp: seal_with_def Let_def crypto_ok_def NONCE_BYTES_def TAG_BYTES_def FRAME_SIZE_def)
  have k: "length (co_key_id (bx_config b)) \<le> 16" using assms(2) by (simp add: box_ok_def key_id_ok_def)
  have len: "length (b64e raw) = (length raw * 4 + 2) div 3" by (rule b64e_length)
  have "length (fst rec) = length (co_key_id (bx_config b)) + (length raw * 4 + 2) div 3 + 3"
    by (simp add: rec w wire_text_def FORMAT_VERSION_def len)
  moreover have "(length raw * 4 + 2) div 3 \<le> 65607" "length (snd p) \<le> (length raw * 4 + 2) div 3"
    using assms(4) raw by (simp_all add: CHUNK_BYTES_def)
  ultimately show ?thesis using k by (simp add: small_record_def rec)
qed

lemma mapB_all:
  assumes "\<And>x w y w'. x \<in> set xs \<Longrightarrow> f x w = (Inr y, w') \<Longrightarrow> P y" "mapB f xs w = (Inr ys, w')"
  shows "\<forall>y \<in> set ys. P y"
  using assms
proof (induction xs arbitrary: ys w)
  case (Cons x xs)
  obtain y w1 ys' where "f x w = (Inr y, w1)" "mapB f xs w1 = (Inr ys', w')" "ys = y # ys'"
    using Cons.prems(2) by (auto simp: bindB_return returnB_def)
  moreover have "P y" by (rule Cons.prems(1) [OF _ calculation(1)]) simp
  moreover have "\<forall>y \<in> set ys'. P y" by (rule Cons.IH [OF _ calculation(2)]) (rule Cons.prems(1), simp_all)
  ultimately show ?case by simp
qed (simp add: returnB_def)

lemma seal_items_small:
  assumes "crypto_ok se" "box_ok b" "seal_items se b s items w = (Inr recs, w')"
  shows "\<forall>rec \<in> set recs. small_record rec"
proof -
  obtain rss where m: "mapB (seal_item se b s) items w = (Inr rss, w')" and recs: "recs = concat rss"
    using assms(3) by (auto simp: seal_items_def bindB_return returnB_def)
  have "\<forall>rs \<in> set rss. \<forall>rec \<in> set rs. small_record rec"
  proof (rule mapB_all [OF _ m])
    fix item w1 rs w2 assume "seal_item se b s item w1 = (Inr rs, w2)"
    then have i: "mapB (seal_part se b s (fst item) (se_random se (bw_draws w1) 16) (length (item_parts (snd item))))
      (enumerate 0 (item_parts (snd item))) (w1\<lparr>bw_draws := bw_draws w1 + 1\<rparr>) = (Inr rs, w2)"
      by (simp add: seal_item_def bindB_def draw_def Let_def)
    show "\<forall>rec \<in> set rs. small_record rec"
    proof (rule mapB_all [OF _ i])
      fix p w3 rec w4 assume p: "p \<in> set (enumerate 0 (item_parts (snd item)))"
        and r: "seal_part se b s (fst item) (se_random se (bw_draws w1) 16) (length (item_parts (snd item))) p w3 = (Inr rec, w4)"
      have "snd p \<in> set (item_parts (snd item))" using p by (metis enumerate_eq_zip in_set_zipE prod.collapse)
      then show "small_record rec"
        using seal_part_small [OF assms(1,2) _ _ r] item_parts_length assms(1) by (auto simp: crypto_ok_def)
    qed
  qed
  then show ?thesis by (simp add: recs)
qed

lemma group_loop_fits:
  assumes "text_size (map fst current) \<le> TX_BUDGET_BYTES" "\<forall>rec \<in> set recs. small_record rec"
  shows "\<forall>g \<in> set (group_loop current (text_size (map fst current)) recs). text_size (map fst g) \<le> TX_BUDGET_BYTES"
  using assms
proof (induction recs arbitrary: current)
  case (Cons rec recs)
  have one: "text_size (map fst [rec]) \<le> TX_BUDGET_BYTES"
    using Cons.prems(2) by (simp add: small_record_def TX_BUDGET_BYTES_def text_size_def)
  have add: "text_size (map fst (current @ [rec])) = text_size (map fst current) + length (fst rec)" by (simp add: text_size_def)
  show ?case
  proof (cases "current \<noteq> [] \<and> TX_BUDGET_BYTES < text_size (map fst current) + length (fst rec)")
    case True
    then show ?thesis using Cons.IH [OF one] Cons.prems by (simp add: text_size_def)
  next
    case False
    then have "text_size (map fst (current @ [rec])) \<le> TX_BUDGET_BYTES" using one by (auto simp: text_size_def)
    from Cons.IH [OF this] Cons.prems(2) have "\<forall>g \<in> set (group_loop (current @ [rec]) (text_size (map fst current) + length (fst rec)) recs).
        text_size (map fst g) \<le> TX_BUDGET_BYTES" unfolding add by simp
    then show ?thesis using False by (subst group_loop.simps) (simp only: if_False)
  qed
qed (simp add: text_size_def)

lemma groups_fit: "\<forall>rec \<in> set recs. small_record rec \<Longrightarrow> g \<in> set (groups_of recs) \<Longrightarrow> text_size (map fst g) \<le> TX_BUDGET_BYTES"
  using group_loop_fits [of "[]" recs] by (simp add: groups_of_def text_size_def)

lemma group_bytes_le: "\<forall>rec \<in> set g. small_record rec \<Longrightarrow> group_bytes g \<le> text_size (map fst g)"
  unfolding group_bytes_def text_size_def map_map by (rule sum_list_mono) (simp add: small_record_def)

lemma guarded_push:
  assumes "length run_id \<le> 64" "se_idle se \<le> MAX_CONFIGURABLE_SECONDS"
    and "\<forall>rec \<in> set g. small_record rec" "text_size (map fst g) \<le> TX_BUDGET_BYTES"
  shows "guarded (push se run_id created s g)"
  unfolding push_def
proof (rule guarded_after_expire [OF _ assms(2)])
  fix content marker :: nat assume cm: "content < 10 ^ 7" "marker < 10 ^ 7"
  let ?cs = "[RPUSHX (stream_key run_id s) (map fst g)] @ expires run_id content marker @ [HINCRBY (meta_key run_id) (bytes_field s) (int (group_bytes g))]"
  have "group_bytes g < 10 ^ 7" using group_bytes_le [OF assms(3)] assms(4) by (simp add: TX_BUDGET_BYTES_def)
  from digits_length_le [OF this] have d: "length (int_text (int (group_bytes g))) \<le> 7" by (simp add: int_text_def)
  have "request_size ?cs = command_size (RPUSHX (stream_key run_id s) (map fst g)) + request_size (expires run_id content marker)
    + command_size (HINCRBY (meta_key run_id) (bytes_field s) (int (group_bytes g)))"
    by (simp add: request_size_def)
  also have "\<dots> \<le> REQUEST_GUARD_BYTES"
    using key_lengths(3) [OF assms(1)] key_lengths(4) [OF assms(1), of s] expires_size [OF assms(1) cm] d assms(4)
    by (cases s) (simp_all add: text_size_def REQUEST_GUARD_BYTES_def TX_BUDGET_BYTES_def bytes_field_def)
  finally have "guarded (atomic ?cs)" by (rule guarded_atomic)
  then show "guarded (bindB (atomic ?cs) (\<lambda>xs. if xs ! 0 = RInt 0 \<or> xs ! 1 \<noteq> RInt 1 \<or> xs ! 2 \<noteq> RInt 1 then gone run_id else returnB ()))"
    by (intro guarding)
qed

lemma guarded_push_all:
  assumes "length run_id \<le> 64" "se_idle se \<le> MAX_CONFIGURABLE_SECONDS"
    and "\<forall>g \<in> set gs. (\<forall>rec \<in> set g. small_record rec) \<and> text_size (map fst g) \<le> TX_BUDGET_BYTES"
  shows "guarded (push_all se run_id created s gs)"
  using assms(3) by (induction gs) (auto intro!: guarding guarded_push assms(1,2))

lemma guarded_append_stream:
  assumes "crypto_ok se" "length run_id \<le> 64" "se_idle se \<le> MAX_CONFIGURABLE_SECONDS"
  shows "guarded (append_stream se run_id s payloads)"
  unfolding append_stream_def Let_def
proof (rule guarded_bind [OF no_guard_lift [OF no_guard_box]])
  fix b and w w' :: buffer_world assume "liftB (open_box se run_id) w = (Inr b, w')"
  then have bx: "box_ok b" using open_box_ok by (auto simp: liftB_def)
  show "guarded (bindB (check se run_id b) (\<lambda>m. if MAX_STREAM_BYTES < (if s = Conv then mt_conv_bytes m else mt_replay_bytes m) + total_bytes payloads
      then raiseB BufferFull
      else bindB (seal_items se b s payloads) (\<lambda>recs. push_all se run_id (mt_created m) s (groups_of recs))))"
  proof (rule guarded_then [OF guarded_check], rule guarded_if, rule guarded_raises, rule guarded_bind [OF guarded_seal_items])
    fix m recs and w w' :: buffer_world assume "seal_items se b s payloads w = (Inr recs, w')"
    then have small: "\<forall>rec \<in> set recs. small_record rec" by (rule seal_items_small [OF assms(1) bx])
    have "\<forall>rec \<in> set g. small_record rec" if "g \<in> set (groups_of recs)" for g
      using small that concat_groups_of [of recs] by (metis UN_I set_concat)
    then show "guarded (push_all se run_id (mt_created m) s (groups_of recs))"
      using groups_fit [OF small] by (intro guarded_push_all assms(2,3)) blast
  qed
qed

lemma guarded_opened:
  assumes "\<And>run_id b m. length run_id \<le> 64 \<Longrightarrow> guarded (f run_id b m)"
  shows "guarded (opened se r f)"
  unfolding opened_def
proof (rule guarded_bind [OF no_guard_lift [OF no_guard_steps(1)]])
  fix run_id and w w' :: buffer_world assume "liftB (valid_run_id r) w = (Inr run_id, w')"
  then have "length run_id \<le> 64" using valid_id_length by (auto simp: liftB_def)
  then show "guarded (bindB (liftB (open_box se run_id)) (\<lambda>b. bindB (check se run_id b) (f run_id b)))"
    by (intro guarding assms no_guard_box)
qed

lemma guarded_valid:
  assumes "\<And>run_id. length run_id \<le> 64 \<Longrightarrow> guarded (f run_id)"
  shows "guarded (bindB (liftB (valid_run_id r)) f)"
proof (rule guarded_bind [OF no_guard_lift [OF no_guard_steps(1)]])
  fix run_id and w w' :: buffer_world assume "liftB (valid_run_id r) w = (Inr run_id, w')"
  then show "guarded (f run_id)" using valid_id_length assms by (auto simp: liftB_def)
qed

lemma op_guarded:
  assumes "crypto_ok se" "se_idle se \<le> MAX_CONFIGURABLE_SECONDS"
  shows "guarded (run_op se run_id op)"
proof -
  note steps = guarding no_guard_bind no_guard_map no_guard_steps no_guard_collect guarded_refresh assms(2)
  show ?thesis
  proof (cases op)
    case (Add_items items)
    show ?thesis unfolding Add_items run_op.simps append_conversation_def
      by (rule guarded_valid) (intro steps guarded_append_stream assms(1); simp)
  next
    case (Add_events messages)
    show ?thesis unfolding Add_events run_op.simps append_replay_many_def
      by (rule guarded_valid) (intro steps guarded_append_stream assms(1); simp)
  next
    case Take_seq
    have "guarded (next_seq se run_id)"
      unfolding next_seq_def
    proof (rule guarded_opened, rule guarded_after_expire [OF _ assms(2)], intro guarding guarded_atomic)
      fix run_id :: string and content marker :: nat assume l: "length run_id \<le> 64" "content < 10 ^ 7" "marker < 10 ^ 7"
      show "request_size (HINCRBY (meta_key run_id) ''seq'' 1 # expires run_id content marker) \<le> REQUEST_GUARD_BYTES"
        using expires_size [OF l] key_lengths(3) [OF l(1)] digits_length_le [of 1 1]
        by (simp add: request_size_def REQUEST_GUARD_BYTES_def text_size_def int_text_def)
    qed
    then show ?thesis unfolding Take_seq run_op.simps by (intro guarding)
  next
    case Touch
    show ?thesis unfolding Touch run_op.simps touch_def by (rule guarded_opened) (intro steps)
  next
    case Read_items
    have "guarded (read_conversation se run_id)" unfolding read_conversation_def
      by (rule guarded_opened) (intro steps; auto intro!: steps simp: no_guard_def [of "Inl _"] no_guard_def [of "Inr _"] split: list.split)
    then show ?thesis unfolding Read_items run_op.simps by (intro guarding)
  next
    case (Read_events n)
    have "guarded (replay_after se run_id n)" unfolding replay_after_def
      by (intro steps guarded_opened; simp add: no_guard_def)
    then show ?thesis unfolding Read_events run_op.simps by (intro guarding)
  qed
qed

text \<open>Creation: the stamp and the head are short, and the request that fills the lists carries one group.\<close>

lemma utf8_length: "length (utf8_encode s) \<le> 2 * length s"
  by (induction s) (auto simp: utf8_encode_def utf8_char_def Let_def)

lemma seal_size:
  assumes "crypto_ok se" "box_ok b" "seal se b s plain w = (Inr wire, w')"
  shows "length wire \<le> 2 * length plain + 100"
proof -
  have k: "length (co_key_id (bx_config b)) \<le> 16" using assms(2) by (simp add: box_ok_def key_id_ok_def)
  obtain raw where wire: "wire = wire_text (co_key_id (bx_config b)) raw" and raw: "length raw = length plain + 28"
    using assms(1,3) by (auto simp: seal_def bindB_def draw_def returnB_def seal_with_def Let_def crypto_ok_def NONCE_BYTES_def TAG_BYTES_def)
  have "length wire = length (co_key_id (bx_config b)) + (length raw * 4 + 2) div 3 + 3"
    by (simp add: wire wire_text_def FORMAT_VERSION_def b64e_length)
  then show ?thesis using k raw by simp
qed

lemma stamp_length:
  assumes "created < 10 ^ 20"
  shows "length (utf8_encode (stamp_text created)) \<le> 200"
proof -
  have "length (quoted ''v'') \<le> 20" "length (quoted ''created'') \<le> 20" by code_simp+
  then have "length (stamp_text created) \<le> 60 + length (digits_of created)" by (simp add: stamp_text_def)
  then show ?thesis using digits_length_le [OF assms] utf8_length [of "stamp_text created"] by linarith
qed

lemma mapB_length: "mapB f xs w = (Inr ys, w') \<Longrightarrow> length ys = length xs"
  by (induction xs arbitrary: w ys) (auto simp: bindB_return returnB_def)

lemma seal_items_nonempty:
  assumes "seal_items se b s items w = (Inr recs, w')" "items \<noteq> []"
  shows "groups_of recs \<noteq> []"
proof -
  obtain item rest where items: "items = item # rest" using assms(2) by (cases items) auto
  obtain rs w1 rss where "seal_item se b s item w = (Inr rs, w1)" "recs = rs @ concat rss"
    using assms(1) by (auto simp: seal_items_def bindB_return returnB_def items)
  moreover have "length rs = length (item_parts (snd item))"
    using calculation(1) mapB_length by (fastforce simp: seal_item_def bindB_def draw_def Let_def)
  moreover have "item_parts (snd item) \<noteq> []" by (simp add: item_parts_def)
  ultimately have "recs \<noteq> []" by auto
  then show ?thesis using concat_groups_of [of recs] by auto
qed

lemma fill_size:
  assumes "length run_id \<le> 64" "content < 10 ^ 7" "marker < 10 ^ 7"
    and "\<forall>rec \<in> set g. small_record rec" "text_size (map fst g) \<le> TX_BUDGET_BYTES"
    and "length head \<le> 1000" "length (int_text n) \<le> 4300"
  shows "request_size [DEL [conv_key run_id, replay_key run_id], RPUSH (conv_key run_id) (map fst g), RPUSH (replay_key run_id) [head],
      HSET (meta_key run_id) (seq_fields n g), EXPIRE (conv_key run_id) content False, EXPIRE (replay_key run_id) content False,
      EXPIRE (meta_key run_id) marker False] \<le> REQUEST_GUARD_BYTES"
proof -
  have "group_bytes g < 10 ^ 7" using group_bytes_le [OF assms(4)] assms(5) by (simp add: TX_BUDGET_BYTES_def)
  then have d: "length (digits_of (group_bytes g)) \<le> 7" by (rule digits_length_le) simp
  show ?thesis
    using key_lengths(1-3) [OF assms(1)] digits_length_le [OF assms(2)] digits_length_le [OF assms(3)] d assms(5-7)
    by (simp add: request_size_def text_size_def seq_fields_def REQUEST_GUARD_BYTES_def TX_BUDGET_BYTES_def)
qed

lemma guarded_cleanup [guarding]: "guarded m \<Longrightarrow> guarded (cleanup run_id m)"
  by (auto simp: guarded_def cleanup_def split: prod.split sum.split) (metis fst_conv)

lemma fst_lift: "no_guard m \<Longrightarrow> (\<And>x. m = Inr x \<Longrightarrow> fst (f x w) \<noteq> Inl RequestGuard) \<Longrightarrow> fst (bindB (liftB m) f w) \<noteq> Inl RequestGuard"
  by (cases m) (auto simp: bindB_def liftB_def no_guard_def)

lemma guardedD: "guarded m \<Longrightarrow> fst (m w) \<noteq> Inl RequestGuard"
  by (simp add: guarded_def)

lemma guarded_claim:
  assumes "length run_id \<le> 64" "content < 10 ^ 7" "marker < 10 ^ 7" "se_idle se \<le> MAX_CONFIGURABLE_SECONDS"
    and "\<forall>rec \<in> set recs. small_record rec" "groups_of recs \<noteq> []"
    and "length stamp \<le> 1000" "length head \<le> 1000" "length (int_text n) \<le> 4300"
  shows "guarded (bindB (atomic [HSETNX (meta_key run_id) ''meta'' stamp, EXPIRE (meta_key run_id) content True]) (\<lambda>claimed.
    if claimed ! 0 \<noteq> RInt 1 then raiseB BufferExists
    else cleanup run_id
      (bindB (atomic
        [DEL [conv_key run_id, replay_key run_id], RPUSH (conv_key run_id) (map fst (hd (groups_of recs))), RPUSH (replay_key run_id) [head],
         HSET (meta_key run_id) (seq_fields n (hd (groups_of recs))),
         EXPIRE (conv_key run_id) content False, EXPIRE (replay_key run_id) content False, EXPIRE (meta_key run_id) marker False])
       (\<lambda>_. push_all se run_id created Conv (tl (groups_of recs))))))"
proof -
  have each: "(\<forall>rec \<in> set g. small_record rec) \<and> text_size (map fst g) \<le> TX_BUDGET_BYTES" if "g \<in> set (groups_of recs)" for g
    using that assms(5) groups_fit [OF assms(5) that] concat_groups_of [of recs] by (metis UN_I set_concat)
  have first: "hd (groups_of recs) \<in> set (groups_of recs)" and rest: "set (tl (groups_of recs)) \<subseteq> set (groups_of recs)"
    using assms(6) by (simp_all add: list.set_sel(2) subsetI)
  have "request_size [HSETNX (meta_key run_id) ''meta'' stamp, EXPIRE (meta_key run_id) content True] \<le> REQUEST_GUARD_BYTES"
    using key_lengths(3) [OF assms(1)] digits_length_le [OF assms(2)] assms(7) by (simp add: request_size_def text_size_def REQUEST_GUARD_BYTES_def)
  moreover note fill_size [OF assms(1-3) conjunct1 [OF each [OF first]] conjunct2 [OF each [OF first]] assms(8,9)]
  moreover have "guarded (push_all se run_id created Conv (tl (groups_of recs)))"
    using each rest by (intro guarded_push_all assms(1,4)) blast
  ultimately show ?thesis by (intro guarding guarded_atomic) (simp_all add: guarded_raise)
qed

lemma create_guarded:
  assumes "crypto_ok se" "se_idle se \<le> MAX_CONFIGURABLE_SECONDS"
    and "length (int_text last_seq) \<le> 4300" "rd_clock (bw_redis w) < 10 ^ 20"
  shows "fst (create_buffer se run_id0 state history last_seq w) \<noteq> Inl RequestGuard"
  unfolding create_buffer_def Let_def
proof (intro fst_lift no_guard_steps, goal_cases)
  case 1
  show ?case unfolding conversation_payloads_def by (intro no_guard_bind no_guard_map no_guard_steps) (simp add: no_guard_def)
next
  case (2 run_id n payloads)
  have len: "length run_id \<le> 64" using valid_id_length [OF 2(1)] by simp
  have n: "length (int_text n) \<le> 4300" using 2(2) assms(3) by (auto simp: valid_seq_def split: if_splits)
  have pays: "payloads \<noteq> []" using 2(3) by (auto simp: conversation_payloads_def bindE_def split: sum.splits)
  obtain created where cr: "created = rd_clock (bw_redis w)" by simp
  obtain content marker where t: "(case ttls se created created of Some t \<Rightarrow> t | None \<Rightarrow> (0, 0)) = (content, marker)" by fastforce
  have cm: "content < 10 ^ 7" "marker < 10 ^ 7" using t ttls_small [OF _ assms(2)] by (auto split: option.splits)
  have now: "bindB clock_now f w = f created w" for f :: "nat \<Rightarrow> 'x io" by (simp add: bindB_def clock_now_def cr)
  show ?case
  proof (cases "MAX_STREAM_BYTES < total_bytes payloads")
    case False
    show ?thesis unfolding if_not_P [OF False]
    proof (rule fst_lift [OF no_guard_box], unfold now t prod.case, rule guardedD, goal_cases)
      case (1 b)
      then have b: "box_ok b" using open_box_ok by blast
      show ?case
      proof (rule guarded_bind [OF guarded_seal], rule guarded_bind [OF guarded_seal_items], rule guarded_bind [OF guarded_basic(3)],
          rule guarded_bind [OF guarded_seal], rule guarded_claim [OF len cm assms(2) _ _ _ _ n], goal_cases)
        case (1 stamp w1 w2 recs w3 w4 head_id w5 w6 head w7 w8)
        then show ?case by (intro seal_items_small [OF assms(1) b])
      next
        case (2 stamp w1 w2 recs w3 w4 head_id w5 w6 head w7 w8)
        then show ?case by (intro seal_items_nonempty [OF _ pays])
      next
        case (3 stamp w1 w2 recs w3 w4 head_id w5 w6 head w7 w8)
        then show ?case using seal_size [OF assms(1) b] stamp_length [OF assms(4)] unfolding cr by fastforce
      next
        case (4 stamp w1 w2 recs w3 w4 head_id w5 w6 head w7 w8)
        have "length head_id = 16" using 4(3) assms(1) by (auto simp: draw_def crypto_ok_def)
        then show ?case using seal_size [OF assms(1) b 4(4)] frame_length [of head_id KIND_HEAD 0 1] by (simp add: FRAME_SIZE_def)
      qed
    qed
  qed (simp add: raiseB_def)
qed

text \<open>C27: The guard on the size of a request never fires, however much is written and whatever the store answers: no
  operation raises its error, neither one on an existing buffer (appends, reads, sequence numbers, touches), nor the test
  whether a buffer exists, nor deletion, nor creation, whose second request carries the head and the first group of the
  conversation. For creation the sequence number has at most 4300 digits (Python turns no longer one into text) and the
  clock at most 20.
\<close>

theorem requests_stay_under_the_guard:
  assumes "crypto_ok se" "se_idle se \<le> MAX_CONFIGURABLE_SECONDS"
  shows "fst (run_op se run_id op w) \<noteq> Inl RequestGuard
    \<and> fst (exists_buffer se run_id w) \<noteq> Inl RequestGuard
    \<and> fst (delete_buffer run_id w) \<noteq> Inl RequestGuard
    \<and> (length (int_text last_seq) \<le> 4300 \<and> rd_clock (bw_redis w) < 10 ^ 20
        \<longrightarrow> fst (create_buffer se run_id state history last_seq w) \<noteq> Inl RequestGuard)"
proof (intro conjI impI)
  show "fst (run_op se run_id op w) \<noteq> Inl RequestGuard" by (rule guardedD [OF op_guarded [OF assms]])
  have "guarded (opened se run_id (\<lambda>_ _ _. returnB True))" by (intro guarded_opened guarding)
  from guardedD [OF this, of w] show "fst (exists_buffer se run_id w) \<noteq> Inl RequestGuard"
    by (auto simp: exists_buffer_def split: prod.split sum.split)
  show "fst (delete_buffer run_id w) \<noteq> Inl RequestGuard"
    unfolding delete_buffer_def by (rule guardedD) (intro guarding no_guard_steps)
next
  assume "length (int_text last_seq) \<le> 4300 \<and> rd_clock (bw_redis w) < 10 ^ 20"
  then show "fst (create_buffer se run_id state history last_seq w) \<noteq> Inl RequestGuard" by (intro create_guarded assms) simp_all
qed

section \<open>What a record is bound to\<close>

lemma utf8_ascii: "\<forall>c \<in> set s. (of_char c :: nat) < 128 \<Longrightarrow> utf8_encode s = s"
  by (induction s) (simp_all add: utf8_encode_def utf8_char_def)

lemma id_letter_ascii: "id_letter c \<Longrightarrow> (of_char c :: nat) < 128 \<and> c \<noteq> NUL"
  by (auto simp: id_letter_def ascii_alpha_def ascii_lower_def ascii_upper_def ascii_digit_def)

definition id_text :: "string \<Rightarrow> bool" where
  "id_text s \<longleftrightarrow> (\<forall>c \<in> set s. id_letter c)"

lemma aad_parts:
  assumes "id_text run_id" "id_text key_id"
  shows "split_on NUL (aad_of run_id s key_id) = [AAD_PREFIX, run_id, stream_name s, key_id]"
proof -
  have u: "utf8_encode run_id = run_id" using assms(1) id_letter_ascii by (intro utf8_ascii) (auto simp: id_text_def)
  have n: "NUL \<notin> set run_id" "NUL \<notin> set key_id" using assms id_letter_ascii by (auto simp: id_text_def)
  have p: "NUL \<notin> set AAD_PREFIX" "NUL \<notin> set (stream_name s)" by (cases s; simp add: AAD_PREFIX_def stream_name_def)+
  show ?thesis unfolding aad_of_def u
    using split_on_append_sep [OF p(1), of "run_id @ NUL # stream_name s @ NUL # key_id"]
      split_on_append_sep [OF n(1), of "stream_name s @ NUL # key_id"] split_on_append_sep [OF p(2), of key_id] split_on_no_sep [OF n(2)]
    by simp
qed

text \<open>C26: What opens was authenticated under the key of its run with associated data that names the run, the stream and the
  key id, and those of no other record are the same; and its wire form is the only one of its bytes.
\<close>

theorem a_record_is_bound:
  assumes "unseal se b s wire = Inr plain" "id_text (bx_run b)" "id_text run_id'" "id_text key_id'"
  shows "\<exists>key_id secret nonce sealed. wire = wire_text key_id (nonce @ sealed) \<and> length nonce = NONCE_BYTES
    \<and> secret_of b key_id = Some secret
    \<and> se_decrypt se (derive_key se secret (bx_run b)) nonce sealed (aad_of (bx_run b) s key_id) = Some plain
    \<and> (aad_of run_id' s' key_id' = aad_of (bx_run b) s key_id \<longrightarrow> run_id' = bx_run b \<and> s' = s \<and> key_id' = key_id)"
proof -
  obtain key_id body raw secret where w: "split_on (CHR ''.'') wire = [FORMAT_VERSION, key_id, body]" "key_id_ok key_id"
    "b64d body = Some raw" "\<not> length raw < NONCE_BYTES + TAG_BYTES" "secret_of b key_id = Some secret"
    "se_decrypt se (derive_key se secret (bx_run b)) (take NONCE_BYTES raw) (drop NONCE_BYTES raw) (aad_of (bx_run b) s key_id) = Some plain"
    using assms(1) by (auto simp: unseal_def split: list.splits if_splits option.splits)
  have "wire = join ''.'' [FORMAT_VERSION, key_id, body]" using join_split [of "CHR ''.''" wire] w(1) by simp
  then have wire: "wire = wire_text key_id (take NONCE_BYTES raw @ drop NONCE_BYTES raw)"
    using b64_canonical [OF w(3)] by (simp add: wire_text_def)
  have k: "id_text key_id" using w(2) by (simp add: key_id_ok_def id_text_def)
  have bound: "run_id' = bx_run b \<and> s' = s \<and> key_id' = key_id" if same: "aad_of run_id' s' key_id' = aad_of (bx_run b) s key_id"
  proof -
    have "[AAD_PREFIX, run_id', stream_name s', key_id'] = [AAD_PREFIX, bx_run b, stream_name s, key_id]"
      unfolding aad_parts [OF assms(3,4), of s', symmetric] aad_parts [OF assms(2) k, of s, symmetric] by (simp only: same)
    moreover have "stream_name s' = stream_name s \<Longrightarrow> s' = s" by (cases s; cases s') (simp_all add: stream_name_def)
    ultimately show ?thesis by simp
  qed
  have len: "length (take NONCE_BYTES raw) = NONCE_BYTES" using w(4) by simp
  show ?thesis using wire len w(5,6) bound by metis
qed

section \<open>The times to live\<close>

text \<open>The time to live of the content is at least a second, at most the idle time, and ends less than a second after the
  hard cap; that of the marker is no shorter and longer by at most the minute of the marker.
\<close>

theorem ttls_stay_in_bounds:
  assumes "1 \<le> se_idle se" "ttls se created now = Some (content, marker)"
  shows "1 \<le> content \<and> content \<le> se_idle se \<and> now + content * 1000 < created + se_cap se * 1000 + 1000
    \<and> content \<le> marker \<and> marker \<le> se_idle se \<and> marker \<le> max content EXPIRED_MARKER_SECONDS \<and> now < created + se_cap se * 1000"
proof -
  let ?left = "created + se_cap se * 1000 - now"
  have now: "now < created + se_cap se * 1000" and c: "content = max 1 (min (se_idle se) ((?left + 999) div 1000))"
    and m: "marker = max content (min EXPIRED_MARKER_SECONDS (se_idle se))"
    using assms(2) by (auto simp: ttls_def Let_def split: if_splits)
  have pos: "1 \<le> (?left + 999) div 1000" using now by (simp add: less_eq_div_iff_mult_less_eq)
  have c1: "content \<le> (?left + 999) div 1000" using pos assms(1) unfolding c by simp
  have "(?left + 999) div 1000 * 1000 \<le> ?left + 999" by simp
  then have "content * 1000 \<le> ?left + 999" using c1 by (meson le_trans mult_le_mono1)
  then have "now + content * 1000 < created + se_cap se * 1000 + 1000" using now by linarith
  moreover have "1 \<le> content" "content \<le> se_idle se" using pos assms(1) unfolding c by simp_all
  ultimately show ?thesis using now unfolding m by simp
qed

section \<open>A counter that never expires\<close>

lemma cell_put_fresh: "rd_expires r k = None \<Longrightarrow> cell (put k v r) k = (Some v, None)"
  by (simp add: cell_def purge_at expired_def)

text \<open>C40: A push to a buffer that has just expired, whose reply is lost, raises and leaves the hash of the counters behind with
  no time to live: the bytes are counted after the refresh, in a hash the count brings back.
\<close>

theorem a_lost_push_leaves_a_counter:
  assumes "bw_script w = [t]" "tn_elapsed t = 0" "tn_others t = []" "tn_outage t = Reply_lost"
    and "fst (cell (bw_redis w) (conv_key run_id)) = None" "fst (cell (bw_redis w) (replay_key run_id)) = None"
    and "fst (cell (bw_redis w) (meta_key run_id)) = None"
    and "ttls se created (rd_clock (bw_redis w)) = Some ttl"
    and "request_size ([RPUSHX (stream_key run_id s) (map fst g)] @ expires run_id (fst ttl) (snd ttl)
           @ [HINCRBY (meta_key run_id) (bytes_field s) (int (group_bytes g))]) \<le> REQUEST_GUARD_BYTES"
  shows "fst (push se run_id created s g w) = Inl BufferUnavailable
    \<and> cell (bw_redis (snd (push se run_id created s g w))) (meta_key run_id)
        = (Some (SHash [(bytes_field s, int_text (int (group_bytes g)))]), None)"
proof -
  obtain content marker where ttl: "ttl = (content, marker)" by fastforce
  let ?p = "purge (bw_redis w)"
  have st: "rd_store ?p (conv_key run_id) = None" "rd_store ?p (replay_key run_id) = None" "rd_store ?p (meta_key run_id) = None"
    using assms(5-7) by (simp_all add: cell_def)
  have ex: "rd_expires ?p (meta_key run_id) = None" using st(3) by (auto simp: purge_at split: if_splits)
  have sk: "rd_store ?p (stream_key run_id s) = None" using st by (simp add: stream_key_def)
  have zero: "py_int ''0'' = Some 0" by code_simp
  let ?cs = "[RPUSHX (stream_key run_id s) (map fst g)] @ expires run_id content marker
      @ [HINCRBY (meta_key run_id) (bytes_field s) (int (group_bytes g))]"
  have e: "expire_commands se run_id created w = (Inr (expires run_id content marker), w)"
    using assms(8) by (simp add: expire_commands_def bindB_def clock_now_def returnB_def expires_def ttl)
  have r: "snd (exec_request ?cs (bw_redis w)) = put (meta_key run_id) (SHash [(bytes_field s, int_text (int (group_bytes g)))]) ?p"
    using st sk zero
    by (simp add: exec_request_def do_commands_snd hash_at_def expires_def Let_def del: do_commands.simps(2))
  have b: "before_request t (bw_redis w) = bw_redis w" using assms(2,3) by (cases "bw_redis w") (simp add: before_request_def)
  have "atomic ?cs w = (Inl BufferUnavailable, w\<lparr>bw_script := [], bw_redis := snd (exec_request ?cs (bw_redis w))\<rparr>)"
    using assms(1,4,9) b by (simp add: atomic_def send_def this_turn_def Let_def ttl)
  then have p: "push se run_id created s g w = (Inl BufferUnavailable, w\<lparr>bw_script := [], bw_redis := snd (exec_request ?cs (bw_redis w))\<rparr>)"
    unfolding push_def by (simp add: bindB_def e)
  show ?thesis unfolding p r by (simp add: cell_put_fresh [OF ex])
qed

end
