(* ===== verification/BufferExamples.thy ===== *)
theory BufferExamples
  imports BufferLimits
begin

text \<open>
  The run buffer at concrete inputs: a buffer that is created, written to and read under faults, as explicit stores.
\<close>

section \<open>Concrete inputs\<close>

text \<open>Settings with a cipher that hides nothing, a connection with faults, and a buffer with some items.\<close>

definition demo_settings :: settings where
  "demo_settings = \<lparr>se_secret = Some ''0123456789abcdef0123456789abcdef'', se_key_id = None, se_previous = None,
    se_idle = 7200, se_cap = 86400, se_hkdf = (\<lambda>salt info secret. secret), se_encrypt = (\<lambda>k n p a. p @ replicate 16 NUL),
    se_decrypt = (\<lambda>k n c a. Some (take (length c - 16) c)),
    se_random = (\<lambda>i n. replicate (n - 1) NUL @ (if n = 0 then [] else [char_of i]))\<rparr>"

definition demo_box :: box where
  "demo_box = \<lparr>bx_run = ''run_0001'', bx_config = \<lparr>co_key_id = ''k1'', co_secrets = [(''k1'', ''0123456789abcdef0123456789abcdef'')]\<rparr>\<rparr>"

definition demo_buffer :: "turn list \<Rightarrow> buffer_world" where
  "demo_buffer ts = \<lparr>bw_redis = empty_redis 1000, bw_script = ts, bw_draws = 0\<rparr>"

definition fault :: "outage \<Rightarrow> turn" where
  "fault x = \<lparr>tn_elapsed = 5, tn_others = [], tn_outage = x\<rparr>"

definition demo_item :: "string \<Rightarrow> json" where
  "demo_item t = JObj [(''t'', JStr t)]"

definition demo_event :: "int \<Rightarrow> json" where
  "demo_event n = JObj [(''t'', JStr ''run_event''), (''id'', JStr ''e''), (''run_id'', JStr ''run_0001''), (''seq'', JInt n), (''payload'', JObj [])]"

text \<open>The store of the buffer: its stamp, its counters, its lists, the end of its keys and the time.\<close>

definition demo_store :: "int \<Rightarrow> nat \<Rightarrow> nat \<Rightarrow> string list \<Rightarrow> string list \<Rightarrow> nat option \<Rightarrow> nat \<Rightarrow> redis" where
  "demo_store n cb rb conv replay end_time clock =
    \<lparr>rd_values =
       [(meta_key ''run_0001'',
         SHash [(''meta'', ''1.k1.AAAAAAAAAAAAAAAAeyJ2IjogMSwgImNyZWF0ZWQiOiAxMDAwfQAAAAAAAAAAAAAAAAAAAAA''),
                (''seq'', int_text n), (''conv_bytes'', digits_of cb), (''replay_bytes'', digits_of rb)]),
        (conv_key ''run_0001'', SList conv), (replay_key ''run_0001'', SList replay)],
     rd_times = (case end_time of None \<Rightarrow> [] | Some t \<Rightarrow> map (\<lambda>k. (k ''run_0001'', t)) [meta_key, conv_key, replay_key]),
     rd_clock = clock\<rparr>"

definition demo_conv :: "string list" where
  "demo_conv =
    [''1.k1.AAAAAAAAAAAAAAACUwAAAAAAAAAAAAAAAAAAAAEAAAAAAAAAAXsibSI6MX0AAAAAAAAAAAAAAAAAAAAA'',
     ''1.k1.AAAAAAAAAAAAAAAESQAAAAAAAAAAAAAAAAAAAAMAAAAAAAAAAXsidCI6ImEifQAAAAAAAAAAAAAAAAAAAAA'']"

definition demo_head :: string where
  "demo_head = ''1.k1.AAAAAAAAAAAAAAAGSAAAAAAAAAAAAAAAAAAAAAUAAAAAAAAAAQAAAAAAAAAAAAAAAAAAAAA''"

text \<open>Creation takes the first two requests; its second is sent twice. Of the writes one is sent twice and one is lost.\<close>

definition demo_start :: buffer_world where
  "demo_start = demo_buffer (map fault [Fine, Sent_twice, Fine, Sent_twice, Fine, Fine, Fine, Not_sent])"

definition demo_ready :: buffer_world where
  "demo_ready = \<lparr>bw_redis = demo_store 0 16 0 demo_conv [demo_head] (Some 7201010) 1010,
    bw_script = map fault [Fine, Sent_twice, Fine, Fine, Fine, Not_sent], bw_draws = 7\<rparr>"

definition demo_ops :: "buffer_op list" where
  "demo_ops = [Add_items [demo_item ''b''], Add_events [demo_event 7], Add_items [demo_item ''c'']]"

definition demo_done :: buffer_world where
  "demo_done = \<lparr>bw_redis = demo_store 0 34 67
       (demo_conv @ replicate 2 ''1.k1.AAAAAAAAAAAAAAAISQAAAAAAAAAAAAAAAAAAAAcAAAAAAAAAAXsidCI6ImIifQAAAAAAAAAAAAAAAAAAAAA'')
       [demo_head,
        ''1.k1.AAAAAAAAAAAAAAAKRQAAAAAAAAAAAAAAAAAAAAkAAAAAAAAAAXsidCI6InJ1bl9ldmVudCIsImlkIjoiZSIsInJ1bl9pZCI6InJ1bl8wMDAxIiwic2VxIjo3LCJwYXlsb2FkIjp7fX0AAAAAAAAAAAAAAAAAAAAA'']
       (Some 7201030) 1040,
    bw_script = [], bw_draws = 13\<rparr>"

definition demo_wires :: "string list" where
  "demo_wires = tl demo_conv"

lemma demo_box_open: "open_box demo_settings ''run_0001'' = Inr demo_box"
  by code_simp

lemma demo_crypto: "crypto_ok demo_settings"
  by (simp add: crypto_ok_def demo_settings_def TAG_BYTES_def)

lemma demo_values: "python_json (demo_item t)" "python_json (demo_event 7)"
  by (simp_all add: demo_item_def demo_event_def digits_of_small)

lemma demo_created:
  "create_buffer demo_settings ''run_0001'' [(''m'', JInt 1)] [demo_item ''a''] 0 demo_start = (Inr (), demo_ready)"
  by code_simp

lemma demo_written: "run_ops demo_settings ''run_0001'' demo_ops demo_ready = ([True, True, False], demo_done)"
  by code_simp

lemma demo_undisturbed: "undisturbed ''run_0001'' demo_start"
  by code_simp

lemma demo_fresh: "fresh_ids demo_settings (bw_draws demo_done)"
  by code_simp

theorem records_that_come_again_change_nothing_witness:
  "take_records demo_settings demo_box Conv ([] @ demo_wires @ demo_wires @ []) no_reading
     = take_records demo_settings demo_box Conv ([] @ demo_wires @ []) no_reading
   \<and> (case take_records demo_settings demo_box Conv ([] @ demo_wires @ []) no_reading of
        Inr rg \<Rightarrow> rg_out rg = [(KIND_ITEM, ''{'' @ quoted ''t'' @ '':'' @ quoted ''a'' @ ''}'')] | Inl _ \<Rightarrow> False)"
  by (intro conjI records_that_come_again_change_nothing) (simp, code_simp)

definition demo_listed :: buffer_world where
  "demo_listed = (demo_buffer [])\<lparr>bw_redis := put (conv_key ''run_0001'') (SList (concat (replicate 20 demo_wires))) (empty_redis 1000)\<rparr>"

theorem pages_do_not_matter_witness:
  "read_stream demo_settings ''run_0001'' demo_box Conv demo_listed =
    ((case take_records demo_settings demo_box Conv (concat (replicate 20 demo_wires)) no_reading of Inl e \<Rightarrow> Inl e | Inr rg \<Rightarrow> Inr (rg_out rg)),
     demo_listed\<lparr>bw_redis := purge (bw_redis demo_listed)\<rparr>)
   \<and> length (concat (replicate 20 demo_wires)) = 20"
  by (intro conjI pages_do_not_matter) code_simp+

theorem a_stored_object_comes_back_witness:
  "\<exists>p recs rg. serialize (demo_item ''a'') = Inr p
    \<and> fst (seal_item demo_settings demo_box Conv (KIND_ITEM, p) (demo_buffer [])) = Inr recs
    \<and> take_records demo_settings demo_box Conv (map fst recs) no_reading = Inr rg
    \<and> rg_out rg = [(KIND_ITEM, p)] \<and> load_object p = Inr [(''t'', JStr ''a'')]"
proof -
  obtain p where p: "serialize (demo_item ''a'') = Inr p" by (cases "serialize (demo_item ''a'')") (code_simp, blast)
  obtain res w' where s: "seal_item demo_settings demo_box Conv (KIND_ITEM, p) (demo_buffer []) = (res, w')" by fastforce
  have ok: "box_ok demo_box" "KIND_ITEM \<in> set (ALLOWED_KINDS Conv)" by code_simp+
  from a_stored_object_comes_back [OF demo_crypto ok(1) demo_values(1) p ok(2) s] show ?thesis
    using p s by (auto simp: demo_item_def as_dict_def)
qed

lemma demo_conversation:
  "fst (read_conversation demo_settings ''run_0001'' demo_done) = Inr ([(''m'', JInt 1)], [[(''t'', JStr ''a'')], [(''t'', JStr ''b'')]])"
  by code_simp

lemma demo_replayed:
  "fst (replay_after demo_settings ''run_0001'' 0 demo_done) = Inr [as_dict (demo_event 7)]"
  by code_simp

lemma demo_done_quiet: "demo_done\<lparr>bw_script := []\<rparr> = demo_done"
  by (simp add: demo_done_def)

theorem the_conversation_survives_witness:
  "\<exists>kept. survivors [True, True, False] [[demo_item ''b''], [], [demo_item ''c'']] kept
    \<and> fst (read_conversation demo_settings ''run_0001'' demo_done) = Inr ([(''m'', JInt 1)], map as_dict ([demo_item ''a''] @ kept))"
proof -
  let ?r = "read_conversation demo_settings ''run_0001'' (demo_done\<lparr>bw_script := []\<rparr>)"
  have r: "?r = (Inr ([(''m'', JInt 1)], [[(''t'', JStr ''a'')], [(''t'', JStr ''b'')]]), snd ?r)"
    using demo_conversation unfolding demo_done_quiet by (metis prod.collapse)
  have v: "\<forall>v \<in> set (JObj [(''m'', JInt 1)] # [demo_item ''a''] @ concat (map (op_items Conv) demo_ops)). python_json v"
    by (simp add: demo_ops_def demo_values digits_of_small)
  from the_conversation_survives [OF demo_crypto demo_undisturbed demo_created demo_written demo_fresh v r] show ?thesis
    by (auto simp: demo_ops_def demo_conversation)
qed

theorem the_events_survive_witness:
  "\<exists>kept. survivors [True, True, False] [[], [demo_event 7], []] kept
    \<and> fst (replay_after demo_settings ''run_0001'' 0 demo_done) = Inr [as_dict (demo_event 7)]
    \<and> events_after 0 (map as_dict kept) [as_dict (demo_event 7)]"
proof -
  let ?r = "replay_after demo_settings ''run_0001'' 0 (demo_done\<lparr>bw_script := []\<rparr>)"
  have r: "?r = (Inr [as_dict (demo_event 7)], snd ?r)" using demo_replayed unfolding demo_done_quiet by (metis prod.collapse)
  have v: "\<forall>v \<in> set (concat (map (op_items Replay) demo_ops)). python_json v" by (simp add: demo_ops_def demo_values)
  from the_events_survive [OF demo_crypto demo_undisturbed demo_created demo_written demo_fresh v r] show ?thesis
    by (auto simp: demo_ops_def demo_replayed)
qed

text \<open>The first and the second sequence number after the writes.\<close>

definition demo_counted :: buffer_world where
  "demo_counted = snd (next_seq demo_settings ''run_0001'' demo_done)"

theorem sequence_numbers_increase_witness:
  "fst (next_seq demo_settings ''run_0001'' demo_done) = Inr 1 \<and> fst (next_seq demo_settings ''run_0001'' demo_counted) = Inr 2
    \<and> (0::int) < 1 \<and> (1::int) < 2"
proof -
  have f: "fst (next_seq demo_settings ''run_0001'' demo_done) = Inr 1" "fst (next_seq demo_settings ''run_0001'' demo_counted) = Inr 2"
    by code_simp+
  then have n: "next_seq demo_settings ''run_0001'' demo_done = (Inr 1, demo_counted)"
    "next_seq demo_settings ''run_0001'' demo_counted = (Inr 2, snd (next_seq demo_settings ''run_0001'' demo_counted))"
    unfolding demo_counted_def by (metis prod.collapse)+
  have e: "run_ops demo_settings ''run_0001'' [] demo_counted = ([], demo_counted)" by simp
  from sequence_numbers_increase [OF demo_crypto demo_undisturbed demo_created demo_written n(1) e n(2)] f show ?thesis by blast
qed

text \<open>A buffer whose expiry times were taken away, a day after its creation.\<close>

definition demo_late :: buffer_world where
  "demo_late = (demo_buffer [])\<lparr>bw_redis := demo_store 0 16 0 demo_conv [demo_head] None 86401000\<rparr>"

theorem nothing_after_the_cap_witness:
  "fst (run_op demo_settings ''run_0001'' Read_items demo_late) = Inl BufferExpired
   \<and> rd_store (bw_redis (snd (run_op demo_settings ''run_0001'' Read_items demo_late))) (conv_key ''run_0001'') = None
   \<and> fst (exists_buffer demo_settings ''run_0001'' demo_late) = Inr False
   \<and> fst (delete_buffer ''run_0001'' demo_late) = Inr True"
proof -
  have f: "undisturbed ''run_0001'' demo_late" "past_cap demo_settings ''run_0001'' demo_box demo_late" "bw_script demo_late = []"
    "fst (run_op demo_settings ''run_0001'' Read_items demo_late) = Inl BufferExpired"
    "valid_run_id ''run_0001'' = Inr ''run_0001''" by code_simp+
  from nothing_after_the_cap [OF demo_box_open f(1,2), of Read_items] f(3-5) show ?thesis
    by (auto simp: input_error_def buffer_keys_def)
qed

text \<open>A conversation whose first item alone is larger than the guard, created and then extended by another such item.\<close>

theorem requests_stay_under_the_guard_witness:
  "REQUEST_GUARD_BYTES < length (replicate 600000 (CHR ''x''))
   \<and> fst (create_buffer demo_settings ''run_0001'' [(''m'', JInt 1)] [demo_item (replicate 600000 (CHR ''x''))] 0 demo_start) \<noteq> Inl RequestGuard
   \<and> fst (run_op demo_settings ''run_0001'' (Add_items [demo_item (replicate 600000 (CHR ''x''))]) demo_ready) \<noteq> Inl RequestGuard"
proof -
  have idle: "se_idle demo_settings \<le> MAX_CONFIGURABLE_SECONDS" by (simp add: demo_settings_def MAX_CONFIGURABLE_SECONDS_def)
  have c: "length (int_text 0) \<le> 4300 \<and> rd_clock (bw_redis demo_start) < 10 ^ 20" by code_simp
  show ?thesis
    using requests_stay_under_the_guard [OF demo_crypto idle] c by (simp add: REQUEST_GUARD_BYTES_def del: run_op.simps)
qed

definition demo_wire :: string where
  "demo_wire = seal_with demo_settings demo_box Conv (replicate 12 NUL) ''plain''"

theorem a_record_is_bound_witness:
  "\<exists>key_id nonce sealed. demo_wire = wire_text key_id (nonce @ sealed) \<and> length nonce = NONCE_BYTES
    \<and> unseal demo_settings demo_box Conv demo_wire = Inr ''plain''"
proof -
  have f: "unseal demo_settings demo_box Conv demo_wire = Inr ''plain''" "id_text (bx_run demo_box)" "id_text ''run_0002''" "id_text ''k1''"
    by code_simp+
  from a_record_is_bound [OF f] f(1) show ?thesis by blast
qed

theorem ttls_stay_in_bounds_witness:
  "ttls demo_settings 1000 86400500 = Some (1, 60) \<and> 86400500 + 1 * 1000 < 1000 + se_cap demo_settings * 1000 + (1000::nat)"
proof -
  have t: "ttls demo_settings 1000 86400500 = Some (1, 60)" "1 \<le> se_idle demo_settings" by code_simp+
  from ttls_stay_in_bounds [OF t(2,1)] t(1) show ?thesis by blast
qed

definition demo_lost :: buffer_world where
  "demo_lost = demo_buffer [\<lparr>tn_elapsed = 0, tn_others = [], tn_outage = Reply_lost\<rparr>]"

theorem a_lost_push_leaves_a_counter_witness:
  "fst (push demo_settings ''run_0001'' 1000 Conv [(''record'', 3)] demo_lost) = Inl BufferUnavailable
   \<and> cell (bw_redis (snd (push demo_settings ''run_0001'' 1000 Conv [(''record'', 3)] demo_lost))) (meta_key ''run_0001'')
     = (Some (SHash [(bytes_field Conv, int_text (int (group_bytes [(''record'', 3)])))]), None)"
  by (rule a_lost_push_leaves_a_counter [where ttl = "(7200, 7200)"]) (simp add: demo_lost_def demo_buffer_def; fail | code_simp)+

end
