(* ===== verification/Broker.thy ===== *)
theory Broker
  imports Codec
begin

text \<open>
  \<open>backend/codeagent/broker.py\<close>: the tool broker of the server. Its coroutines run on one event loop, so what
  happens between two of their awaits is one step; \<open>bk_ready\<close> holds the tasks that were spawned and have not run
  yet, in the order the loop runs them, and \<open>bk_waiting\<close> what is suspended at an await. A call object is an
  address into \<open>bk_calls\<close>; what the broker hands to the emitter, a connection or a callback is appended
  to \<open>bk_outputs\<close>. Times are milliseconds.
\<close>

section \<open>Constants\<close>

definition TRUST_UNTRUSTED :: string where "TRUST_UNTRUSTED = ''untrusted''"
definition DEFAULT_TIMEOUT :: nat where "DEFAULT_TIMEOUT = 120000"
definition DEFAULT_MAX_OUTPUT_BYTES :: nat where "DEFAULT_MAX_OUTPUT_BYTES = 64 * 1024"
definition DEFAULT_MAX_IN_FLIGHT :: nat where "DEFAULT_MAX_IN_FLIGHT = 8"
definition DEFAULT_MAX_RETAINED_PER_RUN :: nat where "DEFAULT_MAX_RETAINED_PER_RUN = 256"
definition DEFAULT_RETAIN :: nat where "DEFAULT_RETAIN = 900000"
definition SWEEP_INTERVAL :: nat where "SWEEP_INTERVAL = 30000"

datatype status = Went_ok | Went_wrong | Denied | Timed_out | Disconnected | Cancelled

definition status_name :: "status \<Rightarrow> string" where
  "status_name st = (case st of Went_ok \<Rightarrow> ''ok'' | Went_wrong \<Rightarrow> ''error'' | Denied \<Rightarrow> ''denied'' | Timed_out \<Rightarrow> ''timeout''
     | Disconnected \<Rightarrow> ''disconnected'' | Cancelled \<Rightarrow> ''cancelled'')"

definition RESULT_STATUSES :: "status list" where "RESULT_STATUSES = [Went_ok, Went_wrong]"

definition PROPOSAL_RISKS :: "string list" where "PROPOSAL_RISKS = [''R0'', ''R1'', ''R2'', ''R3'', ''R4'']"
definition DECISIONS :: "string list" where "DECISIONS = [''allow'', ''deny'']"
definition SCOPES :: "string list" where "SCOPES = [''once'', ''session'']"
definition STREAMS :: "string list" where "STREAMS = [''stdout'', ''stderr'']"
definition DEVICE_TRUST :: "string list" where "DEVICE_TRUST = [''local_project'', ''local_other'', ''external'']"
definition MAX_OWNER_LEN :: nat where "MAX_OWNER_LEN = 256"

definition STAT_KEYS :: "string list" where
  "STAT_KEYS = [''proposed'', ''propose_failed'', ''offline_proposals'', ''duplicate_results'', ''late_results'',
    ''late_approvals'', ''rejected'', ''truncated_outputs'', ''stream_chunks'', ''stream_dropped'',
    ''finish_event_failed'', ''callback_failed'']"

definition name_letter :: "char \<Rightarrow> bool" where
  "name_letter c \<longleftrightarrow> ascii_alpha c \<or> ascii_digit c \<or> c = CHR ''_'' \<or> c = CHR ''-''"

definition run_id_ok :: "string \<Rightarrow> bool" where
  "run_id_ok s \<longleftrightarrow> 8 \<le> length s \<and> length s \<le> 64 \<and> (\<forall>c \<in> set s. name_letter c)"

definition call_id_ok :: "string \<Rightarrow> bool" where
  "call_id_ok s \<longleftrightarrow> 1 \<le> length s \<and> length s \<le> 64 \<and> (\<forall>c \<in> set s. name_letter c)"

definition tool_ok :: "string \<Rightarrow> bool" where
  "tool_ok s \<longleftrightarrow> (case s of [] \<Rightarrow> False | c # cs \<Rightarrow> ascii_alpha c \<and> length cs \<le> 127 \<and> (\<forall>x \<in> set cs. name_letter x))"

section \<open>Small helpers\<close>

definition omitted_marker :: "nat \<Rightarrow> string" where
  "omitted_marker n = [NL] @ ''[output truncated by the server: '' @ digits_of n @ '' bytes omitted]''"

text \<open>\<open>decode("utf-8", errors="ignore")\<close> of the beginning of an encoded text: a character that was split is dropped.\<close>

fun utf8_ignore :: "bytes \<Rightarrow> string" where
  "utf8_ignore [] = []"
| "utf8_ignore [b] = (if (of_char b :: nat) < 128 then [b] else [])"
| "utf8_ignore (b # b' # bs) =
    (let n = (of_char b :: nat); m = (of_char b' :: nat) in
     if n < 128 then b # utf8_ignore (b' # bs)
     else if (n = 194 \<or> n = 195) \<and> 128 \<le> m \<and> m < 192 then char_of ((n - 192) * 64 + (m - 128)) # utf8_ignore bs
     else utf8_ignore (b' # bs))"

definition limit_output :: "string \<Rightarrow> nat \<Rightarrow> string \<times> nat" where
  "limit_output t limit =
    (let raw = utf8_encode t in
     if length raw \<le> limit then (t, 0)
     else (let kept = utf8_ignore (take limit raw); omitted = length raw - length (utf8_encode kept)
           in (kept @ omitted_marker omitted, omitted)))"

text \<open>\<open>str.lower\<close> for the characters up to U+00FF.\<close>

definition lower_char :: "char \<Rightarrow> char" where
  "lower_char c = (let n = (of_char c :: nat) in
     if (65 \<le> n \<and> n \<le> 90) \<or> (192 \<le> n \<and> n \<le> 222 \<and> n \<noteq> 215) then char_of (n + 32) else c)"

definition norm_device :: "string \<Rightarrow> string" where
  "norm_device v = map lower_char (strip v)"

definition one_of :: "json \<Rightarrow> string list \<Rightarrow> bool" where
  "one_of v allowed \<longleftrightarrow> (case v of JStr s \<Rightarrow> s \<in> set allowed | _ \<Rightarrow> False)"

section \<open>Calls\<close>

text \<open>A connection is an object: two are the same only when they are equal in every field, the number included.\<close>

record device_conn =
  dc_number :: nat
  dc_user :: string
  dc_device :: string

record outcome =
  oc_call_id :: string
  oc_tool :: string
  oc_status :: status
  oc_ok :: bool
  oc_output :: "string option"
  oc_truncated :: bool
  oc_omitted_bytes :: nat
  oc_trust :: string
  oc_origin :: "string option"
  oc_exit_code :: "int option"
  oc_duration_ms :: nat
  oc_finish_event_failed :: bool

text \<open>The future the waiters of a call look at.\<close>

datatype answer = Pending | Answered outcome | Not_proposed

record tool_call =
  cl_run_id :: string
  cl_call_id :: string
  cl_user_id :: string
  cl_device_key :: string
  cl_device_id :: string
  cl_tool :: string
  cl_conn :: device_conn
  cl_started :: nat
  cl_finished :: bool
  cl_finished_at :: "nat option"
  cl_finished_by :: "status option"
  cl_outcome :: "outcome option"
  cl_done :: answer
  cl_duplicates :: nat
  cl_late :: nat
  cl_late_approvals :: nat
  cl_decision :: "(string \<times> string) option"
  cl_on_approval :: bool
  cl_stream_bytes :: nat

definition new_call :: "string \<Rightarrow> string \<Rightarrow> string \<Rightarrow> string \<Rightarrow> string \<Rightarrow> device_conn \<Rightarrow> nat \<Rightarrow> bool \<Rightarrow> tool_call" where
  "new_call run_id call_id user_id device_key tool conn started on_approval =
    \<lparr>cl_run_id = run_id, cl_call_id = call_id, cl_user_id = user_id, cl_device_key = device_key,
     cl_device_id = norm_device device_key, cl_tool = tool, cl_conn = conn, cl_started = started, cl_finished = False,
     cl_finished_at = None, cl_finished_by = None, cl_outcome = None, cl_done = Pending, cl_duplicates = 0, cl_late = 0,
     cl_late_approvals = 0, cl_decision = None, cl_on_approval = on_approval, cl_stream_bytes = 0\<rparr>"

section \<open>The broker's state\<close>

text \<open>Whether a callback is there at all is what the model keeps of it; what it does is up to the step that ends it.\<close>

record broker_settings =
  bs_timeout :: nat
  bs_max_output_bytes :: nat
  bs_max_in_flight :: nat
  bs_max_retained :: nat
  bs_retain :: nat
  bs_on_approval :: bool
  bs_on_stream :: bool
  bs_trust :: string

definition default_broker :: broker_settings where
  "default_broker = \<lparr>bs_timeout = DEFAULT_TIMEOUT, bs_max_output_bytes = DEFAULT_MAX_OUTPUT_BYTES,
     bs_max_in_flight = DEFAULT_MAX_IN_FLIGHT, bs_max_retained = DEFAULT_MAX_RETAINED_PER_RUN, bs_retain = DEFAULT_RETAIN,
     bs_on_approval = False, bs_on_stream = False, bs_trust = TRUST_UNTRUSTED\<rparr>"

text \<open>
  The tasks. Not yet run: \<open>_open\<close>, \<open>_expire\<close> and \<open>_announce\<close>. Suspended: at the emit of the proposal, in the sleep, at
  the emit of \<open>tool_finished\<close>, at the send of the timeout error, and a handler at a callback.
\<close>

datatype job =
    Open nat json nat
  | Expire nat nat
  | Announce nat
  | Opening nat nat
  | Sleeping nat nat
  | Announcing nat
  | Sending_error nat
  | Reporting device_conn nat bool
  | Streaming device_conn nat

datatype sent =
    Emits nat string json
  | Sends_error device_conn string json
  | Reports nat string string
  | Streams nat string string

record broker =
  bk_calls :: "tool_call list"
  bk_runs :: "(string \<times> (string \<times> nat) list) list"
  bk_stats :: "(string \<times> nat) list"
  bk_last_sweep :: nat
  bk_clock :: nat
  bk_ready :: "job list"
  bk_waiting :: "job list"
  bk_stopped :: "device_conn list"
  bk_outputs :: "sent list"

definition settings_ok :: "broker_settings \<Rightarrow> bool" where
  "settings_ok cf \<longleftrightarrow> 1 \<le> bs_max_output_bytes cf \<and> 1 \<le> bs_max_in_flight cf \<and> 1 \<le> bs_max_retained cf
     \<and> 0 < bs_timeout cf \<and> 0 < bs_retain cf
     \<and> 1 \<le> length (bs_trust cf) \<and> length (bs_trust cf) \<le> 32 \<and> (\<forall>c \<in> set (bs_trust cf). ascii_lower c \<or> c = CHR ''_'')"

definition new_broker :: "broker_settings \<Rightarrow> nat \<Rightarrow> broker option" where
  "new_broker cf now =
    (if settings_ok cf
     then Some \<lparr>bk_calls = [], bk_runs = [], bk_stats = [], bk_last_sweep = now, bk_clock = now, bk_ready = [], bk_waiting = [],
                bk_stopped = [], bk_outputs = []\<rparr>
     else None)"

definition call_at :: "broker \<Rightarrow> nat \<Rightarrow> tool_call" where
  "call_at b i = bk_calls b ! i"

definition change_call :: "nat \<Rightarrow> (tool_call \<Rightarrow> tool_call) \<Rightarrow> broker \<Rightarrow> broker" where
  "change_call i f b = b\<lparr>bk_calls := (bk_calls b)[i := f (call_at b i)]\<rparr>"

definition bump :: "string \<Rightarrow> broker \<Rightarrow> broker" where
  "bump k b = b\<lparr>bk_stats := dict_set k ((case map_of (bk_stats b) k of None \<Rightarrow> 0 | Some n \<Rightarrow> n) + 1) (bk_stats b)\<rparr>"

definition spawn :: "job \<Rightarrow> broker \<Rightarrow> broker" where
  "spawn j b = b\<lparr>bk_ready := bk_ready b @ [j]\<rparr>"

definition suspend :: "job \<Rightarrow> broker \<Rightarrow> broker" where
  "suspend j b = b\<lparr>bk_waiting := bk_waiting b @ [j]\<rparr>"

definition put_out :: "sent \<Rightarrow> broker \<Rightarrow> broker" where
  "put_out x b = b\<lparr>bk_outputs := bk_outputs b @ [x]\<rparr>"

section \<open>The table\<close>

definition run_calls :: "broker \<Rightarrow> string \<Rightarrow> (string \<times> nat) list" where
  "run_calls b run_id = (case map_of (bk_runs b) run_id of None \<Rightarrow> [] | Some calls \<Rightarrow> calls)"

definition pending_in :: "broker \<Rightarrow> (string \<times> nat) list \<Rightarrow> nat list" where
  "pending_in b calls = filter (\<lambda>i. \<not> cl_finished (call_at b i)) (map snd calls)"

definition pending :: "broker \<Rightarrow> string option \<Rightarrow> nat list" where
  "pending b run_id =
    (case run_id of Some r \<Rightarrow> pending_in b (run_calls b r) | None \<Rightarrow> concat (map (pending_in b \<circ> snd) (bk_runs b)))"

definition in_flight :: "broker \<Rightarrow> string \<Rightarrow> nat" where
  "in_flight b run_id = length (pending b (Some run_id))"

definition finish_time :: "broker \<Rightarrow> nat \<Rightarrow> nat" where
  "finish_time b i = (case cl_finished_at (call_at b i) of None \<Rightarrow> 0 | Some t \<Rightarrow> t)"

definition trim :: "broker_settings \<Rightarrow> string \<Rightarrow> broker \<Rightarrow> broker" where
  "trim cf run_id b =
    (case map_of (bk_runs b) run_id of
       None \<Rightarrow> b
     | Some calls \<Rightarrow>
         (let finished = sort_key (\<lambda>p. finish_time b (snd p)) (filter (\<lambda>p. cl_finished (call_at b (snd p))) calls);
              excess = map fst (take (length finished - bs_max_retained cf) finished)
          in b\<lparr>bk_runs := dict_set run_id (filter (\<lambda>p. fst p \<notin> set excess) calls) (bk_runs b)\<rparr>))"

definition aged :: "broker_settings \<Rightarrow> broker \<Rightarrow> nat \<Rightarrow> bool" where
  "aged cf b i \<longleftrightarrow> cl_finished (call_at b i) \<and> bs_retain cf < bk_clock b - finish_time b i"

definition sweep :: "broker_settings \<Rightarrow> broker \<Rightarrow> broker" where
  "sweep cf b =
    (if bk_clock b - bk_last_sweep b < SWEEP_INTERVAL then b
     else b\<lparr>bk_last_sweep := bk_clock b,
            bk_runs := filter (\<lambda>p. snd p \<noteq> [])
              (map (\<lambda>p. (fst p, filter (\<lambda>q. \<not> aged cf b (snd q)) (snd p))) (bk_runs b))\<rparr>)"

text \<open>\<open>forget_run\<close>: how many finished calls were dropped.\<close>

definition forget_run :: "string \<Rightarrow> broker \<Rightarrow> nat \<times> broker" where
  "forget_run run_id b =
    (let calls = run_calls b run_id; left = filter (\<lambda>p. \<not> cl_finished (call_at b (snd p))) calls
     in (length calls - length left,
         if calls = [] then b
         else if left = [] then b\<lparr>bk_runs := filter (\<lambda>p. fst p \<noteq> run_id) (bk_runs b)\<rparr>
         else b\<lparr>bk_runs := dict_set run_id left (bk_runs b)\<rparr>))"

section \<open>Ending a call\<close>

record ending =
  en_ok :: bool
  en_output :: "string option"
  en_truncated :: bool
  en_omitted_bytes :: nat
  en_origin :: "string option"
  en_exit_code :: "int option"

definition bare :: ending where
  "bare = \<lparr>en_ok = False, en_output = None, en_truncated = False, en_omitted_bytes = 0, en_origin = None, en_exit_code = None\<rparr>"

definition outcome_of :: "broker_settings \<Rightarrow> string \<Rightarrow> string \<Rightarrow> status \<Rightarrow> ending \<Rightarrow> nat \<Rightarrow> outcome" where
  "outcome_of cf call_id tool st en duration =
    \<lparr>oc_call_id = call_id, oc_tool = tool, oc_status = st, oc_ok = en_ok en, oc_output = en_output en,
     oc_truncated = en_truncated en, oc_omitted_bytes = en_omitted_bytes en, oc_trust = bs_trust cf,
     oc_origin = en_origin en, oc_exit_code = en_exit_code en, oc_duration_ms = duration, oc_finish_event_failed = False\<rparr>"

definition timer_of :: "nat \<Rightarrow> job \<Rightarrow> bool" where
  "timer_of i j \<longleftrightarrow> (case j of Expire k _ \<Rightarrow> k = i | Sleeping k _ \<Rightarrow> k = i | _ \<Rightarrow> False)"

definition cancel_timer :: "nat \<Rightarrow> broker \<Rightarrow> broker" where
  "cancel_timer i b = b\<lparr>bk_ready := filter (\<lambda>j. \<not> timer_of i j) (bk_ready b), bk_waiting := filter (\<lambda>j. \<not> timer_of i j) (bk_waiting b)\<rparr>"

text \<open>\<open>_close\<close>; \<open>None\<close> when the call has ended. A timer that is running has left \<open>bk_waiting\<close> and is not cancelled.\<close>

definition close_call :: "broker_settings \<Rightarrow> nat \<Rightarrow> status \<Rightarrow> ending \<Rightarrow> broker \<Rightarrow> broker option" where
  "close_call cf i st en b =
    (let c = call_at b i in
     if cl_finished c then None
     else Some (spawn (Announce i) (trim cf (cl_run_id c) (bump (''finished_'' @ status_name st) (cancel_timer i
       (change_call i (\<lambda>c. c\<lparr>cl_finished := True, cl_finished_at := Some (bk_clock b), cl_finished_by := Some st,
          cl_outcome := Some (outcome_of cf (cl_call_id c) (cl_tool c) st en (bk_clock b - cl_started c))\<rparr>) b))))))"

text \<open>\<open>_finish\<close> up to its await, and whether this caller won.\<close>

definition finish :: "broker_settings \<Rightarrow> nat \<Rightarrow> status \<Rightarrow> ending \<Rightarrow> broker \<Rightarrow> broker" where
  "finish cf i st en b = (case close_call cf i st en b of None \<Rightarrow> b | Some b' \<Rightarrow> b')"

definition close_all :: "broker_settings \<Rightarrow> nat list \<Rightarrow> status \<Rightarrow> broker \<Rightarrow> broker" where
  "close_all cf is st b = fold (\<lambda>i. finish cf i st bare) is b"

definition finished_event :: "tool_call \<Rightarrow> json" where
  "finished_event c =
    (case cl_outcome c of
       None \<Rightarrow> JNull
     | Some oc \<Rightarrow> JObj [(''type'', JStr ''tool_finished''), (''call_id'', JStr (cl_call_id c)), (''tool'', JStr (cl_tool c)),
         (''status'', JStr (status_name (oc_status oc))), (''duration_ms'', JInt (int (oc_duration_ms oc)))])"

text \<open>The \<open>finally\<close> of \<open>_announce\<close>: the waiters wake.\<close>

definition resolve :: "nat \<Rightarrow> broker \<Rightarrow> broker" where
  "resolve i b =
    change_call i (\<lambda>c. if cl_done c = Pending then (case cl_outcome c of None \<Rightarrow> c | Some oc \<Rightarrow> c\<lparr>cl_done := Answered oc\<rparr>) else c) b"

definition flag_event :: "nat \<Rightarrow> broker \<Rightarrow> broker" where
  "flag_event i b =
    bump ''finish_event_failed''
      (change_call i (\<lambda>c. c\<lparr>cl_outcome := map_option (\<lambda>oc. oc\<lparr>oc_finish_event_failed := True\<rparr>) (cl_outcome c)\<rparr>) b)"

text \<open>\<open>_announce\<close> after its emit; \<open>found\<close> is what \<open>connection_of\<close> answers.\<close>

definition announced :: "nat \<Rightarrow> bool \<Rightarrow> device_conn option \<Rightarrow> broker \<Rightarrow> broker" where
  "announced i went found b =
    (let b1 = (if went then b else flag_event i b) in
     if cl_finished_by (call_at b i) = Some Timed_out
     then (case found of
             None \<Rightarrow> resolve i b1
           | Some conn \<Rightarrow>
               suspend (Sending_error i)
                 (put_out (Sends_error conn ''tool_timeout'' (JObj [(''call_id'', JStr (cl_call_id (call_at b i)))])) b1))
     else resolve i b1)"

section \<open>The loop's side\<close>

record proposal =
  pr_run_id :: json
  pr_user_id :: json
  pr_device_id :: json
  pr_call_id :: json
  pr_tool :: json
  pr_input :: json
  pr_risk :: json
  pr_timeout :: "int option"
  pr_on_approval :: bool

datatype refusal = Invalid_call | Too_many_calls | Call_conflict

text \<open>What \<open>propose\<close> comes to: it raises, returns at once, or waits for the end of a call.\<close>

datatype proposal_reply = Refused refusal | Returned outcome | Waits nat

definition str_such :: "json \<Rightarrow> (string \<Rightarrow> bool) \<Rightarrow> bool" where
  "str_such v P \<longleftrightarrow> (case v of JStr s \<Rightarrow> P s | _ \<Rightarrow> False)"

definition owner_ok :: "string \<Rightarrow> bool" where
  "owner_ok s \<longleftrightarrow> s \<noteq> [] \<and> length s \<le> MAX_OWNER_LEN"

definition arguments_ok :: "proposal \<Rightarrow> bool" where
  "arguments_ok pr \<longleftrightarrow> str_such (pr_run_id pr) run_id_ok \<and> str_such (pr_call_id pr) call_id_ok \<and> str_such (pr_tool pr) tool_ok
     \<and> str_such (pr_user_id pr) owner_ok \<and> str_such (pr_device_id pr) owner_ok
     \<and> (case pr_input pr of JObj _ \<Rightarrow> True | _ \<Rightarrow> False) \<and> one_of (pr_risk pr) PROPOSAL_RISKS
     \<and> (case pr_timeout pr of None \<Rightarrow> True | Some t \<Rightarrow> 0 < t)"

definition call_named :: "broker \<Rightarrow> string \<Rightarrow> string \<Rightarrow> nat option" where
  "call_named b run_id call_id = map_of (run_calls b run_id) call_id"

text \<open>\<open>propose\<close> up to its await; \<open>found\<close> is the connection \<open>connection_of\<close> answers and whether it is closed.\<close>

definition propose :: "broker_settings \<Rightarrow> proposal \<Rightarrow> (device_conn \<times> bool) option \<Rightarrow> broker \<Rightarrow> proposal_reply \<times> broker" where
  "propose cf pr found b =
    (if \<not> arguments_ok pr then (Refused Invalid_call, b)
     else
       (let run_id = str_or [] (pr_run_id pr); user_id = str_or [] (pr_user_id pr); device_id = str_or [] (pr_device_id pr);
            call_id = str_or [] (pr_call_id pr); tool = str_or [] (pr_tool pr)
        in case call_named b run_id call_id of
             Some i \<Rightarrow>
               (let c = call_at b i in
                if (cl_user_id c, cl_device_id c, cl_tool c) \<noteq> (user_id, norm_device device_id, tool) then (Refused Call_conflict, b)
                else (Waits i, b))
           | None \<Rightarrow>
               (let b1 = sweep cf b in
                if bs_max_in_flight cf \<le> in_flight b1 run_id then (Refused Too_many_calls, b1)
                else
                  (case found of
                     Some (conn, False) \<Rightarrow>
                       (let i = length (bk_calls b1);
                            c = new_call run_id call_id user_id device_id tool conn (bk_clock b1) (pr_on_approval pr);
                            b2 = b1\<lparr>bk_calls := bk_calls b1 @ [c],
                                    bk_runs := dict_set run_id (dict_set call_id i (run_calls b1 run_id)) (bk_runs b1)\<rparr>;
                            p = JObj [(''call_id'', pr_call_id pr), (''tool'', pr_tool pr), (''input'', pr_input pr), (''risk'', pr_risk pr)];
                            timeout = (case pr_timeout pr of None \<Rightarrow> bs_timeout cf | Some t \<Rightarrow> nat t)
                        in (Waits i, spawn (Open i p timeout) b2))
                   | _ \<Rightarrow> (Returned (outcome_of cf call_id tool Disconnected bare 0), bump ''offline_proposals'' b1)))))"

text \<open>\<open>_abort\<close>: a proposal that was not emitted.\<close>

definition abort :: "nat \<Rightarrow> broker \<Rightarrow> broker" where
  "abort i b =
    (let b1 = bump ''propose_failed'' b; c = call_at b i in
     if cl_finished c then b1
     else
       (let b2 = change_call i (\<lambda>c. c\<lparr>cl_finished := True, cl_done := (if cl_done c = Pending then Not_proposed else cl_done c)\<rparr>) b1;
            calls = run_calls b2 (cl_run_id c)
        in if map_of calls (cl_call_id c) = Some i
           then (let left = filter (\<lambda>p. fst p \<noteq> cl_call_id c) calls
                 in if left = [] then b2\<lparr>bk_runs := filter (\<lambda>p. fst p \<noteq> cl_run_id c) (bk_runs b2)\<rparr>
                    else b2\<lparr>bk_runs := dict_set (cl_run_id c) left (bk_runs b2)\<rparr>)
           else b2))"

text \<open>\<open>_open\<close> after its emit.\<close>

definition opened_call :: "nat \<Rightarrow> nat \<Rightarrow> bool \<Rightarrow> broker \<Rightarrow> broker" where
  "opened_call i timeout went b =
    (if \<not> went then abort i b
     else (let b1 = bump ''proposed'' b in if cl_finished (call_at b i) then b1 else spawn (Expire i timeout) b1))"

section \<open>The device's side\<close>

type_synonym msg = "(string \<times> json) list"

record result_fields =
  rf_call_id :: string
  rf_ok :: bool
  rf_output :: string
  rf_truncated :: bool
  rf_exit_code :: "int option"
  rf_origin :: "string option"

definition result_fields_of :: "json \<Rightarrow> result_fields option" where
  "result_fields_of payload =
    (case payload of
       JObj d \<Rightarrow>
         (case (field d ''call_id'', field d ''ok'', field d ''output'', field d ''truncated'') of
            (JStr call_id, JBool went, JStr out, JBool truncated) \<Rightarrow>
              if call_id_ok call_id
              then Some \<lparr>rf_call_id = call_id, rf_ok = went, rf_output = out, rf_truncated = truncated,
                         rf_exit_code = (case field d ''exit_code'' of JInt n \<Rightarrow> Some n | _ \<Rightarrow> None),
                         rf_origin = (if one_of (field d ''trust'') DEVICE_TRUST then Some (str_or [] (field d ''trust'')) else None)\<rparr>
              else None
          | _ \<Rightarrow> None)
     | _ \<Rightarrow> None)"

text \<open>\<open>_owned\<close>: the call of this name if it was proposed to this connection's user and device.\<close>

definition owned_call :: "broker \<Rightarrow> device_conn \<Rightarrow> json \<Rightarrow> string \<Rightarrow> nat option" where
  "owned_call b conn run_id call_id =
    (case run_id of
       JStr r \<Rightarrow>
         (case call_named b r call_id of
            None \<Rightarrow> None
          | Some i \<Rightarrow>
              if cl_user_id (call_at b i) = dc_user conn \<and> cl_device_id (call_at b i) = norm_device (dc_device conn) then Some i else None)
     | _ \<Rightarrow> None)"

definition on_other_connection :: "broker \<Rightarrow> nat \<Rightarrow> device_conn \<Rightarrow> bool" where
  "on_other_connection b i conn \<longleftrightarrow> cl_conn (call_at b i) \<noteq> conn"

definition count_ignored :: "nat \<Rightarrow> bool \<Rightarrow> broker \<Rightarrow> broker" where
  "count_ignored i late b =
    (if \<not> late \<and> (case cl_finished_by (call_at b i) of Some st \<Rightarrow> st \<in> set RESULT_STATUSES | None \<Rightarrow> False)
     then bump ''duplicate_results'' (change_call i (\<lambda>c. c\<lparr>cl_duplicates := cl_duplicates c + 1\<rparr>) b)
     else bump ''late_results'' (change_call i (\<lambda>c. c\<lparr>cl_late := cl_late c + 1\<rparr>) b))"

definition reject :: "device_conn \<Rightarrow> msg \<Rightarrow> broker \<Rightarrow> broker" where
  "reject conn m b = put_out (Sends_error conn ''invalid_message'' (field m ''id'')) (bump ''rejected'' b)"

definition handle_tool_result :: "broker_settings \<Rightarrow> device_conn \<Rightarrow> msg \<Rightarrow> broker \<Rightarrow> broker" where
  "handle_tool_result cf conn m b =
    (case result_fields_of (field m ''payload'') of
       None \<Rightarrow> reject conn m b
     | Some rf \<Rightarrow>
         (case owned_call b conn (field m ''run_id'') (rf_call_id rf) of
            None \<Rightarrow> reject conn m b
          | Some i \<Rightarrow>
              if cl_finished (call_at b i) then count_ignored i False b
              else if on_other_connection b i conn then finish cf i Disconnected bare (count_ignored i True b)
              else
                (case limit_output (rf_output rf) (bs_max_output_bytes cf) of
                   (t, omitted) \<Rightarrow>
                     finish cf i (if rf_ok rf then Went_ok else Went_wrong)
                       \<lparr>en_ok = rf_ok rf, en_output = Some t, en_truncated = rf_truncated rf \<or> 0 < omitted, en_omitted_bytes = omitted,
                        en_origin = rf_origin rf, en_exit_code = rf_exit_code rf\<rparr>
                       (if 0 < omitted then bump ''truncated_outputs'' b else b))))"

text \<open>What a message says of a call: its id, when the payload has the two fields the handler asks for.\<close>

definition call_id_of :: "json \<Rightarrow> (msg \<Rightarrow> bool) \<Rightarrow> string option" where
  "call_id_of payload ok =
    (case payload of
       JObj d \<Rightarrow> (case field d ''call_id'' of JStr s \<Rightarrow> if call_id_ok s \<and> ok d then Some s else None | _ \<Rightarrow> None)
     | _ \<Rightarrow> None)"

definition owned_by_message :: "broker \<Rightarrow> device_conn \<Rightarrow> msg \<Rightarrow> (msg \<Rightarrow> bool) \<Rightarrow> nat option" where
  "owned_by_message b conn m ok =
    (case call_id_of (field m ''payload'') ok of None \<Rightarrow> None | Some s \<Rightarrow> owned_call b conn (field m ''run_id'') s)"

definition has_callback :: "broker_settings \<Rightarrow> tool_call \<Rightarrow> bool" where
  "has_callback cf c \<longleftrightarrow> cl_on_approval c \<or> bs_on_approval cf"

definition late_approval :: "nat \<Rightarrow> broker \<Rightarrow> broker" where
  "late_approval i b = bump ''late_approvals'' (change_call i (\<lambda>c. c\<lparr>cl_late_approvals := cl_late_approvals c + 1\<rparr>) b)"

text \<open>\<open>_notify\<close> up to its await.\<close>

definition notify :: "device_conn \<Rightarrow> nat \<Rightarrow> string \<Rightarrow> string \<Rightarrow> broker \<Rightarrow> broker" where
  "notify conn i decision scope b = suspend (Reporting conn i (decision = ''deny'')) (put_out (Reports i decision scope) b)"

definition handle_approval :: "broker_settings \<Rightarrow> device_conn \<Rightarrow> msg \<Rightarrow> broker \<Rightarrow> broker" where
  "handle_approval cf conn m b =
    (case owned_by_message b conn m (\<lambda>d. one_of (field d ''decision'') DECISIONS \<and> one_of (field d ''scope'') SCOPES) of
       None \<Rightarrow> reject conn m b
     | Some i \<Rightarrow>
         (let d = as_dict (field m ''payload''); decision = str_or [] (field d ''decision''); scope = str_or [] (field d ''scope'');
              c = call_at b i
          in if cl_finished c then late_approval i b
             else if on_other_connection b i conn then finish cf i Disconnected bare (late_approval i b)
             else if decision = ''deny''
             then (if has_callback cf c then notify conn i decision scope b else finish cf i Denied bare b)
             else if cl_decision c \<noteq> None then b
             else
               (let b1 = change_call i (\<lambda>c. c\<lparr>cl_decision := Some (decision, scope)\<rparr>) b
                in if has_callback cf c then notify conn i decision scope b1 else b1)))"

definition handle_tool_stream :: "broker_settings \<Rightarrow> device_conn \<Rightarrow> msg \<Rightarrow> broker \<Rightarrow> broker" where
  "handle_tool_stream cf conn m b =
    (case owned_by_message b conn m (\<lambda>d. one_of (field d ''stream'') STREAMS \<and> (case field d ''chunk'' of JStr _ \<Rightarrow> True | _ \<Rightarrow> False)) of
       None \<Rightarrow> reject conn m b
     | Some i \<Rightarrow>
         (let d = as_dict (field m ''payload''); chunk = str_or [] (field d ''chunk'')
          in if cl_finished (call_at b i) \<or> on_other_connection b i conn then bump ''stream_dropped'' b
             else
               (let b1 = bump ''stream_chunks'' (change_call i (\<lambda>c. c\<lparr>cl_stream_bytes := cl_stream_bytes c + length (utf8_encode chunk)\<rparr>) b)
                in if bs_on_stream cf
                   then suspend (Streaming conn i) (put_out (Streams i (str_or [] (field d ''stream'')) chunk) b1)
                   else b1)))"

section \<open>The hooks\<close>

definition cancel_all :: "broker_settings \<Rightarrow> string \<Rightarrow> broker \<Rightarrow> broker" where
  "cancel_all cf run_id b = close_all cf (pending b (Some run_id)) Cancelled b"

definition on_run_disconnect :: "broker_settings \<Rightarrow> device_conn \<Rightarrow> string \<Rightarrow> broker \<Rightarrow> broker" where
  "on_run_disconnect cf conn run_id b =
    close_all cf (filter (\<lambda>i. cl_user_id (call_at b i) = dc_user conn \<and> cl_device_id (call_at b i) = norm_device (dc_device conn))
      (pending b (Some run_id))) Disconnected b"

definition on_connection_closed :: "broker_settings \<Rightarrow> device_conn \<Rightarrow> broker \<Rightarrow> broker" where
  "on_connection_closed cf conn b = close_all cf (filter (\<lambda>i. cl_conn (call_at b i) = conn) (pending b None)) Disconnected b"

section \<open>Numbers about a call\<close>

definition call_stats :: "broker \<Rightarrow> string \<Rightarrow> string \<Rightarrow> (string \<times> json) list option" where
  "call_stats b run_id call_id =
    map_option (\<lambda>i. let c = call_at b i in
      [(''tool'', JStr (cl_tool c)), (''state'', JStr (if cl_finished c then ''finished'' else ''pending'')),
       (''status'', (case cl_finished_by c of None \<Rightarrow> JNull | Some st \<Rightarrow> JStr (status_name st))),
       (''duplicate_results'', JInt (int (cl_duplicates c))), (''late_results'', JInt (int (cl_late c))),
       (''late_approvals'', JInt (int (cl_late_approvals c))), (''stream_bytes'', JInt (int (cl_stream_bytes c))),
       (''approval'', (case cl_decision c of None \<Rightarrow> JNull | Some d \<Rightarrow> JStr (fst d)))])
      (call_named b run_id call_id)"

definition all_stats :: "broker \<Rightarrow> (string \<times> nat) list" where
  "all_stats b = fold (\<lambda>p. dict_set (fst p) (snd p)) (bk_stats b) (map (\<lambda>k. (k, 0)) STAT_KEYS)"

section \<open>Steps\<close>

text \<open>
  A step: a call of the loop, the next spawned task, the end of an await (it went well or it raised; \<open>Resume\<close> carries
  what \<open>connection_of\<close> answers then), a message of a device, the end of a connection's reader, which cancels the
  handler it is in, a hook, and time.
\<close>

datatype action =
    Propose proposal "(device_conn \<times> bool) option"
  | Run_task
  | Resume job bool "device_conn option"
  | Tool_result device_conn msg
  | Approval device_conn msg
  | Tool_stream device_conn msg
  | Reader_stops device_conn
  | Cancel_run string
  | Run_disconnects device_conn string
  | Connection_closes device_conn
  | Forget_run string
  | Time_passes nat

text \<open>The read loop of a connection awaits its handler before it takes the next message.\<close>

definition handler_of :: "device_conn \<Rightarrow> job \<Rightarrow> bool" where
  "handler_of conn j \<longleftrightarrow> (case j of Reporting c _ _ \<Rightarrow> c = conn | Streaming c _ \<Rightarrow> c = conn | _ \<Rightarrow> False)"

definition reads :: "broker \<Rightarrow> device_conn \<Rightarrow> bool" where
  "reads b conn \<longleftrightarrow> conn \<notin> set (bk_stopped b) \<and> \<not> (\<exists>j \<in> set (bk_waiting b). handler_of conn j)"

fun run_job :: "job \<Rightarrow> broker \<Rightarrow> broker" where
  "run_job (Open i p timeout) b = suspend (Opening i timeout) (put_out (Emits i ''tool_proposed'' p) b)"
| "run_job (Expire i timeout) b = suspend (Sleeping i (bk_clock b + timeout)) b"
| "run_job (Announce i) b = suspend (Announcing i) (put_out (Emits i ''run_event'' (finished_event (call_at b i))) b)"
| "run_job _ b = b"

text \<open>Only a sleep has to last; \<open>None\<close> is an await that cannot end yet.\<close>

fun resume_job :: "broker_settings \<Rightarrow> job \<Rightarrow> bool \<Rightarrow> device_conn option \<Rightarrow> broker \<Rightarrow> broker option" where
  "resume_job cf (Opening i timeout) went found b = Some (opened_call i timeout went b)"
| "resume_job cf (Sleeping i until) went found b = (if until \<le> bk_clock b then Some (finish cf i Timed_out bare b) else None)"
| "resume_job cf (Announcing i) went found b = Some (announced i went found b)"
| "resume_job cf (Sending_error i) went found b = Some (resolve i b)"
| "resume_job cf (Reporting conn i denied) went found b =
    (let b1 = (if went then b else bump ''callback_failed'' b) in Some (if denied then finish cf i Denied bare b1 else b1))"
| "resume_job cf (Streaming conn i) went found b = Some (if went then b else bump ''callback_failed'' b)"
| "resume_job cf _ went found b = None"

fun step :: "broker_settings \<Rightarrow> action \<Rightarrow> broker \<Rightarrow> broker option" where
  "step cf (Propose pr found) b = Some (snd (propose cf pr found b))"
| "step cf Run_task b =
    (case bk_ready b of [] \<Rightarrow> None | j # js \<Rightarrow> Some (run_job j (b\<lparr>bk_ready := js\<rparr>)))"
| "step cf (Resume j went found) b =
    (if j \<in> set (bk_waiting b) then resume_job cf j went found (b\<lparr>bk_waiting := remove1 j (bk_waiting b)\<rparr>) else None)"
| "step cf (Tool_result conn m) b = (if reads b conn then Some (handle_tool_result cf conn m b) else None)"
| "step cf (Approval conn m) b = (if reads b conn then Some (handle_approval cf conn m b) else None)"
| "step cf (Tool_stream conn m) b = (if reads b conn then Some (handle_tool_stream cf conn m b) else None)"
| "step cf (Reader_stops conn) b =
    Some (b\<lparr>bk_stopped := conn # bk_stopped b, bk_waiting := filter (\<lambda>j. \<not> handler_of conn j) (bk_waiting b)\<rparr>)"
| "step cf (Cancel_run run_id) b = Some (cancel_all cf run_id b)"
| "step cf (Run_disconnects conn run_id) b = Some (on_run_disconnect cf conn run_id b)"
| "step cf (Connection_closes conn) b = Some (on_connection_closed cf conn b)"
| "step cf (Forget_run run_id) b = Some (snd (forget_run run_id b))"
| "step cf (Time_passes d) b = Some (b\<lparr>bk_clock := bk_clock b + d\<rparr>)"

inductive reachable_broker :: "broker_settings \<Rightarrow> broker \<Rightarrow> bool" for cf where
  start: "new_broker cf now = Some b \<Longrightarrow> reachable_broker cf b"
| step: "reachable_broker cf b \<Longrightarrow> step cf a b = Some b' \<Longrightarrow> reachable_broker cf b'"

fun run_actions :: "broker_settings \<Rightarrow> action list \<Rightarrow> broker \<Rightarrow> broker option" where
  "run_actions cf [] b = Some b"
| "run_actions cf (a # as) b = (case step cf a b of None \<Rightarrow> None | Some b' \<Rightarrow> run_actions cf as b')"

end
