(* ===== verification/BrokerLife.thy ===== *)
theory BrokerLife
  imports Broker
begin

text \<open>
  The life of one call: what the tasks, the emissions and the future of a call look like at every moment, and
  that every step of the broker is a step of that life or leaves it alone.
\<close>

section \<open>The view of a call\<close>

fun about :: "nat \<Rightarrow> job \<Rightarrow> bool" where
  "about i (Open k p t) = (k = i)"
| "about i (Expire k t) = (k = i)"
| "about i (Announce k) = (k = i)"
| "about i (Opening k t) = (k = i)"
| "about i (Sleeping k u) = (k = i)"
| "about i (Announcing k) = (k = i)"
| "about i (Sending_error k) = (k = i)"
| "about i _ = False"

fun emission :: "nat \<Rightarrow> sent \<Rightarrow> bool" where
  "emission i (Emits k t p) = (k = i)"
| "emission i _ = False"

type_synonym essence = "bool \<times> status option \<times> nat option \<times> outcome option \<times> answer"

definition essence_of :: "tool_call \<Rightarrow> essence" where
  "essence_of c = (cl_finished c, cl_finished_by c, cl_finished_at c, cl_outcome c, cl_done c)"

type_synonym view = "essence \<times> job list \<times> job list \<times> sent list"

definition view_of :: "broker \<Rightarrow> nat \<Rightarrow> view" where
  "view_of b i = (essence_of (call_at b i), filter (about i) (bk_ready b), filter (about i) (bk_waiting b), filter (emission i) (bk_outputs b))"

text \<open>What never changes of a call.\<close>

definition identity_of :: "tool_call \<Rightarrow> string \<times> string \<times> string \<times> string \<times> string \<times> string \<times> device_conn \<times> nat" where
  "identity_of c = (cl_run_id c, cl_call_id c, cl_user_id c, cl_device_key c, cl_device_id c, cl_tool c, cl_conn c, cl_started c)"

section \<open>The steps of a life\<close>

definition flagged :: "outcome \<Rightarrow> outcome" where
  "flagged oc = oc\<lparr>oc_finish_event_failed := True\<rparr>"

definition finish_notice :: "string \<Rightarrow> string \<Rightarrow> outcome \<Rightarrow> json" where
  "finish_notice call_id tool oc =
    JObj [(''type'', JStr ''tool_finished''), (''call_id'', JStr call_id), (''tool'', JStr tool),
      (''status'', JStr (status_name (oc_status oc))), (''duration_ms'', JInt (int (oc_duration_ms oc)))]"

inductive life_step :: "string \<Rightarrow> string \<Rightarrow> nat \<Rightarrow> view \<Rightarrow> view \<Rightarrow> bool" for call_id tool i where
  stay: "life_step call_id tool i v v"
| ask: "life_step call_id tool i (es, Open i p t # rs, ws, em) (es, rs, ws @ [Opening i t], em @ [Emits i ''tool_proposed'' p])"
| start_timer: "life_step call_id tool i (es, Expire i t # rs, ws, em) (es, rs, ws @ [Sleeping i u], em)"
| tell: "life_step call_id tool i ((True, Some st, at, Some oc, d), Announce i # rs, ws, em)
    ((True, Some st, at, Some oc, d), rs, ws @ [Announcing i], em @ [Emits i ''run_event'' (finish_notice call_id tool oc)])"
| asked: "Opening i t \<in> set ws \<Longrightarrow>
    life_step call_id tool i ((False, rest), rs, ws, em) ((False, rest), rs @ [Expire i t], remove1 (Opening i t) ws, em)"
| asked_late: "Opening i t \<in> set ws \<Longrightarrow> life_step call_id tool i ((True, rest), rs, ws, em) ((True, rest), rs, remove1 (Opening i t) ws, em)"
| drop: "Opening i t \<in> set ws \<Longrightarrow>
    life_step call_id tool i ((False, by, at, oc, Pending), rs, ws, em) ((True, by, at, oc, Not_proposed), rs, remove1 (Opening i t) ws, em)"
| finish: "oc_status oc = st \<Longrightarrow> oc_call_id oc = call_id \<Longrightarrow> oc_tool oc = tool \<Longrightarrow> \<not> oc_finish_event_failed oc \<Longrightarrow>
    life_step call_id tool i ((False, by, at, oc', d), rs, ws, em)
      ((True, Some st, Some now, Some oc, d), filter (\<lambda>j. \<not> timer_of i j) rs @ [Announce i], filter (\<lambda>j. \<not> timer_of i j) ws, em)"
| told: "Announcing i \<in> set ws \<Longrightarrow> oc' = oc \<or> oc' = flagged oc \<Longrightarrow>
    life_step call_id tool i ((True, Some st, at, Some oc, Pending), rs, ws, em)
      ((True, Some st, at, Some oc', Answered oc'), rs, remove1 (Announcing i) ws, em)"
| told_timeout: "Announcing i \<in> set ws \<Longrightarrow> oc' = oc \<or> oc' = flagged oc \<Longrightarrow>
    life_step call_id tool i ((True, Some Timed_out, at, Some oc, d), rs, ws, em)
      ((True, Some Timed_out, at, Some oc', d), rs, remove1 (Announcing i) ws @ [Sending_error i], em)"
| error_sent: "Sending_error i \<in> set ws \<Longrightarrow>
    life_step call_id tool i ((True, by, at, Some oc, Pending), rs, ws, em)
      ((True, by, at, Some oc, Answered oc), rs, remove1 (Sending_error i) ws, em)"

section \<open>The stages of a life\<close>

inductive alive :: "string \<Rightarrow> string \<Rightarrow> nat \<Rightarrow> view \<Rightarrow> bool" for call_id tool i where
  unsent: "alive call_id tool i ((False, None, None, None, Pending), [Open i p t], [], [])"
| asking: "alive call_id tool i ((False, None, None, None, Pending), [], [Opening i t], [Emits i ''tool_proposed'' p])"
| timing: "alive call_id tool i ((False, None, None, None, Pending), [Expire i t], [], [Emits i ''tool_proposed'' p])"
| asleep: "alive call_id tool i ((False, None, None, None, Pending), [], [Sleeping i u], [Emits i ''tool_proposed'' p])"
| dropped: "alive call_id tool i ((True, None, None, None, Not_proposed), [], [], [Emits i ''tool_proposed'' p])"
| ended_unsent: "oc_status oc = st \<Longrightarrow> oc_call_id oc = call_id \<Longrightarrow> oc_tool oc = tool \<Longrightarrow> \<not> oc_finish_event_failed oc \<Longrightarrow>
    alive call_id tool i ((True, Some st, Some at, Some oc, Pending), [Open i p t, Announce i], [], [])"
| ended: "oc_status oc = st \<Longrightarrow> oc_call_id oc = call_id \<Longrightarrow> oc_tool oc = tool \<Longrightarrow> \<not> oc_finish_event_failed oc \<Longrightarrow>
    ws = [] \<or> ws = [Opening i t] \<Longrightarrow>
    alive call_id tool i ((True, Some st, Some at, Some oc, Pending), [Announce i], ws, [Emits i ''tool_proposed'' p])"
| telling: "oc_status oc = st \<Longrightarrow> oc_call_id oc = call_id \<Longrightarrow> oc_tool oc = tool \<Longrightarrow> \<not> oc_finish_event_failed oc \<Longrightarrow>
    ws = [Announcing i] \<or> ws = [Opening i t, Announcing i] \<Longrightarrow> n = finish_notice call_id tool oc \<Longrightarrow>
    alive call_id tool i ((True, Some st, Some at, Some oc, Pending), [], ws, [Emits i ''tool_proposed'' p, Emits i ''run_event'' n])"
| warning: "oc_status oc = Timed_out \<Longrightarrow> oc_call_id oc = call_id \<Longrightarrow> oc_tool oc = tool \<Longrightarrow>
    ws = [Sending_error i] \<or> ws = [Opening i t, Sending_error i] \<Longrightarrow> n = finish_notice call_id tool oc \<Longrightarrow>
    alive call_id tool i ((True, Some Timed_out, Some at, Some oc, Pending), [], ws,
      [Emits i ''tool_proposed'' p, Emits i ''run_event'' n])"
| over: "oc_status oc = st \<Longrightarrow> oc_call_id oc = call_id \<Longrightarrow> oc_tool oc = tool \<Longrightarrow> ws = [] \<or> ws = [Opening i t] \<Longrightarrow>
    n = finish_notice call_id tool oc \<Longrightarrow>
    alive call_id tool i ((True, Some st, Some at, Some oc, Answered oc), [], ws,
      [Emits i ''tool_proposed'' p, Emits i ''run_event'' n])"

inductive_cases life_stepE: "life_step call_id tool i v v'"
inductive_cases aliveE: "alive call_id tool i v"

lemma flagged_simps [simp]:
  "oc_status (flagged oc) = oc_status oc" "oc_call_id (flagged oc) = oc_call_id oc" "oc_tool (flagged oc) = oc_tool oc"
  "finish_notice call_id tool (flagged oc) = finish_notice call_id tool oc"
  by (simp_all add: flagged_def finish_notice_def)

lemma alive_step: "alive call_id tool i v \<Longrightarrow> life_step call_id tool i v v' \<Longrightarrow> alive call_id tool i v'"
  by (erule alive.cases; erule life_step.cases) (auto simp: timer_of_def intro: alive.intros)

section \<open>What the operations leave alone\<close>

lemma keep_calls [simp]:
  "bk_calls (bump k b) = bk_calls b" "bk_calls (spawn j b) = bk_calls b" "bk_calls (suspend j b) = bk_calls b"
  "bk_calls (put_out x b) = bk_calls b" "bk_calls (trim cf r b) = bk_calls b" "bk_calls (sweep cf b) = bk_calls b"
  "bk_calls (cancel_timer i b) = bk_calls b" "bk_calls (snd (forget_run r b)) = bk_calls b"
  by (simp_all add: bump_def spawn_def suspend_def put_out_def trim_def sweep_def cancel_timer_def forget_run_def Let_def split: option.split)

lemma keep_call_at [simp]:
  "call_at (bump k b) = call_at b" "call_at (spawn j b) = call_at b" "call_at (suspend j b) = call_at b"
  "call_at (put_out x b) = call_at b" "call_at (trim cf r b) = call_at b" "call_at (sweep cf b) = call_at b"
  "call_at (cancel_timer i b) = call_at b" "call_at (snd (forget_run r b)) = call_at b"
  "call_at (b\<lparr>bk_ready := js\<rparr>) = call_at b" "call_at (b\<lparr>bk_waiting := ws\<rparr>) = call_at b" "call_at (b\<lparr>bk_clock := t\<rparr>) = call_at b"
  "call_at (b\<lparr>bk_stopped := cs\<rparr>) = call_at b" "call_at (b\<lparr>bk_runs := rs\<rparr>) = call_at b"
  by (simp_all add: call_at_def fun_eq_iff)

lemma keep_jobs [simp]:
  "bk_ready (bump k b) = bk_ready b" "bk_waiting (bump k b) = bk_waiting b" "bk_outputs (bump k b) = bk_outputs b"
  "bk_ready (suspend j b) = bk_ready b" "bk_waiting (suspend j b) = bk_waiting b @ [j]" "bk_outputs (suspend j b) = bk_outputs b"
  "bk_ready (spawn j b) = bk_ready b @ [j]" "bk_waiting (spawn j b) = bk_waiting b" "bk_outputs (spawn j b) = bk_outputs b"
  "bk_ready (put_out x b) = bk_ready b" "bk_waiting (put_out x b) = bk_waiting b" "bk_outputs (put_out x b) = bk_outputs b @ [x]"
  "bk_ready (trim cf r b) = bk_ready b" "bk_waiting (trim cf r b) = bk_waiting b" "bk_outputs (trim cf r b) = bk_outputs b"
  "bk_ready (sweep cf b) = bk_ready b" "bk_waiting (sweep cf b) = bk_waiting b" "bk_outputs (sweep cf b) = bk_outputs b"
  "bk_ready (snd (forget_run r b)) = bk_ready b" "bk_waiting (snd (forget_run r b)) = bk_waiting b"
  "bk_outputs (snd (forget_run r b)) = bk_outputs b" "bk_outputs (cancel_timer i b) = bk_outputs b"
  "bk_ready (cancel_timer i b) = filter (\<lambda>j. \<not> timer_of i j) (bk_ready b)"
  "bk_waiting (cancel_timer i b) = filter (\<lambda>j. \<not> timer_of i j) (bk_waiting b)"
  by (simp_all add: bump_def spawn_def suspend_def put_out_def trim_def sweep_def cancel_timer_def forget_run_def Let_def split: option.split)

lemma keep_runs [simp]:
  "bk_runs (bump k b) = bk_runs b" "bk_runs (spawn j b) = bk_runs b" "bk_runs (suspend j b) = bk_runs b"
  "bk_runs (put_out x b) = bk_runs b" "bk_runs (cancel_timer i b) = bk_runs b"
  by (simp_all add: bump_def spawn_def suspend_def put_out_def cancel_timer_def)

lemma keep_clock [simp]:
  "bk_clock (bump k b) = bk_clock b" "bk_clock (spawn j b) = bk_clock b" "bk_clock (suspend j b) = bk_clock b"
  "bk_clock (put_out x b) = bk_clock b" "bk_clock (trim cf r b) = bk_clock b" "bk_clock (sweep cf b) = bk_clock b"
  "bk_clock (cancel_timer i b) = bk_clock b" "bk_clock (change_call i f b) = bk_clock b"
  by (simp_all add: bump_def spawn_def suspend_def put_out_def trim_def sweep_def cancel_timer_def change_call_def Let_def split: option.split)

lemma change_call_simps [simp]:
  "length (bk_calls (change_call i f b)) = length (bk_calls b)" "bk_ready (change_call i f b) = bk_ready b"
  "bk_waiting (change_call i f b) = bk_waiting b" "bk_outputs (change_call i f b) = bk_outputs b"
  "bk_runs (change_call i f b) = bk_runs b"
  by (simp_all add: change_call_def)

lemma call_at_change: "i < length (bk_calls b) \<Longrightarrow> call_at (change_call k f b) i = (if i = k then f (call_at b i) else call_at b i)"
  by (simp add: change_call_def call_at_def nth_list_update)

lemma length_finish [simp]: "length (bk_calls (finish cf i st en b)) = length (bk_calls b)"
  by (simp add: finish_def close_call_def Let_def)

lemma length_close_all [simp]: "length (bk_calls (close_all cf is st b)) = length (bk_calls b)"
  unfolding close_all_def by (induction "is" arbitrary: b) simp_all

lemma finish_finished: "cl_finished (call_at b i) \<Longrightarrow> finish cf i st en b = b"
  by (simp add: finish_def close_call_def)

text \<open>Two brokers in which call \<open>i\<close> is the same but for its counters.\<close>

definition same_call :: "nat \<Rightarrow> broker \<Rightarrow> broker \<Rightarrow> bool" where
  "same_call i b b' \<longleftrightarrow> view_of b' i = view_of b i \<and> identity_of (call_at b' i) = identity_of (call_at b i)"

lemma same_callI [intro]:
  "bk_ready b' = bk_ready b \<Longrightarrow> bk_waiting b' = bk_waiting b \<Longrightarrow> filter (emission i) (bk_outputs b') = filter (emission i) (bk_outputs b)
    \<Longrightarrow> essence_of (call_at b' i) = essence_of (call_at b i) \<Longrightarrow> identity_of (call_at b' i) = identity_of (call_at b i) \<Longrightarrow> same_call i b b'"
  by (simp add: same_call_def view_of_def)

lemma same_call_refl [simp]: "same_call i b b"
  by (simp add: same_call_def)

lemma same_call_trans [trans]: "same_call i b b1 \<Longrightarrow> same_call i b1 b2 \<Longrightarrow> same_call i b b2"
  by (simp add: same_call_def)

lemma same_bump [simp]: "same_call i b (bump k b)" "same_call i b (sweep cf b)" "same_call i b (trim cf r b)" "same_call i b (snd (forget_run r b))"
  by (intro same_callI; simp)+

lemma same_out: "\<not> emission i x \<Longrightarrow> same_call i b (put_out x b)"
  by (intro same_callI; simp)

lemma same_change:
  "i < length (bk_calls b) \<Longrightarrow> (\<And>c. essence_of (f c) = essence_of c \<and> identity_of (f c) = identity_of c) \<Longrightarrow> same_call i b (change_call k f b)"
  by (intro same_callI) (simp_all add: call_at_change)

text \<open>A step of a life between two brokers.\<close>

definition lives :: "nat \<Rightarrow> broker \<Rightarrow> broker \<Rightarrow> bool" where
  "lives i b b' \<longleftrightarrow> length (bk_calls b) \<le> length (bk_calls b') \<and> identity_of (call_at b' i) = identity_of (call_at b i)
    \<and> life_step (cl_call_id (call_at b i)) (cl_tool (call_at b i)) i (view_of b i) (view_of b' i)"

lemma identity_parts: "identity_of c = identity_of c' \<Longrightarrow> cl_call_id c = cl_call_id c' \<and> cl_tool c = cl_tool c' \<and> cl_conn c = cl_conn c'
    \<and> cl_user_id c = cl_user_id c' \<and> cl_device_id c = cl_device_id c' \<and> cl_run_id c = cl_run_id c'"
  by (simp add: identity_of_def)

lemma lives_same: "same_call i b b' \<Longrightarrow> length (bk_calls b) \<le> length (bk_calls b') \<Longrightarrow> lives i b b'"
  by (simp add: lives_def same_call_def life_step.stay)

lemma lives_after_same: "same_call i b b1 \<Longrightarrow> length (bk_calls b1) = length (bk_calls b) \<Longrightarrow> lives i b1 b2 \<Longrightarrow> lives i b b2"
  by (auto simp: lives_def same_call_def dest: identity_parts)

lemma lives_before_same: "lives i b b1 \<Longrightarrow> same_call i b1 b2 \<Longrightarrow> length (bk_calls b1) \<le> length (bk_calls b2) \<Longrightarrow> lives i b b2"
  by (auto simp: lives_def same_call_def)

lemma same_finish_other: "i < length (bk_calls b) \<Longrightarrow> i \<noteq> k \<Longrightarrow> same_call i b (finish cf k st en b)"
proof -
  assume i: "i < length (bk_calls b)" "i \<noteq> k"
  have t: "filter (about i) (filter (\<lambda>j. \<not> timer_of k j) js) = filter (about i) js" for js
    using i(2) by (induction js) (auto simp: timer_of_def split: job.splits)
  show ?thesis
    using i by (auto simp: finish_def close_call_def Let_def same_call_def view_of_def call_at_change t simp del: filter_filter)
qed

lemma lives_finish: "i < length (bk_calls b) \<Longrightarrow> lives i b (finish cf k st en b)"
proof (cases "i = k \<and> \<not> cl_finished (call_at b i)")
  case False
  assume "i < length (bk_calls b)"
  then have "same_call i b (finish cf k st en b)" using False by (cases "i = k") (auto simp: finish_finished same_finish_other)
  then show ?thesis by (simp add: lives_same)
next
  case True
  assume i: "i < length (bk_calls b)"
  have k: "k = i" and open_call: "\<not> cl_finished (call_at b i)" using True by auto
  let ?o = "outcome_of cf (cl_call_id (call_at b i)) (cl_tool (call_at b i)) st en (bk_clock b - cl_started (call_at b i))"
  have t: "filter (about i) (filter (\<lambda>j. \<not> timer_of i j) js) = filter (\<lambda>j. \<not> timer_of i j) (filter (about i) js)" for js
    by (simp add: conj_commute)
  have v: "view_of b i = ((False, cl_finished_by (call_at b i), cl_finished_at (call_at b i), cl_outcome (call_at b i), cl_done (call_at b i)),
      filter (about i) (bk_ready b), filter (about i) (bk_waiting b), filter (emission i) (bk_outputs b))"
    using open_call by (simp add: view_of_def essence_of_def)
  have v': "view_of (finish cf k st en b) i = ((True, Some st, Some (bk_clock b), Some ?o, cl_done (call_at b i)),
      filter (\<lambda>j. \<not> timer_of i j) (filter (about i) (bk_ready b)) @ [Announce i],
      filter (\<lambda>j. \<not> timer_of i j) (filter (about i) (bk_waiting b)), filter (emission i) (bk_outputs b))"
    using i open_call unfolding k by (simp add: finish_def close_call_def Let_def view_of_def essence_of_def call_at_change t del: filter_filter)
  have "identity_of (call_at (finish cf k st en b) i) = identity_of (call_at b i)"
    using i open_call unfolding k by (simp add: finish_def close_call_def Let_def call_at_change identity_of_def)
  moreover have "life_step (cl_call_id (call_at b i)) (cl_tool (call_at b i)) i (view_of b i) (view_of (finish cf k st en b) i)"
    unfolding v v' by (rule life_step.finish) (simp_all add: outcome_of_def)
  ultimately show ?thesis by (simp add: lives_def)
qed

lemma lives_trans_close: "i < length (bk_calls b) \<Longrightarrow> lives i b (close_all cf is st b)"
proof (induction "is" arbitrary: b)
  case Nil
  then show ?case by (simp add: close_all_def lives_same)
next
  case (Cons k ks)
  have fold: "close_all cf (k # ks) st b = close_all cf ks st (finish cf k st bare b)" by (simp add: close_all_def)
  show ?case
  proof (cases "i = k \<and> \<not> cl_finished (call_at b i)")
    case False
    then have "same_call i b (finish cf k st bare b)"
      using Cons.prems by (cases "i = k") (auto simp: finish_finished same_finish_other)
    then show ?thesis unfolding fold by (rule lives_after_same) (simp_all add: Cons)
  next
    case True
    have rest: "same_call i b1 (close_all cf ks st b1)" if "cl_finished (call_at b1 i)" "i < length (bk_calls b1)" for b1
      using that
    proof (induction ks arbitrary: b1)
      case Nil
      then show ?case by (simp add: close_all_def)
    next
      case (Cons k ks)
      have s: "same_call i b1 (finish cf k st bare b1)"
        using Cons.prems by (cases "i = k") (auto simp: finish_finished same_finish_other)
      then have "cl_finished (call_at (finish cf k st bare b1) i)"
        using Cons.prems by (simp add: same_call_def view_of_def essence_of_def)
      from same_call_trans [OF s Cons.IH [OF this]] show ?case using Cons.prems(2) by (simp add: close_all_def)
    qed
    have "cl_finished (call_at (finish cf k st bare b) i)"
      using True Cons.prems by (auto simp: finish_def close_call_def Let_def call_at_change)
    from lives_before_same [OF lives_finish [OF Cons.prems] rest [OF this]] show ?thesis
      unfolding fold using Cons.prems by simp
  qed
qed

section \<open>Every step is a step of the life of each call\<close>

lemma same_counters:
  "i < length (bk_calls b) \<Longrightarrow> same_call i b (count_ignored k late b)" "i < length (bk_calls b) \<Longrightarrow> same_call i b (late_approval k b)"
proof -
  have "same_call i b (bump s (change_call k f b))"
    if "i < length (bk_calls b)" "\<And>c. essence_of (f c) = essence_of c \<and> identity_of (f c) = identity_of c" for s f
    by (rule same_call_trans [OF same_change [of i b f k] same_bump(1)]) (use that in simp_all)
  then show "i < length (bk_calls b) \<Longrightarrow> same_call i b (count_ignored k late b)" "i < length (bk_calls b) \<Longrightarrow> same_call i b (late_approval k b)"
    by (simp_all add: count_ignored_def late_approval_def essence_of_def identity_of_def)
qed

lemma length_counters [simp]:
  "length (bk_calls (count_ignored k late b)) = length (bk_calls b)" "length (bk_calls (late_approval k b)) = length (bk_calls b)"
  "length (bk_calls (reject conn m b)) = length (bk_calls b)" "length (bk_calls (notify conn k d s b)) = length (bk_calls b)"
  by (simp_all add: count_ignored_def late_approval_def reject_def notify_def)

lemma same_messages: "same_call i b (reject conn m b)" "same_call i b (notify conn k decision scope b)"
  by (auto simp: reject_def notify_def same_call_def view_of_def)

lemma lives_counters:
  "i < length (bk_calls b) \<Longrightarrow> lives i b (count_ignored k late b)" "i < length (bk_calls b) \<Longrightarrow> lives i b (late_approval k b)"
  "lives i b (reject conn m b)" "lives i b (notify conn k decision scope b)" "lives i b (bump x b)" "lives i b b"
  by (intro lives_same same_counters same_messages same_bump same_call_refl; simp)+

lemmas living = lives_finish lives_trans_close lives_counters same_counters same_bump

lemma lives_finish_after: "i < length (bk_calls b) \<Longrightarrow> same_call i b b1 \<Longrightarrow> length (bk_calls b1) = length (bk_calls b) \<Longrightarrow> lives i b (finish cf k st en b1)"
  by (rule lives_after_same [of i b b1]) (simp_all add: lives_finish)

lemma lives_tool_result: "i < length (bk_calls b) \<Longrightarrow> lives i b (handle_tool_result cf conn m b)"
  by (auto simp: handle_tool_result_def Let_def split: option.split prod.split intro!: living lives_finish_after)

lemma lives_approval: "i < length (bk_calls b) \<Longrightarrow> lives i b (handle_approval cf conn m b)"
proof -
  assume i: "i < length (bk_calls b)"
  have s: "same_call i b (change_call k (\<lambda>c. c\<lparr>cl_decision := d\<rparr>) b)" for k d
    by (rule same_change [OF i]) (simp add: essence_of_def identity_of_def)
  have "same_call i b (notify conn k x y (change_call k (\<lambda>c. c\<lparr>cl_decision := d\<rparr>) b))" for k d x y
    by (rule same_call_trans [OF s same_messages(2)])
  then show ?thesis
    using i s by (auto simp: handle_approval_def Let_def split: option.split intro!: living lives_finish_after lives_same [where b' = "change_call _ _ _"] lives_same [where b' = "notify _ _ _ _ (change_call _ _ _)"])
qed

lemma lives_tool_stream: "i < length (bk_calls b) \<Longrightarrow> lives i b (handle_tool_stream cf conn m b)"
proof -
  assume i: "i < length (bk_calls b)"
  have s: "same_call i b (bump x (change_call k (\<lambda>c. c\<lparr>cl_stream_bytes := cl_stream_bytes c + n\<rparr>) b))" for x k n
    by (rule same_call_trans [OF same_change [OF i] same_bump(1)]) (simp add: essence_of_def identity_of_def)
  have "same_call i b1 (suspend (Streaming conn k) (put_out (Streams k y z) b1))" for k y z b1
    by (auto simp: same_call_def view_of_def)
  from same_call_trans [OF s this] show ?thesis
    using s by (auto simp: handle_tool_stream_def Let_def split: option.split intro!: lives_counters lives_same)
qed

lemma view_parts:
  "view_of b i = (es, rs, ws, em) \<longleftrightarrow> essence_of (call_at b i) = es \<and> filter (about i) (bk_ready b) = rs
    \<and> filter (about i) (bk_waiting b) = ws \<and> filter (emission i) (bk_outputs b) = em"
  by (auto simp: view_of_def)

lemma filter_remove1: "filter P (remove1 x xs) = (if P x then remove1 x (filter P xs) else filter P xs)"
  by (induction xs) auto

text \<open>The next task: of another call, or the first of this one.\<close>

lemma lives_run:
  assumes "bk_ready b = j # js" "i < length (bk_calls b)" "alive call_id tool i (view_of b i)"
    "call_id = cl_call_id (call_at b i)" "tool = cl_tool (call_at b i)"
  shows "lives i b (run_job j (b\<lparr>bk_ready := js\<rparr>))"
proof (cases "about i j")
  case False
  have "\<not> emission i (Emits k t p)" if "j = Open k p' t' \<or> j = Announce k" for k t p p' t'
    using False that by auto
  then have "same_call i b (run_job j (b\<lparr>bk_ready := js\<rparr>))"
    using False assms(1) by (cases j) (auto simp: same_call_def view_of_def)
  then show ?thesis by (rule lives_same) (cases j; simp)
next
  case True
  have v: "view_of b i = (essence_of (call_at b i), j # filter (about i) js, filter (about i) (bk_waiting b), filter (emission i) (bk_outputs b))"
    using assms(1) True by (simp add: view_of_def)
  have keep: "call_at (run_job j (b\<lparr>bk_ready := js\<rparr>)) i = call_at b i" "length (bk_calls (run_job j (b\<lparr>bk_ready := js\<rparr>))) = length (bk_calls b)"
    by (cases j; simp)+
  have "life_step call_id tool i (view_of b i) (view_of (run_job j (b\<lparr>bk_ready := js\<rparr>)) i)"
  proof (cases j)
    case (Open k p t)
    then show ?thesis using True unfolding v by (simp add: view_of_def life_step.ask)
  next
    case (Expire k t)
    then show ?thesis using True unfolding v by (simp add: view_of_def life_step.start_timer)
  next
    case (Announce k)
    then have k: "k = i" using True by simp
    from assms(3) obtain st at oc d where es: "essence_of (call_at b i) = (True, Some st, at, Some oc, d)"
      unfolding v Announce by (elim aliveE) auto
    then have "cl_outcome (call_at b i) = Some oc" by (simp add: essence_of_def)
    then have "finished_event (call_at b i) = finish_notice call_id tool oc"
      by (simp add: finished_event_def finish_notice_def assms(4,5))
    then show ?thesis unfolding v es using es by (simp add: Announce k view_of_def life_step.tell)
  qed (use True assms(3) v in \<open>auto elim: aliveE\<close>)
  then show ?thesis using keep by (simp add: lives_def assms(4,5))
qed

text \<open>The end of an await: of another call, or of this one.\<close>

definition taken :: "job \<Rightarrow> broker \<Rightarrow> broker" where
  "taken j b = b\<lparr>bk_waiting := remove1 j (bk_waiting b)\<rparr>"

lemma taken_simps [simp]:
  "bk_calls (taken j b) = bk_calls b" "call_at (taken j b) = call_at b" "bk_ready (taken j b) = bk_ready b"
  "bk_waiting (taken j b) = remove1 j (bk_waiting b)" "bk_outputs (taken j b) = bk_outputs b" "bk_clock (taken j b) = bk_clock b"
  "bk_runs (taken j b) = bk_runs b"
  by (simp_all add: taken_def)

lemma same_taken: "\<not> about i j \<Longrightarrow> same_call i b (taken j b)"
  by (simp add: same_call_def view_of_def filter_remove1)

lemma call_runs_simps [simp]:
  "bk_calls (b\<lparr>bk_runs := rs\<rparr>) = bk_calls b" "bk_ready (b\<lparr>bk_runs := rs\<rparr>) = bk_ready b" "view_of (b\<lparr>bk_runs := rs\<rparr>) i = view_of b i"
  by (simp_all add: view_of_def)

lemma lives_abort:
  assumes "i < length (bk_calls b)" "Opening k t \<in> set (bk_waiting b)"
    "alive (cl_call_id (call_at b i)) (cl_tool (call_at b i)) i (view_of b i)"
  shows "lives i b (abort k (taken (Opening k t) b))"
proof -
  let ?b1 = "bump ''propose_failed'' (taken (Opening k t) b)"
  let ?b2 = "change_call k (\<lambda>c. c\<lparr>cl_finished := True, cl_done := (if cl_done c = Pending then Not_proposed else cl_done c)\<rparr>) ?b1"
  have fin: "lives i b ?b1" if ended: "cl_finished (call_at b k)"
  proof (cases "i = k")
    case True
    obtain st at oc d where es: "essence_of (call_at b i) = (True, st, at, oc, d)" using ended True by (simp add: essence_of_def)
    have "Opening i t \<in> set (filter (about i) (bk_waiting b))" using assms(2) True by simp
    from life_step.asked_late [OF this]
    have "life_step (cl_call_id (call_at b i)) (cl_tool (call_at b i)) i (view_of b i) (view_of ?b1 i)"
      unfolding True [symmetric] by (simp add: view_of_def es filter_remove1)
    then show ?thesis by (simp add: lives_def)
  next
    case False
    then show ?thesis by (intro lives_same same_call_trans [OF same_taken same_bump(1)]; simp)
  qed
  have "lives i b ?b2" if "\<not> cl_finished (call_at b k)"
  proof (cases "i = k")
    case True
    have es: "essence_of (call_at b i) = (False, None, None, None, Pending)"
      using assms(3) that True by (elim aliveE) (auto simp: view_parts essence_of_def)
    then have es2: "essence_of (call_at ?b2 i) = (True, None, None, None, Not_proposed)"
      using assms(1) True by (simp add: essence_of_def call_at_change)
    have "life_step (cl_call_id (call_at b i)) (cl_tool (call_at b i)) i (view_of b i) (view_of ?b2 i)"
      using assms(2) True es es2 by (simp add: view_of_def filter_remove1 life_step.drop)
    then show ?thesis using True assms(1) by (simp add: lives_def call_at_change identity_of_def)
  next
    case False
    have "same_call i b ?b1" using False by (intro same_call_trans [OF same_taken same_bump(1)]) simp
    moreover have "same_call i ?b1 ?b2"
      using False assms(1) by (intro same_callI) (simp_all add: call_at_change)
    ultimately show ?thesis by (intro lives_same same_call_trans [of i b ?b1 ?b2]) simp_all
  qed
  moreover have "lives i b (?b2\<lparr>bk_runs := rs\<rparr>)" if "lives i b ?b2" for rs
    using that by (simp add: lives_def)
  ultimately show ?thesis using fin by (simp add: abort_def Let_def)
qed

lemma resolve_essence:
  "i < length (bk_calls b) \<Longrightarrow> essence_of (call_at b i) = (f, st, at, Some oc, Pending)
    \<Longrightarrow> essence_of (call_at (resolve i b) i) = (f, st, at, Some oc, Answered oc)"
  by (auto simp: resolve_def call_at_change essence_of_def)

lemma resolve_simps [simp]:
  "length (bk_calls (resolve k b)) = length (bk_calls b)" "bk_ready (resolve k b) = bk_ready b" "bk_waiting (resolve k b) = bk_waiting b"
  "bk_outputs (resolve k b) = bk_outputs b" "length (bk_calls (flag_event k b)) = length (bk_calls b)"
  "bk_ready (flag_event k b) = bk_ready b" "bk_waiting (flag_event k b) = bk_waiting b" "bk_outputs (flag_event k b) = bk_outputs b"
  by (simp_all add: resolve_def flag_event_def)

lemma resolve_identity [simp]: "i < length (bk_calls b) \<Longrightarrow> identity_of (call_at (resolve k b) i) = identity_of (call_at b i)"
  by (auto simp: resolve_def call_at_change identity_of_def split: option.split)

lemma flag_event_at:
  "i < length (bk_calls b) \<Longrightarrow> identity_of (call_at (flag_event k b) i) = identity_of (call_at b i)"
  "i < length (bk_calls b) \<Longrightarrow> essence_of (call_at b i) = (f, st, at, Some oc, d) \<Longrightarrow> essence_of (call_at (flag_event i b) i) = (f, st, at, Some (flagged oc), d)"
  by (auto simp: flag_event_def call_at_change identity_of_def essence_of_def flagged_def)

lemma same_resolve: "i < length (bk_calls b) \<Longrightarrow> i \<noteq> k \<Longrightarrow> same_call i b (resolve k b)"
  "i < length (bk_calls b) \<Longrightarrow> i \<noteq> k \<Longrightarrow> same_call i b (flag_event k b)"
  by (auto simp: resolve_def flag_event_def call_at_change same_call_def view_of_def)

lemma alive_announcing:
  "alive call_id tool i (es, rs, ws, em) \<Longrightarrow> Announcing i \<in> set ws \<Longrightarrow> \<exists>st at oc. es = (True, Some st, Some at, Some oc, Pending)"
  by (elim aliveE) auto

lemma alive_sleeping:
  "alive call_id tool i (es, rs, ws, em) \<Longrightarrow> Sleeping i u \<in> set ws \<Longrightarrow> es = (False, None, None, None, Pending)"
  by (elim aliveE) auto

lemma alive_sending_error:
  "alive call_id tool i (es, rs, ws, em) \<Longrightarrow> Sending_error i \<in> set ws \<Longrightarrow> \<exists>st at oc. es = (True, Some st, Some at, Some oc, Pending)"
  by (elim aliveE) auto

lemma lives_announced:
  assumes "i < length (bk_calls b)" "Announcing k \<in> set (bk_waiting b)"
    "alive (cl_call_id (call_at b i)) (cl_tool (call_at b i)) i (view_of b i)"
  shows "lives i b (announced k went found (taken (Announcing k) b))"
proof (cases "i = k")
  case False
  define b1 where "b1 = (if went then taken (Announcing k) b else flag_event k (taken (Announcing k) b))"
  have s1: "same_call i b b1" and len: "length (bk_calls b1) = length (bk_calls b)"
    using False assms(1) by (auto simp: b1_def intro: same_taken same_call_trans [OF same_taken same_resolve(2)])
  have "same_call i b1 (resolve k b1)" using False assms(1) by (simp add: same_resolve len)
  moreover have "same_call i b1 (suspend (Sending_error k) (put_out (Sends_error x y z) b1))" for x y z
    using False by (auto simp: same_call_def view_of_def)
  ultimately show ?thesis
    using len by (auto simp: announced_def b1_def [symmetric] Let_def split: option.split intro!: lives_same intro: same_call_trans [OF s1])
next
  case True
  let ?b1 = "if went then taken (Announcing i) b else flag_event i (taken (Announcing i) b)"
  have w: "Announcing i \<in> set (filter (about i) (bk_waiting b))" using assms(2) True by simp
  obtain st at oc where es: "essence_of (call_at b i) = (True, Some st, Some at, Some oc, Pending)"
    using alive_announcing [OF assms(3) [unfolded view_of_def] w] by blast
  obtain oc' where oc': "oc' = oc \<or> oc' = flagged oc" and es1: "essence_of (call_at ?b1 i) = (True, Some st, Some at, Some oc', Pending)"
    using es flag_event_at(2) [of i "taken (Announcing i) b"] assms(1) by (cases went) auto
  have id1: "identity_of (call_at ?b1 i) = identity_of (call_at b i)" using assms(1) by (simp add: flag_event_at)
  have len: "length (bk_calls ?b1) = length (bk_calls b)" by simp
  have v: "view_of b i = ((True, Some st, Some at, Some oc, Pending), filter (about i) (bk_ready b), filter (about i) (bk_waiting b),
      filter (emission i) (bk_outputs b))" by (simp add: view_of_def es)
  have jobs: "filter (about i) (bk_ready ?b1) = filter (about i) (bk_ready b)" "filter (emission i) (bk_outputs ?b1) = filter (emission i) (bk_outputs b)"
    "filter (about i) (bk_waiting ?b1) = remove1 (Announcing i) (filter (about i) (bk_waiting b))"
    by (simp_all add: filter_remove1)
  have res: "lives i b (resolve i ?b1)"
  proof -
    have "view_of (resolve i ?b1) i = ((True, Some st, Some at, Some oc', Answered oc'), filter (about i) (bk_ready b),
        remove1 (Announcing i) (filter (about i) (bk_waiting b)), filter (emission i) (bk_outputs b))"
      using resolve_essence [OF _ es1] assms(1) len jobs by (simp add: view_of_def)
    then show ?thesis using v life_step.told [OF w oc'] id1 len assms(1) by (simp add: lives_def)
  qed
  have err: "lives i b (suspend (Sending_error i) (put_out (Sends_error x y z) ?b1))" if "st = Timed_out" for x y z
  proof -
    have "view_of (suspend (Sending_error i) (put_out (Sends_error x y z) ?b1)) i = ((True, Some Timed_out, Some at, Some oc', Pending),
        filter (about i) (bk_ready b), remove1 (Announcing i) (filter (about i) (bk_waiting b)) @ [Sending_error i], filter (emission i) (bk_outputs b))"
      using es1 jobs that by (simp add: view_of_def)
    then show ?thesis using v life_step.told_timeout [OF w oc'] id1 len that by (simp add: lives_def)
  qed
  have "cl_finished_by (call_at b i) = Some st" using es by (simp add: essence_of_def)
  then show ?thesis using res err True by (auto simp: announced_def Let_def split: option.split)
qed

lemma lives_error_sent:
  assumes "i < length (bk_calls b)" "Sending_error k \<in> set (bk_waiting b)"
    "alive (cl_call_id (call_at b i)) (cl_tool (call_at b i)) i (view_of b i)"
  shows "lives i b (resolve k (taken (Sending_error k) b))"
proof (cases "i = k")
  case False
  then show ?thesis using assms(1) by (intro lives_same same_call_trans [OF same_taken same_resolve(1)]) simp_all
next
  case True
  have w: "Sending_error i \<in> set (filter (about i) (bk_waiting b))" using assms(2) True by simp
  obtain st at oc where es: "essence_of (call_at b i) = (True, Some st, Some at, Some oc, Pending)"
    using alive_sending_error [OF assms(3) [unfolded view_of_def] w] by blast
  have v: "view_of b i = ((True, Some st, Some at, Some oc, Pending), filter (about i) (bk_ready b), filter (about i) (bk_waiting b),
      filter (emission i) (bk_outputs b))" by (simp add: view_of_def es)
  have "view_of (resolve i (taken (Sending_error i) b)) i = ((True, Some st, Some at, Some oc, Answered oc), filter (about i) (bk_ready b),
      remove1 (Sending_error i) (filter (about i) (bk_waiting b)), filter (emission i) (bk_outputs b))"
    using resolve_essence [of i "taken (Sending_error i) b"] es assms(1) by (simp add: view_of_def filter_remove1)
  then show ?thesis using v life_step.error_sent [OF w] assms(1) True by (simp add: lives_def)
qed

lemma lives_opened:
  assumes "i < length (bk_calls b)" "Opening k t \<in> set (bk_waiting b)"
    "alive (cl_call_id (call_at b i)) (cl_tool (call_at b i)) i (view_of b i)"
  shows "lives i b (opened_call k t went (taken (Opening k t) b))"
proof (cases "i = k \<and> went")
  case False
  have s: "same_call i b (bump x (taken (Opening k t) b))" if "i \<noteq> k" for x
    using that by (intro same_call_trans [OF same_taken same_bump(1)]) simp
  have "same_call i b1 (spawn (Expire k t) b1)" if "i \<noteq> k" for b1
    using that by (auto simp: same_call_def view_of_def)
  from same_call_trans [OF s this] show ?thesis
    using False s lives_abort [OF assms] by (auto simp: opened_call_def Let_def intro!: lives_same)
next
  case True
  then have k: "k = i" and went: went by auto
  have w: "Opening i t \<in> set (filter (about i) (bk_waiting b))" using assms(2) k by simp
  obtain rest where es: "essence_of (call_at b i) = (cl_finished (call_at b i), rest)" by (simp add: essence_of_def)
  let ?b1 = "bump ''proposed'' (taken (Opening i t) b)"
  let ?ws = "remove1 (Opening i t) (filter (about i) (bk_waiting b))"
  show ?thesis
  proof (cases "cl_finished (call_at b i)")
    case True
    have "life_step call_id tool i (view_of b i) (view_of ?b1 i)" for call_id tool
      using life_step.asked_late [OF w] by (simp add: view_of_def es True filter_remove1)
    then show ?thesis using True by (simp add: opened_call_def k went lives_def)
  next
    case False
    have "life_step call_id tool i (view_of b i) (view_of (spawn (Expire i t) ?b1) i)" for call_id tool
      using life_step.asked [OF w] by (simp add: view_of_def es False filter_remove1)
    then show ?thesis using False by (simp add: opened_call_def k went lives_def)
  qed
qed

lemma lives_resume:
  assumes "j \<in> set (bk_waiting b)" "resume_job cf j went found (taken j b) = Some b'" "i < length (bk_calls b)"
    "alive (cl_call_id (call_at b i)) (cl_tool (call_at b i)) i (view_of b i)"
  shows "lives i b b'"
proof (cases j)
  case (Opening k t)
  then show ?thesis using assms lives_opened [of i b k t went] by simp
next
  case (Announcing k)
  then show ?thesis using assms lives_announced [of i b k went found] by simp
next
  case (Sending_error k)
  then show ?thesis using assms lives_error_sent [of i b k] by simp
next
  case (Sleeping k u)
  have b': "b' = finish cf k Timed_out bare (taken j b)" using assms(2) Sleeping by (simp split: if_splits)
  show ?thesis
  proof (cases "i = k")
    case False
    then show ?thesis unfolding b' using assms(3) Sleeping by (intro lives_finish_after same_taken) simp_all
  next
    case True
    have w: "Sleeping i u \<in> set (filter (about i) (bk_waiting b))" using assms(1) True Sleeping by simp
    have "\<not> cl_finished (call_at b i)"
      using alive_sleeping [OF assms(4) [unfolded view_of_def] w] by (simp add: essence_of_def)
    have t: "filter (\<lambda>j. \<not> timer_of i j) (remove1 (Sleeping i u) js) = filter (\<lambda>j. \<not> timer_of i j) js" for js
      by (induction js) (auto simp: timer_of_def)
    have t2: "filter (about i) (filter (\<lambda>j. \<not> timer_of i j) (remove1 (Sleeping i u) js)) = filter (about i) (filter (\<lambda>j. \<not> timer_of i j) js)" for js
      unfolding t ..
    have k: "k = i" using True by simp
    have "same_call i (finish cf i Timed_out bare b) (finish cf i Timed_out bare (taken j b))"
      using \<open>\<not> cl_finished (call_at b i)\<close> assms(3) unfolding Sleeping k
      by (simp add: finish_def close_call_def Let_def same_call_def view_of_def call_at_change t2 del: filter_filter)
    then show ?thesis unfolding b' using lives_before_same [OF lives_finish [OF assms(3)]] assms(3) True by simp
  qed
next
  case (Reporting conn k denied)
  have s: "same_call i b (taken j b)" "same_call i b (bump x (taken j b))" for x
    using Reporting by (auto intro: same_taken same_call_trans [OF same_taken same_bump(1)])
  then show ?thesis using assms(2,3) Reporting by (auto simp: Let_def split: if_splits intro!: lives_finish_after intro: lives_same)
next
  case (Streaming conn k)
  have s: "same_call i b (taken j b)" "same_call i b (bump x (taken j b))" for x
    using Streaming by (auto intro: same_taken same_call_trans [OF same_taken same_bump(1)])
  then show ?thesis using assms(2) Streaming by (auto split: if_splits intro: lives_same)
qed (use assms(2) in simp_all)

section \<open>Addresses\<close>

fun job_call :: "job \<Rightarrow> nat" where
  "job_call (Open k p t) = k"
| "job_call (Expire k t) = k"
| "job_call (Announce k) = k"
| "job_call (Opening k t) = k"
| "job_call (Sleeping k u) = k"
| "job_call (Announcing k) = k"
| "job_call (Sending_error k) = k"
| "job_call (Reporting conn k d) = k"
| "job_call (Streaming conn k) = k"

fun sent_below :: "nat \<Rightarrow> sent \<Rightarrow> bool" where
  "sent_below n (Emits k t p) = (k < n)"
| "sent_below n _ = True"

definition table_below :: "nat \<Rightarrow> (string \<times> (string \<times> nat) list) list \<Rightarrow> bool" where
  "table_below n rs \<longleftrightarrow> (\<forall>r cs c k. (r, cs) \<in> set rs \<longrightarrow> (c, k) \<in> set cs \<longrightarrow> k < n)"

text \<open>Every address is that of a call; this is kept by the operations on calls that exist.\<close>

definition addressed :: "broker \<Rightarrow> bool" where
  "addressed b \<longleftrightarrow> (\<forall>j \<in> set (bk_ready b) \<union> set (bk_waiting b). job_call j < length (bk_calls b))
    \<and> (\<forall>x \<in> set (bk_outputs b). sent_below (length (bk_calls b)) x) \<and> table_below (length (bk_calls b)) (bk_runs b)"

lemma about_call: "about i j \<Longrightarrow> job_call j = i"
  by (cases j) auto

lemma emission_below: "sent_below n x \<Longrightarrow> emission i x \<Longrightarrow> i < n"
  by (cases x) auto

lemma run_calls_set: "(c, k) \<in> set (run_calls b r) \<Longrightarrow> \<exists>cs. (r, cs) \<in> set (bk_runs b) \<and> (c, k) \<in> set cs"
  by (cases "map_of (bk_runs b) r") (auto simp: run_calls_def dest: map_of_SomeD)

lemma table_below_dict_set: "table_below n rs \<Longrightarrow> (\<And>c k. (c, k) \<in> set qs \<Longrightarrow> k < n) \<Longrightarrow> table_below n (dict_set r qs rs)"
  unfolding table_below_def by (blast dest: dict_set_mem)

lemma table_below_filter: "table_below n rs \<Longrightarrow> table_below n (filter P rs)"
  by (auto simp: table_below_def)

lemma run_calls_below: "table_below n (bk_runs b) \<Longrightarrow> (c, k) \<in> set (run_calls b r) \<Longrightarrow> k < n"
  by (auto simp: table_below_def dest: run_calls_set)

lemma addressed_same:
  "addressed b \<Longrightarrow> bk_ready b' = bk_ready b \<Longrightarrow> bk_waiting b' = bk_waiting b \<Longrightarrow> bk_outputs b' = bk_outputs b
    \<Longrightarrow> length (bk_calls b') = length (bk_calls b) \<Longrightarrow> table_below (length (bk_calls b)) (bk_runs b') \<Longrightarrow> addressed b'"
  by (simp add: addressed_def)

named_theorems addressing "what keeps every address that of a call"

lemma addressed_counters [addressing]:
  "addressed b \<Longrightarrow> addressed (bump k b)" "addressed b \<Longrightarrow> addressed (change_call i f b)"
  "addressed b \<Longrightarrow> addressed (cancel_timer i b)" "addressed b \<Longrightarrow> addressed (taken j b)" "addressed b \<Longrightarrow> addressed (b\<lparr>bk_clock := t\<rparr>)"
  by (auto simp: addressed_def bump_def cancel_timer_def dest: notin_set_remove1)

lemma addressed_spawn [addressing]:
  "addressed b \<Longrightarrow> job_call j < length (bk_calls b) \<Longrightarrow> addressed (spawn j b)"
  "addressed b \<Longrightarrow> job_call j < length (bk_calls b) \<Longrightarrow> addressed (suspend j b)"
  "addressed b \<Longrightarrow> sent_below (length (bk_calls b)) x \<Longrightarrow> addressed (put_out x b)"
  by (auto simp: addressed_def spawn_def suspend_def put_out_def)

lemma addressed_runs: "addressed b \<Longrightarrow> table_below (length (bk_calls b)) rs \<Longrightarrow> addressed (b\<lparr>bk_runs := rs\<rparr>)"
  by (simp add: addressed_def)

lemma addressed_table: "addressed b \<Longrightarrow> table_below (length (bk_calls b)) (bk_runs b)"
  by (simp add: addressed_def)

lemma addressed_trim [addressing]:
  assumes "addressed b"
  shows "addressed (trim cf r b)"
proof (cases "map_of (bk_runs b) r")
  case (Some calls)
  then have "k < length (bk_calls b)" if "(c, k) \<in> set calls" for c k
    using that addressed_table [OF assms] by (auto simp: table_below_def dest: map_of_SomeD)
  then show ?thesis
    using Some addressed_table [OF assms] by (auto simp: trim_def Let_def intro!: addressed_runs assms table_below_dict_set)
qed (simp add: trim_def assms)

lemma addressed_sweep [addressing]: "addressed b \<Longrightarrow> addressed (sweep cf b)"
  by (auto simp: sweep_def addressed_def table_below_def)

lemma addressed_forget [addressing]: "addressed b \<Longrightarrow> addressed (snd (forget_run r b))"
  by (auto simp: forget_run_def Let_def intro!: addressed_runs table_below_filter table_below_dict_set addressed_table
      dest: run_calls_below [OF addressed_table])

lemma addressed_finish [addressing]: "addressed b \<Longrightarrow> i < length (bk_calls b) \<Longrightarrow> addressed (finish cf i st en b)"
  unfolding finish_def close_call_def Let_def
  by (simp split: option.split, intro impI addressing) simp_all

lemma addressed_close_all [addressing]: "addressed b \<Longrightarrow> (\<And>i. i \<in> set is \<Longrightarrow> i < length (bk_calls b)) \<Longrightarrow> addressed (close_all cf is st b)"
  unfolding close_all_def by (induction "is" arbitrary: b) (simp_all add: addressed_finish)

lemma call_named_below: "addressed b \<Longrightarrow> call_named b r s = Some i \<Longrightarrow> i < length (bk_calls b)"
  by (auto simp: call_named_def dest!: map_of_SomeD intro: run_calls_below [OF addressed_table])

lemma owned_call_below: "addressed b \<Longrightarrow> owned_call b conn r s = Some i \<Longrightarrow> i < length (bk_calls b)"
  by (auto simp: owned_call_def split: json.splits option.splits if_splits intro: call_named_below)

lemma pending_below: "addressed b \<Longrightarrow> i \<in> set (pending b r) \<Longrightarrow> i < length (bk_calls b)"
  using addressed_table [of b] by (auto simp: pending_def pending_in_def table_below_def split: option.splits dest: run_calls_set)

lemma addressed_reply [addressing]:
  "addressed b \<Longrightarrow> addressed (count_ignored i late b)" "addressed b \<Longrightarrow> addressed (late_approval i b)"
  "addressed b \<Longrightarrow> addressed (reject conn m b)" "addressed b \<Longrightarrow> addressed (resolve i b)" "addressed b \<Longrightarrow> addressed (flag_event i b)"
  "addressed b \<Longrightarrow> i < length (bk_calls b) \<Longrightarrow> addressed (notify conn i d s b)"
  unfolding count_ignored_def late_approval_def reject_def resolve_def flag_event_def notify_def
  by (simp_all add: addressing)

lemma addressed_stop [addressing]: "addressed b \<Longrightarrow> addressed (b\<lparr>bk_stopped := c, bk_waiting := filter P (bk_waiting b)\<rparr>)"
  by (auto simp: addressed_def)

lemma addressed_messages [addressing]:
  assumes "addressed b"
  shows "addressed (handle_tool_result cf conn m b)" "addressed (handle_approval cf conn m b)" "addressed (handle_tool_stream cf conn m b)"
proof -
  note below = owned_call_below [OF assms]
  have below_message: "owned_by_message b conn m ok = Some i \<Longrightarrow> i < length (bk_calls b)" for ok i
    by (auto simp: owned_by_message_def split: option.splits intro: below)
  show "addressed (handle_tool_result cf conn m b)"
    by (auto simp: handle_tool_result_def assms split: option.split prod.split dest: below intro!: addressing)
  show "addressed (handle_approval cf conn m b)"
    by (auto simp: handle_approval_def Let_def assms split: option.split dest: below_message intro!: addressing)
  show "addressed (handle_tool_stream cf conn m b)"
    by (auto simp: handle_tool_stream_def Let_def assms split: option.split dest: below_message intro!: addressing)
qed

lemma addressed_abort [addressing]: "addressed b \<Longrightarrow> addressed (abort i b)"
proof -
  assume b: "addressed b"
  let ?b2 = "change_call i (\<lambda>c. c\<lparr>cl_finished := True, cl_done := (if cl_done c = Pending then Not_proposed else cl_done c)\<rparr>) (bump ''propose_failed'' b)"
  have b2: "addressed ?b2" using b by (simp add: addressing)
  show ?thesis
    using b b2 by (auto simp: abort_def Let_def addressing intro!: addressed_runs table_below_filter table_below_dict_set addressed_table
        dest: run_calls_below [OF addressed_table [OF b2], simplified])
qed

lemma addressed_run: "addressed b \<Longrightarrow> bk_ready b = j # js \<Longrightarrow> addressed (run_job j (b\<lparr>bk_ready := js\<rparr>))"
proof -
  assume b: "addressed b" "bk_ready b = j # js"
  then have "addressed (b\<lparr>bk_ready := js\<rparr>)" "job_call j < length (bk_calls (b\<lparr>bk_ready := js\<rparr>))" by (simp_all add: addressed_def)
  then show ?thesis by (cases j) (auto intro!: addressing)
qed

lemma addressed_resume:
  assumes "addressed b" "j \<in> set (bk_waiting b)" "resume_job cf j went found (taken j b) = Some b'"
  shows "addressed b'"
proof -
  have j: "job_call j < length (bk_calls b)" and t: "addressed (taken j b)" using assms(1,2) by (auto simp: addressed_def intro: addressing)
  then show ?thesis
    using assms(3) by (cases j)
      (auto simp: opened_call_def announced_def Let_def split: if_splits option.splits intro!: addressing)
qed

lemma addressed_propose: "addressed b \<Longrightarrow> addressed (snd (propose cf pr found b))"
proof -
  assume b: "addressed b"
  have s: "addressed (sweep cf b)" using b by (rule addressing)
  have "addressed (spawn (Open (length (bk_calls b)) p t) ((sweep cf b)\<lparr>bk_calls := bk_calls b @ [c],
      bk_runs := dict_set r (dict_set cid (length (bk_calls b)) (run_calls (sweep cf b) r)) (bk_runs (sweep cf b))\<rparr>))" for p t c r cid
  proof -
    have "table_below (Suc (length (bk_calls b))) (bk_runs (sweep cf b))"
      using addressed_table [OF s] by (auto simp: table_below_def intro: less_SucI)
    then have "table_below (Suc (length (bk_calls b))) (dict_set r (dict_set cid (length (bk_calls b)) (run_calls (sweep cf b) r)) (bk_runs (sweep cf b)))"
      by (rule table_below_dict_set) (auto dest!: dict_set_mem dest: run_calls_below [OF addressed_table [OF s]])
    moreover have "sent_below n x \<Longrightarrow> sent_below (Suc n) x" for n x by (cases x) auto
    ultimately show ?thesis using s by (auto simp: addressed_def spawn_def intro: less_SucI)
  qed
  then show ?thesis
    using b s by (auto simp: propose_def Let_def split: option.split prod.split bool.split intro!: addressing)
qed

lemma addressed_step: "addressed b \<Longrightarrow> step cf a b = Some b' \<Longrightarrow> addressed b'"
proof (cases a)
  case (Propose pr found)
  then show "addressed b \<Longrightarrow> step cf a b = Some b' \<Longrightarrow> addressed b'" by (auto simp: addressed_propose)
next
  case Run_task
  then show "addressed b \<Longrightarrow> step cf a b = Some b' \<Longrightarrow> addressed b'" by (auto split: list.splits intro: addressed_run)
next
  case (Resume j went found)
  then show "addressed b \<Longrightarrow> step cf a b = Some b' \<Longrightarrow> addressed b'"
    by (auto simp: taken_def [symmetric] split: if_splits intro: addressed_resume)
qed (auto split: if_splits simp: cancel_all_def on_run_disconnect_def on_connection_closed_def intro!: addressing dest: pending_below)

section \<open>Every reachable broker\<close>

lemma same_call_lives: "same_call i b b' \<Longrightarrow> length (bk_calls b') = length (bk_calls b) \<Longrightarrow> lives i b b'"
  by (simp add: lives_same)

lemma lives_hooks:
  "i < length (bk_calls b) \<Longrightarrow> lives i b (cancel_all cf r b)" "i < length (bk_calls b) \<Longrightarrow> lives i b (on_run_disconnect cf conn r b)"
  "i < length (bk_calls b) \<Longrightarrow> lives i b (on_connection_closed cf conn b)"
  by (simp_all add: cancel_all_def on_run_disconnect_def on_connection_closed_def lives_trans_close)

text \<open>A proposal that starts a call, and one that does not.\<close>

definition starts :: "broker \<Rightarrow> broker \<Rightarrow> bool" where
  "starts b b' \<longleftrightarrow> (\<exists>c p t. bk_calls b' = bk_calls b @ [c] \<and> essence_of c = (False, None, None, None, Pending)
    \<and> bk_ready b' = bk_ready b @ [Open (length (bk_calls b)) p t] \<and> bk_waiting b' = bk_waiting b \<and> bk_outputs b' = bk_outputs b)"

lemma propose_cases:
  "bk_calls (snd (propose cf pr found b)) = bk_calls b \<and> bk_ready (snd (propose cf pr found b)) = bk_ready b
     \<and> bk_waiting (snd (propose cf pr found b)) = bk_waiting b \<and> bk_outputs (snd (propose cf pr found b)) = bk_outputs b
   \<or> starts b (snd (propose cf pr found b))"
proof -
  have sw: "bk_calls (sweep cf b) = bk_calls b" by simp
  show ?thesis
    by (auto simp: propose_def Let_def starts_def spawn_def new_call_def essence_of_def call_at_def split: option.split prod.split bool.split)
qed

lemma starts_length: "starts b b' \<Longrightarrow> length (bk_calls b') = Suc (length (bk_calls b))"
  by (auto simp: starts_def)

lemma starts_old: "starts b b' \<Longrightarrow> i < length (bk_calls b) \<Longrightarrow> same_call i b b'"
  by (auto simp: starts_def same_call_def view_of_def call_at_def nth_append)

definition well_lived :: "broker \<Rightarrow> bool" where
  "well_lived b \<longleftrightarrow> addressed b
    \<and> (\<forall>i < length (bk_calls b). alive (cl_call_id (call_at b i)) (cl_tool (call_at b i)) i (view_of b i))"

lemma lives_step:
  assumes "well_lived b" "step cf a b = Some b'" "i < length (bk_calls b)"
  shows "lives i b b'"
proof -
  have al: "alive (cl_call_id (call_at b i)) (cl_tool (call_at b i)) i (view_of b i)" using assms(1,3) by (simp add: well_lived_def)
  show ?thesis
  proof (cases a)
    case (Propose pr found)
    then have b': "b' = snd (propose cf pr found b)" using assms(2) by simp
    show ?thesis
    proof (cases "starts b b'")
      case True
      then show ?thesis by (intro lives_same starts_old assms(3)) (simp_all add: starts_length)
    next
      case False
      then show ?thesis using propose_cases [of cf pr found b] by (auto simp: b' call_at_def intro!: lives_same same_callI)
    qed
  next
    case Run_task
    then show ?thesis using assms(2,3) al by (auto split: list.splits intro: lives_run)
  next
    case (Resume j went found)
    then show ?thesis using assms(2,3) al by (auto simp: taken_def [symmetric] split: if_splits intro: lives_resume)
  next
    case (Reader_stops conn)
    have "filter (about i) (filter (\<lambda>j. \<not> handler_of conn j) js) = filter (about i) js" for js
      by (induction js) (auto simp: handler_of_def split: job.splits)
    then show ?thesis using assms(2) Reader_stops
      by (auto intro!: lives_same simp: same_call_def view_of_def call_at_def simp del: filter_filter)
  next
    case (Forget_run r)
    then show ?thesis using assms(2) by (auto intro: lives_same)
  next
    case (Time_passes d)
    then show ?thesis using assms(2) by (auto intro!: lives_same same_callI)
  qed (use assms(2,3) in \<open>auto split: if_splits intro: lives_tool_result lives_approval lives_tool_stream lives_hooks\<close>)
qed

lemma starts_view: "addressed b \<Longrightarrow> starts b b' \<Longrightarrow> i = length (bk_calls b) \<Longrightarrow>
    \<exists>p t. view_of b' i = ((False, None, None, None, Pending), [Open i p t], [], [])"
proof -
  assume a: "addressed b" "starts b b'" "i = length (bk_calls b)"
  have n: "filter (about i) (bk_ready b) = []" "filter (about i) (bk_waiting b) = []" "filter (emission i) (bk_outputs b) = []"
  proof -
    have "job_call j < i" if "j \<in> set (bk_ready b) \<union> set (bk_waiting b)" for j using a(1,3) that by (simp add: addressed_def)
    then show "filter (about i) (bk_ready b) = []" "filter (about i) (bk_waiting b) = []"
      by (auto simp: filter_empty_conv dest: about_call)
    show "filter (emission i) (bk_outputs b) = []" using a(1,3) by (auto simp: addressed_def filter_empty_conv dest: emission_below)
  qed
  from a(2) obtain c p t where c: "essence_of c = (False, None, None, None, Pending)" "bk_calls b' = bk_calls b @ [c]"
    "bk_ready b' = bk_ready b @ [Open i p t]" "bk_waiting b' = bk_waiting b" "bk_outputs b' = bk_outputs b"
    unfolding starts_def a(3) by blast
  show ?thesis by (rule exI [of _ p], rule exI [of _ t]) (use c n in \<open>simp add: view_of_def call_at_def a(3)\<close>)
qed

lemma step_length: "step cf a b = Some b' \<Longrightarrow> length (bk_calls b') = length (bk_calls b) \<or> starts b b'"
proof (cases a)
  case (Propose pr found)
  then show "step cf a b = Some b' \<Longrightarrow> ?thesis" using propose_cases [of cf pr found b] by auto
next
  case Run_task
  have "length (bk_calls (run_job j b)) = length (bk_calls b)" for j b by (cases j) simp_all
  then show "step cf a b = Some b' \<Longrightarrow> ?thesis" using Run_task by (auto split: list.splits)
next
  case (Resume j went found)
  have "resume_job cf j went found b1 = Some b2 \<Longrightarrow> length (bk_calls b2) = length (bk_calls b1)" for b1 b2
    by (cases j) (auto simp: opened_call_def abort_def announced_def Let_def split: if_splits option.splits)
  then show "step cf a b = Some b' \<Longrightarrow> ?thesis" using Resume by (fastforce split: if_splits)
next
  case (Tool_result conn m)
  then show "step cf a b = Some b' \<Longrightarrow> ?thesis" by (auto simp: handle_tool_result_def split: if_splits option.splits prod.splits)
next
  case (Approval conn m)
  then show "step cf a b = Some b' \<Longrightarrow> ?thesis" by (auto simp: handle_approval_def Let_def split: if_splits option.splits)
next
  case (Tool_stream conn m)
  then show "step cf a b = Some b' \<Longrightarrow> ?thesis" by (auto simp: handle_tool_stream_def Let_def split: if_splits option.splits)
qed (auto simp: cancel_all_def on_run_disconnect_def on_connection_closed_def split: if_splits)

lemma well_lived_step:
  assumes "well_lived b" "step cf a b = Some b'"
  shows "well_lived b'"
proof -
  have old: "alive (cl_call_id (call_at b' i)) (cl_tool (call_at b' i)) i (view_of b' i)" if "i < length (bk_calls b)" for i
  proof -
    have "lives i b b'" using lives_step [OF assms that] .
    moreover have "alive (cl_call_id (call_at b i)) (cl_tool (call_at b i)) i (view_of b i)" using assms(1) that by (simp add: well_lived_def)
    ultimately show ?thesis unfolding lives_def by (metis identity_parts alive_step)
  qed
  have new: "alive (cl_call_id (call_at b' i)) (cl_tool (call_at b' i)) i (view_of b' i)" if "starts b b'" "i = length (bk_calls b)" for i
    using starts_view [of b b' i] that assms(1) alive.unsent by (fastforce simp: well_lived_def)
  have "addressed b'" using assms addressed_step by (auto simp: well_lived_def)
  moreover have "alive (cl_call_id (call_at b' i)) (cl_tool (call_at b' i)) i (view_of b' i)" if "i < length (bk_calls b')" for i
    using step_length [OF assms(2)] old new that by (metis less_Suc_eq starts_length)
  ultimately show ?thesis by (simp add: well_lived_def)
qed

lemma well_lived_new: "new_broker cf now = Some b \<Longrightarrow> well_lived b"
  by (auto simp: new_broker_def well_lived_def addressed_def table_below_def split: if_splits)

lemma reachable_lives: "reachable_broker cf b \<Longrightarrow> well_lived b"
  by (induction rule: reachable_broker.induct) (auto intro: well_lived_new well_lived_step)

lemma reachable_run: "reachable_broker cf b \<Longrightarrow> run_actions cf as b = Some b' \<Longrightarrow> reachable_broker cf b'"
  by (induction as arbitrary: b) (auto split: option.splits intro: reachable_broker.step)

end
