(* ===== verification/BrokerTable.thy ===== *)
theory BrokerTable
  imports BrokerLife
begin

text \<open>
  The table of calls: every entry names its call, names do not repeat, and both the open and the finished calls
  of a run stay within their limits.
\<close>

section \<open>The table as lookups\<close>

definition tidy :: "broker \<Rightarrow> bool" where
  "tidy b \<longleftrightarrow> distinct (map fst (bk_runs b)) \<and> (\<forall>r cs. (r, cs) \<in> set (bk_runs b) \<longrightarrow> distinct (map fst cs))"

definition named :: "broker \<Rightarrow> bool" where
  "named b \<longleftrightarrow> (\<forall>r s k. (s, k) \<in> set (run_calls b r) \<longrightarrow> cl_run_id (call_at b k) = r \<and> cl_call_id (call_at b k) = s)"

text \<open>The finished calls the table holds of a run.\<close>

definition kept :: "broker \<Rightarrow> string \<Rightarrow> nat" where
  "kept b r = length (filter (\<lambda>q. cl_finished (call_at b (snd q))) (run_calls b r))"

definition table_ok :: "broker_settings \<Rightarrow> broker \<Rightarrow> bool" where
  "table_ok cf b \<longleftrightarrow> addressed b \<and> tidy b \<and> named b \<and> (\<forall>r. in_flight b r \<le> bs_max_in_flight cf \<and> kept b r \<le> bs_max_retained cf)"

lemma in_flight_filter: "in_flight b r = length (filter (\<lambda>q. \<not> cl_finished (call_at b (snd q))) (run_calls b r))"
  by (simp add: in_flight_def pending_def pending_in_def filter_map comp_def)

lemma run_calls_runs [simp]: "run_calls (b\<lparr>bk_runs := rs\<rparr>) r = (case map_of rs r of None \<Rightarrow> [] | Some cs \<Rightarrow> cs)"
  by (simp add: run_calls_def)

lemma run_calls_keep [simp]:
  "run_calls (bump k b) = run_calls b" "run_calls (spawn j b) = run_calls b" "run_calls (suspend j b) = run_calls b"
  "run_calls (put_out x b) = run_calls b" "run_calls (cancel_timer i b) = run_calls b" "run_calls (change_call i f b) = run_calls b"
  "run_calls (taken j b) = run_calls b" "run_calls (b\<lparr>bk_clock := t\<rparr>) = run_calls b" "run_calls (b\<lparr>bk_ready := js\<rparr>) = run_calls b"
  "run_calls (b\<lparr>bk_stopped := c, bk_waiting := ws\<rparr>) = run_calls b"
  by (simp_all add: run_calls_def fun_eq_iff)

text \<open>Tables that lose entries: each run's calls are filtered.\<close>

definition narrows :: "broker \<Rightarrow> broker \<Rightarrow> bool" where
  "narrows b b' \<longleftrightarrow> tidy b' \<and> (\<forall>r. \<exists>P. run_calls b' r = filter P (run_calls b r))"

lemma narrows_same: "tidy b \<Longrightarrow> bk_runs b' = bk_runs b \<Longrightarrow> narrows b b'"
  by (auto simp: narrows_def tidy_def run_calls_def intro: exI [of _ "\<lambda>_. True"])

lemma tidy_run_calls: "tidy b \<Longrightarrow> distinct (map fst (run_calls b r))"
  by (cases "map_of (bk_runs b) r") (auto simp: tidy_def run_calls_def dest: map_of_SomeD)

lemma distinct_filter_fst: "distinct (map fst d) \<Longrightarrow> distinct (map fst (filter P d))"
  by (induction d) auto

lemma tidy_dict_set: "tidy b \<Longrightarrow> distinct (map fst cs) \<Longrightarrow> tidy (b\<lparr>bk_runs := dict_set r cs (bk_runs b)\<rparr>)"
  by (auto simp: tidy_def distinct_dict_set dest: dict_set_mem)

lemma tidy_filter: "tidy b \<Longrightarrow> tidy (b\<lparr>bk_runs := filter P (bk_runs b)\<rparr>)"
  by (auto simp: tidy_def distinct_filter_fst)

lemma narrows_dict_set: "tidy b \<Longrightarrow> narrows b (b\<lparr>bk_runs := dict_set r (filter P (run_calls b r)) (bk_runs b)\<rparr>)"
  unfolding narrows_def
  by (intro conjI tidy_dict_set distinct_filter_fst tidy_run_calls)
    (auto simp: run_calls_def intro: exI [of _ P] exI [of _ "\<lambda>_. True"] split: option.split)

lemma narrows_drop: "tidy b \<Longrightarrow> narrows b (b\<lparr>bk_runs := filter (\<lambda>p. fst p \<noteq> r) (bk_runs b)\<rparr>)"
  unfolding narrows_def
proof (intro conjI tidy_filter allI)
  fix r'
  show "\<exists>P. run_calls (b\<lparr>bk_runs := filter (\<lambda>p. fst p \<noteq> r) (bk_runs b)\<rparr>) r' = filter P (run_calls b r')"
    by (cases "r' = r") (auto simp: run_calls_def map_of_filter_keys [where P = "\<lambda>a. a \<noteq> r"] intro: exI [of _ "\<lambda>_. False"] exI [of _ "\<lambda>_. True"])
qed

lemma map_of_filter_map:
  "distinct (map fst d) \<Longrightarrow>
    (case map_of (filter (\<lambda>p. snd p \<noteq> []) (map (\<lambda>p. (fst p, filter P (snd p))) d)) r of None \<Rightarrow> [] | Some cs \<Rightarrow> cs)
      = (case map_of d r of None \<Rightarrow> [] | Some cs \<Rightarrow> filter P cs)"
proof (induction d)
  case (Cons p d)
  have "fst ` set (filter (\<lambda>p. snd p \<noteq> []) (map (\<lambda>p. (fst p, filter P (snd p))) d)) \<subseteq> fst ` set d" by force
  moreover have "fst p \<notin> fst ` set d" using Cons.prems by simp
  ultimately have "map_of (filter (\<lambda>p. snd p \<noteq> []) (map (\<lambda>p. (fst p, filter P (snd p))) d)) (fst p) = None"
    unfolding map_of_eq_None_iff by blast
  then show ?case using Cons by (cases p) (auto split: option.splits)
qed simp

lemma narrows_sweep: "tidy b \<Longrightarrow> narrows b (sweep cf b)"
proof -
  assume t: "tidy b"
  have "tidy (sweep cf b)"
    using t by (auto simp: sweep_def tidy_def distinct_filter_fst comp_def intro!: distinct_filter_fst)
  moreover have "\<exists>P. run_calls (sweep cf b) r = filter P (run_calls b r)" for r
  proof (cases "bk_clock b - bk_last_sweep b < SWEEP_INTERVAL")
    case True
    then show ?thesis by (intro exI [of _ "\<lambda>_. True"]) (simp add: sweep_def)
  next
    case False
    then show ?thesis
      using map_of_filter_map [of "bk_runs b" "\<lambda>q. \<not> aged cf b (snd q)" r] t
      by (intro exI [of _ "\<lambda>q. \<not> aged cf b (snd q)"]) (auto simp: sweep_def run_calls_def tidy_def split: option.splits)
  qed
  ultimately show ?thesis by (simp add: narrows_def)
qed

lemma narrows_trim: "tidy b \<Longrightarrow> narrows b (trim cf r b)"
proof (cases "map_of (bk_runs b) r")
  case (Some calls)
  assume t: "tidy b"
  have "calls = run_calls b r" using Some by (simp add: run_calls_def)
  then show ?thesis using Some narrows_dict_set [OF t] by (simp add: trim_def Let_def)
qed (simp add: trim_def narrows_same)

lemma narrows_forget: "tidy b \<Longrightarrow> narrows b (snd (forget_run r b))"
  using narrows_dict_set [of b r "\<lambda>p. \<not> cl_finished (call_at b (snd p))"] narrows_drop [of b r]
  by (simp add: forget_run_def Let_def narrows_same)

lemma narrows_trans: "narrows b b1 \<Longrightarrow> narrows b1 b2 \<Longrightarrow> narrows b b2"
  unfolding narrows_def by (metis filter_filter)

section \<open>Every operation keeps the table in order\<close>

lemma run_calls_address: "addressed b \<Longrightarrow> q \<in> set (run_calls b r) \<Longrightarrow> snd q < length (bk_calls b)"
  by (cases q) (auto intro: run_calls_below [OF addressed_table])

lemma named_narrows:
  assumes "named b" "narrows b b'" "addressed b" "\<And>k. k < length (bk_calls b) \<Longrightarrow> identity_of (call_at b' k) = identity_of (call_at b k)"
  shows "named b'"
  unfolding named_def
proof (intro allI impI)
  fix r s k assume "(s, k) \<in> set (run_calls b' r)"
  then have m: "(s, k) \<in> set (run_calls b r)" using assms(2) unfolding narrows_def by (metis filter_is_subset subsetD)
  then have "k < length (bk_calls b)" using run_calls_address [OF assms(3)] by fastforce
  then show "cl_run_id (call_at b' k) = r \<and> cl_call_id (call_at b' k) = s"
    using assms(1,4) m unfolding named_def by (metis identity_parts)
qed

lemma length_filter_sub: "(\<And>x. x \<in> set xs \<Longrightarrow> Q x \<Longrightarrow> R x) \<Longrightarrow> length (filter Q (filter P xs)) \<le> length (filter R xs)"
  by (induction xs) (auto simp: le_SucI)

lemma table_quiet:
  assumes "table_ok cf b" "narrows b b'" "addressed b'" "\<And>k. k < length (bk_calls b) \<Longrightarrow> identity_of (call_at b' k) = identity_of (call_at b k)"
    and "\<And>k. k < length (bk_calls b) \<Longrightarrow> cl_finished (call_at b' k) = cl_finished (call_at b k)"
  shows "table_ok cf b'"
proof -
  have b: "addressed b" "named b" "tidy b" using assms(1) by (simp_all add: table_ok_def)
  have "in_flight b' r \<le> in_flight b r \<and> kept b' r \<le> kept b r" for r
  proof -
    obtain P where P: "run_calls b' r = filter P (run_calls b r)" using assms(2) unfolding narrows_def by blast
    have "cl_finished (call_at b' (snd q)) = cl_finished (call_at b (snd q))" if "q \<in> set (run_calls b r)" for q
      using assms(5) run_calls_address [OF b(1) that] by simp
    then show ?thesis unfolding in_flight_filter kept_def P by (intro conjI length_filter_sub) simp_all
  qed
  then show ?thesis
    using assms(1,3) named_narrows [OF b(2) assms(2) b(1) assms(4)] assms(2)
    by (auto simp: table_ok_def narrows_def intro: order_trans)
qed

text \<open>The oldest go: what is left of the finished calls is at most the limit.\<close>

lemma length_filter_le_part: "length (filter P (take k xs)) = 0 \<Longrightarrow> length (filter P xs) \<le> length xs - k"
  by (metis append_take_drop_id filter_append length_append add_0 length_drop length_filter_le)

lemma trim_kept: "tidy b \<Longrightarrow> kept (trim cf r b) r \<le> bs_max_retained cf"
proof (cases "map_of (bk_runs b) r")
  case (Some calls)
  let ?fin = "\<lambda>p. cl_finished (call_at b (snd p))"
  let ?f = "sort_key (\<lambda>p. finish_time b (snd p)) (filter ?fin calls)"
  let ?k = "length ?f - bs_max_retained cf"
  let ?gone = "map fst (take ?k ?f)"
  have "kept (trim cf r b) r = length (filter ?fin (filter (\<lambda>p. fst p \<notin> set ?gone) calls))"
    using Some by (simp add: kept_def trim_def Let_def)
  also have "\<dots> = length (filter (\<lambda>p. fst p \<notin> set ?gone) (filter ?fin calls))"
    by (simp add: conj_commute)
  also have "\<dots> = length (filter (\<lambda>p. fst p \<notin> set ?gone) ?f)"
    by (simp add: filter_sort del: filter_filter)
  also have "\<dots> \<le> length ?f - ?k" by (rule length_filter_le_part) auto
  finally show ?thesis by simp
qed (simp add: trim_def kept_def run_calls_def)

lemma trim_other: "r' \<noteq> r \<Longrightarrow> run_calls (trim cf r b) r' = run_calls b r'"
  by (simp add: trim_def Let_def run_calls_def split: option.split)

lemma finish_at: "k < length (bk_calls b) \<Longrightarrow>
    cl_finished (call_at (finish cf i st en b) k) = (cl_finished (call_at b k) \<or> k = i)
    \<and> identity_of (call_at (finish cf i st en b) k) = identity_of (call_at b k)"
  by (auto simp: finish_def close_call_def Let_def call_at_change identity_of_def)

lemma table_finish:
  assumes "table_ok cf b" "i < length (bk_calls b)"
  shows "table_ok cf (finish cf i st en b)"
proof (cases "cl_finished (call_at b i)")
  case True
  then show ?thesis using assms by (simp add: finish_finished)
next
  case False
  let ?b = "finish cf i st en b"
  let ?r = "cl_run_id (call_at b i)"
  have b: "addressed b" "named b" "tidy b" using assms(1) by (simp_all add: table_ok_def)
  obtain b1 where b1: "?b = spawn (Announce i) (trim cf ?r b1)" "bk_runs b1 = bk_runs b" "run_calls b1 = run_calls b"
    using False by (simp add: finish_def close_call_def)
  have t1: "tidy b1" using b(3) b1(2) by (simp add: tidy_def)
  have runs: "run_calls ?b = run_calls (trim cf ?r b1)" by (simp add: b1(1))
  have "bk_runs ?b = bk_runs (trim cf ?r b1)" by (simp add: b1(1))
  then have nb1: "narrows b1 ?b"
    using narrows_trim [OF t1, of cf ?r] by (simp add: narrows_def tidy_def runs)
  then have nar: "narrows b ?b" by (simp add: narrows_def b1(3))
  have at_: "call_at ?b = call_at b1" by (simp add: b1(1))
  have "in_flight ?b r \<le> bs_max_in_flight cf \<and> kept ?b r \<le> bs_max_retained cf" for r
  proof
    obtain P where P: "run_calls ?b r = filter P (run_calls b r)" using nar unfolding narrows_def by blast
    have "in_flight ?b r \<le> in_flight b r"
      unfolding in_flight_filter P
      using finish_at run_calls_address [OF b(1)] by (intro length_filter_sub) blast
    then show "in_flight ?b r \<le> bs_max_in_flight cf" using assms(1) by (auto simp: table_ok_def intro: order_trans)
    show "kept ?b r \<le> bs_max_retained cf"
    proof (cases "r = ?r")
      case True
      then show ?thesis using trim_kept [OF t1, of cf r] by (simp add: kept_def runs at_)
    next
      case False
      then have same: "run_calls ?b r = run_calls b r" by (simp add: runs trim_other b1(3))
      have "snd q \<noteq> i" if "q \<in> set (run_calls b r)" for q
        using b(2) that False unfolding named_def by (metis prod.collapse)
      then have "kept ?b r \<le> kept b r"
        unfolding kept_def same using finish_at run_calls_address [OF b(1)]
        by (intro length_filter_sub [where P = "\<lambda>_. True", simplified]) blast
      then show ?thesis using assms(1) by (auto simp: table_ok_def intro: order_trans)
    qed
  qed
  then show ?thesis
    using named_narrows [OF b(2) nar b(1)] finish_at nar addressed_finish [OF b(1) assms(2)]
    by (simp add: table_ok_def narrows_def)
qed

named_theorems tabling "what keeps the table in order"

lemma table_addressed: "table_ok cf b \<Longrightarrow> addressed b"
  by (simp add: table_ok_def)

lemma table_plain:
  assumes "table_ok cf b" "bk_runs b' = bk_runs b" "addressed b \<Longrightarrow> addressed b'"
    "\<And>k. k < length (bk_calls b) \<Longrightarrow> identity_of (call_at b' k) = identity_of (call_at b k) \<and> cl_finished (call_at b' k) = cl_finished (call_at b k)"
  shows "table_ok cf b'"
  using assms by (intro table_quiet [OF assms(1) narrows_same]) (auto simp: table_ok_def)

lemma table_counters [tabling]:
  "table_ok cf b \<Longrightarrow> table_ok cf (bump k b)" "table_ok cf b \<Longrightarrow> table_ok cf (taken j b)" "table_ok cf b \<Longrightarrow> table_ok cf (b\<lparr>bk_clock := t\<rparr>)"
  "table_ok cf b \<Longrightarrow> job_call j < length (bk_calls b) \<Longrightarrow> table_ok cf (spawn j b)"
  "table_ok cf b \<Longrightarrow> job_call j < length (bk_calls b) \<Longrightarrow> table_ok cf (suspend j b)"
  "table_ok cf b \<Longrightarrow> sent_below (length (bk_calls b)) x \<Longrightarrow> table_ok cf (put_out x b)"
  "table_ok cf b \<Longrightarrow> table_ok cf (b\<lparr>bk_stopped := c, bk_waiting := filter P (bk_waiting b)\<rparr>)"
  by (auto elim!: table_plain simp: addressing call_at_def)

lemma table_change:
  "table_ok cf b \<Longrightarrow> (\<And>c. identity_of (f c) = identity_of c \<and> cl_finished (f c) = cl_finished c) \<Longrightarrow> table_ok cf (change_call i f b)"
  by (erule table_plain) (simp_all add: addressing call_at_change)

lemma table_replies [tabling]:
  "table_ok cf b \<Longrightarrow> table_ok cf (count_ignored i late b)" "table_ok cf b \<Longrightarrow> table_ok cf (late_approval i b)"
  "table_ok cf b \<Longrightarrow> table_ok cf (reject conn m b)" "table_ok cf b \<Longrightarrow> table_ok cf (resolve i b)" "table_ok cf b \<Longrightarrow> table_ok cf (flag_event i b)"
  "table_ok cf b \<Longrightarrow> i < length (bk_calls b) \<Longrightarrow> table_ok cf (notify conn i d s b)"
  unfolding count_ignored_def late_approval_def reject_def resolve_def flag_event_def notify_def
  by (simp_all add: tabling table_change identity_of_def split: option.split)

lemma table_close_all [tabling]: "table_ok cf b \<Longrightarrow> (\<And>i. i \<in> set is \<Longrightarrow> i < length (bk_calls b)) \<Longrightarrow> table_ok cf (close_all cf is st b)"
  unfolding close_all_def by (induction "is" arbitrary: b) (simp_all add: table_finish)

lemma table_sweep [tabling]: "table_ok cf b \<Longrightarrow> table_ok cf (sweep cf b)"
  by (rule table_quiet [OF _ narrows_sweep]) (auto simp: table_ok_def intro: addressing)

lemma table_forget [tabling]: "table_ok cf b \<Longrightarrow> table_ok cf (snd (forget_run r b))"
  by (rule table_quiet [OF _ narrows_forget]) (auto simp: table_ok_def intro: addressing)

lemma table_messages [tabling]:
  assumes "table_ok cf b"
  shows "table_ok cf (handle_tool_result cf conn m b)" "table_ok cf (handle_approval cf conn m b)" "table_ok cf (handle_tool_stream cf conn m b)"
proof -
  note below = owned_call_below [OF table_addressed [OF assms]]
  have below_message: "owned_by_message b conn m ok = Some i \<Longrightarrow> i < length (bk_calls b)" for ok i
    by (auto simp: owned_by_message_def split: option.splits intro: below)
  show "table_ok cf (handle_tool_result cf conn m b)"
    by (auto simp: handle_tool_result_def assms split: option.split prod.split dest: below intro!: tabling table_finish)
  show "table_ok cf (handle_approval cf conn m b)"
    by (auto simp: handle_approval_def Let_def assms identity_of_def split: option.split dest: below_message intro!: tabling table_finish table_change)
  show "table_ok cf (handle_tool_stream cf conn m b)"
    by (auto simp: handle_tool_stream_def Let_def assms identity_of_def split: option.split dest: below_message intro!: tabling table_change)
qed

text \<open>A proposal that was not emitted leaves the table with its call.\<close>

lemma table_abort [tabling]:
  assumes "table_ok cf b" "i < length (bk_calls b)"
  shows "table_ok cf (abort i b)"
proof (cases "cl_finished (call_at b i)")
  case True
  then show ?thesis using assms(1) by (simp add: abort_def tabling)
next
  case False
  let ?b2 = "change_call i (\<lambda>c. c\<lparr>cl_finished := True, cl_done := (if cl_done c = Pending then Not_proposed else cl_done c)\<rparr>) (bump ''propose_failed'' b)"
  let ?r = "cl_run_id (call_at b i)" and ?s = "cl_call_id (call_at b i)"
  have b: "addressed b" "named b" "tidy b" using assms(1) by (simp_all add: table_ok_def)
  have t2: "tidy ?b2" using b(3) by (simp add: tidy_def)
  have rc: "run_calls ?b2 = run_calls b" by simp
  have ids: "identity_of (call_at (abort i b) k) = identity_of (call_at b k) \<and> cl_finished (call_at (abort i b) k) = (cl_finished (call_at b k) \<or> k = i)"
    if "k < length (bk_calls b)" for k
    using that False by (auto simp: abort_def Let_def call_at_change identity_of_def)
  have runs: "run_calls (abort i b) r = (if r = ?r \<and> map_of (run_calls b ?r) ?s = Some i then filter (\<lambda>p. fst p \<noteq> ?s) (run_calls b r) else run_calls b r)"
    and t: "tidy (abort i b)" for r
  proof -
    have drop: "run_calls (?b2\<lparr>bk_runs := filter (\<lambda>p. fst p \<noteq> ?r) (bk_runs ?b2)\<rparr>) r = (if r = ?r then [] else run_calls b r)" for r
      using map_of_filter_keys [where P = "\<lambda>a. a \<noteq> ?r" and d = "bk_runs b" and k = r] by (simp add: run_calls_def)
    have put: "run_calls (?b2\<lparr>bk_runs := dict_set ?r cs (bk_runs ?b2)\<rparr>) r = (if r = ?r then cs else run_calls b r)" for cs r
      by (simp add: run_calls_def)
    show "run_calls (abort i b) r = (if r = ?r \<and> map_of (run_calls b ?r) ?s = Some i then filter (\<lambda>p. fst p \<noteq> ?s) (run_calls b r) else run_calls b r)"
      using False drop put by (simp add: abort_def Let_def del: run_calls_runs)
    show "tidy (abort i b)"
      using False t2 tidy_filter [OF t2] tidy_dict_set [OF t2 distinct_filter_fst [OF tidy_run_calls [OF t2]]]
      by (simp add: abort_def Let_def)
  qed
  have "addressed (abort i b)" by (rule addressed_abort [OF b(1)])
  have sub: "\<exists>P. run_calls (abort i b) r = filter P (run_calls b r)" for r
    unfolding runs by (auto intro: exI [of _ "\<lambda>_. True"])
  then have nar: "narrows b (abort i b)" using t by (simp add: narrows_def)
  have away: "snd q \<noteq> i" if "q \<in> set (run_calls (abort i b) r)" for q r
  proof
    assume q: "snd q = i"
    have m: "q \<in> set (run_calls b r)" using that unfolding runs by (auto split: if_splits)
    then have n: "r = ?r" "fst q = ?s" using b(2) q unfolding named_def by (metis prod.collapse)+
    then have "map_of (run_calls b ?r) ?s = Some i"
      using m q tidy_run_calls [OF b(3)] by (metis map_of_is_SomeI prod.collapse)
    then show False using that n unfolding runs by simp
  qed
  have "in_flight (abort i b) r \<le> in_flight b r \<and> kept (abort i b) r \<le> kept b r" for r
  proof -
    obtain P where P: "run_calls (abort i b) r = filter P (run_calls b r)" using sub by blast
    have same: "cl_finished (call_at (abort i b) (snd q)) = cl_finished (call_at b (snd q))" if "q \<in> set (filter P (run_calls b r))" for q
      using that away [of q r] ids run_calls_address [OF b(1), of q r] by (auto simp: P)
    have "filter (\<lambda>q. cl_finished (call_at (abort i b) (snd q))) (filter P (run_calls b r)) = filter (\<lambda>q. cl_finished (call_at b (snd q))) (filter P (run_calls b r))"
      "filter (\<lambda>q. \<not> cl_finished (call_at (abort i b) (snd q))) (filter P (run_calls b r)) = filter (\<lambda>q. \<not> cl_finished (call_at b (snd q))) (filter P (run_calls b r))"
      using same by (intro filter_cong; simp)+
    then show ?thesis unfolding in_flight_filter kept_def P by (simp add: length_filter_sub del: filter_filter)
  qed
  then show ?thesis
    using assms(1) t \<open>addressed (abort i b)\<close> named_narrows [OF b(2) nar b(1)] ids
    by (auto simp: table_ok_def intro: order_trans)
qed

lemma dict_set_new: "k \<notin> fst ` set d \<Longrightarrow> dict_set k v d = d @ [(k, v)]"
  by (induction d) auto

lemma table_enter:
  assumes "table_ok cf b" "in_flight b r < bs_max_in_flight cf" "s \<notin> fst ` set (run_calls b r)"
    and "\<not> cl_finished c" "cl_run_id c = r" "cl_call_id c = s"
  shows "table_ok cf (spawn (Open (length (bk_calls b)) p t) (b\<lparr>bk_calls := bk_calls b @ [c],
    bk_runs := dict_set r (dict_set s (length (bk_calls b)) (run_calls b r)) (bk_runs b)\<rparr>))" (is "table_ok cf ?b")
proof -
  have b: "addressed b" "named b" "tidy b" using assms(1) by (simp_all add: table_ok_def)
  let ?n = "length (bk_calls b)"
  have rc: "run_calls ?b r' = (if r' = r then run_calls b r @ [(s, ?n)] else run_calls b r')" for r'
    using assms(3) by (simp add: run_calls_def dict_set_new)
  have old: "call_at ?b k = call_at b k" if "k < ?n" for k using that by (simp add: call_at_def nth_append)
  have new: "call_at ?b ?n = c" by (simp add: call_at_def)
  have same: "call_at ?b (snd q) = call_at b (snd q)" if "q \<in> set (run_calls b r')" for q r'
    using old run_calls_address [OF b(1) that] .
  have "sent_below n x \<Longrightarrow> sent_below (Suc n) x" for n x by (cases x) auto
  moreover have "table_below (Suc ?n) (bk_runs ?b)"
  proof -
    have "table_below (Suc ?n) (bk_runs b)" using addressed_table [OF b(1)] by (auto simp: table_below_def intro: less_SucI)
    then show ?thesis by (simp, rule table_below_dict_set) (auto dest!: dict_set_mem dest: run_calls_below [OF addressed_table [OF b(1)]])
  qed
  ultimately have "addressed ?b" using b(1) by (auto simp: addressed_def spawn_def intro: less_SucI)
  moreover have "tidy ?b"
    using tidy_dict_set [OF b(3) distinct_dict_set [OF tidy_run_calls [OF b(3)]]] by (simp add: tidy_def spawn_def)
  moreover have "named ?b"
    unfolding named_def rc using b(2) new same assms(5,6) by (fastforce simp: named_def split: if_splits)
  moreover have "in_flight ?b r' \<le> bs_max_in_flight cf \<and> kept ?b r' \<le> bs_max_retained cf" for r'
  proof -
    have f: "filter (\<lambda>q. cl_finished (call_at ?b (snd q))) (run_calls b r') = filter (\<lambda>q. cl_finished (call_at b (snd q))) (run_calls b r')"
      "filter (\<lambda>q. \<not> cl_finished (call_at ?b (snd q))) (run_calls b r') = filter (\<lambda>q. \<not> cl_finished (call_at b (snd q))) (run_calls b r')" for r'
      using same by (intro filter_cong; simp)+
    have "in_flight b r' \<le> bs_max_in_flight cf" "kept b r' \<le> bs_max_retained cf" using assms(1) by (simp_all add: table_ok_def)
    then show ?thesis
      using assms(2,4) new unfolding in_flight_filter kept_def rc by (cases "r' = r") (simp_all add: f [simplified])
  qed
  ultimately show ?thesis by (simp add: table_ok_def)
qed

lemma table_propose: "table_ok cf b \<Longrightarrow> table_ok cf (snd (propose cf pr found b))"
proof -
  assume ok: "table_ok cf b"
  have t: "tidy b" using ok by (simp add: table_ok_def)
  have sw: "table_ok cf (sweep cf b)" using ok by (rule tabling)
  have out: "s \<notin> fst ` set (run_calls (sweep cf b) r)" if "call_named b r s = None" for r s
  proof -
    obtain P where "run_calls (sweep cf b) r = filter P (run_calls b r)" using narrows_sweep [OF t, of cf] unfolding narrows_def by blast
    then show ?thesis using that by (auto simp: call_named_def map_of_eq_None_iff)
  qed
  show ?thesis
    using ok sw table_enter [OF sw _ out]
    by (auto simp: propose_def Let_def new_call_def not_le split: option.split prod.split bool.split intro!: tabling)
qed

lemma table_step:
  assumes "table_ok cf b" "step cf a b = Some b'"
  shows "table_ok cf b'"
proof (cases a)
  case (Propose pr found)
  then show ?thesis using assms table_propose by auto
next
  case Run_task
  then obtain j js where j: "bk_ready b = j # js" "b' = run_job j (b\<lparr>bk_ready := js\<rparr>)" using assms(2) by (auto split: list.splits)
  have "addressed b'" using addressed_run [OF table_addressed [OF assms(1)] j(1)] j(2) by simp
  moreover have "bk_runs b' = bk_runs b \<and> call_at b' = call_at b" unfolding j(2) by (cases j) simp_all
  ultimately show ?thesis using assms(1) by (auto intro: table_plain)
next
  case (Resume j went found)
  then have r: "resume_job cf j went found (taken j b) = Some b'" "j \<in> set (bk_waiting b)"
    using assms(2) by (auto simp: taken_def split: if_splits)
  have k: "job_call j < length (bk_calls b)" using r(2) table_addressed [OF assms(1)] by (auto simp: addressed_def)
  have t: "table_ok cf (taken j b)" using assms(1) by (rule tabling)
  show ?thesis
    using r(1) k t by (cases j)
      (auto simp: opened_call_def announced_def Let_def split: if_splits option.splits intro!: tabling table_finish)
qed (use assms in \<open>auto split: if_splits simp: cancel_all_def on_run_disconnect_def on_connection_closed_def
    intro!: tabling dest: pending_below [OF table_addressed]\<close>)

lemma table_new: "new_broker cf now = Some b \<Longrightarrow> table_ok cf b"
  by (auto simp: new_broker_def table_ok_def addressed_def table_below_def tidy_def named_def in_flight_filter kept_def run_calls_def split: if_splits)

lemma reachable_table_ok: "reachable_broker cf b \<Longrightarrow> table_ok cf b"
  by (induction rule: reachable_broker.induct) (auto intro: table_new table_step)

end
