(* ===== verification/BrokerOwners.thy ===== *)
theory BrokerOwners
  imports BrokerTable
begin

text \<open>
  Whose call it is: which statements give a call its status, which messages reach a call, and that the handlers
  waiting at an approval's callback belong to the call's own connection.
\<close>

section \<open>Who ends a call\<close>

definition ended_by :: "broker \<Rightarrow> nat \<Rightarrow> status option" where
  "ended_by b i = cl_finished_by (call_at b i)"

lemma ended_by_keep [simp]:
  "ended_by (bump k b) i = ended_by b i" "ended_by (spawn j b) i = ended_by b i" "ended_by (suspend j b) i = ended_by b i"
  "ended_by (put_out x b) i = ended_by b i" "ended_by (trim cf r b) i = ended_by b i" "ended_by (sweep cf b) i = ended_by b i"
  "ended_by (taken j b) i = ended_by b i" "ended_by (snd (forget_run r b)) i = ended_by b i" "ended_by (b\<lparr>bk_clock := t\<rparr>) i = ended_by b i"
  "ended_by (b\<lparr>bk_ready := js\<rparr>) i = ended_by b i" "ended_by (b\<lparr>bk_runs := rs\<rparr>) i = ended_by b i"
  "ended_by (b\<lparr>bk_stopped := c, bk_waiting := ws\<rparr>) i = ended_by b i"
  by (simp_all add: ended_by_def call_at_def)

lemma ended_by_change: "i < length (bk_calls b) \<Longrightarrow> (\<And>c. cl_finished_by (f c) = cl_finished_by c) \<Longrightarrow> ended_by (change_call k f b) i = ended_by b i"
  by (simp add: ended_by_def call_at_change)

lemma ended_by_replies:
  assumes "i < length (bk_calls b)"
  shows "ended_by (count_ignored k late b) i = ended_by b i" "ended_by (late_approval k b) i = ended_by b i"
    "ended_by (reject conn m b) i = ended_by b i" "ended_by (resolve k b) i = ended_by b i" "ended_by (flag_event k b) i = ended_by b i"
    "ended_by (notify conn k d s b) i = ended_by b i" "ended_by (abort k b) i = ended_by b i"
  using assms
  by (simp_all add: count_ignored_def late_approval_def reject_def resolve_def flag_event_def notify_def abort_def Let_def
      ended_by_change split: option.split)

lemma ended_by_finish:
  "i < length (bk_calls b) \<Longrightarrow> ended_by (finish cf k st en b) i = (if i = k \<and> \<not> cl_finished (call_at b k) then Some st else ended_by b i)"
  by (auto simp: finish_def close_call_def Let_def ended_by_def call_at_change)

lemma ended_by_close_all:
  "i < length (bk_calls b) \<Longrightarrow> ended_by (close_all cf is st b) i = ended_by b i \<or> ended_by (close_all cf is st b) i = Some st"
proof (induction "is" arbitrary: b)
  case (Cons k ks)
  have "close_all cf (k # ks) st b = close_all cf ks st (finish cf k st bare b)" by (simp add: close_all_def)
  then show ?case using Cons.IH [of "finish cf k st bare b"] Cons.prems by (auto simp: ended_by_finish)
qed (simp add: close_all_def)

text \<open>The device of a call, and messages that name it.\<close>

definition owns :: "device_conn \<Rightarrow> tool_call \<Rightarrow> bool" where
  "owns conn c \<longleftrightarrow> dc_user conn = cl_user_id c \<and> norm_device (dc_device conn) = cl_device_id c"

definition names_call :: "msg \<Rightarrow> tool_call \<Rightarrow> bool" where
  "names_call m c \<longleftrightarrow> field m ''run_id'' = JStr (cl_run_id c)
    \<and> (case field m ''payload'' of JObj d \<Rightarrow> field d ''call_id'' = JStr (cl_call_id c) | _ \<Rightarrow> False)"

lemma owned_call_owns:
  assumes "table_ok cf b" "owned_call b conn r s = Some i"
  shows "i < length (bk_calls b)" "owns conn (call_at b i)" "r = JStr (cl_run_id (call_at b i))" "s = cl_call_id (call_at b i)"
proof -
  obtain rid where r: "r = JStr rid" "call_named b rid s = Some i" "owns conn (call_at b i)"
    using assms(2) by (auto simp: owned_call_def owns_def split: json.splits option.splits if_splits)
  then have "(s, i) \<in> set (run_calls b rid)" by (simp add: call_named_def map_of_SomeD)
  then have "cl_run_id (call_at b i) = rid \<and> cl_call_id (call_at b i) = s" using assms(1) unfolding table_ok_def named_def by blast
  then show "i < length (bk_calls b)" "owns conn (call_at b i)" "r = JStr (cl_run_id (call_at b i))" "s = cl_call_id (call_at b i)"
    using r owned_call_below [OF table_addressed [OF assms(1)] assms(2)] by simp_all
qed

lemma owned_by_message_owns:
  assumes "table_ok cf b" "owned_by_message b conn m ok = Some i"
  shows "i < length (bk_calls b)" "owns conn (call_at b i)" "names_call m (call_at b i)"
proof -
  obtain d s where d: "field m ''payload'' = JObj d" "field d ''call_id'' = JStr s" "owned_call b conn (field m ''run_id'') s = Some i"
    using assms(2) by (auto simp: owned_by_message_def call_id_of_def split: option.splits json.splits if_splits)
  show "i < length (bk_calls b)" "owns conn (call_at b i)" "names_call m (call_at b i)"
    using owned_call_owns [OF assms(1) d(3)] d(1,2) by (simp_all add: names_call_def)
qed

lemma result_fields_payload:
  "result_fields_of p = Some rf \<Longrightarrow> \<exists>d. p = JObj d \<and> field d ''call_id'' = JStr (rf_call_id rf)"
  by (auto simp: result_fields_of_def split: json.splits if_splits)

text \<open>A handler at the callback of an approval is the handler of the call's own connection.\<close>

definition reporters_own :: "broker \<Rightarrow> bool" where
  "reporters_own b \<longleftrightarrow> (\<forall>conn k d. Reporting conn k d \<in> set (bk_waiting b) \<longrightarrow> k < length (bk_calls b) \<and> conn = cl_conn (call_at b k) \<and> owns conn (call_at b k))"

definition reports_of :: "broker \<Rightarrow> job set" where
  "reports_of b = {j \<in> set (bk_waiting b). \<exists>conn k d. j = Reporting conn k d}"

lemma reports_finish: "reports_of (finish cf k st en b) = reports_of b"
  by (auto simp: reports_of_def finish_def close_call_def Let_def timer_of_def)

lemma reports_close_all: "reports_of (close_all cf is st b) = reports_of b"
  unfolding close_all_def by (induction "is" arbitrary: b) (simp_all add: reports_finish)

lemma reports_keep [simp]:
  "reports_of (bump k b) = reports_of b" "reports_of (spawn j b) = reports_of b" "reports_of (put_out x b) = reports_of b"
  "reports_of (change_call i f b) = reports_of b" "reports_of (count_ignored i late b) = reports_of b" "reports_of (late_approval i b) = reports_of b"
  "reports_of (reject conn m b) = reports_of b" "reports_of (resolve i b) = reports_of b" "reports_of (flag_event i b) = reports_of b"
  by (simp_all add: reports_of_def count_ignored_def late_approval_def reject_def resolve_def flag_event_def)

lemma reports_abort: "reports_of (abort i b) = reports_of b"
  by (simp add: abort_def Let_def reports_of_def)

lemma reports_suspend: "(\<And>conn k d. j \<noteq> Reporting conn k d) \<Longrightarrow> reports_of (suspend j b) = reports_of b"
  by (auto simp: reports_of_def)

lemma reports_taken: "reports_of (taken j b) \<subseteq> reports_of b"
  by (auto simp: reports_of_def dest: set_remove1_subset [THEN subsetD])

lemma reports_message: "reports_of (handle_tool_result cf conn m b) = reports_of b"
  "reports_of (handle_tool_stream cf conn m b) = reports_of b"
  by (auto simp: handle_tool_result_def handle_tool_stream_def Let_def reports_finish reports_suspend split: option.split prod.split)

lemma reports_approval:
  assumes "table_ok cf b" "j \<in> reports_of (handle_approval cf conn m b)" "j \<notin> reports_of b"
  shows "\<exists>k d. j = Reporting conn k d \<and> k < length (bk_calls b) \<and> conn = cl_conn (call_at b k) \<and> owns conn (call_at b k)"
proof -
  define who where "who = owned_by_message b conn m (\<lambda>d. one_of (field d ''decision'') DECISIONS \<and> one_of (field d ''scope'') SCOPES)"
  obtain i where i: "who = Some i"
    using assms(2,3) by (cases who) (auto simp: handle_approval_def who_def [symmetric])
  note own = owned_by_message_owns [OF assms(1) i [unfolded who_def]]
  have "j \<in> reports_of (notify conn i x y b1) \<Longrightarrow> reports_of b1 = reports_of b \<Longrightarrow> \<exists>d. j = Reporting conn i d" for x y b1
    using assms(3) by (auto simp: notify_def reports_of_def)
  then have "(\<exists>d. j = Reporting conn i d) \<and> \<not> on_other_connection b i conn"
    using assms(2,3) by (auto simp: handle_approval_def who_def [symmetric] i Let_def reports_finish simp del: ex_simps split: if_splits)
  then show ?thesis using own by (auto simp: on_other_connection_def)
qed

lemma step_identity:
  assumes "reachable_broker cf b" "step cf a b = Some b'" "i < length (bk_calls b)"
  shows "identity_of (call_at b' i) = identity_of (call_at b i)" "i < length (bk_calls b')"
  using lives_step [OF reachable_lives [OF assms(1)] assms(2,3)] assms(3) by (simp_all add: lives_def)

lemma reports_step:
  assumes "table_ok cf b" "step cf a b = Some b'" "\<And>conn m. a \<noteq> Approval conn m"
  shows "reports_of b' \<subseteq> reports_of b"
proof (cases a)
  case (Propose pr found)
  have "reports_of (snd (propose cf pr found b)) = reports_of b" using propose_cases [of cf pr found b] by (auto simp: reports_of_def starts_def)
  then show ?thesis using Propose assms(2) by auto
next
  case Run_task
  then obtain j js where j: "b' = run_job j (b\<lparr>bk_ready := js\<rparr>)" using assms(2) by (auto split: list.splits)
  have "reports_of (run_job j b1) = reports_of b1" for b1 by (cases j) (simp_all add: reports_suspend)
  moreover have "reports_of (b\<lparr>bk_ready := js\<rparr>) = reports_of b" by (simp add: reports_of_def)
  ultimately show ?thesis unfolding j by simp
next
  case (Resume j went found)
  then have r: "resume_job cf j went found (taken j b) = Some b'" using assms(2) by (auto simp: taken_def split: if_splits)
  have "reports_of b' = reports_of (taken j b)"
    using r by (cases j) (auto simp: opened_call_def announced_def Let_def reports_abort reports_suspend reports_finish split: if_splits option.splits)
  then show ?thesis using reports_taken by blast
next
  case (Reader_stops conn)
  then show ?thesis using assms(2) by (auto simp: reports_of_def)
next
  case (Forget_run r)
  then show ?thesis using assms(2) by (auto simp: reports_of_def)
next
  case (Time_passes d)
  then show ?thesis using assms(2) by (auto simp: reports_of_def)
qed (use assms in \<open>auto simp: reports_message reports_close_all cancel_all_def on_run_disconnect_def on_connection_closed_def
    split: if_splits\<close>)

lemma reporters_step:
  assumes "reachable_broker cf b" "reporters_own b" "step cf a b = Some b'"
  shows "reporters_own b'"
  unfolding reporters_own_def
proof (intro allI impI)
  fix conn k d assume j: "Reporting conn k d \<in> set (bk_waiting b')"
  have t: "table_ok cf b" using reachable_table_ok [OF assms(1)] .
  have "k < length (bk_calls b) \<and> conn = cl_conn (call_at b k) \<and> owns conn (call_at b k)"
  proof (cases "Reporting conn k d \<in> reports_of b")
    case True
    then show ?thesis using assms(2) by (auto simp: reporters_own_def reports_of_def)
  next
    case False
    have j': "Reporting conn k d \<in> reports_of b'" using j by (auto simp: reports_of_def)
    then obtain conn' m where a: "a = Approval conn' m" using reports_step [OF t assms(3)] False by blast
    then have "b' = handle_approval cf conn' m b" using assms(3) by (simp split: if_splits)
    then show ?thesis using reports_approval [OF t, of "Reporting conn k d" conn' m] j' False by auto
  qed
  then show "k < length (bk_calls b') \<and> conn = cl_conn (call_at b' k) \<and> owns conn (call_at b' k)"
    using step_identity [OF assms(1,3), of k] by (auto simp: owns_def dest: identity_parts)
qed

lemma reachable_reporters: "reachable_broker cf b \<Longrightarrow> reporters_own b"
proof (induction rule: reachable_broker.induct)
  case (start now b)
  then show ?case by (auto simp: new_broker_def reporters_own_def split: if_splits)
qed (rule reporters_step)

end
