(* ===== verification/BrokerProtocol.thy ===== *)
theory BrokerProtocol
  imports BrokerOwners
begin

text \<open>
  The protocol a call keeps to: the phases it goes through and what is emitted in each, that the first outcome
  stands, that every call can end by the loop's own steps, and that the table stays bounded.
\<close>

section \<open>The protocol of a call\<close>

datatype phase = In_flight | Withdrawn | Ended status | Told status | Settled outcome

fun tells :: "nat \<Rightarrow> sent \<Rightarrow> bool" where
  "tells i (Emits k t p) = (k = i \<and> t = ''run_event'')"
| "tells i _ = False"

definition phase_of :: "broker \<Rightarrow> nat \<Rightarrow> phase" where
  "phase_of b i =
    (let c = call_at b i in
     case cl_done c of
       Answered oc \<Rightarrow> Settled oc
     | Not_proposed \<Rightarrow> Withdrawn
     | Pending \<Rightarrow>
         (case cl_finished_by c of
            None \<Rightarrow> In_flight
          | Some st \<Rightarrow> if \<exists>x \<in> set (bk_outputs b). tells i x then Told st else Ended st))"

inductive follows :: "phase \<Rightarrow> phase \<Rightarrow> bool" where
  withdraw: "follows In_flight Withdrawn"
| ends: "follows In_flight (Ended st)"
| tell: "follows (Ended st) (Told st)"
| settle: "oc_status oc = st \<Longrightarrow> follows (Told st) (Settled oc)"

fun phase_in :: "view \<Rightarrow> nat \<Rightarrow> phase" where
  "phase_in ((fin, by_whom, at, oc, Answered oc'), rs, ws, em) i = Settled oc'"
| "phase_in ((fin, by_whom, at, oc, Not_proposed), rs, ws, em) i = Withdrawn"
| "phase_in ((fin, None, at, oc, Pending), rs, ws, em) i = In_flight"
| "phase_in ((fin, Some st, at, oc, Pending), rs, ws, em) i = (if \<exists>x \<in> set em. tells i x then Told st else Ended st)"

lemma tells_emission: "tells i x \<Longrightarrow> emission i x"
  by (cases x) auto

lemma phase_of_view: "phase_of b i = phase_in (view_of b i) i"
proof -
  have "(\<exists>x \<in> set (bk_outputs b). tells i x) \<longleftrightarrow> (\<exists>x \<in> set (filter (emission i) (bk_outputs b)). tells i x)"
    by (auto dest: tells_emission)
  then show ?thesis
    by (auto simp: phase_of_def view_of_def essence_of_def Let_def split: answer.split option.split)
qed

lemma phase_steps: "alive call_id tool i v \<Longrightarrow> life_step call_id tool i v v' \<Longrightarrow> phase_in v' i = phase_in v i \<or> follows (phase_in v i) (phase_in v' i)"
  by (erule alive.cases; erule life_step.cases) (auto intro: follows.intros)

lemma alive_at: "reachable_broker cf b \<Longrightarrow> i < length (bk_calls b) \<Longrightarrow> alive (cl_call_id (call_at b i)) (cl_tool (call_at b i)) i (view_of b i)"
  using reachable_lives by (auto simp: well_lived_def)

lemma life_of_step:
  assumes "reachable_broker cf b" "step cf a b = Some b'" "i < length (bk_calls b)"
  shows "life_step (cl_call_id (call_at b i)) (cl_tool (call_at b i)) i (view_of b i) (view_of b' i)"
  using lives_step [OF reachable_lives [OF assms(1)] assms(2,3)] by (simp add: lives_def)

text \<open>C13: A new call is in flight. A step leaves a call in its phase or takes it to the next one: in flight, then withdrawn
  (its proposal was never emitted) or ended with a status; then \<open>tool_finished\<close> is emitted; then the waiters get an
  outcome with that status.\<close>

theorem every_call_keeps_to_the_protocol:
  assumes "reachable_broker cf b" "step cf a b = Some b'" "i < length (bk_calls b')"
  shows "if i < length (bk_calls b) then phase_of b' i = phase_of b i \<or> follows (phase_of b i) (phase_of b' i)
    else phase_of b' i = In_flight"
proof (cases "i < length (bk_calls b)")
  case True
  then show ?thesis
    using phase_steps [OF alive_at [OF assms(1) True] life_of_step [OF assms(1,2) True]] by (simp add: phase_of_view)
next
  case False
  then have st: "starts b b'" and i: "i = length (bk_calls b)"
    using step_length [OF assms(2)] assms(3) by (auto simp: starts_length)
  have "addressed b" using reachable_lives [OF assms(1)] by (simp add: well_lived_def)
  then obtain p t where "view_of b' i = ((False, None, None, None, Pending), [Open i p t], [], [])" using starts_view st i by blast
  then show ?thesis using False by (simp add: phase_of_view)
qed

text \<open>C14: Whatever is emitted of a call begins with its proposal and ends with one \<open>tool_finished\<close> that names it, its tool,
  status and duration: an answered call has both, a call whose proposal failed only the proposal, and nothing is
  emitted twice.\<close>

theorem every_call_ends_once:
  assumes "reachable_broker cf b" "i < length (bk_calls b)"
  shows "let c = call_at b i; em = filter (emission i) (bk_outputs b); ending = (\<lambda>oc. Emits i ''run_event'' (finish_notice (cl_call_id c) (cl_tool c) oc))
    in case cl_done c of
      Answered oc \<Rightarrow> oc_call_id oc = cl_call_id c \<and> cl_finished_by c = Some (oc_status oc) \<and> (\<exists>p. em = [Emits i ''tool_proposed'' p, ending oc])
    | Not_proposed \<Rightarrow> \<exists>p. em = [Emits i ''tool_proposed'' p]
    | Pending \<Rightarrow> em = [] \<or> (\<exists>p. em = [Emits i ''tool_proposed'' p])
        \<or> (\<exists>p oc. cl_outcome c = Some oc \<and> em = [Emits i ''tool_proposed'' p, ending oc])"
  using alive_at [OF assms(1,2)] by (rule alive.cases) (auto simp: view_of_def essence_of_def Let_def)

definition sealed :: "essence \<Rightarrow> essence \<Rightarrow> bool" where
  "sealed e e' \<longleftrightarrow> (case (e, e') of ((fin, by_, at, oc, d), (fin', by', at', oc', d')) \<Rightarrow>
     (by_ \<noteq> None \<longrightarrow> by' = by_ \<and> at' = at \<and> (oc' = oc \<or> oc' = map_option flagged oc)) \<and> (d \<noteq> Pending \<longrightarrow> d' = d \<and> oc' = oc))"

lemma flagged_flagged [simp]: "flagged (flagged oc) = flagged oc"
  by (simp add: flagged_def)

lemma sealed_refl: "sealed e e"
  by (auto simp: sealed_def split: prod.splits)

lemma sealed_trans: "sealed e e' \<Longrightarrow> sealed e' e'' \<Longrightarrow> sealed e e''"
  by (auto simp: sealed_def option.map_comp comp_def split: prod.splits)

lemma sealed_step: "alive call_id tool i v \<Longrightarrow> life_step call_id tool i v v' \<Longrightarrow> sealed (fst v) (fst v')"
  by (erule alive.cases; erule life_step.cases) (auto simp: sealed_def)

lemma sealed_run:
  "reachable_broker cf b \<Longrightarrow> run_actions cf as b = Some b' \<Longrightarrow> i < length (bk_calls b) \<Longrightarrow>
    sealed (essence_of (call_at b i)) (essence_of (call_at b' i)) \<and> identity_of (call_at b' i) = identity_of (call_at b i) \<and> i < length (bk_calls b')"
proof (induction "as" arbitrary: b)
  case Nil
  then show ?case by (simp add: sealed_refl)
next
  case (Cons a as)
  then obtain b1 where b1: "step cf a b = Some b1" "run_actions cf as b1 = Some b'" by (auto split: option.splits)
  have r: "reachable_broker cf b1" using Cons.prems(1) b1(1) by (rule reachable_broker.step)
  have s: "sealed (essence_of (call_at b i)) (essence_of (call_at b1 i))"
    using sealed_step [OF alive_at [OF Cons.prems(1,3)] life_of_step [OF Cons.prems(1) b1(1) Cons.prems(3)]] by (simp add: view_of_def)
  show ?case
    using Cons.IH [OF r b1(2)] step_identity [OF Cons.prems(1) b1(1) Cons.prems(3)] s by (auto intro: sealed_trans)
qed

text \<open>C15: The first outcome of a call is its only one: whatever happens later, the status stays, the outcome stays but for the
  mark that its event failed, and what the waiters got stays as it is.\<close>

theorem the_first_outcome_stands:
  assumes "reachable_broker cf b" "run_actions cf as b = Some b'" "i < length (bk_calls b)"
    and "cl_outcome (call_at b i) = Some oc"
  shows "cl_finished_by (call_at b' i) = Some (oc_status oc)
    \<and> (cl_outcome (call_at b' i) = Some oc \<or> cl_outcome (call_at b' i) = Some (flagged oc))
    \<and> (cl_done (call_at b i) = Answered oc \<longrightarrow> cl_done (call_at b' i) = Answered oc)"
proof -
  have "cl_finished_by (call_at b i) = Some (oc_status oc)"
    using alive_at [OF assms(1,3)] assms(4) by (cases rule: alive.cases) (auto simp: view_of_def essence_of_def)
  then show ?thesis using sealed_run [OF assms(1-3)] assms(4) by (auto simp: sealed_def essence_of_def)
qed

section \<open>Every call can end\<close>

text \<open>Steps the loop takes by itself; \<open>w\<close> is how each await ends.\<close>

fun own_step :: "(job \<Rightarrow> bool \<times> device_conn option) \<Rightarrow> action \<Rightarrow> bool" where
  "own_step w Run_task = True"
| "own_step w (Resume j went found) = (w j = (went, found))"
| "own_step w (Time_passes d) = True"
| "own_step w _ = False"

definition settles :: "broker_settings \<Rightarrow> (job \<Rightarrow> bool \<times> device_conn option) \<Rightarrow> nat \<Rightarrow> nat \<Rightarrow> broker \<Rightarrow> bool" where
  "settles cf w n i b \<longleftrightarrow> (\<exists>as b'. run_actions cf as b = Some b' \<and> list_all (own_step w) as \<and> length as \<le> n \<and> cl_done (call_at b' i) \<noteq> Pending)"

lemma settled: "cl_done (call_at b i) \<noteq> Pending \<Longrightarrow> settles cf w n i b"
  unfolding settles_def by (intro exI [of _ "[]"] exI [of _ b]) simp

lemma settles_mono: "settles cf w n i b \<Longrightarrow> n \<le> m \<Longrightarrow> settles cf w m i b"
  by (auto simp: settles_def intro: order_trans)

lemma settles_after: "step cf a b = Some b' \<Longrightarrow> own_step w a \<Longrightarrow> settles cf w n i b' \<Longrightarrow> settles cf w (Suc n) i b"
  unfolding settles_def
proof (elim exE conjE)
  fix as b'' assume a: "step cf a b = Some b'" "own_step w a" "run_actions cf as b' = Some b''" "list_all (own_step w) as" "length as \<le> n"
    "cl_done (call_at b'' i) \<noteq> Pending"
  show "\<exists>as b'. run_actions cf as b = Some b' \<and> list_all (own_step w) as \<and> length as \<le> Suc n \<and> cl_done (call_at b' i) \<noteq> Pending"
    by (intro exI [of _ "a # as"] exI [of _ b'']) (use a in simp)
qed

lemma settles_resume:
  assumes "j \<in> set (bk_waiting b)" "resume_job cf j (fst (w j)) (snd (w j)) (taken j b) = Some b'" "settles cf w n i b'"
  shows "settles cf w (Suc n) i b"
proof (rule settles_after)
  show "step cf (Resume j (fst (w j)) (snd (w j))) b = Some b'" using assms(1,2) by (simp add: taken_def)
qed (use assms(3) in simp_all)

lemma alive_idle:
  "alive call_id tool i ((fin, who, at, oc, d), [], ws, em) \<Longrightarrow> d \<noteq> Pending \<or> Sending_error i \<in> set ws \<or> Announcing i \<in> set ws
    \<or> (\<exists>u. Sleeping i u \<in> set ws) \<or> (\<exists>t. Opening i t \<in> set ws \<and> \<not> fin)"
  by (elim aliveE) auto

lemma at_address: "reachable_broker cf b \<Longrightarrow> j \<in> set (bk_waiting b) \<Longrightarrow> about i j \<Longrightarrow> i < length (bk_calls b)"
  using reachable_lives [of cf b] about_call [of i j] by (auto simp: well_lived_def addressed_def)

lemma settles_warning:
  assumes "reachable_broker cf b" "Sending_error i \<in> set (bk_waiting b)"
  shows "settles cf w 1 i b"
proof -
  have i: "i < length (bk_calls b)" using at_address [OF assms] by simp
  obtain oc where "cl_outcome (call_at b i) = Some oc"
    using alive_sending_error [OF alive_at [OF assms(1) i, unfolded view_of_def]] assms(2) by (auto simp: essence_of_def)
  then have "cl_done (call_at (resolve i (taken (Sending_error i) b)) i) \<noteq> Pending" using i by (simp add: resolve_def call_at_change)
  then show ?thesis using settles_resume [OF assms(2) _ settled, of cf w _ i 0] by simp
qed

lemma settles_telling:
  assumes "reachable_broker cf b" "Announcing i \<in> set (bk_waiting b)"
  shows "settles cf w 2 i b"
proof -
  let ?j = "Announcing i"
  let ?b' = "announced i (fst (w ?j)) (snd (w ?j)) (taken ?j b)"
  have i: "i < length (bk_calls b)" using at_address [OF assms] by simp
  have st: "step cf (Resume ?j (fst (w ?j)) (snd (w ?j))) b = Some ?b'" using assms(2) by (simp add: taken_def)
  then have r: "reachable_broker cf ?b'" using assms(1) by (rule reachable_broker.step [rotated])
  obtain oc where oc: "cl_outcome (call_at b i) = Some oc"
    using alive_announcing [OF alive_at [OF assms(1) i, unfolded view_of_def]] assms(2) by (auto simp: essence_of_def)
  have "cl_done (call_at ?b' i) \<noteq> Pending \<or> Sending_error i \<in> set (bk_waiting ?b')"
    using i oc by (auto simp: announced_def Let_def resolve_def flag_event_def call_at_change split: option.split)
  then have "settles cf w 1 i ?b'" using settled settles_warning [OF r] by blast
  then show ?thesis using settles_resume [OF assms(2), of cf w ?b' 1] by (simp add: numeral_2_eq_2)
qed

lemma settles_run:
  assumes "bk_ready b = [j]" "settles cf w n i (run_job j (b\<lparr>bk_ready := []\<rparr>))"
  shows "settles cf w (Suc n) i b"
  by (rule settles_after [of cf Run_task]) (use assms in simp_all)

lemma reachable_run_job: "reachable_broker cf b \<Longrightarrow> bk_ready b = [j] \<Longrightarrow> reachable_broker cf (run_job j (b\<lparr>bk_ready := []\<rparr>))"
  by (erule reachable_broker.step [where a = Run_task]) simp

lemma settles_ended: "reachable_broker cf b \<Longrightarrow> bk_ready b = [Announce i] \<Longrightarrow> settles cf w 3 i b"
  using settles_run [of b "Announce i" cf w 2 i] settles_telling [OF reachable_run_job, of cf b "Announce i" i w] by (simp add: numeral_3_eq_3)

lemma settles_asleep:
  assumes "reachable_broker cf b" "bk_ready b = []" "Sleeping i u \<in> set (bk_waiting b)"
  shows "settles cf w 5 i b"
proof -
  let ?b1 = "b\<lparr>bk_clock := bk_clock b + (u - bk_clock b)\<rparr>"
  let ?j = "Sleeping i u"
  have i: "i < length (bk_calls b)" using at_address [OF assms(1,3)] by simp
  have st1: "step cf (Time_passes (u - bk_clock b)) b = Some ?b1" by simp
  have r1: "reachable_broker cf ?b1" using assms(1) st1 by (rule reachable_broker.step)
  let ?b2 = "finish cf i Timed_out bare (taken ?j ?b1)"
  have re: "resume_job cf ?j (fst (w ?j)) (snd (w ?j)) (taken ?j ?b1) = Some ?b2" by (simp add: taken_def)
  then have st2: "step cf (Resume ?j (fst (w ?j)) (snd (w ?j))) ?b1 = Some ?b2" using assms(3) by (simp add: taken_def)
  have r2: "reachable_broker cf ?b2" using r1 st2 by (rule reachable_broker.step)
  have "\<not> cl_finished (call_at b i)"
    using alive_sleeping [OF alive_at [OF assms(1) i, unfolded view_of_def]] assms(3) by (auto simp: essence_of_def)
  then have "bk_ready ?b2 = [Announce i]" using assms(2) by (simp add: finish_def close_call_def Let_def taken_def call_at_def)
  then have "settles cf w 3 i ?b2" by (rule settles_ended [OF r2])
  then have "settles cf w 4 i ?b1" using settles_after [OF st2, of w 3 i] by (simp add: eval_nat_numeral)
  then show ?thesis using settles_after [OF st1, of w 4 i] by (simp add: eval_nat_numeral)
qed

lemma settles_timing: "reachable_broker cf b \<Longrightarrow> bk_ready b = [Expire i t] \<Longrightarrow> settles cf w 6 i b"
proof -
  assume b: "reachable_broker cf b" "bk_ready b = [Expire i t]"
  have "settles cf w 5 i (run_job (Expire i t) (b\<lparr>bk_ready := []\<rparr>))"
    by (rule settles_asleep [OF reachable_run_job [OF b], of i "bk_clock b + t"]) simp_all
  then show "settles cf w 6 i b" using settles_run [OF b(2), of cf w 5 i] by (simp add: eval_nat_numeral)
qed

lemma settles_asking:
  assumes "reachable_broker cf b" "bk_ready b = []" "Opening i t \<in> set (bk_waiting b)" "\<not> cl_finished (call_at b i)"
  shows "settles cf w 7 i b"
proof -
  let ?j = "Opening i t"
  let ?b1 = "opened_call i t (fst (w ?j)) (taken ?j b)"
  have i: "i < length (bk_calls b)" using at_address [OF assms(1,3)] by simp
  have st: "step cf (Resume ?j (fst (w ?j)) (snd (w ?j))) b = Some ?b1" using assms(3) by (simp add: taken_def)
  have r: "reachable_broker cf ?b1" using assms(1) st by (rule reachable_broker.step)
  have "cl_done (call_at ?b1 i) \<noteq> Pending \<or> bk_ready ?b1 = [Expire i t]"
    using i assms(2,4) by (auto simp: opened_call_def abort_def Let_def call_at_change)
  then have "settles cf w 6 i ?b1" using settled settles_timing [OF r] by blast
  then show ?thesis using settles_resume [OF assms(3), of cf w ?b1 6] by (simp add: eval_nat_numeral)
qed

lemma settles_idle:
  assumes "reachable_broker cf b" "bk_ready b = []" "i < length (bk_calls b)"
  shows "settles cf w 7 i b"
proof -
  have "cl_done (call_at b i) \<noteq> Pending \<or> Sending_error i \<in> set (bk_waiting b) \<or> Announcing i \<in> set (bk_waiting b)
    \<or> (\<exists>u. Sleeping i u \<in> set (bk_waiting b)) \<or> (\<exists>t. Opening i t \<in> set (bk_waiting b) \<and> \<not> cl_finished (call_at b i))"
    using alive_idle [OF alive_at [OF assms(1,3), unfolded view_of_def essence_of_def, simplified assms(2) filter.simps]] by auto
  then show ?thesis
    by (elim disjE exE conjE)
      (simp_all add: settled settles_asking [OF assms(1,2)] settles_mono [OF settles_warning [OF assms(1)]]
        settles_mono [OF settles_telling [OF assms(1)]] settles_mono [OF settles_asleep [OF assms(1,2)]])
qed

lemma settles_ready:
  "reachable_broker cf b \<Longrightarrow> i < length (bk_calls b) \<Longrightarrow> settles cf w (length (bk_ready b) + 7) i b"
proof (induction "length (bk_ready b)" arbitrary: b)
  case 0
  then show ?case using settles_idle by simp
next
  case (Suc n)
  then obtain j js where j: "bk_ready b = j # js" by (cases "bk_ready b") auto
  let ?b = "run_job j (b\<lparr>bk_ready := js\<rparr>)"
  have st: "step cf Run_task b = Some ?b" using j by simp
  have r: "reachable_broker cf ?b" using Suc.prems(1) st by (rule reachable_broker.step)
  have "bk_ready ?b = js \<and> length (bk_calls ?b) = length (bk_calls b)" by (cases j) simp_all
  then have "settles cf w (n + 7) i ?b" using Suc.hyps(1) [of ?b] Suc.hyps(2) r Suc.prems(2) j by simp
  then have "settles cf w (Suc (n + 7)) i b" by (intro settles_after [OF st]) simp_all
  then show ?case unfolding Suc.hyps(2) [symmetric] by simp
qed

text \<open>C19: However the awaits of the loop end, at most seven steps of the loop beyond its queue, no message of a device among
  them, bring any call to its end: nobody has to answer for the waiters to wake.\<close>

theorem every_call_can_end:
  assumes "reachable_broker cf b" "i < length (bk_calls b)"
  shows "\<exists>as b'. run_actions cf as b = Some b' \<and> list_all (own_step w) as \<and> length as \<le> length (bk_ready b) + 7
    \<and> cl_done (call_at b' i) \<noteq> Pending"
  using settles_ready [OF assms] by (simp add: settles_def)

text \<open>C21: A run never has more calls in flight than the settings allow, nor more calls in the table than those and the
  retained ones.\<close>

theorem the_table_stays_bounded:
  assumes "reachable_broker cf b"
  shows "in_flight b run_id \<le> bs_max_in_flight cf
    \<and> length (run_calls b run_id) \<le> bs_max_in_flight cf + bs_max_retained cf"
proof -
  have t: "in_flight b run_id \<le> bs_max_in_flight cf" "kept b run_id \<le> bs_max_retained cf"
    using reachable_table_ok [OF assms] by (simp_all add: table_ok_def)
  have "length (run_calls b run_id) = kept b run_id + in_flight b run_id"
    unfolding kept_def in_flight_filter by (simp add: sum_length_filter_compl)
  then show ?thesis using t by simp
qed

end
