(* ===== verification/BrokerGuarantees.thy ===== *)
theory BrokerGuarantees
  imports BrokerProtocol
begin

text \<open>
  Who may end a call and what its outcome says: only the events of its own device, run and timer give a call its
  status, a message changes no call but its own, a denied call returns no result, an outcome is well formed.
\<close>

section \<open>Who may end a call\<close>

definition denies :: "msg \<Rightarrow> bool" where
  "denies m \<longleftrightarrow> field (as_dict (field m ''payload'')) ''decision'' = JStr ''deny''"

definition reported_status :: "msg \<Rightarrow> status option" where
  "reported_status m = map_option (\<lambda>rf. if rf_ok rf then Went_ok else Went_wrong) (result_fields_of (field m ''payload''))"

definition may_end :: "action \<Rightarrow> broker \<Rightarrow> nat \<Rightarrow> status \<Rightarrow> bool" where
  "may_end a b i st \<longleftrightarrow>
    (let c = call_at b i in
     case a of
       Tool_result conn m \<Rightarrow> owns conn c \<and> names_call m c
         \<and> (if conn = cl_conn c then reported_status m = Some st else st = Disconnected)
     | Approval conn m \<Rightarrow> owns conn c \<and> names_call m c \<and> (if conn = cl_conn c then denies m \<and> st = Denied else st = Disconnected)
     | Resume (Sleeping k u) _ _ \<Rightarrow> k = i \<and> u \<le> bk_clock b \<and> st = Timed_out
     | Resume (Reporting conn k denied) _ _ \<Rightarrow> k = i \<and> denied \<and> conn = cl_conn c \<and> owns conn c \<and> st = Denied
     | Cancel_run r \<Rightarrow> cl_run_id c = r \<and> st = Cancelled
     | Run_disconnects conn r \<Rightarrow> cl_run_id c = r \<and> owns conn c \<and> st = Disconnected
     | Connection_closes conn \<Rightarrow> conn = cl_conn c \<and> st = Disconnected
     | _ \<Rightarrow> False)"

lemma same_essence: "same_call i b b' \<Longrightarrow> ended_by b' i = ended_by b i"
  by (simp add: same_call_def view_of_def essence_of_def ended_by_def)

lemma ended_by_result:
  assumes "table_ok cf b" "i < length (bk_calls b)" "ended_by (handle_tool_result cf conn m b) i \<noteq> ended_by b i"
  shows "\<exists>st. ended_by (handle_tool_result cf conn m b) i = Some st \<and> may_end (Tool_result conn m) b i st"
proof -
  obtain rf where rf: "result_fields_of (field m ''payload'') = Some rf"
    using assms by (cases "result_fields_of (field m ''payload'')") (auto simp: handle_tool_result_def ended_by_replies)
  obtain k where k: "owned_call b conn (field m ''run_id'') (rf_call_id rf) = Some k"
    using assms by (cases "owned_call b conn (field m ''run_id'') (rf_call_id rf)") (auto simp: handle_tool_result_def rf ended_by_replies)
  note own = owned_call_owns [OF assms(1) k]
  have names: "names_call m (call_at b k)" using result_fields_payload [OF rf] own(3,4) by (auto simp: names_call_def)
  show ?thesis
    using assms(2,3) own(2) names
    by (auto simp: handle_tool_result_def rf k ended_by_replies ended_by_finish may_end_def reported_status_def Let_def on_other_connection_def
        split: if_splits prod.splits)
qed

lemma ended_by_approval:
  assumes "table_ok cf b" "i < length (bk_calls b)" "ended_by (handle_approval cf conn m b) i \<noteq> ended_by b i"
  shows "\<exists>st. ended_by (handle_approval cf conn m b) i = Some st \<and> may_end (Approval conn m) b i st"
proof -
  define who where "who = owned_by_message b conn m (\<lambda>d. one_of (field d ''decision'') DECISIONS \<and> one_of (field d ''scope'') SCOPES)"
  obtain k where k: "who = Some k"
    using assms by (cases who) (auto simp: handle_approval_def who_def [symmetric] ended_by_replies)
  note own = owned_by_message_owns [OF assms(1) k [unfolded who_def]]
  have d: "one_of (field (as_dict (field m ''payload'')) ''decision'') DECISIONS"
    using k by (auto simp: who_def owned_by_message_def call_id_of_def as_dict_def split: option.splits json.splits if_splits)
  then have deny: "str_or [] (field (as_dict (field m ''payload'')) ''decision'') = ''deny'' \<Longrightarrow> denies m"
    by (auto simp: one_of_def denies_def str_or_def split: json.splits)
  show ?thesis
    using assms(2,3) own(2,3) deny
    by (auto simp: handle_approval_def who_def [symmetric] k Let_def ended_by_replies ended_by_finish ended_by_change may_end_def on_other_connection_def
        split: if_splits)
qed

lemma ended_by_stream: "i < length (bk_calls b) \<Longrightarrow> ended_by (handle_tool_stream cf conn m b) i = ended_by b i"
  by (auto simp: handle_tool_stream_def Let_def ended_by_replies ended_by_change split: option.split)

lemma ended_by_close_all_in:
  "i < length (bk_calls b) \<Longrightarrow> ended_by (close_all cf is st b) i \<noteq> ended_by b i \<Longrightarrow> ended_by (close_all cf is st b) i = Some st \<and> i \<in> set is"
proof (induction "is" arbitrary: b)
  case (Cons k ks)
  have "close_all cf (k # ks) st b = close_all cf ks st (finish cf k st bare b)" by (simp add: close_all_def)
  then show ?case
    using Cons.IH [of "finish cf k st bare b"] Cons.prems ended_by_finish [of i b cf k st bare] ended_by_close_all [of i "finish cf k st bare b" cf ks st]
    by (cases "i = k") auto
qed (simp add: close_all_def)

lemma pending_run: "table_ok cf b \<Longrightarrow> i \<in> set (pending b (Some r)) \<Longrightarrow> cl_run_id (call_at b i) = r"
  by (auto simp: pending_def pending_in_def table_ok_def named_def)

lemma ended_by_run_job: "ended_by (run_job j b) i = ended_by b i"
  by (cases j) simp_all

lemma ended_by_resume:
  assumes "i < length (bk_calls b)" "resume_job cf j went found b = Some b'" "ended_by b' i \<noteq> ended_by b i"
  shows "(\<exists>u. j = Sleeping i u \<and> u \<le> bk_clock b \<and> ended_by b' i = Some Timed_out)
    \<or> (\<exists>conn. j = Reporting conn i True \<and> ended_by b' i = Some Denied)"
  using assms
  by (cases j) (auto simp: opened_call_def announced_def Let_def ended_by_replies ended_by_finish split: if_splits option.splits)

lemma only_its_own_events_end_a_call_at:
  assumes "reachable_broker cf b" "step cf a b = Some b'" "i < length (bk_calls b)"
    and "cl_finished_by (call_at b i) = None" "cl_finished_by (call_at b' i) = Some st"
  shows "may_end a b i st"
proof -
  have t: "table_ok cf b" using reachable_table_ok [OF assms(1)] .
  have e: "ended_by b' i \<noteq> ended_by b i" "ended_by b' i = Some st" using assms(4,5) by (simp_all add: ended_by_def)
  show ?thesis
  proof (cases a)
    case (Propose pr found)
    then have "ended_by b' i = ended_by b i"
      using propose_cases [of cf pr found b] assms(2,3) by (auto simp: ended_by_def starts_def call_at_def nth_append)
    then show ?thesis using e by simp
  next
    case Run_task
    then show ?thesis using assms(2) e by (auto simp: ended_by_run_job split: list.splits)
  next
    case (Resume j went found)
    then have r: "resume_job cf j went found (taken j b) = Some b'" "j \<in> set (bk_waiting b)" using assms(2) by (auto simp: taken_def split: if_splits)
    have "bk_clock (taken j b) = bk_clock b" by (simp add: taken_def)
    moreover have "conn = cl_conn (call_at b k) \<and> owns conn (call_at b k)" if "Reporting conn k d \<in> set (bk_waiting b)" for conn k d
      using reachable_reporters [OF assms(1)] that unfolding reporters_own_def by blast
    ultimately show ?thesis
      using ended_by_resume [OF _ r(1), of i] assms(3) e r(2) by (auto simp: Resume may_end_def Let_def simp del: not_None_eq)
  next
    case (Tool_result conn m)
    then show ?thesis using ended_by_result [OF t assms(3), of conn m] assms(2) e by (auto split: if_splits)
  next
    case (Approval conn m)
    then show ?thesis using ended_by_approval [OF t assms(3), of conn m] assms(2) e by (auto split: if_splits)
  next
    case (Tool_stream conn m)
    then show ?thesis using ended_by_stream [OF assms(3)] assms(2) e by (auto split: if_splits)
  next
    case (Cancel_run r)
    then have "b' = close_all cf (pending b (Some r)) Cancelled b" using assms(2) by (simp add: cancel_all_def)
    then show ?thesis
      using ended_by_close_all_in [OF assms(3), of cf "pending b (Some r)" Cancelled] e pending_run [OF t, of i r] Cancel_run by (auto simp: may_end_def)
  next
    case (Run_disconnects conn r)
    let ?is = "filter (\<lambda>i. cl_user_id (call_at b i) = dc_user conn \<and> cl_device_id (call_at b i) = norm_device (dc_device conn)) (pending b (Some r))"
    have "b' = close_all cf ?is Disconnected b" using assms(2) Run_disconnects by (simp add: on_run_disconnect_def)
    then show ?thesis
      using ended_by_close_all_in [OF assms(3), of cf ?is Disconnected] e pending_run [OF t, of i r] Run_disconnects
      by (auto simp: may_end_def owns_def)
  next
    case (Connection_closes conn)
    let ?is = "filter (\<lambda>i. cl_conn (call_at b i) = conn) (pending b None)"
    have "b' = close_all cf ?is Disconnected b" using assms(2) Connection_closes by (simp add: on_connection_closed_def)
    then show ?thesis
      using ended_by_close_all_in [OF assms(3), of cf ?is Disconnected] e Connection_closes by (auto simp: may_end_def)
  qed (use assms(2) e in auto)
qed

text \<open>C16: A call goes from no status to a status only by an event of its own: a result it has from the message of its own
  connection that names it, denied by that connection, timed out by its own timer once the time has come,
  cancelled with its run, disconnected with its run, its connection or by a message its device sent on another one.\<close>

theorem only_its_own_events_end_a_call:
  assumes "reachable_broker cf b" "step cf a b = Some b'" "i < length (bk_calls b)"
    and "cl_finished_by (call_at b i) = None" "cl_finished_by (call_at b' i) = Some st"
  shows "may_end a b i st"
  using assms by (rule only_its_own_events_end_a_call_at)

text \<open>What a message can change.\<close>

lemma call_at_other:
  assumes "i \<noteq> k"
  shows "call_at (change_call k f b) i = call_at b i" "call_at (finish cf k st en b) i = call_at b i"
    "call_at (count_ignored k late b) i = call_at b i" "call_at (late_approval k b) i = call_at b i"
  using assms
  by (simp_all add: change_call_def call_at_def nth_list_update finish_def close_call_def count_ignored_def late_approval_def Let_def split: option.split)

lemma call_at_reply: "call_at (reject conn m b) i = call_at b i" "call_at (notify conn k d s b) i = call_at b i"
  by (simp_all add: reject_def notify_def)

fun message_of :: "action \<Rightarrow> (device_conn \<times> msg) option" where
  "message_of (Tool_result conn m) = Some (conn, m)"
| "message_of (Approval conn m) = Some (conn, m)"
| "message_of (Tool_stream conn m) = Some (conn, m)"
| "message_of _ = None"

text \<open>C17: A message changes a call only when its sender is the user and the device the call was proposed to and the message
  names the run and the call.\<close>

theorem a_message_reaches_only_its_own_call:
  assumes "reachable_broker cf b" "step cf a b = Some b'" "message_of a = Some (conn, m)"
    and "call_at b' i \<noteq> call_at b i"
  shows "owns conn (call_at b i) \<and> names_call m (call_at b i)"
proof -
  have t: "table_ok cf b" using reachable_table_ok [OF assms(1)] .
  have own: "owned_by_message b conn m ok = Some k \<Longrightarrow> call_at b' i = call_at b i \<or> k = i \<Longrightarrow> ?thesis" for ok k
    using owned_by_message_owns [OF t] assms(4) by blast
  consider "b' = handle_tool_result cf conn m b" | "b' = handle_approval cf conn m b" | "b' = handle_tool_stream cf conn m b"
    using assms(2,3) by (cases a) (auto split: if_splits)
  then show ?thesis
  proof cases
    case 1
    then obtain rf where rf: "result_fields_of (field m ''payload'') = Some rf"
      using assms(4) by (cases "result_fields_of (field m ''payload'')") (auto simp: handle_tool_result_def call_at_reply)
    then obtain k where k: "owned_call b conn (field m ''run_id'') (rf_call_id rf) = Some k"
      using assms(4) 1 by (cases "owned_call b conn (field m ''run_id'') (rf_call_id rf)") (auto simp: handle_tool_result_def call_at_reply)
    have "call_at b' i = call_at b i" if "k \<noteq> i"
      using that unfolding 1 by (auto simp: handle_tool_result_def rf k call_at_other split: prod.split)
    then have "k = i" using assms(4) by blast
    then show ?thesis using owned_call_owns [OF t k] result_fields_payload [OF rf] by (auto simp: names_call_def)
  next
    case 2
    let ?who = "owned_by_message b conn m (\<lambda>d. one_of (field d ''decision'') DECISIONS \<and> one_of (field d ''scope'') SCOPES)"
    obtain k where k: "?who = Some k" using assms(4) unfolding 2 by (cases ?who) (auto simp: handle_approval_def call_at_reply)
    have "call_at b' i = call_at b i" if "k \<noteq> i"
      using that unfolding 2 by (auto simp: handle_approval_def k Let_def call_at_other call_at_reply)
    then show ?thesis using own [OF k] by blast
  next
    case 3
    let ?who = "owned_by_message b conn m (\<lambda>d. one_of (field d ''stream'') STREAMS \<and> (case field d ''chunk'' of JStr _ \<Rightarrow> True | _ \<Rightarrow> False))"
    obtain k where k: "?who = Some k" using assms(4) unfolding 3 by (cases ?who) (auto simp: handle_tool_stream_def call_at_reply)
    have "call_at b' i = call_at b i" if "k \<noteq> i"
      using that unfolding 3 by (auto simp: handle_tool_stream_def k Let_def call_at_other)
    then show ?thesis using own [OF k] by blast
  qed
qed

section \<open>A denied call\<close>

text \<open>A denial whose callback is running: the handler of the call's connection is in it, or that connection has stopped.\<close>

definition denying :: "broker \<Rightarrow> nat \<Rightarrow> bool" where
  "denying b i \<longleftrightarrow> Reporting (cl_conn (call_at b i)) i True \<in> set (bk_waiting b) \<or> cl_conn (call_at b i) \<in> set (bk_stopped b)"

lemma denying_mute: "denying b i \<Longrightarrow> \<not> reads b (cl_conn (call_at b i))"
  by (auto simp: denying_def reads_def) (use handler_of_def in force)

lemma stopped_keep [simp]:
  "bk_stopped (bump k b) = bk_stopped b" "bk_stopped (spawn j b) = bk_stopped b" "bk_stopped (suspend j b) = bk_stopped b"
  "bk_stopped (put_out x b) = bk_stopped b" "bk_stopped (trim cf r b) = bk_stopped b" "bk_stopped (sweep cf b) = bk_stopped b"
  "bk_stopped (cancel_timer i b) = bk_stopped b" "bk_stopped (change_call i f b) = bk_stopped b" "bk_stopped (taken j b) = bk_stopped b"
  "bk_stopped (snd (forget_run r b)) = bk_stopped b" "bk_stopped (finish cf i st en b) = bk_stopped b" "bk_stopped (abort i b) = bk_stopped b"
  by (simp_all add: bump_def spawn_def suspend_def put_out_def trim_def sweep_def cancel_timer_def change_call_def taken_def forget_run_def
      finish_def close_call_def abort_def Let_def split: option.split)

lemma stopped_close_all [simp]: "bk_stopped (close_all cf is st b) = bk_stopped b"
  unfolding close_all_def by (induction "is" arbitrary: b) simp_all

lemma stopped_replies [simp]:
  "bk_stopped (count_ignored i late b) = bk_stopped b" "bk_stopped (late_approval i b) = bk_stopped b"
  "bk_stopped (reject conn m b) = bk_stopped b" "bk_stopped (resolve i b) = bk_stopped b" "bk_stopped (flag_event i b) = bk_stopped b"
  "bk_stopped (notify conn k d s b) = bk_stopped b"
  by (simp_all add: count_ignored_def late_approval_def reject_def resolve_def flag_event_def notify_def)

lemma stopped_step: "step cf a b = Some b' \<Longrightarrow> set (bk_stopped b) \<subseteq> set (bk_stopped b')"
proof (cases a)
  case (Propose pr found)
  then show "step cf a b = Some b' \<Longrightarrow> ?thesis" by (auto simp: propose_def Let_def spawn_def split: option.splits prod.splits if_splits bool.splits)
next
  case Run_task
  have "bk_stopped (run_job j b1) = bk_stopped b1" for j b1 by (cases j) simp_all
  then show "step cf a b = Some b' \<Longrightarrow> ?thesis" using Run_task by (auto split: list.splits)
next
  case (Resume j went found)
  have "resume_job cf j went found b1 = Some b2 \<Longrightarrow> bk_stopped b2 = bk_stopped b1" for b1 b2
    by (cases j) (auto simp: opened_call_def announced_def Let_def split: if_splits option.splits)
  then show "step cf a b = Some b' \<Longrightarrow> ?thesis" using Resume by (auto simp: taken_def [symmetric] split: if_splits)
qed (auto simp: handle_tool_result_def handle_approval_def handle_tool_stream_def cancel_all_def on_run_disconnect_def on_connection_closed_def
    Let_def split: if_splits option.splits prod.splits)

text \<open>A waiting report leaves only when it is resumed or its connection stops.\<close>

lemma report_stays:
  assumes "step cf a b = Some b'" "Reporting conn i True \<in> set (bk_waiting b)" "\<not> cl_finished (call_at b' i)" "i < length (bk_calls b)"
  shows "Reporting conn i True \<in> set (bk_waiting b') \<or> conn \<in> set (bk_stopped b')"
proof -
  let ?j = "Reporting conn i True"
  have fin: "?j \<in> set (bk_waiting b1) \<Longrightarrow> ?j \<in> set (bk_waiting (finish cf k st en b1))" for k st en b1
    using reports_finish [of cf k st en b1] by (auto simp: reports_of_def)
  have all: "?j \<in> set (bk_waiting b1) \<Longrightarrow> ?j \<in> set (bk_waiting (close_all cf is st b1))" for "is" st b1
    using reports_close_all [of cf "is" st b1] by (auto simp: reports_of_def)
  show ?thesis
  proof (cases a)
    case (Propose pr found)
    then show ?thesis using assms(1,2) propose_cases [of cf pr found b] by (auto simp: starts_def)
  next
    case Run_task
    then obtain j js where j: "b' = run_job j (b\<lparr>bk_ready := js\<rparr>)" using assms(1) by (auto split: list.splits)
    then have "set (bk_waiting b) \<subseteq> set (bk_waiting b')" by (cases j) auto
    then show ?thesis using assms(2) by blast
  next
    case (Resume j went found)
    then have r: "resume_job cf j went found (taken j b) = Some b'" using assms(1) by (auto simp: taken_def split: if_splits)
    show ?thesis
    proof (cases "j = ?j")
      case True
      then have "b' = finish cf i Denied bare (if went then taken j b else bump ''callback_failed'' (taken j b))" using r by (auto simp: Let_def)
      then have "cl_finished (call_at b' i)" using assms(4) by (auto simp: finish_def close_call_def Let_def call_at_change)
      then show ?thesis using assms(3) by simp
    next
      case False
      then have "?j \<in> set (bk_waiting (taken j b))" using assms(2) by (simp add: taken_def)
      then show ?thesis
        using r by (cases j) (auto simp: opened_call_def announced_def abort_def resolve_def flag_event_def Let_def intro: fin split: if_splits option.splits)
    qed
  next
    case (Tool_result c m)
    then show ?thesis using assms(1,2)
      by (auto simp: handle_tool_result_def count_ignored_def reject_def intro!: fin split: if_splits option.splits prod.splits)
  next
    case (Approval c m)
    then show ?thesis using assms(1,2)
      by (auto simp: handle_approval_def late_approval_def reject_def notify_def Let_def intro!: fin split: if_splits option.splits)
  next
    case (Tool_stream c m)
    then show ?thesis using assms(1,2)
      by (auto simp: handle_tool_stream_def reject_def Let_def split: if_splits option.splits)
  next
    case (Reader_stops c)
    then show ?thesis using assms(1,2) by (auto simp: handler_of_def)
  qed (use assms(1,2) in \<open>auto simp: cancel_all_def on_run_disconnect_def on_connection_closed_def intro!: all split: if_splits\<close>)
qed

lemma over_is_over:
  "alive call_id tool i v \<Longrightarrow> life_step call_id tool i v v' \<Longrightarrow> fst (fst v) \<Longrightarrow> fst (fst v') \<and> fst (snd (fst v')) = fst (snd (fst v))"
  by (erule alive.cases; erule life_step.cases) auto

lemma finished_stays:
  assumes "reachable_broker cf b" "step cf a b = Some b'" "i < length (bk_calls b)" "cl_finished (call_at b i)"
  shows "cl_finished (call_at b' i) \<and> ended_by b' i = ended_by b i"
  using over_is_over [OF alive_at [OF assms(1,3)] life_of_step [OF assms(1-3)]] assms(4)
  by (simp add: view_of_def essence_of_def ended_by_def)

definition declined :: "broker \<Rightarrow> nat \<Rightarrow> bool" where
  "declined b i \<longleftrightarrow> (cl_finished (call_at b i) \<or> denying b i) \<and> ended_by b i \<notin> {Some Went_ok, Some Went_wrong}"

lemma declined_step:
  assumes "reachable_broker cf b" "step cf a b = Some b'" "i < length (bk_calls b)" "declined b i"
  shows "declined b' i"
proof (cases "cl_finished (call_at b i)")
  case True
  then show ?thesis using finished_stays [OF assms(1-3) True] assms(4) by (simp add: declined_def)
next
  case False
  then have den: "denying b i" using assms(4) by (simp add: declined_def)
  have conn: "cl_conn (call_at b' i) = cl_conn (call_at b i)" using step_identity [OF assms(1-3)] by (simp add: identity_of_def)
  have unended: "cl_finished_by (call_at b i) = None"
    using alive_at [OF assms(1,3)] False by (cases rule: alive.cases) (auto simp: view_of_def essence_of_def)
  have "ended_by b' i \<noteq> Some st" if "st = Went_ok \<or> st = Went_wrong" for st
  proof
    assume "ended_by b' i = Some st"
    then have "may_end a b i st" using only_its_own_events_end_a_call_at [OF assms(1-3) unended] by (simp add: ended_by_def)
    then have "\<exists>m. a = Tool_result (cl_conn (call_at b i)) m"
      using that by (auto simp: may_end_def Let_def split: action.splits job.splits if_splits)
    then show False using denying_mute [OF den] assms(2) by auto
  qed
  moreover have "cl_finished (call_at b' i) \<or> denying b' i"
    using report_stays [OF assms(2) _ _ assms(3)] den stopped_step [OF assms(2)] unfolding denying_def conn by blast
  ultimately show ?thesis by (auto simp: declined_def)
qed

lemma declined_run:
  "reachable_broker cf b \<Longrightarrow> run_actions cf as b = Some b' \<Longrightarrow> i < length (bk_calls b) \<Longrightarrow> declined b i \<Longrightarrow> declined b' i"
proof (induction "as" arbitrary: b)
  case (Cons a as)
  then obtain b1 where b1: "step cf a b = Some b1" "run_actions cf as b1 = Some b'" by (auto split: option.splits)
  show ?case
    using Cons.IH [OF reachable_broker.step [OF Cons.prems(1) b1(1)] b1(2)] step_identity(2) [OF Cons.prems(1) b1(1) Cons.prems(3)]
      declined_step [OF Cons.prems(1) b1(1) Cons.prems(3,4)] by blast
qed simp

text \<open>C18: While the callback of a denial runs the call has not ended, and from then on, whatever happens, it never ends with a
  result.\<close>

theorem a_denied_call_returns_no_result:
  assumes "reachable_broker cf b" "Reporting conn i True \<in> set (bk_waiting b)" "\<not> cl_finished (call_at b i)"
    and "run_actions cf as b = Some b'"
  shows "cl_finished_by (call_at b' i) \<notin> {Some Went_ok, Some Went_wrong}"
proof -
  have r: "i < length (bk_calls b)" "conn = cl_conn (call_at b i)"
    using reachable_reporters [OF assms(1)] assms(2) unfolding reporters_own_def by blast+
  have "cl_finished_by (call_at b i) = None"
    using alive_at [OF assms(1) r(1)] assms(3) by (cases rule: alive.cases) (auto simp: view_of_def essence_of_def)
  then have "declined b i" using assms(2) r(2) by (simp add: declined_def denying_def ended_by_def)
  then show ?thesis using declined_run [OF assms(1,4) r(1)] by (simp add: declined_def ended_by_def)
qed

section \<open>What an outcome says\<close>

text \<open>The cut of an output that is too long: the longest beginning that fits, and a marker.\<close>

lemma utf8_char_length: "length (utf8_char c) = 1 \<or> length (utf8_char c) = 2"
  by (simp add: utf8_char_def Let_def)

lemma utf8_encode_Cons: "utf8_encode (c # s) = utf8_char c @ utf8_encode s"
  by (simp add: utf8_encode_def)

lemma utf8_ignore_char: "utf8_ignore (utf8_char c @ bs) = c # utf8_ignore bs"
proof (cases "(of_char c :: nat) < 128")
  case True
  then show ?thesis by (cases bs) (auto simp: utf8_char_def Let_def)
next
  case False
  define n where "n = (of_char c :: nat)"
  have n: "128 \<le> n" "n < 256" and c: "c = char_of n" using False by (simp_all add: n_def)
  have "n div 64 = 2 \<or> n div 64 = 3" using n by linarith
  then show ?thesis using n by (auto simp: utf8_char_def c mult.commute [of _ 64] Let_def)
qed

lemma utf8_ignore_split: "length (utf8_char c) = 2 \<Longrightarrow> utf8_ignore (take 1 (utf8_char c)) = []"
proof -
  assume a: "length (utf8_char c) = 2"
  define n where "n = (of_char c :: nat)"
  have n: "128 \<le> n" "n < 256" using a by (auto simp: utf8_char_def Let_def n_def split: if_splits)
  have "n div 64 = 2 \<or> n div 64 = 3" using n by linarith
  then show ?thesis using n by (auto simp: utf8_char_def Let_def n_def [symmetric])
qed

lemma utf8_ignore_take:
  "\<exists>s'. utf8_ignore (take n (utf8_encode s)) = take (length s') s \<and> s' = take (length s') s \<and> length (utf8_encode s') \<le> n
     \<and> (n < length (utf8_encode s) \<longrightarrow> n \<le> Suc (length (utf8_encode s')))"
proof (induction s arbitrary: n)
  case Nil
  then show ?case by (intro exI [of _ "[]"]) (simp add: utf8_encode_def)
next
  case (Cons c s)
  show ?case
  proof (cases "length (utf8_char c) \<le> n")
    case True
    then obtain s' where s': "utf8_ignore (take (n - length (utf8_char c)) (utf8_encode s)) = take (length s') s" "s' = take (length s') s"
      "length (utf8_encode s') \<le> n - length (utf8_char c)"
      "n - length (utf8_char c) < length (utf8_encode s) \<longrightarrow> n - length (utf8_char c) \<le> Suc (length (utf8_encode s'))" using Cons.IH by blast
    have "take n (utf8_encode (c # s)) = utf8_char c @ take (n - length (utf8_char c)) (utf8_encode s)" using True by (simp add: utf8_encode_Cons)
    then show ?thesis
      using s' True by (intro exI [of _ "c # s'"]) (auto simp: utf8_ignore_char utf8_encode_Cons)
  next
    case False
    then have n: "n = 0 \<or> n = 1 \<and> length (utf8_char c) = 2" using utf8_char_length [of c] by auto
    then have "utf8_ignore (take n (utf8_encode (c # s))) = []" using False utf8_ignore_split [of c] by (auto simp: utf8_encode_Cons)
    then show ?thesis using n by (intro exI [of _ "[]"]) (auto simp: utf8_encode_def)
  qed
qed

lemma limit_output_cut:
  assumes "limit_output t n = (s, k)"
  shows "(s = t \<and> k = 0 \<and> length (utf8_encode t) \<le> n)
    \<or> (\<exists>kept rest. t = kept @ rest \<and> s = kept @ omitted_marker k \<and> k = length (utf8_encode rest) \<and> 0 < k
        \<and> length (utf8_encode kept) \<le> n \<and> n \<le> Suc (length (utf8_encode kept)))"
proof (cases "length (utf8_encode t) \<le> n")
  case True
  then show ?thesis using assms by (simp add: limit_output_def Let_def)
next
  case False
  obtain s' where s': "utf8_ignore (take n (utf8_encode t)) = take (length s') t" "s' = take (length s') t" "length (utf8_encode s') \<le> n"
    "n \<le> Suc (length (utf8_encode s'))" using utf8_ignore_take [of n t] False by auto
  have "utf8_encode t = utf8_encode s' @ utf8_encode (drop (length s') t)"
    using s'(2) by (metis append_take_drop_id concat_append map_append utf8_encode_def)
  then have k: "length (utf8_encode t) - length (utf8_encode s') = length (utf8_encode (drop (length s') t))" by simp
  have "t = s' @ drop (length s') t" using s'(2) by (metis append_take_drop_id)
  moreover have "s = s' @ omitted_marker k \<and> k = length (utf8_encode (drop (length s') t))"
    using assms False s'(1) k by (auto simp: limit_output_def Let_def s'(2) [symmetric])
  moreover have "0 < k" using calculation(2) k s'(3) False by linarith
  ultimately show ?thesis using s'(3,4) by blast
qed

text \<open>The size of an output in an outcome.\<close>

definition well_formed :: "broker_settings \<Rightarrow> outcome \<Rightarrow> bool" where
  "well_formed cf oc \<longleftrightarrow> oc_trust oc = bs_trust cf \<and> (oc_ok oc \<longleftrightarrow> oc_status oc = Went_ok)
    \<and> (case oc_output oc of
         None \<Rightarrow> oc_status oc \<notin> set RESULT_STATUSES \<and> oc_origin oc = None \<and> oc_exit_code oc = None
       | Some s \<Rightarrow> oc_status oc \<in> set RESULT_STATUSES
           \<and> (if oc_omitted_bytes oc = 0 then length (utf8_encode s) \<le> bs_max_output_bytes cf
              else oc_truncated oc \<and> (\<exists>kept. s = kept @ omitted_marker (oc_omitted_bytes oc)
                \<and> length (utf8_encode kept) \<le> bs_max_output_bytes cf \<and> bs_max_output_bytes cf \<le> Suc (length (utf8_encode kept)))))"

definition outcomes_ok :: "broker_settings \<Rightarrow> broker \<Rightarrow> bool" where
  "outcomes_ok cf b \<longleftrightarrow> (\<forall>c \<in> set (bk_calls b). \<forall>oc. cl_outcome c = Some oc \<longrightarrow> well_formed cf oc)"

lemma well_formed_flag: "well_formed cf (oc\<lparr>oc_finish_event_failed := f\<rparr>) = well_formed cf oc"
  by (simp add: well_formed_def split: option.split)

lemma well_formed_bare: "st \<notin> set RESULT_STATUSES \<Longrightarrow> well_formed cf (outcome_of cf call_id tool st bare d)"
  by (simp add: well_formed_def outcome_of_def bare_def RESULT_STATUSES_def)

lemma well_formed_result:
  assumes "limit_output t (bs_max_output_bytes cf) = (s, k)" "went \<longleftrightarrow> st = Went_ok" "st = Went_ok \<or> st = Went_wrong" "0 < k \<longrightarrow> tr"
  shows "well_formed cf (outcome_of cf call_id tool st
    \<lparr>en_ok = went, en_output = Some s, en_truncated = tr, en_omitted_bytes = k, en_origin = og, en_exit_code = ec\<rparr> d)"
  using limit_output_cut [OF assms(1)] assms(2-4) by (auto simp: well_formed_def outcome_of_def RESULT_STATUSES_def)

lemma outcomes_change:
  "outcomes_ok cf b \<Longrightarrow> (\<And>c oc. (\<And>oc. cl_outcome c = Some oc \<Longrightarrow> well_formed cf oc) \<Longrightarrow> cl_outcome (f c) = Some oc \<Longrightarrow> well_formed cf oc)
    \<Longrightarrow> outcomes_ok cf (change_call i f b)"
proof (cases "i < length (bk_calls b)")
  case True
  assume ok: "outcomes_ok cf b"
    and f: "\<And>c oc. (\<And>oc. cl_outcome c = Some oc \<Longrightarrow> well_formed cf oc) \<Longrightarrow> cl_outcome (f c) = Some oc \<Longrightarrow> well_formed cf oc"
  have "well_formed cf oc" if "cl_outcome (f (call_at b i)) = Some oc" for oc
    by (rule f [OF _ that]) (use ok True nth_mem [OF True] in \<open>auto simp: outcomes_ok_def call_at_def\<close>)
  then show ?thesis using ok by (auto simp: outcomes_ok_def change_call_def dest!: set_update_subset_insert [THEN subsetD])
qed (simp add: outcomes_ok_def change_call_def list_update_beyond)

lemma outcomes_same: "bk_calls b' = bk_calls b \<Longrightarrow> outcomes_ok cf b' = outcomes_ok cf b"
  by (simp add: outcomes_ok_def)

lemma outcomes_keep [simp]:
  "outcomes_ok cf (bump k b) = outcomes_ok cf b" "outcomes_ok cf (spawn j b) = outcomes_ok cf b" "outcomes_ok cf (suspend j b) = outcomes_ok cf b"
  "outcomes_ok cf (put_out x b) = outcomes_ok cf b" "outcomes_ok cf (trim cf' r b) = outcomes_ok cf b" "outcomes_ok cf (sweep cf' b) = outcomes_ok cf b"
  "outcomes_ok cf (cancel_timer i b) = outcomes_ok cf b" "outcomes_ok cf (snd (forget_run r b)) = outcomes_ok cf b"
  "outcomes_ok cf (taken j b) = outcomes_ok cf b" "outcomes_ok cf (b\<lparr>bk_ready := js\<rparr>) = outcomes_ok cf b"
  "outcomes_ok cf (b\<lparr>bk_runs := rs\<rparr>) = outcomes_ok cf b" "outcomes_ok cf (b\<lparr>bk_clock := t\<rparr>) = outcomes_ok cf b"
  "outcomes_ok cf (b\<lparr>bk_stopped := cs, bk_waiting := ws\<rparr>) = outcomes_ok cf b"
  by (rule outcomes_same; simp)+

lemma outcomes_finish:
  "outcomes_ok cf b \<Longrightarrow> (\<And>call_id tool d. well_formed cf (outcome_of cf call_id tool st en d)) \<Longrightarrow> outcomes_ok cf (finish cf i st en b)"
  by (simp add: finish_def close_call_def Let_def) (rule impI, rule outcomes_change, auto)

lemma outcomes_close_all: "st \<notin> set RESULT_STATUSES \<Longrightarrow> outcomes_ok cf b \<Longrightarrow> outcomes_ok cf (close_all cf is st b)"
  unfolding close_all_def by (induction "is" arbitrary: b) (simp_all add: outcomes_finish well_formed_bare)

lemma outcomes_replies:
  assumes "outcomes_ok cf b"
  shows "outcomes_ok cf (count_ignored i late b)" "outcomes_ok cf (late_approval i b)" "outcomes_ok cf (reject conn m b)"
    "outcomes_ok cf (resolve i b)" "outcomes_ok cf (flag_event i b)" "outcomes_ok cf (notify conn k d s b)" "outcomes_ok cf (abort i b)"
  using assms unfolding count_ignored_def late_approval_def reject_def resolve_def flag_event_def notify_def abort_def Let_def
  by (auto intro!: outcomes_change simp: well_formed_flag split: option.splits if_splits)

lemma outcomes_step:
  assumes "outcomes_ok cf b" "step cf a b = Some b'"
  shows "outcomes_ok cf b'"
proof (cases a)
  case (Propose pr found)
  then have "bk_calls b' = bk_calls b \<or> starts b b'" using assms(2) propose_cases [of cf pr found b] by auto
  then show ?thesis using assms(1) by (auto simp: outcomes_ok_def starts_def essence_of_def)
next
  case Run_task
  have "outcomes_ok cf (run_job j b1) = outcomes_ok cf b1" for j b1 by (cases j) simp_all
  then show ?thesis using Run_task assms by (auto split: list.splits)
next
  case (Resume j went found)
  then have r: "resume_job cf j went found (taken j b) = Some b'" using assms(2) by (auto simp: taken_def split: if_splits)
  have "outcomes_ok cf (taken j b)" using assms(1) by simp
  then show ?thesis
    using r by (cases j) (auto simp: opened_call_def announced_def Let_def RESULT_STATUSES_def intro!: outcomes_replies outcomes_finish well_formed_bare
        split: if_splits option.splits)
next
  case (Tool_result conn m)
  then show ?thesis using assms
    by (auto simp: handle_tool_result_def RESULT_STATUSES_def intro!: outcomes_replies outcomes_finish well_formed_bare
        elim!: well_formed_result split: if_splits option.splits prod.splits)
next
  case (Approval conn m)
  then show ?thesis using assms
    by (auto simp: handle_approval_def Let_def RESULT_STATUSES_def intro!: outcomes_replies outcomes_finish well_formed_bare outcomes_change
        split: if_splits option.splits)
next
  case (Tool_stream conn m)
  then show ?thesis using assms
    by (auto simp: handle_tool_stream_def Let_def intro!: outcomes_replies outcomes_change split: if_splits option.splits)
qed (use assms in \<open>auto simp: cancel_all_def on_run_disconnect_def on_connection_closed_def RESULT_STATUSES_def intro!: outcomes_close_all split: if_splits\<close>)

lemma reachable_outcomes: "reachable_broker cf b \<Longrightarrow> outcomes_ok cf b"
proof (induction rule: reachable_broker.induct)
  case (start now b)
  then show ?case by (auto simp: new_broker_def outcomes_ok_def split: if_splits)
qed (rule outcomes_step)

text \<open>C20: An outcome has the trust of the settings and never the device's, is ok exactly with the status ok, and has an output,
  an origin and an exit code only from a result; an output is at most the limit, or cut within one byte of it and
  marked with the number of bytes left out.\<close>

theorem an_outcome_is_well_formed:
  assumes "reachable_broker cf b" "i < length (bk_calls b)" "cl_outcome (call_at b i) = Some oc"
  shows "well_formed cf oc"
  using reachable_outcomes [OF assms(1)] assms(2,3) by (auto simp: outcomes_ok_def call_at_def)

end
