(* ===== verification/BrokerExamples.thy ===== *)
theory BrokerExamples
  imports BrokerGuarantees
begin

text \<open>
  The broker at concrete inputs: two calls of one run are proposed to a device; the first gets a result that is too
  long for the settings and an event that cannot be emitted, the second is denied with a callback.
\<close>

section \<open>A run of the broker\<close>

definition talk_limits :: broker_settings where
  "talk_limits = default_broker\<lparr>bs_max_output_bytes := 8, bs_max_in_flight := 2\<rparr>"

definition talk_conn :: device_conn where
  "talk_conn = \<lparr>dc_number = 1, dc_user = ''ana'', dc_device = ''Laptop''\<rparr>"

definition talk_proposal :: "string \<Rightarrow> proposal" where
  "talk_proposal call_id = \<lparr>pr_run_id = JStr ''run_0001'', pr_user_id = JStr ''ana'', pr_device_id = JStr '' laptop'', pr_call_id = JStr call_id,
    pr_tool = JStr ''run_command'', pr_input = JObj [], pr_risk = JStr ''R1'', pr_timeout = None, pr_on_approval = True\<rparr>"

definition talk_message :: "string \<Rightarrow> (string \<times> json) list \<Rightarrow> msg" where
  "talk_message call_id fs = [(''run_id'', JStr ''run_0001''), (''payload'', JObj ((''call_id'', JStr call_id) # fs))]"

definition talk_result :: "string \<Rightarrow> msg" where
  "talk_result call_id = talk_message call_id [(''ok'', JBool True), (''output'', JStr ''0123456789ab''), (''truncated'', JBool False)]"

definition talk_denial :: "string \<Rightarrow> msg" where
  "talk_denial call_id = talk_message call_id [(''decision'', JStr ''deny''), (''scope'', JStr ''once'')]"

definition talk_steps :: "action list" where
  "talk_steps =
    [Propose (talk_proposal ''call_1'') (Some (talk_conn, False)), Run_task, Resume (Opening 0 120000) True None, Run_task,
     Propose (talk_proposal ''call_2'') (Some (talk_conn, False)), Run_task, Time_passes 50,
     Tool_result talk_conn (talk_result ''call_1''), Run_task, Resume (Announcing 0) False None,
     Approval talk_conn (talk_denial ''call_2''), Resume (Reporting talk_conn 1 True) True None, Run_task]"

definition talk_start :: broker where
  "talk_start = \<lparr>bk_calls = [], bk_runs = [], bk_stats = [], bk_last_sweep = 1000, bk_clock = 1000, bk_ready = [], bk_waiting = [],
    bk_stopped = [], bk_outputs = []\<rparr>"

definition talk_at :: "nat \<Rightarrow> broker" where
  "talk_at n = the (run_actions talk_limits (take n talk_steps) talk_start)"

lemma talk_new: "new_broker talk_limits 1000 = Some talk_start"
  by code_simp

lemma talk_goes: "run_actions talk_limits talk_steps talk_start \<noteq> None"
  by code_simp

lemma run_actions_append: "run_actions cf (as @ bs) b = Option.bind (run_actions cf as b) (run_actions cf bs)"
  by (induction "as" arbitrary: b) (simp_all split: option.split)

lemma talk_takes: "run_actions talk_limits (take n talk_steps) talk_start = Some (talk_at n)"
  using talk_goes run_actions_append [of talk_limits "take n talk_steps" "drop n talk_steps" talk_start]
  by (cases "run_actions talk_limits (take n talk_steps) talk_start") (auto simp: talk_at_def)

lemma talk_reaches: "reachable_broker talk_limits (talk_at n)"
  by (rule reachable_run [OF reachable_broker.start [OF talk_new] talk_takes])

lemma talk_runs: "k \<le> n \<Longrightarrow> run_actions talk_limits (drop k (take n talk_steps)) (talk_at k) = Some (talk_at n)"
  using run_actions_append [of talk_limits "take k talk_steps" "drop k (take n talk_steps)" talk_start]
  by (metis append_take_drop_id bind.bind_lunit min.absorb1 take_take talk_takes)

lemma talk_next: "n < length talk_steps \<Longrightarrow> step talk_limits (talk_steps ! n) (talk_at n) = Some (talk_at (Suc n))"
  using talk_runs [of n "Suc n"] by (simp add: take_Suc_conv_app_nth split: option.splits)

section \<open>Witnesses\<close>

lemma talk_phases:
  "7 < length talk_steps" "0 < length (bk_calls (talk_at 7))" "0 < length (bk_calls (talk_at 8))"
  "phase_of (talk_at 7) 0 = In_flight" "phase_of (talk_at 8) 0 = Ended Went_ok"
  "cl_finished_by (call_at (talk_at 7) 0) = None" "cl_finished_by (call_at (talk_at 8) 0) = Some Went_ok"
  by code_simp+

lemma every_call_keeps_to_the_protocol_witness: "follows (phase_of (talk_at 7) 0) (phase_of (talk_at 8) 0)"
  using every_call_keeps_to_the_protocol [OF talk_reaches talk_next, of 7 0] talk_phases by simp

lemma only_its_own_events_end_a_call_witness: "may_end (talk_steps ! 7) (talk_at 7) 0 Went_ok"
  by (rule only_its_own_events_end_a_call [OF talk_reaches talk_next]) (use talk_phases in \<open>simp_all add: eval_nat_numeral\<close>)

lemma talk_answer: "1 < length (bk_calls (talk_at 13))" "0 < length (bk_calls (talk_at 13))"
  "(case cl_done (call_at (talk_at 13) 0) of Answered oc \<Rightarrow> True | _ \<Rightarrow> False)"
  by code_simp+

lemma every_call_ends_once_witness:
  "\<exists>oc p. cl_done (call_at (talk_at 13) 0) = Answered oc \<and> cl_finished_by (call_at (talk_at 13) 0) = Some (oc_status oc)
    \<and> filter (emission 0) (bk_outputs (talk_at 13)) = [Emits 0 ''tool_proposed'' p,
        Emits 0 ''run_event'' (finish_notice (cl_call_id (call_at (talk_at 13) 0)) (cl_tool (call_at (talk_at 13) 0)) oc)]"
  using every_call_ends_once [OF talk_reaches talk_answer(2)] talk_answer(3) by (auto simp: Let_def split: answer.splits)

definition talk_outcome :: outcome where
  "talk_outcome = \<lparr>oc_call_id = ''call_1'', oc_tool = ''run_command'', oc_status = Went_ok, oc_ok = True,
    oc_output = Some (''01234567'' @ omitted_marker 4), oc_truncated = True, oc_omitted_bytes = 4, oc_trust = ''untrusted'', oc_origin = None,
    oc_exit_code = None, oc_duration_ms = 50, oc_finish_event_failed = False\<rparr>"

lemma talk_result_outcome: "cl_outcome (call_at (talk_at 8) 0) = Some talk_outcome"
  by code_simp

lemma the_first_outcome_stands_witness: "cl_finished_by (call_at (talk_at 13) 0) = Some Went_ok"
  using the_first_outcome_stands [OF talk_reaches talk_runs talk_phases(3) talk_result_outcome, of 13] by (simp add: talk_outcome_def)

lemma an_outcome_is_well_formed_witness: "well_formed talk_limits talk_outcome"
  by (rule an_outcome_is_well_formed [OF talk_reaches talk_phases(3) talk_result_outcome])

lemma every_call_can_end_witness:
  "\<exists>as b'. run_actions talk_limits as (talk_at 7) = Some b' \<and> list_all (own_step (\<lambda>j. (False, None))) as
    \<and> length as \<le> length (bk_ready (talk_at 7)) + 7 \<and> cl_done (call_at b' 0) \<noteq> Pending"
  by (rule every_call_can_end [OF talk_reaches talk_phases(2)])

lemma the_table_stays_bounded_witness: "in_flight (talk_at 6) ''run_0001'' \<le> 2 \<and> length (run_calls (talk_at 6) ''run_0001'') \<le> 258"
proof -
  have "bs_max_in_flight talk_limits = 2" "bs_max_retained talk_limits = 256" by code_simp+
  then show ?thesis using the_table_stays_bounded [OF talk_reaches, of 6 "''run_0001''"] by simp
qed

lemma talk_message_step:
  "message_of (talk_steps ! 7) = Some (talk_conn, talk_result ''call_1'')" "cl_finished (call_at (talk_at 7) 0) \<noteq> cl_finished (call_at (talk_at 8) 0)"
  by code_simp+

lemma a_message_reaches_only_its_own_call_witness:
  "owns talk_conn (call_at (talk_at 7) 0) \<and> names_call (talk_result ''call_1'') (call_at (talk_at 7) 0)"
  using a_message_reaches_only_its_own_call [OF talk_reaches talk_next, of 7 talk_conn "talk_result ''call_1''" 0] talk_phases(1) talk_message_step
  by fastforce

lemma talk_denied: "Reporting talk_conn 1 True \<in> set (bk_waiting (talk_at 11))" "\<not> cl_finished (call_at (talk_at 11) 1)"
  by code_simp+

lemma a_denied_call_returns_no_result_witness: "cl_finished_by (call_at (talk_at 13) 1) \<notin> {Some Went_ok, Some Went_wrong}"
  by (rule a_denied_call_returns_no_result [OF talk_reaches talk_denied talk_runs]) simp

end
