(* ===== verification/Spec2Isabelle.thy ===== *)
theory Spec2Isabelle
  imports Monotone Runs History ContextRules LongRuns BufferExamples BrokerExamples
begin

text \<open>
  MiniMe's M2C is a coding agent in two halves. The program on the person's machine (\<open>m2c/src/m2c\<close>)
  runs the tools; the server (\<open>backend/codeagent\<close>) runs the model. The server proposes a tool call, the
  device decides whether it may run, asks the person, or refuses it; the device keeps the local log
  from which a conversation can be rebuilt, and reads the instruction and rule files that are sent
  when a run starts; the server keeps the record of each run and its conversation in an encrypted buffer, carries
  each proposed call to its end whatever the device does, and builds the request for the next
  model call from the conversation. This development models those parts.

  \<^bold>\<open>The decision on a tool call\<close> (\<open>m2c/policy\<close>)
    \<^item> \<open>Modes\<close>: \<open>modes.py\<close>, the modes, risk levels, the tool catalog and the default answer of a mode.
    \<^item> \<open>Wildcard\<close>, \<open>Rules\<close>: \<open>rules.py\<close>, the rule syntax and its two matchers, the three layers of
      settings and their merge, loading with the TOML parser and the file as arguments.
    \<^item> \<open>Paths\<close>: \<open>rules.py\<close>, lexical normalisation, protected and secret paths.
    \<^item> \<open>ShellScan\<close>, \<open>ShellClassify\<close>, \<open>ShellParse\<close>: \<open>shellparse.py\<close>, from characters to simple commands,
      over nested levels, with the budgets of the source.
    \<^item> \<open>Verdicts\<close>, \<open>GlobMatch\<close>, \<open>ArgChecks\<close>, \<open>Decide\<close>: \<open>decide.py\<close>, the verdict of one path, one command and one
      argument, and \<open>decide\<close>, which validates the request, dispatches on the tool and takes the strictest.
    \<^item> \<open>Guarantees\<close> and \<open>Monotone\<close> hold what follows: what an allowed call satisfied, what is always
      denied, and that more trust never makes the answer stricter. The root theory shows commands that the
      code allows although they read a secret as a script.

  \<^bold>\<open>Files read for a run\<close> (\<open>m2c/context\<close>)
    \<^item> \<open>Instructions\<close>: \<open>instructions.py\<close>, the loader of instruction files with their imports. The lemmas are
      proved in the locale \<open>loader_invariant\<close>, whose laws are the preservation of a property by each
      step of the loader; it is interpreted for the list of files accepted, for containment in the
      allowed directories and for the import budget; that the bytes of other files never matter is proved by
      comparing two file systems. \<open>fit\<close> meets the size cap.
    \<^item> \<open>ContextRules\<close>: \<open>rules.py\<close> of the context package, front matter, globs, loading and selection of path
      rules; the matcher over reachable sets is proved equal to the recursive match.

  \<^bold>\<open>The conversation from the local log\<close> (\<open>m2c/tui/history.py\<close>)
    \<^item> \<open>History\<close>: reading a log whatever it holds, the groups of a turn, rewinding, pairing calls with
      results, the size bounds.

  \<^bold>\<open>The record of a run\<close> (\<open>backend/codeagent/runs.py\<close>)
    \<^item> \<open>Runs\<close>: the state machine, the run table with the SQL statements as functions on the list of
      rows, and the service calls against a world in which other callers write and the database
      fails between two statements. \<open>transition\<close> refines an atomic compare-and-set; invariants of the
      table are proved over every reachable table.

  \<^bold>\<open>The life of a tool call on the server\<close> (\<open>backend/codeagent/broker.py\<close>)
    \<^item> \<open>Broker\<close>: \<open>ToolBroker\<close>. Its coroutines run on one event loop; what happens between two awaits is one step of
      \<open>step\<close>, with the spawned tasks in \<open>bk_ready\<close> and the suspended ones in \<open>bk_waiting\<close>. How an await ends, what devices
      send and when time passes is the action's choice, so \<open>reachable_broker\<close> holds every interleaving; a connection
      takes no message while its handler is in a callback.
    \<^item> \<open>BrokerLife\<close>: the stages of one call (its tasks, emissions and future together) and that every step is a step of
      that life. \<open>BrokerTable\<close>: the table of calls and its bounds. \<open>BrokerOwners\<close>: whose a call is.
    \<^item> \<open>BrokerProtocol\<close>: the phases every call goes through, refined by the steps; one end per call; every call can
      end, by a schedule of the loop's own steps. \<open>BrokerGuarantees\<close>: which event may end a call how, what a message
      reaches, denied calls, well-formed outcomes. \<open>BrokerExamples\<close>: two calls of a run, step by step.

  \<^bold>\<open>The request for the model\<close> (\<open>backend/codeagent/prompts.py\<close>, \<open>context.py\<close>)
    \<^item> \<open>Prompts\<close>: messages, the system prompt and the default assembler.
    \<^item> \<open>Assembler\<close>: the budgeted assembler: estimates, capped outputs, the layout of a conversation, the
      summary, the memory per run, clearing and cutting.
    \<^item> \<open>Compaction\<close>: one request: what may be touched, that compaction shrinks it and does all it can,
      and that a small conversation is sent as the default assembler sends it.
    \<^item> \<open>LongRuns\<close>: sequences of requests: the prefix is stable while calls are answered in time, the memory bounded,
      a halted run stays halted while its entry is in the memory and its conversation does not shrink.

  \<^bold>\<open>The encrypted buffer of a run\<close> (\<open>backend/codeagent/buffer.py\<close>)
    \<^item> \<open>Codec\<close>, \<open>JsonText\<close>: bytes, UTF-8, base64 and frames, and Python's \<open>json.dumps\<close> and \<open>json.loads\<close>, with
      their round trips. \<open>RedisStore\<close>: the store, after \<open>FakeRunRedis\<close> of the unit tests.
    \<^item> \<open>RunBuffer\<close>: the module itself. An operation is a function of the settings and of a world: the
      store, a script with the faults of the connection and the requests of other callers, and the
      number of random draws. The loop over the pages of a read ends because the script gets shorter
      or the rest of the list does.
    \<^item> \<open>BufferReads\<close>, \<open>BufferInvariants\<close>, \<open>BufferWrites\<close>: records that come again, the locale
      \<open>buffer_invariant\<close> (what every request of the module keeps, every operation keeps) and its extension
      \<open>write_invariant\<close>, interpreted for the content of a list, for the draws and for the stream a buffer holds.
    \<^item> \<open>BufferSurvival\<close>, \<open>BufferCounter\<close>, \<open>BufferLimits\<close>: what is read after any operations under any faults, the
      sequence numbers, the hard cap, the size guard. \<open>BufferExamples\<close> runs the module on concrete stores.

  \<^bold>\<open>Shared\<close>: \<open>Prelude\<close> holds Python's string operations, errors as sums with \<open>bindE\<close> and \<open>mapE\<close>, and JSON
  values; \<open>Json\<close> holds dictionaries as association lists.

  Errors are values: \<open>Inl\<close> or \<open>None\<close> is a raised exception, so every early return and every \<open>raise\<close> of the
  source is a branch. Recursion is structural or comes with a measure; the only counter that is not
  in the source is the number of levels of the shell parser, which the source bounds by \<open>MAX_DEPTH\<close>.

  \<^bold>\<open>Parameters.\<close> What the source takes from elsewhere is an argument: the file system and its reads, the
  TOML parser, UTF-8 decoding, the home directory, UUIDs and times of the database, the digest of a
  conversation without an id, Python's \<open>str\<close> of a value that is not a string; for the buffer HKDF, AES-GCM
  (of which only \<open>crypto_ok\<close> is assumed: it opens what it sealed, with 16 bytes more) and \<open>os.urandom\<close> (\<open>fresh_ids\<close>: no
  two draws agree, where a property needs it).

  \<^bold>\<open>Not modelled.\<close> A character is one of the first 256 code points, so case folding and Unicode spaces
  are those of Latin-1. \<open>RecursionError\<close> and \<open>MemoryError\<close>, logging and locks are left out. A float is kept
  as its text; credits are millionths; the water marks of the assembler are numbers of its
  configuration. In the buffer the text of an integer of more than 4300 digits, and of the creation stamp \<open>1\<close>
  written as a float other than \<open>1.0\<close>, are not told apart from the values Python gives them; the Upstash
  client is taken to answer as the store of the tests. Of the broker's callbacks only whether they exist and how they
  end is kept, its times are whole milliseconds, and a handler that waits for an announcement may take its next
  message earlier than the code does, which only adds behaviours. The lists of sample paths are in the order of the source's sets only up to order. Of
  the server, the socket, the agent loop, metering and the model adapters are asynchronous code over
  services and are not modelled; of the device, the tools themselves (files, processes, Git), the link,
  sign-in, the store and the terminal interface. The orchestrator, the agents, the HTTP routes, the
  daemon, the frontend and the scripts are outside the agent.
\<close>

section \<open>Concrete inputs\<close>

definition demo_rule :: "string \<Rightarrow> string \<Rightarrow> string \<Rightarrow> rule" where
  "demo_rule action tool pattern = \<lparr>r_action = action, r_tool = tool, r_pattern = pattern, r_layer = ''user''\<rparr>"

definition demo_ctx :: "string \<Rightarrow> rule list \<Rightarrow> context_arg" where
  "demo_ctx mode rs =
     \<lparr>cx_mode = mode, cx_layers = Some (empty_layers\<lparr>rl_user := empty_rule_set\<lparr>rs_rules := rs\<rparr>\<rparr>),
      cx_project_root = ''/p'', cx_project_trusted = False, cx_non_interactive = False, cx_tainted = False,
      cx_home = Some ''/h'', cx_cwd = None\<rparr>"

definition demo_bash :: "string \<Rightarrow> request_arg" where
  "demo_bash command = Request (JStr ''bash'') (JObj [(''command'', JStr command)]) (JStr ''R2'')"

definition demo_read :: "string \<Rightarrow> request_arg" where
  "demo_read path = Request (JStr ''read_file'') (JObj [(''path'', JStr path)]) (JStr ''R0'')"

definition spec_named :: "string \<Rightarrow> tool_spec" where
  "spec_named t = (case TOOLS t of Some spec \<Rightarrow> spec | None \<Rightarrow> hd TOOL_SPECS)"

section \<open>The decision as a whole\<close>

text \<open>C10: the decision function is total: for every request and every context the body of
  \<open>decide\<close> runs to a decision, so the branch that turns an exception into a denial is never
  needed for a well-typed context, and the answer is the body's own.\<close>

theorem decide_never_raises:
  "\<exists>d. decide_inner request context = Some d \<and> decide request context = d"
  using decide_inner_total [of request "context"] by (auto simp: decide_def)

text \<open>C3: decisions are monotone. With a stricter permission mode, a higher server risk, more deny
  and ask rules and fewer allow rules, an unreadable settings file or a non-interactive run, the
  answer to the same call is at least as strict (deny over ask over allow).\<close>

theorem decide_monotone:
  assumes "context_le c c'" and "risk_at_most sr sr'"
  shows "d_action (decide (Request t i (JStr sr)) (Some c))
       \<le> d_action (decide (Request t i (JStr sr')) (Some c'))"
  using decide_le [OF assms] by (simp add: less_eq_action_def)

lemma context_le_demo:
  "context_le (demo_ctx ''ask'' []) (demo_ctx ''ask'' [demo_rule ''deny'' ''read_file'' ''a''])"
  by code_simp

theorem decide_monotone_witness:
  "d_action (decide (Request (JStr ''read_file'') (JObj [(''path'', JStr ''a'')]) (JStr ''R0''))
       (Some (demo_ctx ''ask'' [])))
   \<le> d_action (decide (Request (JStr ''read_file'') (JObj [(''path'', JStr ''a'')]) (JStr ''R1''))
       (Some (demo_ctx ''ask'' [demo_rule ''deny'' ''read_file'' ''a''])))"
  by (rule decide_monotone [OF context_le_demo]) code_simp

text \<open>C1: a shell command is allowed only by rules, part by part. If a call of a shell tool is
  allowed then the mode is not plan, the command parsed with certainty into at least one simple
  command, and every one of them has a program, is matched by an allow rule of \<open>bash\<close> read as a
  whole command (without a wildcard when an argument climbs with \<open>..\<close>), is matched by no deny and no
  ask rule in any of its forms, and only redirects to safe targets of the directory it runs in.\<close>

theorem shell_allow_is_by_rules:
  assumes "admitted request ctx spec kvs sr eff" and "ts_class spec = SHELL"
    and "d_action (decide request (Some ctx)) = Allow"
  shows "cx_mode ctx \<noteq> ''plan'' \<and>
    (\<exists>command. map_of kvs ''command'' = Some (JStr command) \<and> certain (parse (JStr command))
       \<and> pr_parts (parse (JStr command)) \<noteq> []
       \<and> (\<forall>(p, cwd) \<in> set (located (call_env ctx eff) (pr_parts (parse (JStr command))) (start_dir (call_env ctx eff))).
            allowed_part (call_env ctx eff) p cwd))"
proof -
  let ?e = "call_env ctx eff"
  obtain v where v: "dispatch ?e spec kvs = Some v" "decide request (Some ctx) = finalize v ctx (merged_of ctx) (Some eff)"
    by (rule decide_admitted [OF assms(1)])
  have allow: "v_action v = Allow" using assms(3) v(2) by (simp add: finalize_allow)
  have np: "cx_mode ctx \<noteq> ''plan''" using v(1) allow assms(2) by (auto simp: dispatch_def call_env_def)
  then have "decide_shell ?e kvs = Some v" using v(1) assms(2) by (simp add: dispatch_def call_env_def)
  from decide_shell_allow [OF this allow] obtain command where
    "map_of kvs ''command'' = Some (JStr command)" "certain (parse (JStr command))"
    "pr_parts (parse (JStr command)) \<noteq> []"
    and "\<forall>(p, cwd) \<in> set (located ?e (pr_parts (parse (JStr command))) (start_dir ?e)).
       v_action (part_verdict ?e p cwd) = Allow" .
  then show ?thesis using np part_verdict_allowed by blast
qed

lemma admitted_demo:
  "admitted (demo_bash ''ls -l'') (demo_ctx ''ask'' [demo_rule ''allow'' ''bash'' ''ls:*'']) (spec_named ''bash'')
     [(''command'', JStr ''ls -l'')] ''R2'' ''R2''"
  by code_simp

theorem shell_allow_is_by_rules_witness:
  "certain (parse (JStr ''ls -l''))"
proof -
  have "ts_class (spec_named ''bash'') = SHELL"
    and "d_action (decide (demo_bash ''ls -l'') (Some (demo_ctx ''ask'' [demo_rule ''allow'' ''bash'' ''ls:*'']))) = Allow"
    by code_simp+
  from shell_allow_is_by_rules [OF admitted_demo this] show ?thesis by simp
qed

text \<open>C2: a deny rule always wins in a shell command. If any simple command the parser finds is
  matched by a deny rule of an active layer in one of its forms (as written, with the base name of
  its program, with its assignments; flags in any order), the whole call is denied, whatever the mode,
  the other rules and the rest of the command.\<close>

theorem deny_rule_blocks_command:
  assumes "admitted request ctx spec kvs sr eff" and "ts_class spec = SHELL"
    and "map_of kvs ''command'' = Some (JStr command)"
    and "p \<in> set (pr_parts (parse (JStr command)))" and "p_argv p \<noteq> []"
    and "r \<in> set (mr_deny (merged_of ctx))" and "command_hits r (''bash'', looks p, True, False)"
  shows "d_action (decide request (Some ctx)) = Deny"
proof -
  let ?e = "call_env ctx eff"
  obtain v where v: "dispatch ?e spec kvs = Some v" "decide request (Some ctx) = finalize v ctx (merged_of ctx) (Some eff)"
    by (rule decide_admitted [OF assms(1)])
  have "v_action v = Deny"
  proof (cases "cx_mode ctx = ''plan'' \<or> strip command = []")
    case True
    then show ?thesis using v(1) assms(2,3) by (auto simp: dispatch_def call_env_def decide_shell_def split: if_splits)
  next
    case False
    then have w: "worst_of (result_verdicts ?e (parse (JStr command))) = Some v"
      using v(1) assms(2,3) by (simp add: dispatch_def call_env_def decide_shell_def)
    show ?thesis
      using denied_command_in_result [OF assms(4,5), of r ?e] assms(6,7) worst_of_deny [OF w]
      by (simp add: call_env_def)
  qed
  then show ?thesis using v(2) finalize_deny by simp
qed

theorem deny_rule_blocks_command_witness:
  "d_action (decide (demo_bash ''ls;/bin/curl x'')
     (Some (demo_ctx ''ask'' [demo_rule ''allow'' ''bash'' ''*'', demo_rule ''deny'' ''bash'' ''curl:*'']))) = Deny"
proof (rule deny_rule_blocks_command [where spec = "spec_named ''bash''" and sr = "''R2''" and eff = "''R2''"
      and kvs = "[(''command'', JStr ''ls;/bin/curl x'')]" and command = "''ls;/bin/curl x''"
      and p = "last (pr_parts (parse (JStr ''ls;/bin/curl x'')))" and r = "demo_rule ''deny'' ''bash'' ''curl:*''"])
  show "admitted (demo_bash ''ls;/bin/curl x'')
      (demo_ctx ''ask'' [demo_rule ''allow'' ''bash'' ''*'', demo_rule ''deny'' ''bash'' ''curl:*''])
      (spec_named ''bash'') [(''command'', JStr ''ls;/bin/curl x'')] ''R2'' ''R2''"
    by code_simp
qed code_simp+

text \<open>C7: plan mode is read-only. In plan mode every call of a tool that edits, deletes or runs a
  command is denied, for every request and every set of rules.\<close>

theorem plan_mode_is_read_only:
  assumes "cx_mode ctx = ''plan''" and "TOOLS t = Some spec" and "ts_class spec \<in> {EDIT, DELETE, SHELL}"
  shows "d_action (decide (Request (JStr t) inp risk) (Some ctx)) = Deny"
proof (cases "Request (JStr t) inp risk" ctx rule: decide_cases)
  case (ran spec' kvs sr eff v)
  then have "spec' = spec" using assms(2) by (auto simp: admitted_iff unpack_def)
  then have "v_action v = Deny"
    using ran(2) assms(1,3) plan_file_tool [of "call_env ctx eff" spec kvs v]
    by (auto simp: dispatch_def call_env_def)
  then show ?thesis using ran(3) finalize_deny by simp
qed simp

theorem plan_mode_is_read_only_witness:
  "d_action (decide (demo_bash ''ls'') (Some (demo_ctx ''plan'' [demo_rule ''allow'' ''bash'' ''ls'']))) = Deny"
proof -
  have "cx_mode (demo_ctx ''plan'' [demo_rule ''allow'' ''bash'' ''ls'']) = ''plan''"
    and "TOOLS ''bash'' = Some (spec_named ''bash'')" and "ts_class (spec_named ''bash'') \<in> {EDIT, DELETE, SHELL}"
    by code_simp+
  from plan_mode_is_read_only [OF this] show ?thesis unfolding demo_bash_def .
qed

text \<open>C9: an untrusted project cannot influence a decision. When the project is not trusted, replacing
  its settings layer by any other leaves the action of every decision unchanged.\<close>

theorem untrusted_project_is_ignored:
  assumes "cx_layers ctx = Some ls" and "\<not> cx_project_trusted ctx"
  shows "d_action (decide request (Some (ctx\<lparr>cx_layers := Some (ls\<lparr>rl_project := other\<rparr>)\<rparr>)))
       = d_action (decide request (Some ctx))"
  by (rule same_rules_same_action) (simp_all add: assms merged_of_def tighter_def merge_layers_fields)

theorem untrusted_project_is_ignored_witness:
  "d_action (decide (demo_bash ''ls'') (Some ((demo_ctx ''ask'' [])\<lparr>cx_layers :=
      Some (empty_layers\<lparr>rl_project := invalid_rule_set ''x''\<rparr>)\<rparr>)))
   = d_action (decide (demo_bash ''ls'') (Some (demo_ctx ''ask'' [])))"
proof -
  have "cx_layers (demo_ctx ''ask'' []) = Some empty_layers" "\<not> cx_project_trusted (demo_ctx ''ask'' [])"
    by code_simp+
  from untrusted_project_is_ignored [OF this] show ?thesis .
qed

text \<open>A non-interactive run is never left with a question: the decision is allow or deny.\<close>

theorem non_interactive_never_asks:
  assumes "cx_non_interactive ctx"
  shows "d_action (decide request (Some ctx)) \<noteq> Ask"
  by (cases request ctx rule: decide_cases) (use assms finalize_ask in auto)

theorem non_interactive_never_asks_witness:
  "d_action (decide (demo_bash ''ls'') (Some ((demo_ctx ''ask'' [])\<lparr>cx_non_interactive := True\<rparr>))) \<noteq> Ask"
  by (rule non_interactive_never_asks) code_simp

text \<open>every allow is explained. An allowed call names its basis: a rule, whose label is that of a
  rule in the model's format, or the permission mode with no rule; every settings layer was read
  safely; and the risk it carries is a known level at least as high as the server's. Any other
  decision has no basis.\<close>

theorem allow_is_explained:
  "if d_action (decide request (Some ctx)) = Allow
   then (d_basis (decide request (Some ctx)) = Some ''mode'' \<and> d_matched_rule (decide request (Some ctx)) = None
         \<or> d_basis (decide request (Some ctx)) = Some ''rule''
           \<and> (\<exists>r. d_matched_rule (decide request (Some ctx)) = Some (rule_label r)))
        \<and> \<not> mr_invalid (merged_of ctx)
        \<and> (\<exists>tool inp sr eff. unpack request = Some (tool, inp, JStr sr)
              \<and> d_risk (decide request (Some ctx)) = Some eff \<and> risk_at_most sr eff)
   else d_basis (decide request (Some ctx)) = None"
proof (cases request ctx rule: decide_cases)
  case (ran spec kvs sr eff v)
  have ex: "explained v" using ran(2) by (rule explained_dispatch)
  obtain t where t: "unpack request = Some (JStr t, JObj kvs, JStr sr)" "TOOLS t = Some spec" "sr \<in> set RISKS"
    "max_risk sr (client_risk spec (call_outside ctx spec kvs (clean_abs (cx_project_root ctx)))) = Some eff"
    using ran(1) by (auto simp: admitted_iff)
  then have "risk_at_most sr eff"
    using admitted_risk ran(1) by blast
  then show ?thesis
    using ran(3) t(1) ex finalize_allow_fields [of v ctx "merged_of ctx" "Some eff"]
      finalize_basis [of v ctx "merged_of ctx" "Some eff"]
    by (auto simp: finalize_allow explained_def)
qed simp

text \<open>C4: what an allowed file call has gone through. If a file tool is allowed, its path argument
  normalises to a path inside the project that is not a secret, is not protected and not in plan mode
  when the tool changes files, is not the whole project when it deletes; no deny and no ask rule
  matches it; and an allow rule matches its normalised forms or the mode's default allows it at the
  effective risk.\<close>

theorem file_allow_is_confined:
  assumes "admitted request ctx spec kvs sr eff" and "ts_class spec \<in> {READ, EDIT, DELETE}"
    and "d_action (decide request (Some ctx)) = Allow"
  shows "\<exists>raw np. path_argument (ts_name spec) kvs = Some raw
    \<and> norm (call_env ctx eff) raw (start_dir (call_env ctx eff)) = Some np
    \<and> np_inside np \<and> \<not> is_secret_path np
    \<and> (ts_class spec \<in> {EDIT, DELETE} \<longrightarrow> \<not> is_protected_path np \<and> cx_mode ctx \<noteq> ''plan'')
    \<and> \<not> (ts_class spec = DELETE \<and> np_rel np = Some ''.'')
    \<and> first_path_match (mr_deny (merged_of ctx)) [ts_name spec] np (cx_home ctx) True = None
    \<and> first_path_match (mr_ask (merged_of ctx)) [ts_name spec] np (cx_home ctx) True = None
    \<and> (first_path_match (mr_allow (merged_of ctx)) [ts_name spec] np (cx_home ctx) False \<noteq> None
       \<or> md_action (mode_default (cx_mode ctx) (ts_class spec) eff True False) = Allow)"
proof -
  let ?e = "call_env ctx eff"
  have e: "e_ctx ?e = ctx" "e_merged ?e = merged_of ctx" "e_eff ?e = eff" by (simp_all add: call_env_def)
  obtain v where v: "dispatch ?e spec kvs = Some v" "decide request (Some ctx) = finalize v ctx (merged_of ctx) (Some eff)"
    by (rule decide_admitted [OF assms(1)])
  have a: "v_action v = Allow" using assms(3) v(2) by (simp add: finalize_allow)
  have "decide_file_tool ?e spec kvs = Some v"
    using v(1) assms(2) by (auto simp: dispatch_def)
  from file_tool_allow [OF this a] obtain raw np where "path_argument (ts_name spec) kvs = Some raw"
    "norm ?e raw (start_dir ?e) = Some np"
    "v_action (path_verdict ?e [ts_name spec] (ts_class spec) np) = Allow" .
  then show ?thesis unfolding path_verdict_allow_iff e by blast
qed

theorem file_allow_is_confined_witness:
  "\<exists>np. norm (call_env (demo_ctx ''plan'' []) ''R0'') (JStr ''a/../b'') (Some ''/p'') = Some np
     \<and> np_inside np \<and> \<not> is_secret_path np"
proof -
  have "admitted (demo_read ''a/../b'') (demo_ctx ''plan'' []) (spec_named ''read_file'')
      [(''path'', JStr ''a/../b'')] ''R0'' ''R0''"
    and "ts_class (spec_named ''read_file'') \<in> {READ, EDIT, DELETE}"
    and "d_action (decide (demo_read ''a/../b'') (Some (demo_ctx ''plan'' []))) = Allow"
    by code_simp+
  note * = file_allow_is_confined [OF this]
  have "path_argument (ts_name (spec_named ''read_file'')) [(''path'', JStr ''a/../b'')] = Some (JStr ''a/../b'')"
    and "start_dir (call_env (demo_ctx ''plan'' []) ''R0'') = Some ''/p''"
    by code_simp+
  with * show ?thesis by (metis option.inject)
qed

text \<open>C5: secrets are unreadable through the file tools. If the path argument of a file tool
  normalises to a path of the secrets denylist the call is denied, in every mode, under every rule
  and at every risk.\<close>

theorem secret_path_is_denied:
  assumes "admitted request ctx spec kvs sr eff" and "ts_class spec \<in> {READ, EDIT, DELETE}"
    and "path_argument (ts_name spec) kvs = Some raw"
    and "norm (call_env ctx eff) raw (start_dir (call_env ctx eff)) = Some np" and "is_secret_path np"
  shows "d_action (decide request (Some ctx)) = Deny"
proof -
  let ?e = "call_env ctx eff"
  obtain v where v: "dispatch ?e spec kvs = Some v" "decide request (Some ctx) = finalize v ctx (merged_of ctx) (Some eff)"
    by (rule decide_admitted [OF assms(1)])
  moreover have "decide_file_tool ?e spec kvs = Some v" using v(1) assms(2) by (auto simp: dispatch_def)
  ultimately show ?thesis
    using file_tool_path_in [OF _ assms(3,4) path_verdict_secret [OF assms(5)]] finalize_deny by simp
qed

theorem secret_path_is_denied_witness:
  "d_action (decide (demo_read ''x/../.ENV'') (Some (demo_ctx ''ask'' [demo_rule ''allow'' ''read_file'' ''*'']))) = Deny"
proof -
  let ?c = "demo_ctx ''ask'' [demo_rule ''allow'' ''read_file'' ''*'']"
  have "admitted (demo_read ''x/../.ENV'') ?c (spec_named ''read_file'') [(''path'', JStr ''x/../.ENV'')] ''R0'' ''R0''"
    and "ts_class (spec_named ''read_file'') \<in> {READ, EDIT, DELETE}"
    and "path_argument (ts_name (spec_named ''read_file'')) [(''path'', JStr ''x/../.ENV'')] = Some (JStr ''x/../.ENV'')"
    and "norm (call_env ?c ''R0'') (JStr ''x/../.ENV'') (start_dir (call_env ?c ''R0''))
       = Some \<lparr>np_raw = ''x/../.ENV'', np_abs = ''/p/.ENV'', np_rel = Some ''.ENV''\<rparr>"
    and "is_secret_path \<lparr>np_raw = ''x/../.ENV'', np_abs = ''/p/.ENV'', np_rel = Some ''.ENV''\<rparr>"
    by code_simp+
  then show ?thesis by (rule secret_path_is_denied)
qed

text \<open>\<open>_script_words\<close> takes the first word of a sed that does not start with \<open>-\<close> for its script, and
  \<open>_hidden_code\<close> stops reading options there; sed itself reads the options after it as well. So with
  an allow rule for sed a script file named after a word runs unasked, and the word, which is then a
  file that sed reads, is not compared with the denylist. The long form \<open>--include\<close> of gawk's \<open>-i\<close> is
  not among the options \<open>_hidden_code\<close> asks about.\<close>

lemma sed_script_file_after_a_word_is_allowed:
  "d_action (decide (demo_bash ''sed /p/id_rsa -f a.sed'') (Some (demo_ctx ''ask'' [demo_rule ''allow'' ''bash'' ''sed:*'']))) = Allow"
  by code_simp

lemma gawk_include_is_allowed:
  "d_action (decide (demo_bash ''gawk --include /p/id_rsa 1 x'') (Some (demo_ctx ''ask'' [demo_rule ''allow'' ''bash'' ''gawk:*'']))) = Allow"
  by code_simp



text \<open>leaving plan mode is never allowed automatically: whatever the rules and the mode, the
  decision on \<open>plan_exit\<close> is to ask or to deny.\<close>

theorem plan_exit_is_never_allowed:
  "d_action (decide (Request (JStr ''plan_exit'') inp risk) context) \<noteq> Allow"
proof
  assume a: "d_action (decide (Request (JStr ''plan_exit'') inp risk) context) = Allow"
  from decide_allowE [OF a] obtain ctx spec kvs sr eff v
    where adm: "admitted (Request (JStr ''plan_exit'') inp risk) ctx spec kvs sr eff"
      and v: "dispatch (call_env ctx eff) spec kvs = Some v" "v_action v = Allow" by metis
  have "TOOLS ''plan_exit'' = Some spec" using adm by (auto simp: admitted_iff unpack_def)
  moreover have "map_option ts_class (TOOLS ''plan_exit'') = Some PLAN_EXIT" by code_simp
  ultimately have "ts_class spec = PLAN_EXIT" by simp
  then show False using v explained_plan_exit by (auto simp: dispatch_def)
qed

text \<open>C8: what a mode allows by itself. An allow whose basis is the mode is for a reading tool at
  server risk R0, or for an editing tool in accept-edits mode at server risk at most R1: a mode never
  allows a command, a deletion, or anything the server rates higher.\<close>

theorem mode_allows_only_low_risk:
  assumes "admitted request ctx spec kvs sr eff" and "d_action (decide request (Some ctx)) = Allow"
    and "d_basis (decide request (Some ctx)) = Some ''mode''"
  shows "ts_class spec = READ \<and> sr = ''R0''
    \<or> ts_class spec = EDIT \<and> cx_mode ctx = ''accept-edits'' \<and> risk_at_most sr ''R1''"
proof -
  let ?e = "call_env ctx eff"
  obtain v where v: "dispatch ?e spec kvs = Some v" "decide request (Some ctx) = finalize v ctx (merged_of ctx) (Some eff)"
    by (rule decide_admitted [OF assms(1)])
  have a: "v_action v = Allow" "v_basis v = Some ''mode''"
    using assms(2,3) v(2) finalize_allow_fields [of v ctx "merged_of ctx" "Some eff"] by (simp_all add: finalize_allow)
  have le: "risk_at_most sr eff" using admitted_risk [OF assms(1)] .
  have "ts_class spec = READ \<and> risk_at_most eff ''R0''
    \<or> ts_class spec = EDIT \<and> cx_mode ctx = ''accept-edits'' \<and> risk_at_most eff ''R1''"
    using mode_basis_dispatch [OF v(1) a] admitted_class [OF assms(1)] by (simp add: call_env_def)
  then show ?thesis using le risk_at_most_trans risk_at_most_R0 by blast
qed

theorem mode_allows_only_low_risk_witness:
  "risk_at_most ''R1'' ''R1'' \<and> is_valid_mode ''accept-edits''"
proof -
  let ?r = "Request (JStr ''write_file'') (JObj [(''path'', JStr ''a''), (''content'', JStr [])]) (JStr ''R1'')"
  have "admitted ?r (demo_ctx ''accept-edits'' []) (spec_named ''write_file'')
      [(''path'', JStr ''a''), (''content'', JStr [])] ''R1'' ''R1''"
    and "d_action (decide ?r (Some (demo_ctx ''accept-edits'' []))) = Allow"
    and "d_basis (decide ?r (Some (demo_ctx ''accept-edits'' []))) = Some ''mode''"
    by code_simp+
  from mode_allows_only_low_risk [OF this] show ?thesis
    by (auto simp: is_valid_mode_def MODES_def)
qed

end
